(* ===== verification/RenaPrelude.thy ===== *)
theory RenaPrelude
  imports Main "HOL-Library.Monad_Syntax"
begin

text \<open>
  Shared vocabulary of the development: the C characters and strings the proxy
  computes with, the functions of the C library it calls on them, and generic
  facts on lists.  A C string is a \<^typ>\<open>string\<close> without its closing NUL byte; a
  byte array that need not be closed by NUL is a \<^typ>\<open>string\<close> too, and the
  places where the code relies on the closing NUL say so.

  Functions that may call \<^verbatim>\<open>abort()\<close> or run into undefined behaviour (a NULL
  dereference, an access out of bounds, a use after free) return an option whose
  \<^const>\<open>None\<close> is that crash; error codes of the C functions are ordinary results.
\<close>

named_theorems heap_simps \<open>rewrite rules for heaps and linked structures\<close>
named_theorems ring_simps \<open>rewrite rules for ring buffers\<close>
named_theorems buf_simps \<open>rewrite rules for byte buffers\<close>

type_synonym addr = nat
type_synonym ptr = "addr option"

section \<open>Characters\<close>

abbreviation NUL :: char where "NUL \<equiv> CHR 0x00"
abbreviation TAB :: char where "TAB \<equiv> CHR 0x09"
abbreviation LF :: char where "LF \<equiv> CHR 0x0A"
abbreviation VT :: char where "VT \<equiv> CHR 0x0B"
abbreviation FF :: char where "FF \<equiv> CHR 0x0C"
abbreviation CR :: char where "CR \<equiv> CHR 0x0D"
abbreviation SPACE :: char where "SPACE \<equiv> CHR 0x20"
abbreviation BACKSLASH :: char where "BACKSLASH \<equiv> CHR 0x5C"
abbreviation DQUOTE :: char where "DQUOTE \<equiv> CHR 0x22"
abbreviation SQUOTE :: char where "SQUOTE \<equiv> CHR 0x27"

text \<open>The plain \<^verbatim>\<open>char\<close> of the target compilers (gcc on x86-64) is signed.\<close>

definition schar :: "char \<Rightarrow> int" where
  "schar c = (let n = (of_char c :: int) in if n < 128 then n else n - 256)"

text \<open>\<^verbatim>\<open>tolower\<close> and \<^verbatim>\<open>toupper\<close> in the C locale (the program never calls
  \<^verbatim>\<open>setlocale\<close>).\<close>

definition c_tolower :: "char \<Rightarrow> char" where
  "c_tolower c = (let n = (of_char c :: nat)
     in if 65 \<le> n \<and> n \<le> 90 then char_of (n + 32) else c)"

definition c_toupper :: "char \<Rightarrow> char" where
  "c_toupper c = (let n = (of_char c :: nat)
     in if 97 \<le> n \<and> n \<le> 122 then char_of (n - 32) else c)"

abbreviation lower :: "string \<Rightarrow> string" where
  "lower s \<equiv> map c_tolower s"

lemma of_char_bounds: "0 \<le> (of_char c :: int)" "(of_char c :: int) < 256"
proof -
  show "0 \<le> (of_char c :: int)" by (cases c) simp
  show "(of_char c :: int) < 256"
    using nat_of_char_less_256 [of c] by (metis of_nat_of_char of_nat_less_numeral_iff)
qed

lemma schar_inject [simp]: "schar c = schar d \<longleftrightarrow> c = d"
  using of_char_bounds [of c] of_char_bounds [of d]
  by (auto simp: schar_def Let_def split: if_splits)

text \<open>Evaluation of the case maps on character literals.\<close>

lemma c_tolower_Char [simp]:
  "c_tolower (Char b0 b1 b2 b3 b4 b5 b6 b7) =
   (if b6 \<and> \<not> b5 \<and> \<not> b7 \<and> (b0 \<or> b1 \<or> b2 \<or> b3 \<or> b4) \<and> \<not> (b4 \<and> b3 \<and> (b2 \<or> (b1 \<and> b0)))
    then Char b0 b1 b2 b3 b4 True b6 b7 else Char b0 b1 b2 b3 b4 b5 b6 b7)"
  by (cases b0; cases b1; cases b2; cases b3; cases b4; cases b5; cases b6; cases b7;
      simp add: c_tolower_def Let_def char_of_def bit_0)

lemma c_toupper_Char [simp]:
  "c_toupper (Char b0 b1 b2 b3 b4 b5 b6 b7) =
   (if b6 \<and> b5 \<and> \<not> b7 \<and> (b0 \<or> b1 \<or> b2 \<or> b3 \<or> b4) \<and> \<not> (b4 \<and> b3 \<and> (b2 \<or> (b1 \<and> b0)))
    then Char b0 b1 b2 b3 b4 False b6 b7 else Char b0 b1 b2 b3 b4 b5 b6 b7)"
  by (cases b0; cases b1; cases b2; cases b3; cases b4; cases b5; cases b6; cases b7;
      simp add: c_toupper_def Let_def char_of_def bit_0)

lemma c_tolower_idem [simp]: "c_tolower (c_tolower c) = c_tolower c"
  by (cases c) (simp split: if_splits)

lemma lower_idem [simp]: "lower (lower s) = lower s"
  by (induction s) simp_all

section \<open>The C library on strings\<close>

text \<open>\<^verbatim>\<open>strchr\<close>: the offset of the first occurrence; the closing NUL counts.\<close>

fun strchr :: "string \<Rightarrow> char \<Rightarrow> nat option" where
  "strchr [] c = (if c = NUL then Some 0 else None)"
| "strchr (x # xs) c = (if x = c then Some 0 else map_option Suc (strchr xs c))"

text \<open>The idiom \<^verbatim>\<open>(found = strchr(s, c)) && *found != '\0'\<close>.\<close>

definition strchr_found :: "string \<Rightarrow> char \<Rightarrow> bool" where
  "strchr_found s c = (case strchr s c of None \<Rightarrow> False | Some i \<Rightarrow> i < length s)"

lemma strchr_SomeD: "strchr s c = Some i \<Longrightarrow> i \<le> length s \<and> (i < length s \<longrightarrow> s ! i = c)"
  by (induction s arbitrary: i) (auto split: if_splits)

lemma strchr_found_iff [simp]: "strchr_found s c \<longleftrightarrow> c \<in> set s"
  unfolding strchr_found_def
  by (induction s) (auto split: option.splits)

lemma strchr_None [simp]: "strchr s c = None \<longleftrightarrow> c \<notin> set s \<and> c \<noteq> NUL"
  by (induction s) auto

lemma strchr_split:
  "c \<notin> set s \<Longrightarrow> strchr (s @ c # t) c = Some (length s)"
  by (induction s) auto

text \<open>\<^verbatim>\<open>strncasecmp(a, b, n) == 0\<close> and \<^verbatim>\<open>strcasestr(hay, needle) != NULL\<close>.\<close>

definition strncasecmp_eq :: "string \<Rightarrow> string \<Rightarrow> nat \<Rightarrow> bool" where
  "strncasecmp_eq a b n \<longleftrightarrow> lower (take n a) = lower (take n b)"

fun strcasestr :: "string \<Rightarrow> string \<Rightarrow> bool" where
  "strcasestr [] needle = (needle = [])"
| "strcasestr (x # xs) needle =
     (lower (take (length needle) (x # xs)) = lower needle \<or> strcasestr xs needle)"

text \<open>What \<^verbatim>\<open>snprintf(dst, n, ...)\<close> leaves in \<^verbatim>\<open>dst\<close>.\<close>

definition snprintf_to :: "nat \<Rightarrow> string \<Rightarrow> string" where
  "snprintf_to n s = take (n - 1) s"

lemma snprintf_to_fits [simp]: "length s < n \<Longrightarrow> snprintf_to n s = s"
  by (simp add: snprintf_to_def)

lemma snprintf_to_length: "0 < n \<Longrightarrow> length (snprintf_to n s) < n"
  by (simp add: snprintf_to_def)

text \<open>The C string that starts at the beginning of a byte array: up to its NUL byte.\<close>

definition cstr_of :: "string \<Rightarrow> string" where
  "cstr_of bytes = takeWhile (\<lambda>c. c \<noteq> NUL) bytes"

lemma cstr_of_no_NUL [simp]: "NUL \<notin> set (cstr_of s)"
  using set_takeWhileD [of NUL "\<lambda>c. c \<noteq> NUL" s] by (auto simp: cstr_of_def)

lemma cstr_of_id [simp]: "NUL \<notin> set s \<Longrightarrow> cstr_of s = s"
  by (auto simp: cstr_of_def takeWhile_eq_all_conv)

section \<open>Numbers\<close>

text \<open>Reduction to a 32-bit signed integer, as the conversion of a \<^verbatim>\<open>long\<close> to \<^verbatim>\<open>int\<close>
  does on the target.\<close>

definition wrap32 :: "int \<Rightarrow> int" where
  "wrap32 x = (x + 2 ^ 31) mod 2 ^ 32 - 2 ^ 31"

lemma wrap32_id: "- (2 ^ 31) \<le> x \<Longrightarrow> x < 2 ^ 31 \<Longrightarrow> wrap32 x = x"
  by (simp add: wrap32_def mod_pos_pos_trivial)

lemma wrap32_range: "- (2 ^ 31) \<le> wrap32 x \<and> wrap32 x < 2 ^ 31"
proof -
  have "0 \<le> (x + 2 ^ 31) mod 2 ^ 32" "(x + 2 ^ 31) mod 2 ^ 32 < (2 ^ 32 :: int)"
    by simp_all
  then show ?thesis by (simp add: wrap32_def)
qed

definition is_space :: "char \<Rightarrow> bool" where
  "is_space c \<longleftrightarrow> c \<in> {SPACE, TAB, LF, VT, FF, CR}"

definition is_digit :: "char \<Rightarrow> bool" where
  "is_digit c \<longleftrightarrow> 48 \<le> (of_char c :: nat) \<and> (of_char c :: nat) \<le> 57"

definition digit_val :: "char \<Rightarrow> int" where
  "digit_val c = of_char c - 48"

fun read_digits :: "int \<Rightarrow> string \<Rightarrow> int" where
  "read_digits acc [] = acc"
| "read_digits acc (c # cs) =
     (if is_digit c then read_digits (10 * acc + digit_val c) cs else acc)"

text \<open>\<^verbatim>\<open>strtol(s, NULL, 10)\<close>: the value clipped to a 64-bit \<^verbatim>\<open>long\<close>, and whether
  \<^verbatim>\<open>errno\<close> became \<^verbatim>\<open>ERANGE\<close>.  glibc's \<^verbatim>\<open>atoi\<close> is its conversion to \<^verbatim>\<open>int\<close>.\<close>

definition strtol10 :: "string \<Rightarrow> int \<times> bool" where
  "strtol10 s =
    (let t = dropWhile is_space s;
         v = (case t of
                [] \<Rightarrow> 0
              | c # cs \<Rightarrow> if c = CHR ''-'' then - read_digits 0 cs
                         else if c = CHR ''+'' then read_digits 0 cs
                         else read_digits 0 t)
     in if v < - (2 ^ 63) then (- (2 ^ 63), True)
        else if v \<ge> 2 ^ 63 then (2 ^ 63 - 1, True)
        else (v, False))"

definition atoi :: "string \<Rightarrow> int \<times> bool" where
  "atoi s = (case strtol10 s of (v, erange) \<Rightarrow> (wrap32 v, erange))"

lemma atoi_range: "atoi s = (v, e) \<Longrightarrow> - (2 ^ 31) \<le> v \<and> v < 2 ^ 31"
  unfolding atoi_def using wrap32_range by (auto split: prod.splits)

end
