(* ===== verification/Tree.thy ===== *)
theory Tree
  imports RenaPrelude
begin

text \<open>
  The rule tree of \<^verbatim>\<open>rena/src/tree.c\<close>: a trie whose nodes are C structs linked by
  \<^verbatim>\<open>next_child\<close> and \<^verbatim>\<open>next_sibling\<close> pointers.  The model keeps the pointers: a heap maps
  addresses to nodes, every operation dereferences and updates it as the code does, and
  a dereference of an unallocated address is the crash \<^const>\<open>None\<close>.  The second half of
  the theory relates a heap to the abstract rule map it represents.
\<close>

section \<open>Nodes, heap, operations\<close>

record tree_node =
  tn_value :: char
  next_child :: ptr
  next_sibling :: ptr
  adapted :: "string option"

record tree_heap =
  nodes :: "addr \<rightharpoonup> tree_node"
  brk :: addr

definition empty_heap :: tree_heap where
  "empty_heap = \<lparr>nodes = Map.empty, brk = 0\<rparr>"

definition tree_deref :: "tree_heap \<Rightarrow> addr \<Rightarrow> tree_node option" where
  "tree_deref h p = nodes h p"

definition tree_store :: "tree_heap \<Rightarrow> addr \<Rightarrow> (tree_node \<Rightarrow> tree_node) \<Rightarrow> tree_heap option" where
  "tree_store h p f =
     (case nodes h p of None \<Rightarrow> None | Some n \<Rightarrow> Some (h\<lparr>nodes := (nodes h)(p \<mapsto> f n)\<rparr>))"

text \<open>\<^verbatim>\<open>calloc\<close> does not fail here: the code does not test its result, and every
  statement about the tree is about runs in which memory suffices.\<close>

definition tree_create_node :: "tree_heap \<Rightarrow> char \<Rightarrow> addr \<times> tree_heap" where
  "tree_create_node h val =
     (brk h, h\<lparr>nodes := (nodes h)(brk h \<mapsto>
        \<lparr>tn_value = val, next_child = None, next_sibling = None, adapted = None\<rparr>),
      brk := Suc (brk h)\<rparr>)"

text \<open>The loop of \<^verbatim>\<open>tree_get_sibling2\<close>; it returns \<^verbatim>\<open>prev\<close>, \<^verbatim>\<open>n\<close> and whether it
  left by the \<^verbatim>\<open>return\<close> inside.  A cyclic sibling list would not return.\<close>

partial_function (option) tree_get_sibling2_loop ::
  "tree_heap \<Rightarrow> ptr \<Rightarrow> ptr \<Rightarrow> char \<Rightarrow> (ptr \<times> ptr \<times> bool) option" where [code]:
  "tree_get_sibling2_loop h prev n v =
     (case n of
        None \<Rightarrow> Some (prev, None, False)
      | Some p \<Rightarrow> do {
          nd \<leftarrow> tree_deref h p;
          if schar v < schar (tn_value nd) then Some (prev, Some p, False)
          else if tn_value nd = v then Some (prev, Some p, True)
          else tree_get_sibling2_loop h (Some p) (next_sibling nd) v
        })"

definition tree_get_sibling2 ::
  "tree_heap \<Rightarrow> ptr \<Rightarrow> char \<Rightarrow> nat \<Rightarrow> (ptr \<times> bool) option" where
  "tree_get_sibling2 h n val previous_too = do {
     (prev, m, exact) \<leftarrow> tree_get_sibling2_loop h None n (c_tolower val);
     if exact then Some ((if previous_too = 0 then m else prev), True)
     else Some ((if previous_too = 0 then None else prev), False)
   }"

definition tree_get_sibling :: "tree_heap \<Rightarrow> ptr \<Rightarrow> char \<Rightarrow> ptr option" where
  "tree_get_sibling h n val = do { (r, _) \<leftarrow> tree_get_sibling2 h n val 0; Some r }"

definition tree_get_child :: "tree_heap \<Rightarrow> ptr \<Rightarrow> char \<Rightarrow> ptr option" where
  "tree_get_child h n val =
     (case n of
        None \<Rightarrow> Some None
      | Some p \<Rightarrow> do { nd \<leftarrow> tree_deref h p; tree_get_sibling h (next_child nd) val })"

definition tree_add_sibling :: "tree_heap \<Rightarrow> ptr \<Rightarrow> char \<Rightarrow> (ptr \<times> tree_heap) option" where
  "tree_add_sibling h n val = do {
     (previous, exact) \<leftarrow> tree_get_sibling2 h n val 1;
     if exact then
       (case previous of
          None \<Rightarrow> Some (n, h)
        | Some p \<Rightarrow> do { nd \<leftarrow> tree_deref h p; Some (next_sibling nd, h) })
     else
       (let (aux, h) = tree_create_node h val in
        case previous of
          None \<Rightarrow> do {
            h \<leftarrow> tree_store h aux (\<lambda>nd. nd\<lparr>next_sibling := n\<rparr>);
            Some (Some aux, h) }
        | Some p \<Rightarrow> do {
            nd \<leftarrow> tree_deref h p;
            h \<leftarrow> tree_store h aux (\<lambda>x. x\<lparr>next_sibling := next_sibling nd\<rparr>);
            h \<leftarrow> tree_store h p (\<lambda>x. x\<lparr>next_sibling := Some aux\<rparr>);
            Some (Some aux, h) })
   }"

definition tree_add_child :: "tree_heap \<Rightarrow> ptr \<Rightarrow> char \<Rightarrow> (ptr \<times> tree_heap) option" where
  "tree_add_child h n val =
     (case n of
        None \<Rightarrow> tree_add_sibling h n val
      | Some p \<Rightarrow> do {
          nd \<leftarrow> tree_deref h p;
          case next_child nd of
            None \<Rightarrow>
              (let (aux, h) = tree_create_node h val in do {
                 h \<leftarrow> tree_store h p (\<lambda>x. x\<lparr>next_child := Some aux\<rparr>);
                 Some (Some aux, h) })
          | Some q \<Rightarrow> do {
              c \<leftarrow> tree_deref h q;
              if schar (c_tolower val) < schar (tn_value c) then
                (let (aux, h) = tree_create_node h val in do {
                   h \<leftarrow> tree_store h aux (\<lambda>x. x\<lparr>next_sibling := Some q\<rparr>);
                   h \<leftarrow> tree_store h p (\<lambda>x. x\<lparr>next_child := Some aux\<rparr>);
                   Some (Some aux, h) })
              else tree_add_sibling h (Some q) val }
        })"

text \<open>The \<^verbatim>\<open>for\<close> loop of \<^verbatim>\<open>tree_insert\<close> over the characters \<^verbatim>\<open>v[1]\<close> to
  \<^verbatim>\<open>v[len - 1]\<close>.\<close>

fun tree_insert_loop :: "tree_heap \<Rightarrow> ptr \<Rightarrow> string \<Rightarrow> (ptr \<times> tree_heap) option" where
  "tree_insert_loop h aux [] = Some (aux, h)"
| "tree_insert_loop h aux (c # cs) = do {
     (aux, h) \<leftarrow> tree_add_child h aux c;
     tree_insert_loop h aux cs }"

text \<open>The tail of \<^verbatim>\<open>tree_insert\<close>: the first rule for a phrase wins; a missing
  \<^verbatim>\<open>adapted\<close> is stored as the empty string.\<close>

definition tree_set_adapted :: "tree_heap \<Rightarrow> ptr \<Rightarrow> string option \<Rightarrow> tree_heap option" where
  "tree_set_adapted h aux ad = do {
     p \<leftarrow> aux;
     nd \<leftarrow> tree_deref h p;
     if adapted nd \<noteq> None then Some h
     else tree_store h p (\<lambda>x. x\<lparr>adapted := Some (case ad of None \<Rightarrow> [] | Some s \<Rightarrow> s)\<rparr>) }"

text \<open>\<^verbatim>\<open>v[0]\<close> of the empty string is its closing NUL.\<close>

definition tree_insert ::
  "tree_heap \<Rightarrow> ptr \<Rightarrow> string \<Rightarrow> nat \<Rightarrow> string option \<Rightarrow> (ptr \<times> tree_heap) option" where
  "tree_insert h root v len ad = do {
     (aux, h) \<leftarrow> tree_add_sibling h root (case v of [] \<Rightarrow> NUL | c # _ \<Rightarrow> c);
     p \<leftarrow> aux;
     nd \<leftarrow> tree_deref h p;
     root' \<leftarrow> (case root of
                None \<Rightarrow> Some aux
              | Some r \<Rightarrow> do {
                  rn \<leftarrow> tree_deref h r;
                  Some (if schar (tn_value nd) < schar (tn_value rn) then aux else root) });
     (aux, h) \<leftarrow> tree_insert_loop h aux (tl (take len v));
     h \<leftarrow> tree_set_adapted h aux ad;
     Some (root', h) }"

partial_function (option) tree_destroy :: "tree_heap \<Rightarrow> ptr \<Rightarrow> tree_heap option" where [code]:
  "tree_destroy h node =
     (case node of
        None \<Rightarrow> Some h
      | Some p \<Rightarrow> do {
          nd \<leftarrow> tree_deref h p;
          h \<leftarrow> tree_destroy h (next_child nd);
          h \<leftarrow> tree_store h p (\<lambda>x. x\<lparr>next_child := None\<rparr>);
          nd \<leftarrow> tree_deref h p;
          h \<leftarrow> tree_destroy h (next_sibling nd);
          h \<leftarrow> tree_store h p (\<lambda>x. x\<lparr>next_sibling := None, adapted := None\<rparr>);
          Some (h\<lparr>nodes := (nodes h)(p := None)\<rparr>)
        })"

partial_function (option) tree_depth :: "tree_heap \<Rightarrow> ptr \<Rightarrow> nat \<Rightarrow> nat option" where [code]:
  "tree_depth h root actual =
     (case root of
        None \<Rightarrow> Some actual
      | Some p \<Rightarrow> do {
          nd \<leftarrow> tree_deref h p;
          s \<leftarrow> tree_depth h (next_sibling nd) actual;
          c \<leftarrow> tree_depth h (next_child nd) (actual + 1);
          let s = (if c > s then c else s) in
          Some (if s > actual then s else actual)
        })"

text \<open>\<^verbatim>\<open>phrase[i] = c\<close> in a buffer: writing past its end is the crash.\<close>

definition buf_put :: "string \<Rightarrow> nat \<Rightarrow> char \<Rightarrow> string option" where
  "buf_put buf i c = (if i < length buf then Some (buf[i := c]) else None)"

text \<open>\<^verbatim>\<open>tree_dump2\<close> returns the buffer and the pairs it logs, in order.\<close>

partial_function (option) tree_dump2 ::
  "tree_heap \<Rightarrow> ptr \<Rightarrow> string \<Rightarrow> nat \<Rightarrow> (string \<times> (string \<times> string) list) option" where [code]:
  "tree_dump2 h root phrase pos =
     (case root of
        None \<Rightarrow> Some (phrase, [])
      | Some p \<Rightarrow> do {
          nd \<leftarrow> tree_deref h p;
          phrase \<leftarrow> buf_put phrase pos (tn_value nd);
          (phrase, l1) \<leftarrow> tree_dump2 h (next_child nd) phrase (pos + 1);
          let here = (case adapted nd of None \<Rightarrow> [] | Some s \<Rightarrow> [(cstr_of phrase, s)]);
          phrase \<leftarrow> buf_put phrase pos NUL;
          (phrase, l2) \<leftarrow> tree_dump2 h (next_sibling nd) phrase pos;
          Some (phrase, l1 @ here @ l2)
        })"

definition tree_dump :: "tree_heap \<Rightarrow> ptr \<Rightarrow> (string \<times> string) list option" where
  "tree_dump h root = do {
     depth \<leftarrow> tree_depth h root 1;
     (_, out) \<leftarrow> tree_dump2 h root (replicate (depth + 1) NUL) 0;
     Some out }"

section \<open>What a heap represents\<close>

text \<open>A sibling list with everything below it; every node carries its address.\<close>

datatype anode = AN (an_addr: addr) (an_val: char) (an_adapted: "string option")
  (an_kids: "anode list")

fun hd_ptr :: "anode list \<Rightarrow> ptr \<Rightarrow> ptr" where
  "hd_ptr [] nxt = nxt"
| "hd_ptr (t # ts) nxt = Some (an_addr t)"

fun addrs :: "anode list \<Rightarrow> addr list" where
  "addrs [] = []"
| "addrs (AN a v ad ch # ts) = a # addrs ch @ addrs ts"

text \<open>\<open>chain m ts nxt\<close>: the heap holds the sibling list \<open>ts\<close>, whose last node points
  to \<open>nxt\<close>.\<close>

fun chain :: "(addr \<rightharpoonup> tree_node) \<Rightarrow> anode list \<Rightarrow> ptr \<Rightarrow> bool" where
  "chain m [] nxt \<longleftrightarrow> True"
| "chain m (AN a v ad ch # ts) nxt \<longleftrightarrow>
     m a = Some \<lparr>tn_value = v, next_child = hd_ptr ch None,
                 next_sibling = hd_ptr ts nxt, adapted = ad\<rparr> \<and>
     chain m ch None \<and> chain m ts nxt"

text \<open>Siblings stand in strictly increasing order of their characters, all of them fixed
  points of \<^verbatim>\<open>tolower\<close>.\<close>

fun tree_sorted :: "anode list \<Rightarrow> bool" where
  "tree_sorted [] \<longleftrightarrow> True"
| "tree_sorted (AN a v ad ch # ts) \<longleftrightarrow>
     c_tolower v = v \<and> (\<forall>t \<in> set ts. schar v < schar (an_val t)) \<and>
     tree_sorted ch \<and> tree_sorted ts"

definition find_node :: "anode list \<Rightarrow> char \<Rightarrow> anode option" where
  "find_node ts c = find (\<lambda>t. an_val t = c) ts"

fun rule_of :: "anode list \<Rightarrow> string \<Rightarrow> string option" where
  "rule_of ts [] = None"
| "rule_of ts (c # cs) =
     (case find_node ts c of
        None \<Rightarrow> None
      | Some t \<Rightarrow> if cs = [] then an_adapted t else rule_of (an_kids t) cs)"

definition represents :: "tree_heap \<Rightarrow> ptr \<Rightarrow> anode list \<Rightarrow> bool" where
  "represents h root ts \<longleftrightarrow>
     root = hd_ptr ts None \<and> chain (nodes h) ts None \<and> distinct (addrs ts) \<and>
     tree_sorted ts \<and> (\<forall>a. brk h \<le> a \<longrightarrow> nodes h a = None)"

section \<open>Facts on chains\<close>

lemma hd_ptr_append [simp]: "hd_ptr (ys @ zs) nxt = hd_ptr ys (hd_ptr zs nxt)"
  by (cases ys) simp_all

lemma addrs_append [simp]: "addrs (ys @ zs) = addrs ys @ addrs zs"
  by (induction ys rule: addrs.induct) simp_all

lemma chain_append [simp]:
  "chain m (ys @ zs) nxt \<longleftrightarrow> chain m ys (hd_ptr zs nxt) \<and> chain m zs nxt"
  by (induction ys rule: addrs.induct) auto

lemma chain_dom: "chain m ts nxt \<Longrightarrow> a \<in> set (addrs ts) \<Longrightarrow> m a \<noteq> None"
  by (induction m ts nxt arbitrary: a rule: chain.induct) auto

lemma chain_cong:
  "(\<And>a. a \<in> set (addrs ts) \<Longrightarrow> m' a = m a) \<Longrightarrow> chain m' ts nxt = chain m ts nxt"
  by (induction m ts nxt rule: chain.induct) auto

lemma chain_upd_other [simp]:
  "a \<notin> set (addrs ts) \<Longrightarrow> chain (m(a := x)) ts nxt = chain m ts nxt"
  by (rule chain_cong) auto

lemma tree_sorted_append:
  "tree_sorted (ys @ zs) \<longleftrightarrow> tree_sorted ys \<and> tree_sorted zs \<and>
     (\<forall>y \<in> set ys. \<forall>z \<in> set zs. schar (an_val y) < schar (an_val z))"
  by (induction ys rule: tree_sorted.induct) auto

lemma find_node_simps [simp]:
  "find_node [] c = None"
  "find_node (t # ts) c = (if an_val t = c then Some t else find_node ts c)"
  by (auto simp: find_node_def)

lemma find_node_append:
  "find_node (ys @ zs) c = (case find_node ys c of None \<Rightarrow> find_node zs c | Some t \<Rightarrow> Some t)"
  by (induction ys) auto

lemma find_node_None: "find_node ts c = None \<longleftrightarrow> (\<forall>t \<in> set ts. an_val t \<noteq> c)"
  by (induction ts) auto

lemma find_node_Some: "find_node ts c = Some t \<Longrightarrow> t \<in> set ts \<and> an_val t = c"
  by (induction ts) (auto split: if_splits)

text \<open>Where the search for \<open>c\<close> stops: everything before is smaller.\<close>

definition smaller :: "char \<Rightarrow> anode list \<Rightarrow> anode list" where
  "smaller c ts = takeWhile (\<lambda>t. schar (an_val t) < schar c) ts"

definition notless :: "char \<Rightarrow> anode list \<Rightarrow> anode list" where
  "notless c ts = dropWhile (\<lambda>t. schar (an_val t) < schar c) ts"

lemma smaller_notless: "smaller c ts @ notless c ts = ts"
  by (simp add: smaller_def notless_def)

definition last_ptr :: "ptr \<Rightarrow> anode list \<Rightarrow> ptr" where
  "last_ptr prev ys = (if ys = [] then prev else Some (an_addr (last ys)))"

definition at_front :: "char \<Rightarrow> anode list \<Rightarrow> bool" where
  "at_front c zs \<longleftrightarrow> zs \<noteq> [] \<and> an_val (hd zs) = c"

lemma get_sibling2_loop_chain:
  "chain (nodes h) ts None \<Longrightarrow>
   tree_get_sibling2_loop h prev (hd_ptr ts None) c =
     Some (last_ptr prev (smaller c ts), hd_ptr (notless c ts) None, at_front c (notless c ts))"
proof (induction ts arbitrary: prev)
  case Nil
  show ?case
    by (simp add: tree_get_sibling2_loop.simps smaller_def notless_def last_ptr_def at_front_def)
next
  case (Cons t ts)
  obtain a v ad ch where t: "t = AN a v ad ch" by (cases t)
  show ?case
  proof (cases "schar v < schar c")
    case True
    then have "v \<noteq> c" by auto
    with True Cons t show ?thesis
      by (subst tree_get_sibling2_loop.simps)
        (auto simp: tree_deref_def smaller_def notless_def last_ptr_def at_front_def)
  next
    case False
    then have "v = c \<or> schar c < schar v" by (metis linorder_cases schar_inject)
    with False Cons.prems t show ?thesis
      by (subst tree_get_sibling2_loop.simps)
        (auto simp: tree_deref_def smaller_def notless_def last_ptr_def at_front_def)
  qed
qed

text \<open>In a sorted list the loop finds what a plain search finds.\<close>

lemma sorted_notless:
  assumes "tree_sorted ts"
  shows "find_node ts c = (if at_front c (notless c ts) then Some (hd (notless c ts)) else None)"
  using assms
proof (induction ts rule: tree_sorted.induct)
  case (2 a v ad ch ts)
  show ?case
  proof (cases "schar v < schar c")
    case True
    with 2 show ?thesis by (auto simp: notless_def)
  next
    case False
    have "find_node ts c = None" if "v \<noteq> c"
      using that False 2(3) by (auto simp: find_node_None)
    with False show ?thesis by (auto simp: notless_def at_front_def)
  qed
qed (simp add: notless_def at_front_def)

lemma tree_get_sibling_chain:
  assumes "chain (nodes h) ts None" "tree_sorted ts"
  shows "tree_get_sibling h (hd_ptr ts None) c =
    Some (map_option an_addr (find_node ts (c_tolower c)))"
  using assms
  by (auto simp: tree_get_sibling_def tree_get_sibling2_def get_sibling2_loop_chain sorted_notless
      at_front_def neq_Nil_conv)

lemma chain_find:
  "chain m ts nxt \<Longrightarrow> find_node ts c = Some t \<Longrightarrow>
   \<exists>nd. m (an_addr t) = Some nd \<and> tn_value nd = c \<and> adapted nd = an_adapted t \<and>
     next_child nd = hd_ptr (an_kids t) None \<and> chain m (an_kids t) None"
  by (induction m ts nxt rule: chain.induct) (auto split: if_splits)

lemma sorted_find:
  "tree_sorted ts \<Longrightarrow> find_node ts c = Some t \<Longrightarrow> tree_sorted (an_kids t)"
  by (induction ts rule: tree_sorted.induct) (auto split: if_splits)

lemma tree_get_child_chain:
  assumes "chain (nodes h) ts nxt" "tree_sorted ts" "find_node ts c = Some t"
  shows "tree_get_child h (Some (an_addr t)) d =
    Some (map_option an_addr (find_node (an_kids t) (c_tolower d)))"
  using chain_find [OF assms(1,3)] sorted_find [OF assms(2,3)]
  by (auto simp: tree_get_child_def tree_deref_def tree_get_sibling_chain)

text \<open>The node of the abstract tree that a phrase leads to.\<close>

fun node_at :: "anode list \<Rightarrow> string \<Rightarrow> anode option" where
  "node_at ts [] = None"
| "node_at ts (c # cs) = (case find_node ts c of
     None \<Rightarrow> None | Some t \<Rightarrow> if cs = [] then Some t else node_at (an_kids t) cs)"

lemma rule_of_node_at: "rule_of ts w = Option.bind (node_at ts w) an_adapted"
  by (induction ts w rule: node_at.induct) (auto split: option.split)

lemma node_at_chain:
  "chain (nodes h) ts nxt \<Longrightarrow> tree_sorted ts \<Longrightarrow> node_at ts w = Some t \<Longrightarrow>
   (\<exists>nd. nodes h (an_addr t) = Some nd \<and> adapted nd = an_adapted t \<and> next_child nd = hd_ptr (an_kids t) None) \<and>
   chain (nodes h) (an_kids t) None \<and> tree_sorted (an_kids t)"
proof (induction ts w arbitrary: nxt rule: node_at.induct)
  case (2 ts c cs)
  then obtain u where u: "find_node ts c = Some u" by (auto split: option.splits)
  show ?case
  proof (cases "cs = []")
    case True
    with 2 u have "u = t" by simp
    with chain_find [OF 2(2) u] sorted_find [OF 2(3) u] show ?thesis by auto
  next
    case False
    with 2 u show ?thesis using chain_find [OF 2(2) u] sorted_find [OF 2(3) u] by auto
  qed
qed simp

lemma node_at_snoc:
  "node_at ts (w @ [c]) = (if w = [] then find_node ts c
     else Option.bind (node_at ts w) (\<lambda>t. find_node (an_kids t) c))"
  by (induction ts w rule: node_at.induct) (auto split: option.split)

lemma tree_get_child_at:
  assumes "represents h r ts" "node_at ts w = Some t"
  shows "tree_get_child h (Some (an_addr t)) d = Some (map_option an_addr (find_node (an_kids t) (c_tolower d)))"
proof -
  have "chain (nodes h) ts None" "tree_sorted ts" using assms(1) by (auto simp: represents_def)
  from node_at_chain [OF this assms(2)] show ?thesis
    by (auto simp: tree_get_child_def tree_deref_def tree_get_sibling_chain)
qed

section \<open>Insertion\<close>

text \<open>The sibling list after \<^verbatim>\<open>tree_add_sibling\<close> with a fresh address \<open>a\<close>, and the
  address of the node it returns.\<close>

definition link :: "char \<Rightarrow> addr \<Rightarrow> anode list \<Rightarrow> anode list" where
  "link c a ts = (if find_node ts c = None
     then smaller c ts @ AN a c None [] # notless c ts else ts)"

definition spot :: "char \<Rightarrow> addr \<Rightarrow> anode list \<Rightarrow> addr" where
  "spot c a ts = (case find_node ts c of None \<Rightarrow> a | Some t \<Rightarrow> an_addr t)"

text \<open>The sibling list with the contents of the node for \<open>c\<close> replaced.\<close>

definition put :: "char \<Rightarrow> string option \<Rightarrow> anode list \<Rightarrow> anode list \<Rightarrow> anode list" where
  "put c ad ch ts = map (\<lambda>t. if an_val t = c then AN (an_addr t) c ad ch else t) ts"

definition first_wins :: "string option \<Rightarrow> string option \<Rightarrow> string option" where
  "first_wins old ad = (case old of
     Some s \<Rightarrow> Some s | None \<Rightarrow> Some (case ad of None \<Rightarrow> [] | Some s \<Rightarrow> s))"

lemma in_smaller: "t \<in> set (smaller c ts) \<Longrightarrow> schar (an_val t) < schar c \<and> t \<in> set ts"
  by (auto simp: smaller_def dest: set_takeWhileD)

lemma in_notless:
  assumes "tree_sorted ts" "t \<in> set (notless c ts)"
  shows "\<not> schar (an_val t) < schar c"
  using assms
proof (induction ts rule: tree_sorted.induct)
  case (2 a v ad ch ts)
  then show ?case by (cases "schar v < schar c") (auto simp: notless_def)
qed (simp add: notless_def)

lemma sorted_split:
  "tree_sorted ts \<Longrightarrow> tree_sorted (smaller c ts) \<and> tree_sorted (notless c ts)"
  by (metis smaller_notless tree_sorted_append)

lemma link_sorted:
  assumes "tree_sorted ts" "c_tolower c = c"
  shows "tree_sorted (link c a ts)"
proof (cases "find_node ts c")
  case None
  have lt: "schar c < schar (an_val t)" if "t \<in> set (notless c ts)" for t
  proof -
    from that have "t \<in> set ts" by (metis UnCI set_append smaller_notless)
    with None have "an_val t \<noteq> c" by (simp add: find_node_None)
    with in_notless [OF assms(1) that] show ?thesis by (metis linorder_cases schar_inject)
  qed
  with assms None sorted_split [OF assms(1), of c] show ?thesis
    by (auto simp: link_def tree_sorted_append dest!: in_smaller intro: less_trans)
qed (use assms in \<open>simp add: link_def\<close>)

lemma addrs_split: "addrs ts = addrs (smaller c ts) @ addrs (notless c ts)"
  by (metis addrs_append smaller_notless)

lemma link_addrs:
  assumes "distinct (addrs ts)" "a \<notin> set (addrs ts)"
  shows "distinct (addrs (link c a ts))" "set (addrs (link c a ts)) \<subseteq> insert a (set (addrs ts))"
    "set (addrs ts) \<subseteq> set (addrs (link c a ts))"
  using assms addrs_split [of ts c] by (auto simp: link_def)

lemma find_smaller: "find_node (smaller c ts) c = None"
  by (auto simp: find_node_None dest!: in_smaller)

lemma find_link:
  "find_node (link c a ts) d =
     (if d = c \<and> find_node ts c = None then Some (AN a c None []) else find_node ts d)"
proof (cases "find_node ts c")
  case None
  have "find_node ts d = find_node (smaller c ts @ notless c ts) d"
    by (simp add: smaller_notless)
  with None find_smaller [of c ts] show ?thesis
    by (auto simp: link_def find_node_append split: option.splits)
qed (auto simp: link_def)

lemma find_link_spot:
  "\<exists>ad ch. find_node (link c a ts) c = Some (AN (spot c a ts) c ad ch)"
proof (cases "find_node ts c")
  case (Some t)
  then show ?thesis using find_node_Some [OF Some] by (cases t) (auto simp: find_link spot_def)
qed (auto simp: find_link spot_def)

lemma put_hd [simp]: "hd_ptr (put c ad ch ts) nxt = hd_ptr ts nxt"
  by (cases ts) (auto simp: put_def)

lemma find_put:
  "find_node (put c ad ch ts) d =
     (case find_node ts d of None \<Rightarrow> None
      | Some t \<Rightarrow> Some (if d = c then AN (an_addr t) c ad ch else t))"
  by (induction ts) (auto simp: put_def split: option.splits)

lemma put_sorted:
  assumes "tree_sorted ts" "tree_sorted ch"
  shows "tree_sorted (put c ad ch ts)"
  using assms
proof (induction ts rule: tree_sorted.induct)
  case (2 a v ad' ch' ts)
  then show ?case by (auto simp: put_def)
qed (simp add: put_def)

lemma put_absent: "find_node ts c = None \<Longrightarrow> put c ad ch ts = ts"
  by (induction ts) (auto simp: put_def split: if_splits)

lemma put_split:
  assumes "tree_sorted ts" "find_node ts c = Some t"
  obtains ys zs where "ts = ys @ t # zs"
    "put c ad ch ts = ys @ AN (an_addr t) c ad ch # zs"
proof -
  from find_node_Some [OF assms(2)] have t: "t \<in> set ts" "an_val t = c" by auto
  then obtain ys zs where ts: "ts = ys @ t # zs" by (auto simp: in_set_conv_decomp)
  with assms(1) t(2) have "find_node ys c = None" "find_node zs c = None"
    by (cases t; force simp: tree_sorted_append find_node_None)+
  then have "put c ad ch ts = ys @ AN (an_addr t) c ad ch # zs"
    using ts t(2) put_absent [of ys] put_absent [of zs] by (simp add: put_def)
  with ts that show ?thesis by blast
qed

lemma addrs_AN [simp]: "addrs (t # ts) = an_addr t # addrs (an_kids t) @ addrs ts"
  by (cases t) simp

lemma put_addrs:
  assumes "tree_sorted ts" "find_node ts c = Some t" "distinct (addrs ts)"
    "distinct (addrs ch)" "set (addrs ch) \<inter> (set (addrs ts) - set (addrs (an_kids t))) = {}"
  shows "distinct (addrs (put c ad ch ts))"
    "set (addrs (put c ad ch ts)) =
       (set (addrs ts) - set (addrs (an_kids t))) \<union> set (addrs ch)"
proof -
  obtain ys zs where s: "ts = ys @ t # zs" "put c ad ch ts = ys @ AN (an_addr t) c ad ch # zs"
    by (rule put_split [OF assms(1,2)])
  from assms(3-5) show "distinct (addrs (put c ad ch ts))" unfolding s(2) unfolding s(1) by auto
  from assms(3) show "set (addrs (put c ad ch ts)) =
       (set (addrs ts) - set (addrs (an_kids t))) \<union> set (addrs ch)" unfolding s(2) unfolding s(1) by auto
qed

lemma find_addrs:
  "find_node ts c = Some t \<Longrightarrow> insert (an_addr t) (set (addrs (an_kids t))) \<subseteq> set (addrs ts)"
  by (induction ts rule: addrs.induct) (auto split: if_splits)

lemma chain_put:
  assumes "chain m ts nxt" "tree_sorted ts" "find_node ts c = Some t" "distinct (addrs ts)"
    "m (an_addr t) = Some nd"
    "m' (an_addr t) = Some (nd\<lparr>next_child := hd_ptr ch None, adapted := ad\<rparr>)"
    "chain m' ch None"
    "\<And>x. x \<in> set (addrs ts) \<Longrightarrow> x \<noteq> an_addr t \<Longrightarrow> x \<notin> set (addrs (an_kids t)) \<Longrightarrow> m' x = m x"
  shows "chain m' (put c ad ch ts) nxt"
proof -
  obtain ys zs where s: "ts = ys @ t # zs" "put c ad ch ts = ys @ AN (an_addr t) c ad ch # zs"
    by (rule put_split [OF assms(2,3)])
  have c: "an_val t = c" using find_node_Some [OF assms(3)] by simp
  have "chain m' ys (Some (an_addr t)) = chain m ys (Some (an_addr t))"
    using assms(4,8) unfolding s by (intro chain_cong) auto
  moreover have "chain m' zs nxt = chain m zs nxt"
    using assms(4,8) unfolding s by (intro chain_cong) auto
  ultimately show ?thesis
    using assms(1,5-7) c unfolding s(2) unfolding s(1) by (cases t) auto
qed

lemma rule_of_put:
  assumes "find_node ts c = Some t"
  shows "rule_of (put c ad ch ts) u =
    (case u of [] \<Rightarrow> None
     | d # ds \<Rightarrow> if d = c then (if ds = [] then ad else rule_of ch ds) else rule_of ts u)"
  using assms by (cases u) (auto simp: find_put split: option.splits)

lemma rule_of_empty [simp]: "rule_of [] u = None"
  by (cases u) simp_all

lemma rule_of_link: "rule_of (link c a ts) u = rule_of ts u"
  by (cases u) (auto simp: find_link split: option.splits)

definition unused :: "tree_heap \<Rightarrow> bool" where
  "unused h \<longleftrightarrow> (\<forall>a. brk h \<le> a \<longrightarrow> nodes h a = None)"

lemma chain_below_brk:
  "chain (nodes h) ts nxt \<Longrightarrow> unused h \<Longrightarrow> a \<in> set (addrs ts) \<Longrightarrow> a < brk h"
  using chain_dom unfolding unused_def by (metis not_le)

text \<open>\<^verbatim>\<open>tree_add_sibling\<close> on a represented list.\<close>

lemma chain_last_upd:
  assumes "chain m (ys @ [t]) n1" "an_addr t \<notin> set (addrs ys)" "an_addr t \<notin> set (addrs (an_kids t))"
    "m (an_addr t) = Some nd"
  shows "chain (m(an_addr t \<mapsto> nd\<lparr>next_sibling := n2\<rparr>)) (ys @ [t]) n2"
  using assms by (cases t) auto

lemma tree_add_sibling_chain:
  assumes ch: "chain (nodes h) ts None" and srt: "tree_sorted ts" and dst: "distinct (addrs ts)"
    and un: "unused h" and low: "c_tolower c = c"
  shows "\<exists>h'. tree_add_sibling h (hd_ptr ts None) c = Some (Some (spot c (brk h) ts), h') \<and>
    chain (nodes h') (link c (brk h) ts) None \<and> unused h' \<and> brk h \<le> brk h' \<and>
    brk h' \<le> Suc (brk h) \<and> spot c (brk h) ts < brk h' \<and>
    (\<forall>x. x \<notin> set (addrs ts) \<longrightarrow> x \<noteq> brk h \<longrightarrow> nodes h' x = nodes h x)"
proof -
  let ?ys = "smaller c ts" and ?zs = "notless c ts" and ?a = "brk h"
  have fresh: "?a \<notin> set (addrs ts)" using chain_below_brk [OF ch un] by blast
  have chs: "chain (nodes h) ?ys (hd_ptr ?zs None)" "chain (nodes h) ?zs None"
    using ch chain_append smaller_notless by metis+
  have fr: "?a \<notin> set (addrs ?ys)" "?a \<notin> set (addrs ?zs)"
    using fresh addrs_split [of ts c] by auto
  have hdts: "hd_ptr ts None = hd_ptr ?ys (hd_ptr ?zs None)"
    by (metis hd_ptr_append smaller_notless)
  have loop: "tree_get_sibling2_loop h None (hd_ptr ts None) c =
     Some (last_ptr None ?ys, hd_ptr ?zs None, at_front c ?zs)"
    by (rule get_sibling2_loop_chain [OF ch])
  show ?thesis
  proof (cases "find_node ts c")
    case (Some t)
    then have af: "at_front c ?zs" "hd ?zs = t"
      using sorted_notless [OF srt, of c] by (auto split: if_splits)
    then obtain zs' where zs: "?zs = t # zs'" by (cases ?zs) (auto simp: at_front_def)
    have t: "an_addr t < brk h"
      using find_addrs [OF Some] chain_below_brk [OF ch un] by auto
    have "tree_add_sibling h (hd_ptr ts None) c = Some (Some (an_addr t), h)"
    proof (cases "?ys = []")
      case True
      then show ?thesis using loop af zs hdts
        by (auto simp: tree_add_sibling_def tree_get_sibling2_def low last_ptr_def)
    next
      case False
      then obtain ys' y where ys: "?ys = ys' @ [y]" by (metis append_butlast_last_id)
      have "nodes h (an_addr y) = Some nd \<Longrightarrow> next_sibling nd = Some (an_addr t)" for nd
        using chs(1) zs unfolding ys by (cases y) auto
      moreover have "nodes h (an_addr y) \<noteq> None" using chs(1) unfolding ys by (cases y) auto
      ultimately show ?thesis using loop af ys
        by (auto simp: tree_add_sibling_def tree_get_sibling2_def low last_ptr_def tree_deref_def)
    qed
    with Some ch un t show ?thesis by (auto simp: link_def spot_def)
  next
    case None
    then have af: "\<not> at_front c ?zs"
      using sorted_notless [OF srt, of c] by (auto split: if_splits)
    let ?N = "AN ?a c None []"
    show ?thesis
    proof (cases "?ys = []")
      case True
      with loop af hdts None chs fr un show ?thesis
        by (auto simp: tree_add_sibling_def tree_get_sibling2_def low last_ptr_def
            tree_create_node_def tree_store_def link_def spot_def unused_def)
    next
      case False
      then obtain ys' y where ys: "?ys = ys' @ [y]" by (metis append_butlast_last_id)
      have y: "an_addr y \<in> set (addrs ts)" "an_addr y \<notin> set (addrs ys')"
        "an_addr y \<notin> set (addrs (an_kids y))" "an_addr y \<notin> set (addrs ?zs)"
        using dst unfolding addrs_split [of ts c] ys by auto
      then have ne: "an_addr y \<noteq> ?a" and lt: "an_addr y < brk h"
        using fresh chain_below_brk [OF ch un] by auto
      obtain nd where nd: "nodes h (an_addr y) = Some nd" "next_sibling nd = hd_ptr ?zs None"
        using chs(1) unfolding ys by (cases y) auto
      let ?m1 = "(nodes h)(an_addr y \<mapsto> nd\<lparr>next_sibling := Some ?a\<rparr>)"
      have c1: "chain ?m1 ?ys (Some ?a)" unfolding ys
        by (rule chain_last_upd) (use chs(1) ys y nd in auto)
      let ?m2 = "?m1(?a \<mapsto> \<lparr>tn_value = c, next_child = None,
         next_sibling = hd_ptr ?zs None, adapted = None\<rparr>)"
      have c2: "chain ?m2 (?ys @ ?N # ?zs) None"
        using c1 chs fr y by auto
      have "tree_add_sibling h (hd_ptr ts None) c =
          Some (Some ?a, h\<lparr>nodes := ?m2, brk := Suc ?a\<rparr>)"
        using loop af ys nd ne
        by (auto simp: tree_add_sibling_def tree_get_sibling2_def low last_ptr_def
            tree_deref_def tree_create_node_def tree_store_def fun_upd_twist)
      moreover have "link c ?a ts = ?ys @ ?N # ?zs" "spot c ?a ts = ?a"
        using None by (simp_all add: link_def spot_def)
      moreover have "unused (h\<lparr>nodes := ?m2, brk := Suc ?a\<rparr>)"
        using un lt by (auto simp: unused_def)
      ultimately show ?thesis using c2 y by auto
    qed
  qed
qed

lemma find_distinct:
  assumes "tree_sorted ts" "find_node ts c = Some t" "distinct (addrs ts)"
  shows "distinct (an_addr t # addrs (an_kids t))"
proof -
  obtain ys zs where "ts = ys @ t # zs" by (rule put_split [OF assms(1,2)])
  with assms(3) show ?thesis by auto
qed

lemma notless_hd:
  assumes "t = hd ts" "ts \<noteq> []" "\<not> schar c < schar (an_val t)"
  shows "hd_ptr (link c a ts) None = Some (an_addr t)"
proof (cases "find_node ts c")
  case (Some u)
  with assms show ?thesis by (cases ts) (auto simp: link_def)
next
  case None
  with assms have "an_val t \<noteq> c" by (cases ts) (auto split: if_splits)
  with assms(3) have "schar (an_val t) < schar c" by (metis linorder_cases schar_inject)
  with assms None show ?thesis by (cases ts) (auto simp: link_def smaller_def)
qed

lemma link_front:
  assumes "tree_sorted ts" "schar c < schar (an_val t)" "t = hd ts" "ts \<noteq> []"
  shows "find_node ts c = None" "link c a ts = AN a c None [] # ts"
proof -
  obtain ts' where ts: "ts = t # ts'" using assms by (cases ts) auto
  have "an_val x \<noteq> c" if "x \<in> set ts'" for x
    using assms(1,2) that unfolding ts by (cases t) force
  with assms(2) show "find_node ts c = None" unfolding ts by (auto simp: find_node_None)
  then show "link c a ts = AN a c None [] # ts"
    using assms(2) unfolding ts by (simp add: link_def smaller_def notless_def)
qed

lemma tree_add_child_chain:
  assumes nd: "nodes h a = Some nd" "next_child nd = hd_ptr ch None"
    and c: "chain (nodes h) ch None" and srt: "tree_sorted ch" and dst: "distinct (a # addrs ch)"
    and un: "unused h" and low: "c_tolower c = c"
  shows "\<exists>h'. tree_add_child h (Some a) c = Some (Some (spot c (brk h) ch), h') \<and>
    nodes h' a = Some (nd\<lparr>next_child := hd_ptr (link c (brk h) ch) None\<rparr>) \<and>
    chain (nodes h') (link c (brk h) ch) None \<and> unused h' \<and> brk h \<le> brk h' \<and>
    brk h' \<le> Suc (brk h) \<and> spot c (brk h) ch < brk h' \<and>
    (\<forall>x. x \<noteq> a \<longrightarrow> x \<notin> set (addrs ch) \<longrightarrow> x \<noteq> brk h \<longrightarrow> nodes h' x = nodes h x)"
proof -
  have a: "a < brk h" using nd(1) un unfolding unused_def by (metis not_le option.distinct(1))
  have fr: "brk h \<notin> set (addrs ch)" using chain_below_brk [OF c un] by blast
  show ?thesis
  proof (cases ch)
    case Nil
    with nd a un show ?thesis
      by (auto simp: tree_add_child_def tree_deref_def tree_create_node_def tree_store_def
          link_def smaller_def notless_def spot_def unused_def)
  next
    case (Cons t ts')
    have t: "nodes h (an_addr t) = Some \<lparr>tn_value = an_val t, next_child = hd_ptr (an_kids t) None,
        next_sibling = hd_ptr ts' None, adapted = an_adapted t\<rparr>"
      using c Cons by (cases t) auto
    have hd: "next_child nd = Some (an_addr t)" "t = hd ch" "ch \<noteq> []" using nd Cons by auto
    show ?thesis
    proof (cases "schar c < schar (an_val t)")
      case True
      note l = link_front [OF srt True hd(2,3)]
      let ?m = "(nodes h)(brk h \<mapsto> \<lparr>tn_value = c, next_child = None,
          next_sibling = Some (an_addr t), adapted = None\<rparr>, a \<mapsto> nd\<lparr>next_child := Some (brk h)\<rparr>)"
      let ?h = "h\<lparr>nodes := ?m, brk := Suc (brk h)\<rparr>"
      have "tree_add_child h (Some a) c = Some (Some (brk h), ?h)"
        using nd(1) hd(1) t a True
        by (simp add: tree_add_child_def tree_deref_def tree_create_node_def tree_store_def low)
      moreover have "chain ?m ch None" using c dst fr by simp
      then have "chain ?m (AN (brk h) c None [] # ch) None" using a Cons by simp
      moreover have "unused ?h" using un a by (auto simp: unused_def)
      moreover have "spot c (brk h) ch = brk h" by (simp add: spot_def l)
      ultimately show ?thesis using l by (intro exI [of _ ?h]) auto
    next
      case False
      have dst': "distinct (addrs ch)" using dst by simp
      obtain h' where h': "tree_add_sibling h (hd_ptr ch None) c = Some (Some (spot c (brk h) ch), h')"
        "chain (nodes h') (link c (brk h) ch) None" "unused h'" "brk h \<le> brk h'"
        "brk h' \<le> Suc (brk h)" "spot c (brk h) ch < brk h'"
        "\<forall>x. x \<notin> set (addrs ch) \<longrightarrow> x \<noteq> brk h \<longrightarrow> nodes h' x = nodes h x"
        using tree_add_sibling_chain [OF c srt dst' un low] by blast
      have "nodes h' a = nodes h a" using h'(7) dst a by auto
      moreover have "hd_ptr (link c (brk h) ch) None = Some (an_addr t)"
        by (rule notless_hd [OF hd(2,3) False])
      moreover have "tree_add_child h (Some a) c = tree_add_sibling h (hd_ptr ch None) c"
        using nd(1) hd(1) t False by (simp add: tree_add_child_def tree_deref_def low Cons)
      moreover have "nd\<lparr>next_child := Some (an_addr t)\<rparr> = nd"
        using hd(1) by (cases nd) simp
      ultimately have "nodes h' a = Some (nd\<lparr>next_child := hd_ptr (link c (brk h) ch) None\<rparr>)"
        "tree_add_child h (Some a) c = Some (Some (spot c (brk h) ch), h')"
        using nd(1) h'(1) by simp_all
      with h'(2-7) show ?thesis by blast
    qed
  qed
qed

text \<open>The tail of an insertion, for any way to combine the old and the new rule of the phrase.\<close>

definition tree_set :: "(string option \<Rightarrow> string option) \<Rightarrow> tree_heap \<Rightarrow> ptr \<Rightarrow> tree_heap option" where
  "tree_set f h aux = do { p \<leftarrow> aux; tree_store h p (\<lambda>x. x\<lparr>adapted := f (adapted x)\<rparr>) }"

definition tree_insert_with ::
  "(string option \<Rightarrow> string option) \<Rightarrow> tree_heap \<Rightarrow> ptr \<Rightarrow> string \<Rightarrow> nat \<Rightarrow> (ptr \<times> tree_heap) option" where
  "tree_insert_with f h root v len = do {
     (aux, h) \<leftarrow> tree_add_sibling h root (case v of [] \<Rightarrow> NUL | c # _ \<Rightarrow> c);
     p \<leftarrow> aux;
     nd \<leftarrow> tree_deref h p;
     root' \<leftarrow> (case root of
                None \<Rightarrow> Some aux
              | Some r \<Rightarrow> do {
                  rn \<leftarrow> tree_deref h r;
                  Some (if schar (tn_value nd) < schar (tn_value rn) then aux else root) });
     (aux, h) \<leftarrow> tree_insert_loop h aux (tl (take len v));
     h \<leftarrow> tree_set f h aux;
     Some (root', h) }"

lemma tree_set_adapted_set: "tree_set_adapted h aux ad = tree_set (\<lambda>r. first_wins r ad) h aux"
proof (cases aux)
  case (Some p)
  have "(nodes h)(p \<mapsto> n) = nodes h" if "nodes h p = Some n" for n
    using that by (simp add: fun_upd_idem)
  then show ?thesis
    using Some
    by (auto simp: tree_set_adapted_def tree_set_def tree_store_def tree_deref_def first_wins_def split: option.splits)
qed (simp add: tree_set_adapted_def tree_set_def)

lemma tree_insert_insert_with: "tree_insert h root v len ad = tree_insert_with (\<lambda>r. first_wins r ad) h root v len"
  by (simp add: tree_insert_def tree_insert_with_def tree_set_adapted_set)

text \<open>The loop of \<^verbatim>\<open>tree_insert\<close> followed by the store of the rule, started at an
  allocated node \<open>a\<close> with children \<open>ch\<close>: it returns, it changes only \<open>a\<close> and what is below,
  and it adds one rule.\<close>

definition path_post :: "(string option \<Rightarrow> string option) \<Rightarrow> string \<Rightarrow> tree_heap \<Rightarrow> addr \<Rightarrow> tree_node \<Rightarrow>
    anode list \<Rightarrow> tree_heap \<Rightarrow> anode list \<Rightarrow> bool" where
  "path_post f w h a nd ch h' ch' \<longleftrightarrow>
     do { (aux, h) \<leftarrow> tree_insert_loop h (Some a) w; tree_set f h aux } = Some h' \<and>
     nodes h' a = Some (nd\<lparr>next_child := hd_ptr ch' None,
       adapted := if w = [] then f (adapted nd) else adapted nd\<rparr>) \<and>
     chain (nodes h') ch' None \<and> tree_sorted ch' \<and> distinct (a # addrs ch') \<and>
     set (addrs ch') \<subseteq> set (addrs ch) \<union> {brk h..<brk h'} \<and> brk h \<le> brk h' \<and> unused h' \<and>
     (\<forall>x. x \<noteq> a \<longrightarrow> x \<notin> set (addrs ch) \<longrightarrow> x < brk h \<longrightarrow> nodes h' x = nodes h x) \<and>
     (\<forall>u. rule_of ch' u =
        (if u = w \<and> w \<noteq> [] then f (rule_of ch w) else rule_of ch u))"

definition path_pre :: "tree_heap \<Rightarrow> addr \<Rightarrow> tree_node \<Rightarrow> anode list \<Rightarrow> bool" where
  "path_pre h a nd ch \<longleftrightarrow>
     nodes h a = Some nd \<and> next_child nd = hd_ptr ch None \<and> chain (nodes h) ch None \<and>
     tree_sorted ch \<and> distinct (a # addrs ch) \<and> unused h"

definition path_ok :: "(string option \<Rightarrow> string option) \<Rightarrow> string \<Rightarrow> bool" where
  "path_ok f w \<longleftrightarrow> (\<forall>h a nd ch. path_pre h a nd ch \<longrightarrow> (\<exists>h' ch'. path_post f w h a nd ch h' ch'))"

text \<open>The same, started at the node for \<open>c\<close> of a sibling list.\<close>

lemma path_from_sibling:
  assumes ok: "path_ok f w" and ch1: "chain (nodes h1) ch1 None" and srt1: "tree_sorted ch1"
    and dst1: "distinct (addrs ch1)" and un: "unused h1"
    and N: "find_node ch1 c = Some (AN b c adb chb)"
  shows "\<exists>h' ch'. do { (aux, h) \<leftarrow> tree_insert_loop h1 (Some b) w; tree_set f h aux } = Some h' \<and>
    chain (nodes h') ch' None \<and> hd_ptr ch' None = hd_ptr ch1 None \<and> tree_sorted ch' \<and>
    distinct (addrs ch') \<and> set (addrs ch') \<subseteq> set (addrs ch1) \<union> {brk h1..<brk h'} \<and>
    brk h1 \<le> brk h' \<and> unused h' \<and>
    (\<forall>x. x \<notin> set (addrs ch1) \<longrightarrow> x < brk h1 \<longrightarrow> nodes h' x = nodes h1 x) \<and>
    (\<forall>u. rule_of ch' u =
       (if u = c # w then f (rule_of ch1 (c # w)) else rule_of ch1 u))"
proof -
  let ?N = "AN b c adb chb"
  obtain nb where nb: "nodes h1 b = Some nb" "adapted nb = adb" "next_child nb = hd_ptr chb None"
    "chain (nodes h1) chb None"
    using chain_find [OF ch1 N] by auto
  have srtb: "tree_sorted chb" using sorted_find [OF srt1 N] by simp
  have subb: "insert b (set (addrs chb)) \<subseteq> set (addrs ch1)" using find_addrs [OF N] by simp
  have dstb: "distinct (b # addrs chb)" using find_distinct [OF srt1 N dst1] by simp
  have "path_pre h1 b nb chb" using nb srtb dstb un by (simp add: path_pre_def)
  then obtain h' chb' where "path_post f w h1 b nb chb h' chb'" using ok path_ok_def by blast
  then have h': "do { (aux, h) \<leftarrow> tree_insert_loop h1 (Some b) w; tree_set f h aux } = Some h'"
    "nodes h' b = Some (nb\<lparr>next_child := hd_ptr chb' None,
       adapted := if w = [] then f adb else adb\<rparr>)"
    "chain (nodes h') chb' None" "tree_sorted chb'" "distinct (b # addrs chb')"
    "set (addrs chb') \<subseteq> set (addrs chb) \<union> {brk h1..<brk h'}" "brk h1 \<le> brk h'" "unused h'"
    "\<forall>x. x \<noteq> b \<longrightarrow> x \<notin> set (addrs chb) \<longrightarrow> x < brk h1 \<longrightarrow> nodes h' x = nodes h1 x"
    "\<forall>u. rule_of chb' u = (if u = w \<and> w \<noteq> [] then f (rule_of chb w) else rule_of chb u)"
    unfolding path_post_def nb(2) by blast+
  let ?adb' = "if w = [] then f adb else adb"
  let ?ch' = "put c ?adb' chb' ch1"
  have lt1: "x < brk h1" if "x \<in> set (addrs ch1)" for x
    using chain_below_brk [OF ch1 un that] .
  have cput: "chain (nodes h') ?ch' None"
    by (rule chain_put [OF ch1 srt1 N dst1, of nb]) (use nb h' lt1 in auto)
  have inter: "set (addrs chb') \<inter> (set (addrs ch1) - set (addrs (an_kids ?N))) = {}"
    using h'(6) lt1 by fastforce
  have dput: "distinct (addrs ?ch')"
    "set (addrs ?ch') = (set (addrs ch1) - set (addrs chb)) \<union> set (addrs chb')"
    using put_addrs [OF srt1 N dst1 _ inter] h'(5) by auto
  have sub: "set (addrs ?ch') \<subseteq> set (addrs ch1) \<union> {brk h1..<brk h'}"
    using dput(2) h'(6) subb by auto
  have fram: "nodes h' x = nodes h1 x" if "x \<notin> set (addrs ch1)" "x < brk h1" for x
  proof -
    from that(1) subb have "x \<noteq> b" "x \<notin> set (addrs chb)" by blast+
    with h'(9) that(2) show ?thesis by blast
  qed
  have rules: "rule_of ?ch' u =
     (if u = c # w then f (rule_of ch1 (c # w)) else rule_of ch1 u)" for u
  proof (cases u)
    case (Cons d v)
    show ?thesis
    proof (cases "d = c")
      case True
      then show ?thesis using h'(10) N unfolding Cons rule_of_put [OF N] by auto
    next
      case False
      then show ?thesis unfolding Cons rule_of_put [OF N] by auto
    qed
  qed simp
  show ?thesis
    using h'(1) cput put_sorted [OF srt1 h'(4)] dput(1) sub h'(7,8) fram rules
    by (intro exI [of _ h'] exI [of _ ?ch']) auto
qed

lemma insert_path: "lower w = w \<Longrightarrow> path_ok f w"
proof (induction w)
  case Nil
  show ?case unfolding path_ok_def
  proof (intro allI impI)
    fix h a nd ch
    assume as: "path_pre h a nd ch"
    then have "a < brk h" unfolding path_pre_def unused_def by (metis not_le option.distinct(1))
    with as show "\<exists>h' ch'. path_post f [] h a nd ch h' ch'"
      by (auto simp: path_pre_def path_post_def tree_set_def tree_store_def
          unused_def split: option.splits intro!: exI [of _ ch])
  qed
next
  case (Cons c w)
  then have low: "c_tolower c = c" and ok: "path_ok f w" by auto
  show ?case unfolding path_ok_def
  proof (intro allI impI)
    fix h a nd ch
    assume "path_pre h a nd ch"
    then have pre: "nodes h a = Some nd" "next_child nd = hd_ptr ch None" "chain (nodes h) ch None"
       "tree_sorted ch" "distinct (a # addrs ch)" "unused h" by (auto simp: path_pre_def)
    then have a: "a < brk h" unfolding unused_def by (metis not_le option.distinct(1))
    let ?ch1 = "link c (brk h) ch" and ?b = "spot c (brk h) ch"
    obtain h1 where h1: "tree_add_child h (Some a) c = Some (Some ?b, h1)"
      "nodes h1 a = Some (nd\<lparr>next_child := hd_ptr ?ch1 None\<rparr>)"
      "chain (nodes h1) ?ch1 None" "unused h1" "brk h \<le> brk h1"
      "\<forall>x. x \<noteq> a \<longrightarrow> x \<notin> set (addrs ch) \<longrightarrow> x \<noteq> brk h \<longrightarrow> nodes h1 x = nodes h x"
      using tree_add_child_chain [OF pre low] by blast
    have fr: "brk h \<notin> set (addrs ch)" using chain_below_brk [OF pre(3,6)] by blast
    have dst1: "distinct (addrs ?ch1)" "set (addrs ?ch1) \<subseteq> insert (brk h) (set (addrs ch))"
      using link_addrs [OF _ fr] pre(5) by auto
    have ain: "a \<notin> set (addrs ?ch1)" using dst1(2) a pre(5) by auto
    obtain adb chb where N: "find_node ?ch1 c = Some (AN ?b c adb chb)"
      using find_link_spot by blast
    obtain h' ch' where h': "do { (aux, h) \<leftarrow> tree_insert_loop h1 (Some ?b) w; tree_set f h aux } = Some h'"
      "chain (nodes h') ch' None" "hd_ptr ch' None = hd_ptr ?ch1 None" "tree_sorted ch'"
      "distinct (addrs ch')" "set (addrs ch') \<subseteq> set (addrs ?ch1) \<union> {brk h1..<brk h'}"
      "brk h1 \<le> brk h'" "unused h'"
      "\<forall>x. x \<notin> set (addrs ?ch1) \<longrightarrow> x < brk h1 \<longrightarrow> nodes h' x = nodes h1 x"
      "\<forall>u. rule_of ch' u = (if u = c # w then f (rule_of ?ch1 (c # w)) else rule_of ?ch1 u)"
      using path_from_sibling [OF ok h1(3) link_sorted [OF pre(4) low] dst1(1) h1(4) N] by metis
    have "nodes h' a = nodes h1 a" using h'(9) ain a h1(5) by auto
    then have ha: "nodes h' a = Some (nd\<lparr>next_child := hd_ptr ch' None\<rparr>)" using h1(2) h'(3) by simp
    have adst: "distinct (a # addrs ch')" using h'(5,6) ain a h1(5) by auto
    have sub: "set (addrs ch') \<subseteq> set (addrs ch) \<union> {brk h..<brk h'}"
    proof
      fix x assume "x \<in> set (addrs ch')"
      moreover have "brk h < brk h1" if "brk h \<in> set (addrs ?ch1)"
        using chain_below_brk [OF h1(3,4) that] .
      ultimately show "x \<in> set (addrs ch) \<union> {brk h..<brk h'}"
        using h'(6,7) dst1(2) h1(5) by fastforce
    qed
    have fram: "nodes h' x = nodes h x" if "x \<noteq> a" "x \<notin> set (addrs ch)" "x < brk h" for x
    proof -
      from that dst1(2) have "x \<notin> set (addrs ?ch1)" by auto
      then have "nodes h' x = nodes h1 x" using h'(9) that h1(5) by simp
      then show ?thesis using h1(6) that by simp
    qed
    have rules: "rule_of ch' u =
        (if u = c # w \<and> c # w \<noteq> [] then f (rule_of ch (c # w)) else rule_of ch u)" for u
      using h'(10) unfolding rule_of_link by simp
    have "do { (aux, h) \<leftarrow> tree_insert_loop h (Some a) (c # w); tree_set f h aux } = Some h'"
      using h1(1) h'(1) by simp
    moreover have "brk h \<le> brk h'" using h1(5) h'(7) by simp
    ultimately show "\<exists>h' ch'. path_post f (c # w) h a nd ch h' ch'"
      using h'(2,4,8) ha adst sub fram rules unfolding path_post_def
      by (intro exI [of _ h'] exI [of _ ch']) simp
  qed
qed

lemma represents_empty: "represents empty_heap None []"
  by (simp add: represents_def empty_heap_def)

lemma insert_with_represents:
  assumes rep: "represents h root ts" and low: "lower v = v" and ne: "v \<noteq> []"
  shows "\<exists>root' h' ts'. tree_insert_with f h root v (length v) = Some (root', h') \<and>
    represents h' root' ts' \<and> brk h \<le> brk h' \<and>
    set (addrs ts') \<subseteq> set (addrs ts) \<union> {brk h..<brk h'} \<and>
    (\<forall>x. x \<notin> set (addrs ts) \<longrightarrow> x < brk h \<longrightarrow> nodes h' x = nodes h x) \<and>
    (\<forall>u. rule_of ts' u = (if u = v then f (rule_of ts v) else rule_of ts u))"
proof -
  obtain c w where v: "v = c # w" using ne by (cases v) auto
  have lc: "c_tolower c = c" and lw: "lower w = w" using low v by auto
  have pre: "root = hd_ptr ts None" "chain (nodes h) ts None" "distinct (addrs ts)"
    "tree_sorted ts" "unused h" using rep by (auto simp: represents_def unused_def)
  let ?ts1 = "link c (brk h) ts" and ?b = "spot c (brk h) ts"
  obtain h1 where h1: "tree_add_sibling h (hd_ptr ts None) c = Some (Some ?b, h1)"
    "chain (nodes h1) ?ts1 None" "unused h1" "brk h \<le> brk h1" "brk h1 \<le> Suc (brk h)"
    "\<forall>x. x \<notin> set (addrs ts) \<longrightarrow> x \<noteq> brk h \<longrightarrow> nodes h1 x = nodes h x"
    using tree_add_sibling_chain [OF pre(2,4,3,5) lc] by blast
  have fr: "brk h \<notin> set (addrs ts)" using chain_below_brk [OF pre(2,5)] by blast
  have dst1: "distinct (addrs ?ts1)" "set (addrs ?ts1) \<subseteq> insert (brk h) (set (addrs ts))"
    using link_addrs [OF pre(3) fr] by auto
  obtain adb chb where N: "find_node ?ts1 c = Some (AN ?b c adb chb)"
    using find_link_spot by blast
  obtain h' ts' where h': "do { (aux, h) \<leftarrow> tree_insert_loop h1 (Some ?b) w; tree_set f h aux } = Some h'"
    "chain (nodes h') ts' None" "hd_ptr ts' None = hd_ptr ?ts1 None" "tree_sorted ts'"
    "distinct (addrs ts')" "set (addrs ts') \<subseteq> set (addrs ?ts1) \<union> {brk h1..<brk h'}"
    "brk h1 \<le> brk h'" "unused h'"
    "\<forall>x. x \<notin> set (addrs ?ts1) \<longrightarrow> x < brk h1 \<longrightarrow> nodes h' x = nodes h1 x"
    "\<forall>u. rule_of ts' u = (if u = c # w then f (rule_of ?ts1 (c # w)) else rule_of ?ts1 u)"
    using path_from_sibling [OF insert_path [OF lw] h1(2) link_sorted [OF pre(4) lc] dst1(1) h1(3) N]
    by metis
  obtain nb where nb: "nodes h1 ?b = Some nb" "tn_value nb = c"
    using chain_find [OF h1(2) N] by auto
  have newroot: "(case root of None \<Rightarrow> Some (Some ?b)
      | Some r \<Rightarrow> do { rn \<leftarrow> tree_deref h1 r;
          Some (if schar (tn_value nb) < schar (tn_value rn) then Some ?b else root) })
      = Some (hd_ptr ?ts1 None)"
  proof (cases ts)
    case Nil
    then show ?thesis using pre(1) by (simp add: link_def spot_def smaller_def notless_def)
  next
    case (Cons t ts0)
    have fin: "chain (nodes h1) ?ts1 None" by (rule h1(2))
    obtain rn where rn: "nodes h1 (an_addr t) = Some rn" "tn_value rn = an_val t"
    proof -
      have tin: "find_node ts (an_val t) = Some t" using Cons by simp
      then have "find_node ?ts1 (an_val t) = Some t" by (auto simp: find_link)
      from chain_find [OF fin this] that show ?thesis by auto
    qed
    have r: "root = Some (an_addr t)" using pre(1) Cons by simp
    show ?thesis
    proof (cases "schar c < schar (an_val t)")
      case True
      then show ?thesis using link_front [OF pre(4) True] Cons r rn nb
        by (simp add: tree_deref_def spot_def)
    next
      case False
      then show ?thesis using notless_hd [of t ts c] Cons r rn nb
        by (simp add: tree_deref_def)
    qed
  qed
  have "tree_insert_with f h root v (length v) = Some (hd_ptr ts' None, h')"
    using h1(1) h'(1,3) nb newroot unfolding tree_insert_with_def v pre(1)
    by (auto simp: tree_deref_def bind_eq_Some_conv)
  moreover have "represents h' (hd_ptr ts' None) ts'"
    using h' by (simp add: represents_def unused_def)
  moreover have "set (addrs ts') \<subseteq> set (addrs ts) \<union> {brk h..<brk h'}"
  proof
    fix x assume "x \<in> set (addrs ts')"
    moreover have "brk h < brk h1" if "brk h \<in> set (addrs ?ts1)"
      using chain_below_brk [OF h1(2,3) that] .
    ultimately show "x \<in> set (addrs ts) \<union> {brk h..<brk h'}"
      using h'(6,7) dst1(2) h1(4) by fastforce
  qed
  moreover have "nodes h' x = nodes h x" if "x \<notin> set (addrs ts)" "x < brk h" for x
  proof -
    from that dst1(2) have "x \<notin> set (addrs ?ts1)" by auto
    then have "nodes h' x = nodes h1 x" using h'(9) that h1(4) by simp
    then show ?thesis using h1(6) that by simp
  qed
  moreover have "rule_of ts' u = (if u = v then f (rule_of ts v) else rule_of ts u)" for u
    using h'(10) unfolding rule_of_link v by simp
  ultimately show ?thesis using h1(4) h'(7)
    by (intro exI [of _ "hd_ptr ts' None"] exI [of _ h'] exI [of _ ts']) auto
qed

lemma insert_represents:
  assumes rep: "represents h root ts" and low: "lower v = v" and ne: "v \<noteq> []"
  shows "\<exists>root' h' ts'. tree_insert h root v (length v) ad = Some (root', h') \<and>
    represents h' root' ts' \<and> brk h \<le> brk h' \<and>
    set (addrs ts') \<subseteq> set (addrs ts) \<union> {brk h..<brk h'} \<and>
    (\<forall>x. x \<notin> set (addrs ts) \<longrightarrow> x < brk h \<longrightarrow> nodes h' x = nodes h x) \<and>
    (\<forall>u. rule_of ts' u = (if u = v then first_wins (rule_of ts v) ad else rule_of ts u))"
  using insert_with_represents [OF assms, of "\<lambda>r. first_wins r ad"] by (simp add: tree_insert_insert_with)

section \<open>Destruction\<close>

lemma nodes_upd_eq: "h\<lparr>nodes := f\<rparr> = h\<lparr>nodes := g\<rparr> \<longleftrightarrow> f = g"
  by (cases h) simp

lemma tree_destroy_chain:
  assumes "chain (nodes h) ts None" "distinct (addrs ts)"
  shows "tree_destroy h (hd_ptr ts None) =
    Some (h\<lparr>nodes := (\<lambda>a. if a \<in> set (addrs ts) then None else nodes h a)\<rparr>)"
  using assms
proof (induction ts arbitrary: h rule: addrs.induct)
  case 1
  show ?case by (simp add: tree_destroy.simps)
next
  case (2 a v ad ch ts)
  let ?n0 = "\<lparr>tn_value = v, next_child = hd_ptr ch None, next_sibling = hd_ptr ts None, adapted = ad\<rparr>"
  let ?h1 = "h\<lparr>nodes := (\<lambda>x. if x \<in> set (addrs ch) then None else nodes h x)\<rparr>"
  let ?h2 = "?h1\<lparr>nodes := (nodes ?h1)(a \<mapsto> ?n0\<lparr>next_child := None\<rparr>)\<rparr>"
  have dis: "a \<notin> set (addrs ch)" "a \<notin> set (addrs ts)" "set (addrs ch) \<inter> set (addrs ts) = {}"
    using 2(4) by auto
  have c1: "tree_destroy h (hd_ptr ch None) = Some ?h1" using 2 by simp
  have cc: "chain (nodes ?h2) ts None"
    by (rule iffD2 [OF chain_cong [of ts _ "nodes h"]]) (use 2(3) dis in auto)
  have c2: "tree_destroy ?h2 (hd_ptr ts None) =
      Some (?h2\<lparr>nodes := (\<lambda>x. if x \<in> set (addrs ts) then None else nodes ?h2 x)\<rparr>)"
    by (rule 2(2) [OF cc]) (use 2(4) in simp)
  have "nodes h a = Some ?n0" using 2(3) by simp
  then show ?case using c1 c2 dis
    by (subst tree_destroy.simps)
      (auto simp: tree_deref_def tree_store_def nodes_upd_eq fun_eq_iff cong: if_cong)
qed

section \<open>Dump\<close>

fun height :: "anode list \<Rightarrow> nat" where
  "height [] = 0"
| "height (AN a v ad ch # ts) = max (Suc (height ch)) (height ts)"

fun rules_under :: "string \<Rightarrow> anode list \<Rightarrow> (string \<times> string) list" where
  "rules_under pre [] = []"
| "rules_under pre (AN a v ad ch # ts) =
     rules_under (pre @ [v]) ch @ (case ad of None \<Rightarrow> [] | Some s \<Rightarrow> [(pre @ [v], s)]) @
     rules_under pre ts"

fun no_nul :: "anode list \<Rightarrow> bool" where
  "no_nul [] \<longleftrightarrow> True"
| "no_nul (AN a v ad ch # ts) \<longleftrightarrow> v \<noteq> NUL \<and> no_nul ch \<and> no_nul ts"

lemma tree_depth_chain:
  "chain (nodes h) ts None \<Longrightarrow> tree_depth h (hd_ptr ts None) k = Some (k + height ts)"
proof (induction ts arbitrary: k rule: addrs.induct)
  case 1
  show ?case by (simp add: tree_depth.simps)
next
  case (2 a v ad ch ts)
  then show ?case by (subst tree_depth.simps) (auto simp: tree_deref_def Let_def max_def)
qed

lemma cstr_of_padded: "NUL \<notin> set s \<Longrightarrow> cstr_of (s @ replicate n NUL) = s"
  by (induction s) (auto simp: cstr_of_def takeWhile_eq_all_conv)

lemma buf_put_padded:
  "i = length pre \<Longrightarrow> buf_put (pre @ replicate (Suc n) NUL) i c = Some (pre @ c # replicate n NUL)"
  "i = length pre \<Longrightarrow> buf_put (pre @ d # replicate n NUL) i c = Some (pre @ c # replicate n NUL)"
  by (auto simp: buf_put_def list_update_append)

lemma tree_dump2_chain:
  "chain (nodes h) ts None \<Longrightarrow> no_nul ts \<Longrightarrow> NUL \<notin> set pre \<Longrightarrow> height ts \<le> n \<Longrightarrow> pos = length pre \<Longrightarrow>
   tree_dump2 h (hd_ptr ts None) (pre @ replicate (Suc n) NUL) pos =
     Some (pre @ replicate (Suc n) NUL, rules_under pre ts)"
proof (induction ts arbitrary: pre n pos rule: addrs.induct)
  case 1
  show ?case by (simp add: tree_dump2.simps)
next
  case (2 a v ad ch ts)
  obtain m where n: "n = Suc m" using 2(6) by (cases n) auto
  have "tree_dump2 h (hd_ptr ch None) ((pre @ [v]) @ replicate (Suc m) NUL) (Suc pos) =
    Some ((pre @ [v]) @ replicate (Suc m) NUL, rules_under (pre @ [v]) ch)"
    by (rule 2(1)) (use 2 n in auto)
  then have kids: "tree_dump2 h (hd_ptr ch None) (pre @ v # replicate n NUL) (Suc pos) =
    Some (pre @ v # replicate n NUL, rules_under (pre @ [v]) ch)"
    using n by simp
  have sibs: "tree_dump2 h (hd_ptr ts None) (pre @ replicate (Suc n) NUL) pos =
     Some (pre @ replicate (Suc n) NUL, rules_under pre ts)"
    by (rule 2(2)) (use 2 in auto)
  have nn: "NUL \<notin> set (pre @ [v])" using 2(4,5) by auto
  have phrase: "cstr_of (pre @ v # replicate n NUL) = pre @ [v]"
    using cstr_of_padded [OF nn, of n] by simp
  show ?case
    using 2(3) kids sibs phrase buf_put_padded(1) [OF 2(7), of n v] buf_put_padded(2) [OF 2(7), of v n NUL]
    by (subst tree_dump2.simps) (simp add: tree_deref_def split: option.splits)
qed

lemma tree_dump_lists:
  assumes "represents h root ts" "no_nul ts"
  shows "tree_dump h root = Some (rules_under [] ts)"
proof -
  have root: "root = hd_ptr ts None" and ch: "chain (nodes h) ts None"
    using assms(1) by (auto simp: represents_def)
  show ?thesis
    using tree_depth_chain [OF ch, of 1] tree_dump2_chain [OF ch assms(2), of "[]" "Suc (height ts)" 0]
    unfolding root tree_dump_def by simp
qed

lemma rules_under_prefix: "(u, s) \<in> set (rules_under pre ts) \<Longrightarrow> \<exists>w. u = pre @ w \<and> w \<noteq> []"
  by (induction pre ts arbitrary: u s rule: rules_under.induct) (fastforce split: option.splits)+

lemma rules_under_iff:
  "tree_sorted ts \<Longrightarrow> (pre @ w, s) \<in> set (rules_under pre ts) \<longleftrightarrow> rule_of ts w = Some s"
proof (induction pre ts arbitrary: w rule: rules_under.induct)
  case (2 pre a v ad ch ts)
  note IHs = 2(2)
  have IHc: "((pre @ [v]) @ w, s) \<in> set (rules_under (pre @ [v]) ch) \<longleftrightarrow> rule_of ch w = Some s" for w
    using 2 by auto
  have IHs: "(pre @ w, s) \<in> set (rules_under pre ts) \<longleftrightarrow> rule_of ts w = Some s" for w
    using 2 by auto
  have none: "rule_of ts (v # w) = None" for w
  proof -
    have "find_node ts v = None" using 2(3) by (auto simp: find_node_None)
    then show ?thesis by simp
  qed
  show ?case
  proof (cases w)
    case Nil
    then show ?thesis using IHs [of "[]"] rules_under_prefix [of pre s "pre @ [v]" ch]
      by (auto split: option.splits)
  next
    case (Cons d w')
    show ?thesis
    proof (cases "d = v")
      case True
      then show ?thesis using IHc [of w'] IHs [of w] none [of w'] Cons
          rules_under_prefix [of "pre @ [v]" s "pre @ [v]" ch]
        by (auto split: option.splits)
    next
      case False
      then show ?thesis using IHs [of w] Cons rules_under_prefix [of "pre @ d # w'" s "pre @ [v]" ch]
        by (auto split: option.splits)
    qed
  qed
qed simp

section \<open>Properties\<close>


text \<open>C32: \<^verbatim>\<open>tree_dump\<close> never writes outside the buffer it sizes by \<^verbatim>\<open>tree_depth\<close>, and the pairs
  it logs are exactly the rules of the tree.\<close>

theorem tree_dump_rules:
  assumes "represents h root ts" "no_nul ts"
  shows "\<exists>out. tree_dump h root = Some out \<and> (\<forall>w s. (w, s) \<in> set out \<longleftrightarrow> rule_of ts w = Some s)"
proof -
  have "tree_sorted ts" using assms(1) by (simp add: represents_def)
  then show ?thesis
    using tree_dump_lists [OF assms] rules_under_iff [of ts "[]"] by auto
qed

text \<open>\<^verbatim>\<open>tree_destroy\<close> of a tree frees each of its nodes once, touches no other node and
  never follows a pointer into freed memory.\<close>

theorem tree_destroy_frees:
  assumes "represents h root ts"
  shows "\<exists>h'. tree_destroy h root = Some h' \<and> brk h' = brk h \<and>
    (\<forall>a. nodes h' a = (if a \<in> set (addrs ts) then None else nodes h a))"
  using assms tree_destroy_chain unfolding represents_def by auto

text \<open>The nodes keep the characters as they are read while the searches compare their
  lower-case form, so a phrase that starts with an upper-case letter is put before the
  rules that are there and the root forgets them: of the rules \<^verbatim>\<open>ab\<close> and \<^verbatim>\<open>Zc\<close>, inserted in this
  order, a dump finds the second only.\<close>

lemma tree_uppercase_drops_rule:
  "do { (r, h) \<leftarrow> tree_insert empty_heap None ''ab'' 2 (Some ''X'');
        (r, h) \<leftarrow> tree_insert h r ''Zc'' 2 (Some ''Y'');
        tree_dump h r } = Some [(''Zc'', ''Y'')]"
  by code_simp

text \<open>The heap and the tree of the one rule \<^verbatim>\<open>a\<close>, on which the properties are applied.\<close>

definition heap_a :: tree_heap where
  "heap_a = \<lparr>nodes = [0 \<mapsto> \<lparr>tn_value = CHR ''a'', next_child = None, next_sibling = None,
     adapted = Some ''X''\<rparr>], brk = 1\<rparr>"

lemma heap_a_represents: "represents heap_a (Some 0) [AN 0 CHR ''a'' (Some ''X'') []]"
  by (auto simp: represents_def heap_a_def)


lemma tree_dump_rules_witness:
  "\<exists>out. tree_dump heap_a (Some 0) = Some out \<and> (''a'', ''X'') \<in> set out \<and> (''b'', ''X'') \<notin> set out"
  using tree_dump_rules [OF heap_a_represents] by auto

lemma tree_destroy_frees_witness:
  "\<exists>h'. tree_destroy heap_a (Some 0) = Some h' \<and> nodes h' 0 = None"
  using tree_destroy_frees [OF heap_a_represents] by auto

text \<open>A tree with the one rule \<^verbatim>\<open>ab\<close>, replaced by \<^verbatim>\<open>T\<close>.\<close>

definition heap_ab :: tree_heap where
  "heap_ab = \<lparr>nodes = [0 \<mapsto> \<lparr>tn_value = CHR ''a'', next_child = Some 1, next_sibling = None, adapted = None\<rparr>,
     1 \<mapsto> \<lparr>tn_value = CHR ''b'', next_child = None, next_sibling = None, adapted = Some ''T''\<rparr>], brk = 2\<rparr>"

definition tree_ab :: "anode list" where
  "tree_ab = [AN 0 CHR ''a'' None [AN 1 CHR ''b'' (Some ''T'') []]]"

lemma heap_ab_represents: "represents heap_ab (Some 0) tree_ab" "represents heap_ab None []"
  by (auto simp: represents_def heap_ab_def tree_ab_def)

lemma tree_ab_rule: "rule_of tree_ab u = (if u = ''ab'' then Some ''T'' else None)"
  by (cases u; cases "tl u") (auto simp: tree_ab_def neq_Nil_conv split: option.splits)

lemma node_at_Nil [simp]: "node_at [] w = None"
  by (cases w) simp_all

lemma tree_ab_live: "node_at tree_ab w \<noteq> None \<Longrightarrow> w = ''a'' \<or> w = ''ab''"
proof (cases w)
  case (Cons c cs)
  assume "node_at tree_ab w \<noteq> None"
  then have c: "c = CHR ''a''" "cs = [] \<or> node_at [AN 1 CHR ''b'' (Some ''T'') []] cs \<noteq> None"
    using Cons by (auto simp: tree_ab_def split: if_splits)
  show ?thesis
  proof (cases cs)
    case (Cons d ds)
    with c have "d = CHR ''b'' \<and> ds = []" by (auto split: if_splits)
    with c Cons \<open>w = c # cs\<close> show ?thesis by simp
  qed (use c \<open>w = c # cs\<close> in simp)
qed simp

end
