(* ===== verification/Context.thy ===== *)
theory Context
  imports RenaPrelude
begin

text \<open>
  The parser contexts of \<^verbatim>\<open>rena/src/context.c\<close>, \<^verbatim>\<open>context_full_link.c\<close> and
  \<^verbatim>\<open>context_html.c\<close>: state machines that see every input character and answer whether the
  rule search may look at it.  A \<^verbatim>\<open>context_t\<close> is a structure that starts with a function
  pointer; the model has one constructor for each function the code stores there, with the
  fields that follow the pointer.
\<close>

section \<open>Contexts\<close>

datatype context_t =
    Not_Allowed
  | Full_Link (fl_stage: int)
  | Html (h_stage: int) (h_ignore: int)

definition context_not_allowed :: "char \<Rightarrow> int" where
  "context_not_allowed input = 0"

section \<open>Links: from two slashes to the next white space\<close>

definition STATE_UNKNOWN :: int where "STATE_UNKNOWN = 0"
definition STATE_BAR :: int where "STATE_BAR = 1"
definition STATE_ALLOWED :: int where "STATE_ALLOWED = 2"
definition STATE_NONE :: int where "STATE_NONE = 3"
definition STATE_BAR_S :: int where "STATE_BAR_S = 4"
definition STATE_ALLOWED_S :: int where "STATE_ALLOWED_S = 5"
definition STATE_NONE_S :: int where "STATE_NONE_S = 6"

lemmas full_link_states =
  STATE_UNKNOWN_def STATE_BAR_def STATE_ALLOWED_def STATE_NONE_def STATE_BAR_S_def
  STATE_ALLOWED_S_def STATE_NONE_S_def

definition link_delim :: string where
  "link_delim = [SPACE, TAB, VT, LF, CR, FF]"

definition dsafe :: string where
  "dsafe = ''tvnrfTVNRF''"

text \<open>\<^verbatim>\<open>evaluate\<close> of \<^verbatim>\<open>context_full_link.c\<close>: the answer and the next stage.\<close>

definition full_link_evaluate :: "char \<Rightarrow> int \<Rightarrow> int \<times> int" where
  "full_link_evaluate input stage =
    (if stage = STATE_ALLOWED then
       (1, if input = BACKSLASH then STATE_ALLOWED_S
           else if strchr_found link_delim input then STATE_NONE else stage)
     else if stage = STATE_BAR then
       (0, if input = CHR ''/'' then STATE_ALLOWED
           else if input = BACKSLASH then STATE_BAR_S else STATE_NONE)
     else if stage = STATE_BAR_S then
       (0, if input = CHR ''/'' then STATE_ALLOWED else STATE_NONE)
     else if stage = STATE_ALLOWED_S then
       (1, if strchr_found dsafe input then STATE_NONE else STATE_ALLOWED)
     else if stage = STATE_NONE_S then
       (0, if input = CHR ''/'' then STATE_BAR else STATE_NONE)
     else
       (let stage = (if stage = STATE_UNKNOWN then STATE_NONE else stage)
        in (0, if input = CHR ''/'' then STATE_BAR
               else if input = BACKSLASH then STATE_NONE_S else stage)))"

section \<open>HTML: only the values of attributes\<close>

definition H_OUTSIDE_TAG :: int where "H_OUTSIDE_TAG = 1"
definition H_INSIDE_TAG :: int where "H_INSIDE_TAG = 2"
definition H_INSIDE_TAG_0 :: int where "H_INSIDE_TAG_0 = 3"
definition H_INSIDE_TAG_1 :: int where "H_INSIDE_TAG_1 = 4"
definition H_INSIDE_TAG_2 :: int where "H_INSIDE_TAG_2 = 5"
definition H_INSIDE_COMM_0 :: int where "H_INSIDE_COMM_0 = 6"
definition H_INSIDE_COMM_1 :: int where "H_INSIDE_COMM_1 = 7"
definition H_INSIDE_COMM_2 :: int where "H_INSIDE_COMM_2 = 8"
definition H_INSIDE_ATTRIB :: int where "H_INSIDE_ATTRIB = 9"
definition H_INSIDE_ATTRIB_IGN :: int where "H_INSIDE_ATTRIB_IGN = 10"
definition H_INSIDE_ATTRIB_0 :: int where "H_INSIDE_ATTRIB_0 = 11"
definition H_INSIDE_ATTRIB_S :: int where "H_INSIDE_ATTRIB_S = 12"
definition H_INSIDE_ATTRIB_S_IGN :: int where "H_INSIDE_ATTRIB_S_IGN = 13"
definition H_INSIDE_ATTRIB_D :: int where "H_INSIDE_ATTRIB_D = 14"
definition H_INSIDE_ATTRIB_D_IGN :: int where "H_INSIDE_ATTRIB_D_IGN = 15"

lemmas html_states =
  STATE_UNKNOWN_def H_OUTSIDE_TAG_def H_INSIDE_TAG_def H_INSIDE_TAG_0_def H_INSIDE_TAG_1_def
  H_INSIDE_TAG_2_def H_INSIDE_COMM_0_def H_INSIDE_COMM_1_def H_INSIDE_COMM_2_def
  H_INSIDE_ATTRIB_def H_INSIDE_ATTRIB_IGN_def H_INSIDE_ATTRIB_0_def H_INSIDE_ATTRIB_S_def
  H_INSIDE_ATTRIB_S_IGN_def H_INSIDE_ATTRIB_D_def H_INSIDE_ATTRIB_D_IGN_def

definition unless_ignored :: "int \<Rightarrow> int" where
  "unless_ignored ignore = (if ignore \<noteq> 0 then 0 else 1)"

text \<open>The functions return the answer, the next stage and the next \<^verbatim>\<open>ignore\<close> flag.\<close>

definition inside_tag :: "char \<Rightarrow> int \<Rightarrow> int \<Rightarrow> int \<times> int \<times> int" where
  "inside_tag input stage ignore =
    (unless_ignored ignore,
     if input = CHR ''>'' then H_OUTSIDE_TAG
     else if input = CHR ''='' then H_INSIDE_ATTRIB_0
     else if stage = H_INSIDE_TAG_0 then
       (if input = CHR ''!'' then H_INSIDE_TAG_1 else H_INSIDE_TAG)
     else if stage = H_INSIDE_TAG_1 \<or> stage = H_INSIDE_TAG_2 then
       (if input = CHR ''-'' then stage + 1 else H_INSIDE_TAG)
     else stage,
     ignore)"

definition attrib_common :: string where
  "attrib_common = [SPACE, TAB, VT, LF, CR, FF, CHR ''>'']"

definition inside_attribute :: "char \<Rightarrow> int \<Rightarrow> int \<Rightarrow> int \<times> int \<times> int" where
  "inside_attribute input stage ignore =
    (let delim = (if stage = H_INSIDE_ATTRIB_S then [SQUOTE]
                  else if stage = H_INSIDE_ATTRIB_D then [DQUOTE] else attrib_common);
         stage = (if stage = H_INSIDE_ATTRIB_0 then
                    (if input = SQUOTE then H_INSIDE_ATTRIB_S
                     else if input = DQUOTE then H_INSIDE_ATTRIB_D else H_INSIDE_ATTRIB)
                  else stage)
     in (1,
         if input = BACKSLASH then stage + 1
         else if strchr_found delim input then H_INSIDE_TAG else stage,
         0))"

definition inside_comment :: "char \<Rightarrow> int \<Rightarrow> int \<Rightarrow> int \<times> int \<times> int" where
  "inside_comment input stage ignore =
    (unless_ignored ignore,
     if stage = H_INSIDE_COMM_2 then
       (if input = CHR ''>'' then H_OUTSIDE_TAG
        else if input \<noteq> CHR ''-'' then H_INSIDE_COMM_0 else stage)
     else if stage = H_INSIDE_COMM_1 then
       (if input = CHR ''-'' then H_INSIDE_COMM_2 else H_INSIDE_COMM_0)
     else (if input = CHR ''-'' then H_INSIDE_COMM_1 else stage),
     ignore)"

definition outside_tag :: "char \<Rightarrow> int \<Rightarrow> int \<Rightarrow> int \<times> int \<times> int" where
  "outside_tag input stage ignore =
    (if strchr_found (link_delim @ ''<'') input \<and> input = CHR ''<''
     then (unless_ignored ignore, H_INSIDE_TAG_0, 1)
     else (unless_ignored ignore, stage, ignore))"

definition html_evaluate :: "char \<Rightarrow> int \<Rightarrow> int \<Rightarrow> int \<times> int \<times> int" where
  "html_evaluate input stage ignore =
    (if stage \<in> {H_INSIDE_ATTRIB, H_INSIDE_ATTRIB_0, H_INSIDE_ATTRIB_S, H_INSIDE_ATTRIB_D} then
       inside_attribute input stage ignore
     else if stage = H_INSIDE_ATTRIB_IGN then (unless_ignored ignore, H_INSIDE_ATTRIB, ignore)
     else if stage = H_INSIDE_ATTRIB_S_IGN then (unless_ignored ignore, H_INSIDE_ATTRIB_S, ignore)
     else if stage = H_INSIDE_ATTRIB_D_IGN then (unless_ignored ignore, H_INSIDE_ATTRIB_D, ignore)
     else if stage \<in> {H_INSIDE_TAG, H_INSIDE_TAG_0, H_INSIDE_TAG_1, H_INSIDE_TAG_2} then
       inside_tag input stage ignore
     else if stage \<in> {H_INSIDE_COMM_0, H_INSIDE_COMM_1, H_INSIDE_COMM_2} then
       inside_comment input stage ignore
     else if stage \<in> {STATE_UNKNOWN, H_OUTSIDE_TAG} then
       outside_tag input stage ignore
     else (unless_ignored ignore, stage, ignore))"

text \<open>The call of \<^verbatim>\<open>parser_fnc\<close>: the two \<^verbatim>\<open>public_entry\<close> functions store the new fields
  in the context they get back from the database object.\<close>

definition parser_fnc :: "context_t \<Rightarrow> char \<Rightarrow> int \<times> context_t" where
  "parser_fnc c input =
    (case c of
       Not_Allowed \<Rightarrow> (context_not_allowed input, c)
     | Full_Link s \<Rightarrow> (case full_link_evaluate input s of (r, s') \<Rightarrow> (r, Full_Link s'))
     | Html s i \<Rightarrow> (case html_evaluate input s i of (r, s', i') \<Rightarrow> (r, Html s' i')))"

text \<open>The answers to a text, and the context after it.\<close>

fun answers :: "context_t \<Rightarrow> string \<Rightarrow> int list" where
  "answers c [] = []"
| "answers c (x # xs) = fst (parser_fnc c x) # answers (snd (parser_fnc c x)) xs"

fun after :: "context_t \<Rightarrow> string \<Rightarrow> context_t" where
  "after c [] = c"
| "after c (x # xs) = after (snd (parser_fnc c x)) xs"

section \<open>The contract of a parser context\<close>

text \<open>What the database relies on: every call answers 0 or 1 and keeps the context in its
  legal states.\<close>

locale parser_context =
  fixes step :: "'c \<Rightarrow> char \<Rightarrow> int \<times> 'c" and legal :: "'c \<Rightarrow> bool"
  assumes step_answer: "legal c \<Longrightarrow> fst (step c x) = 0 \<or> fst (step c x) = 1"
    and step_legal: "legal c \<Longrightarrow> legal (snd (step c x))"
begin

fun run_after :: "'c \<Rightarrow> string \<Rightarrow> 'c" where
  "run_after c [] = c"
| "run_after c (x # xs) = run_after (snd (step c x)) xs"

fun run_answers :: "'c \<Rightarrow> string \<Rightarrow> int list" where
  "run_answers c [] = []"
| "run_answers c (x # xs) = fst (step c x) # run_answers (snd (step c x)) xs"

lemma run_legal: "legal c \<Longrightarrow> legal (run_after c xs)"
  by (induction xs arbitrary: c) (auto simp: step_legal)

lemma run_answers_01: "legal c \<Longrightarrow> set (run_answers c xs) \<subseteq> {0, 1}"
proof (induction xs arbitrary: c)
  case (Cons x xs)
  from Cons.IH [OF step_legal [OF Cons.prems]] step_answer [OF Cons.prems, of x]
  show ?case by auto
qed simp

lemma run_length: "length (run_answers c xs) = length xs"
  by (induction xs arbitrary: c) auto

end

definition context_legal :: "context_t \<Rightarrow> bool" where
  "context_legal c = (case c of
     Not_Allowed \<Rightarrow> True | Full_Link s \<Rightarrow> 0 \<le> s \<and> s \<le> 6
   | Html s i \<Rightarrow> 0 \<le> s \<and> s \<le> 15 \<and> (i = 0 \<or> i = 1))"

lemma full_link_step:
  "0 \<le> s \<Longrightarrow> s \<le> 6 \<Longrightarrow> fst (full_link_evaluate x s) \<in> {0, 1} \<and> 0 \<le> snd (full_link_evaluate x s) \<and>
     snd (full_link_evaluate x s) \<le> 6"
  by (auto simp: full_link_evaluate_def full_link_states Let_def)

lemma unless_ignored_01: "unless_ignored i = 0 \<or> unless_ignored i = 1"
  by (simp add: unless_ignored_def)

lemma html_step:
  assumes "0 \<le> s" "s \<le> 15" "i = 0 \<or> i = 1" "html_evaluate x s i = (r, s', i')"
  shows "(r = 0 \<or> r = 1) \<and> 0 \<le> s' \<and> s' \<le> 15 \<and> (i' = 0 \<or> i' = 1)"
  using assms unless_ignored_01 [of i]
  by (auto simp: html_evaluate_def html_states inside_attribute_def inside_tag_def inside_comment_def
      outside_tag_def Let_def split: if_splits)

lemma parser_fnc_legal:
  assumes "context_legal c"
  shows "(fst (parser_fnc c x) = 0 \<or> fst (parser_fnc c x) = 1) \<and> context_legal (snd (parser_fnc c x))"
proof (cases c)
  case (Full_Link s)
  with assms full_link_step [of s x] show ?thesis
    by (cases "full_link_evaluate x s") (auto simp: context_legal_def parser_fnc_def)
next
  case (Html s i)
  obtain r s' i' where e: "html_evaluate x s i = (r, s', i')" by (cases "html_evaluate x s i")
  have "0 \<le> s" "s \<le> 15" "i = 0 \<or> i = 1" using assms Html by (simp_all add: context_legal_def)
  from html_step [OF this e] Html e show ?thesis by (simp add: context_legal_def parser_fnc_def)
qed (simp add: context_legal_def parser_fnc_def context_not_allowed_def)

interpretation pc: parser_context parser_fnc context_legal
  by unfold_locales (use parser_fnc_legal in blast)+

lemma answers_run: "answers c xs = pc.run_answers c xs"
  by (induction xs arbitrary: c) auto

lemma after_run: "after c xs = pc.run_after c xs"
  by (induction xs arbitrary: c) auto

lemma after_append: "after c (xs @ ys) = after (after c xs) ys"
  by (induction xs arbitrary: c) auto

lemma answers_append: "answers c (xs @ ys) = answers c xs @ answers (after c xs) ys"
  by (induction xs arbitrary: c) auto

section \<open>What the link context allows\<close>

definition blank :: "char \<Rightarrow> bool" where
  "blank c \<longleftrightarrow> c \<in> set link_delim"

text \<open>The text read so far holds two slashes with no white space after them.\<close>

definition in_link :: "string \<Rightarrow> bool" where
  "in_link p \<longleftrightarrow> (\<exists>a b. p = a @ ''//'' @ b \<and> (\<forall>c \<in> set b. \<not> blank c))"

lemma not_in_link_Nil [simp]: "\<not> in_link []"
  by (simp add: in_link_def)

lemma in_link_snoc:
  "in_link (p @ [c]) \<longleftrightarrow> (in_link p \<and> \<not> blank c) \<or> (c = CHR ''/'' \<and> p \<noteq> [] \<and> last p = CHR ''/'')"
proof
  assume "in_link (p @ [c])"
  then obtain a b where ab: "p @ [c] = a @ ''//'' @ b" "\<forall>c \<in> set b. \<not> blank c"
    by (auto simp: in_link_def)
  show "(in_link p \<and> \<not> blank c) \<or> (c = CHR ''/'' \<and> p \<noteq> [] \<and> last p = CHR ''/'')"
  proof (cases b rule: rev_cases)
    case Nil
    with ab(1) have "p @ [c] = (a @ ''/'') @ [CHR ''/'']" by simp
    then have "p = a @ ''/''" "c = CHR ''/''" by (simp_all only: append1_eq_conv)
    then show ?thesis by simp
  next
    case (snoc b' d)
    with ab(1) have "p @ [c] = (a @ ''//'' @ b') @ [d]" by simp
    then have "p = a @ ''//'' @ b'" "c = d" by (simp_all only: append1_eq_conv)
    then show ?thesis using ab(2) snoc by (auto simp: in_link_def)
  qed
next
  assume "(in_link p \<and> \<not> blank c) \<or> (c = CHR ''/'' \<and> p \<noteq> [] \<and> last p = CHR ''/'')"
  then show "in_link (p @ [c])"
  proof (elim disjE conjE)
    assume "in_link p" "\<not> blank c"
    then obtain a b where "p @ [c] = a @ ''//'' @ (b @ [c])" "\<forall>d \<in> set (b @ [c]). \<not> blank d"
      by (auto simp: in_link_def)
    then show ?thesis unfolding in_link_def by blast
  next
    assume c: "c = CHR ''/''" "p \<noteq> []" "last p = CHR ''/''"
    then have "p @ [c] = butlast p @ ''//'' @ []" by (metis append_butlast_last_id append.assoc append_Cons append_Nil)
    then show ?thesis unfolding in_link_def by (metis empty_iff empty_set)
  qed
qed

text \<open>The stage after a text without back slashes.\<close>

definition link_stage :: "string \<Rightarrow> int" where
  "link_stage p = (if p = [] then STATE_UNKNOWN else if in_link p then STATE_ALLOWED
     else if last p = CHR ''/'' then STATE_BAR else STATE_NONE)"

lemma link_stage_snoc:
  assumes "x \<noteq> BACKSLASH"
  shows "full_link_evaluate x (link_stage p) =
    (if in_link p then 1 else 0, link_stage (p @ [x]))"
  using assms
  by (auto simp: link_stage_def in_link_snoc full_link_evaluate_def full_link_states Let_def
      blank_def link_delim_def)

lemma full_link_after:
  "BACKSLASH \<notin> set p \<Longrightarrow> after (Full_Link STATE_UNKNOWN) p = Full_Link (link_stage p)"
proof (induction p rule: rev_induct)
  case (snoc x p)
  then show ?case by (auto simp: after_append parser_fnc_def link_stage_snoc)
qed (simp add: link_stage_def)

section \<open>Properties\<close>





text \<open>A text without an equals sign never enters an attribute.\<close>

definition html_idle :: "context_t \<Rightarrow> bool" where
  "html_idle c = (\<exists>s. c = Html s 1 \<and> 0 \<le> s \<and> s < H_INSIDE_ATTRIB)"

lemma html_idle_step:
  "html_idle c \<Longrightarrow> x \<noteq> CHR ''='' \<Longrightarrow> fst (parser_fnc c x) = 0 \<and> html_idle (snd (parser_fnc c x))"
  by (auto simp: html_idle_def parser_fnc_def html_evaluate_def html_states inside_tag_def
      inside_comment_def outside_tag_def unless_ignored_def)

lemma html_idle_run:
  "html_idle c \<Longrightarrow> CHR ''='' \<notin> set xs \<Longrightarrow> set (answers c xs) \<subseteq> {0} \<and> html_idle (after c xs)"
proof (induction xs arbitrary: c)
  case (Cons x xs)
  then have "fst (parser_fnc c x) = 0 \<and> html_idle (snd (parser_fnc c x))"
    by (intro html_idle_step) auto
  moreover from this Cons have "set (answers (snd (parser_fnc c x)) xs) \<subseteq> {0} \<and>
      html_idle (after (snd (parser_fnc c x)) xs)" by auto
  ultimately show ?case by simp
qed simp



lemma html_quoted_run:
  assumes "DQUOTE \<notin> set v" "BACKSLASH \<notin> set v"
  shows "answers (Html H_INSIDE_ATTRIB_D i) (v @ [DQUOTE]) = replicate (Suc (length v)) 1 \<and>
    after (Html H_INSIDE_ATTRIB_D i) (v @ [DQUOTE]) = Html H_INSIDE_TAG 0"
  using assms
proof (induction v arbitrary: i)
  case (Cons x v)
  have "parser_fnc (Html H_INSIDE_ATTRIB_D i) x = (1, Html H_INSIDE_ATTRIB_D 0)"
    using Cons.prems by (auto simp: parser_fnc_def html_evaluate_def html_states inside_attribute_def Let_def)
  with Cons show ?case by simp
qed (simp add: parser_fnc_def html_evaluate_def html_states inside_attribute_def Let_def)

text \<open>The value of a double-quoted attribute is looked at from its opening quote to its
  closing quote, and the closing quote leads back into the tag; the value may have any length
  and any characters but the quote and back slashes.\<close>

theorem html_quoted_value:
  assumes "DQUOTE \<notin> set v" "BACKSLASH \<notin> set v"
  shows "answers (Html H_INSIDE_ATTRIB_0 i) (DQUOTE # v @ [DQUOTE]) = replicate (length v + 2) 1 \<and>
    after (Html H_INSIDE_ATTRIB_0 i) (DQUOTE # v @ [DQUOTE]) = Html H_INSIDE_TAG 0"
proof -
  have "parser_fnc (Html H_INSIDE_ATTRIB_0 i) DQUOTE = (1, Html H_INSIDE_ATTRIB_D 0)"
    by (simp add: parser_fnc_def html_evaluate_def html_states inside_attribute_def attrib_common_def Let_def)
  then show ?thesis using html_quoted_run [OF assms, of 0] by simp
qed

lemma html_quoted_value_witness:
  "after (Html H_INSIDE_ATTRIB_0 1) (DQUOTE # ''/a'' @ [DQUOTE]) = Html H_INSIDE_TAG 0"
  using html_quoted_value [of "''/a''" 1] by simp

text \<open>The \<^verbatim>\<open>>\<close> that ends a tag right after an unquoted attribute value ends the value only:
  the machine is still inside the tag, and the text that follows is treated as part of it.\<close>

lemma html_unquoted_value_keeps_tag:
  "after (Html STATE_UNKNOWN 1) ''<a href=x>'' = Html H_INSIDE_TAG 0 \<and>
   after (Html STATE_UNKNOWN 1) ''<a href=x>a=b'' = Html H_INSIDE_ATTRIB 0"
  by code_simp

end
