(* ===== verification/Database.thy ===== *)
theory Database
  imports Tree Context
begin

text \<open>
  The rule database of \<^verbatim>\<open>rena/src/database.c\<close> and its reader \<^verbatim>\<open>database_reader.c\<close>: the
  three rule trees, filled from the text files of a directory, and the database object of a
  connection, which receives the stream one character at a time, follows all rules that may
  start at any position, holds back what may still become a match, and hands out the
  replacement of a match.

  All trees live in one heap.  The list of candidates is private to its object and nobody
  keeps a pointer into it, so the linked list is a HOL list; \<^verbatim>\<open>actual\<close> stays an address.
  The input buffer is the array with its capacity \<^verbatim>\<open>input_rs\<close>, of which the first
  \<^verbatim>\<open>input_sz\<close> bytes are in use.
\<close>

section \<open>The trees\<close>

record database =
  dpath :: string
  suffix :: string
  no_proxy_rules :: ptr
  to_server_rules :: ptr
  from_server_rules :: ptr

definition MAX_STR :: nat where "MAX_STR = 1024"

text \<open>\<^verbatim>\<open>filename_valid\<close>: 0 accepts.  The offset \<^verbatim>\<open>strlen(filename) - 3\<close> of a shorter name
  wraps around and points before the name: the crash.\<close>

definition filename_valid :: "string \<Rightarrow> int option" where
  "filename_valid filename =
    (if filename \<noteq> [] \<and> hd filename = CHR ''_'' then Some 1
     else if length filename < 3 then None
     else Some (if drop (length filename - 3) filename \<noteq> ''txt'' then 1 else 0))"

text \<open>The text before the first space, and the text after it.\<close>

definition split_space :: "string \<Rightarrow> string \<times> string option" where
  "split_space s = (case strchr s SPACE of
     None \<Rightarrow> (s, None) | Some i \<Rightarrow> (take i s, Some (drop (Suc i) s)))"

text \<open>\<^verbatim>\<open>rename_domain\<close>.  Without a second word glibc prints the null pointer as \<^verbatim>\<open>(null)\<close>.\<close>

definition rename_domain :: "tree_heap \<Rightarrow> database \<Rightarrow> string \<Rightarrow> (tree_heap \<times> database) option" where
  "rename_domain h db params = (case split_space params of (params, rest) \<Rightarrow>
     let second_param = (case rest of None \<Rightarrow> ''(null)'' | Some r \<Rightarrow> fst (split_space r));
         victim = snprintf_to MAX_STR (second_param @ suffix db)
     in do {
       (r1, h) \<leftarrow> tree_insert h (to_server_rules db) victim (length victim) (Some params);
       (r2, h) \<leftarrow> tree_insert h (from_server_rules db) params (length params) (Some victim);
       Some (h, db\<lparr>to_server_rules := r1, from_server_rules := r2\<rparr>) })"

definition no_proxy :: "tree_heap \<Rightarrow> database \<Rightarrow> string \<Rightarrow> (tree_heap \<times> database) option" where
  "no_proxy h db params = (case split_space params of (params, _) \<Rightarrow> do {
     (r, h) \<leftarrow> tree_insert h (no_proxy_rules db) params (length params) None;
     Some (h, db\<lparr>no_proxy_rules := r\<rparr>) })"

definition db_read_line ::
  "tree_heap \<Rightarrow> database \<Rightarrow> string \<Rightarrow> string \<Rightarrow> (tree_heap \<times> database) option" where
  "db_read_line h db head tail =
    (if head = ''proxy_domain_rename'' \<or> head = ''ProxyHostnameEdit'' then rename_domain h db tail
     else if head = ''NeverProxy'' \<or> head = ''no_proxy'' then no_proxy h db tail
     else Some (h, db))"

section \<open>Reading the rule files\<close>

text \<open>One \<^verbatim>\<open>fscanf(fd, " %ms %m[^\n]", ...)\<close>: the number of conversions, the two words and
  the rest of the file.  The white space in the format also crosses line ends.\<close>

definition scan_line :: "string \<Rightarrow> nat \<times> string \<times> string \<times> string" where
  "scan_line t =
    (let t1 = dropWhile is_space t;
         head = takeWhile (\<lambda>c. \<not> is_space c) t1;
         t2 = dropWhile is_space (dropWhile (\<lambda>c. \<not> is_space c) t1);
         tail = takeWhile (\<lambda>c. c \<noteq> LF) t2;
         t3 = dropWhile (\<lambda>c. c \<noteq> LF) t2
     in if head = [] then (0, [], [], t1) else if tail = [] then (1, head, [], t2)
        else (2, head, tail, t3))"

lemma dropWhile_length: "length (dropWhile P xs) \<le> length xs"
  by (induction xs) auto

lemma dropWhile_shorter: "takeWhile P xs \<noteq> [] \<Longrightarrow> length (dropWhile P xs) < length xs"
  by (cases xs) (auto simp: less_Suc_eq_le dropWhile_length split: if_splits)

lemma scan_line_shorter:
  assumes "scan_line t = (2, head, tail, rest)"
  shows "length rest < length t"
proof -
  let ?t1 = "dropWhile is_space t"
  let ?u = "dropWhile (\<lambda>c. \<not> is_space c) ?t1"
  have "takeWhile (\<lambda>c. \<not> is_space c) ?t1 \<noteq> []"
    using assms by (auto simp: scan_line_def Let_def split: if_splits)
  then have "length ?u < length ?t1" by (rule dropWhile_shorter)
  moreover have "rest = dropWhile (\<lambda>c. c \<noteq> LF) (dropWhile is_space ?u)"
    using assms by (auto simp: scan_line_def Let_def split: if_splits)
  then have "length rest \<le> length ?u" by (metis dropWhile_length le_trans)
  ultimately show ?thesis using dropWhile_length [of is_space t] by simp
qed

text \<open>The \<^verbatim>\<open>while\<close> loop of \<^verbatim>\<open>database_reader_file\<close> on the contents of the file.\<close>

function db_read_lines :: "tree_heap \<Rightarrow> database \<Rightarrow> string \<Rightarrow> (tree_heap \<times> database) option" where
  "db_read_lines h db t =
    (case scan_line t of (n, head, tail, rest) \<Rightarrow>
       if n = 2 then do {
         (h, db) \<leftarrow> db_read_line h db head tail;
         db_read_lines h db rest }
       else Some (h, db))"
  by pat_completeness auto

termination db_read_lines
  by (relation "measure (\<lambda>(h, db, t). length t)") (auto dest: scan_line_shorter [OF sym])

text \<open>A directory as \<^verbatim>\<open>readdir\<close> lists it: name, type, and for a regular file its contents,
  \<^const>\<open>None\<close> when it cannot be opened.\<close>

datatype dir_type = DT_DIR | DT_REG | DT_OTHER

type_synonym dirent = "string \<times> dir_type \<times> string option"

definition database_reader_file ::
  "tree_heap \<Rightarrow> database \<Rightarrow> string \<Rightarrow> string option \<Rightarrow> (tree_heap \<times> database) option" where
  "database_reader_file h db filename contents = do {
     v \<leftarrow> filename_valid filename;
     if v \<noteq> 0 then Some (h, db)
     else (case contents of None \<Rightarrow> Some (h, db) | Some t \<Rightarrow> db_read_lines h db t) }"

fun database_reader_entries ::
  "tree_heap \<Rightarrow> database \<Rightarrow> dirent list \<Rightarrow> (tree_heap \<times> database) option" where
  "database_reader_entries h db [] = Some (h, db)"
| "database_reader_entries h db ((name, ty, contents) # es) =
    (if name = ''.'' \<or> name = ''..'' then database_reader_entries h db es
     else if ty \<noteq> DT_REG then database_reader_entries h db es
     else do {
       (h, db) \<leftarrow> database_reader_file h db name contents;
       database_reader_entries h db es })"

text \<open>\<^verbatim>\<open>database_reader\<close>: a directory that cannot be opened is \<^const>\<open>None\<close>; \<open>closed\<close> is the
  result of \<^verbatim>\<open>closedir\<close>.\<close>

definition database_reader ::
  "tree_heap \<Rightarrow> database \<Rightarrow> dirent list option \<Rightarrow> int \<Rightarrow> (int \<times> tree_heap \<times> database) option" where
  "database_reader h db dir closed =
    (case dir of
       None \<Rightarrow> Some (-1, h, db)
     | Some es \<Rightarrow> do { (h, db) \<leftarrow> database_reader_entries h db es; Some (closed, h, db) })"

definition database_free :: "tree_heap \<Rightarrow> database option \<Rightarrow> tree_heap option" where
  "database_free h odb =
    (case odb of
       None \<Rightarrow> Some h
     | Some db \<Rightarrow> do {
         h \<leftarrow> tree_destroy h (no_proxy_rules db);
         h \<leftarrow> tree_destroy h (to_server_rules db);
         tree_destroy h (from_server_rules db) })"

text \<open>\<^verbatim>\<open>database_init\<close> with the two strings of the configuration and the outcome of reading
  the directory; it returns the new value of \<^verbatim>\<open>modules->db\<close>.\<close>

definition database_init ::
  "tree_heap \<Rightarrow> database option \<Rightarrow> string \<Rightarrow> string \<Rightarrow> dirent list option \<Rightarrow> int \<Rightarrow>
     (tree_heap \<times> database option) option" where
  "database_init h odb dir_path suff dir closed =
    (case odb of
       Some db \<Rightarrow> Some (h, Some db)
     | None \<Rightarrow> do {
         (ret, h, db) \<leftarrow> database_reader h \<lparr>dpath = dir_path, suffix = suff, no_proxy_rules = None,
            to_server_rules = None, from_server_rules = None\<rparr> dir closed;
         if ret \<noteq> 0 then do { h \<leftarrow> database_free h (Some db); Some (h, None) }
         else Some (h, Some db) })"

definition database_get_suffix :: "database option \<Rightarrow> string option" where
  "database_get_suffix odb = map_option suffix odb"

section \<open>The object of a connection\<close>

datatype di_output = DBI_NOT_HOLD | DBI_FEED_ME | DBI_TRANSFORMATION_FOUND

record database_object =
  context_of :: "context_t option"
  never_rules :: ptr
  side_rules :: ptr
  dbo_list :: "(addr \<times> nat) list"
  transformation :: "string option"
  input :: string
  input_sz :: nat
  input_rs :: nat
  transformation_consume :: nat

definition database_instance_create :: "database \<Rightarrow> bool \<Rightarrow> database_object" where
  "database_instance_create db is_victim =
    \<lparr>context_of = None, never_rules = no_proxy_rules db,
     side_rules = (if is_victim then from_server_rules db else to_server_rules db),
     dbo_list = [], transformation = None, input = [], input_sz = 0, input_rs = 0,
     transformation_consume = 0\<rparr>"

definition dbo_list_prepend :: "database_object \<Rightarrow> ptr \<Rightarrow> database_object" where
  "dbo_list_prepend d t =
    (case t of None \<Rightarrow> d | Some p \<Rightarrow> d\<lparr>dbo_list := (p, 1) # dbo_list d\<rparr>)"

definition database_instance_add_input :: "database_object \<Rightarrow> char \<Rightarrow> database_object option" where
  "database_instance_add_input d c =
    (let d = (if 1 + input_sz d \<ge> input_rs d
              then d\<lparr>input := input d @ replicate 16 NUL, input_rs := input_rs d + 16\<rparr> else d)
     in do {
       b \<leftarrow> buf_put (input d) (input_sz d) c;
       Some (d\<lparr>input := b, input_sz := input_sz d + 1\<rparr>) })"

definition clear_input :: "database_object \<Rightarrow> database_object" where
  "clear_input d = d\<lparr>input_sz := 0\<rparr>"

text \<open>\<^verbatim>\<open>consume_input\<close> calls \<^verbatim>\<open>abort\<close> when more is consumed than is held.\<close>

definition consume_input :: "database_object \<Rightarrow> nat \<Rightarrow> database_object option" where
  "consume_input d x =
    (if x \<ge> input_sz d then (if x > input_sz d then None else Some (d\<lparr>input_sz := 0\<rparr>))
     else Some (d\<lparr>input_sz := input_sz d - x\<rparr>))"

definition destroy_input :: "database_object \<Rightarrow> database_object" where
  "destroy_input d = d\<lparr>input := [], input_sz := 0, input_rs := 0\<rparr>"

text \<open>The walk over the candidates, with the two operations of the tree it calls as
  arguments; \<^verbatim>\<open>dbo_list_foreach\<close> instantiates them.\<close>

fun foreach_with ::
  "(addr \<Rightarrow> char \<Rightarrow> ptr option) \<Rightarrow> (addr \<Rightarrow> string option option) \<Rightarrow> char \<Rightarrow> (addr \<times> nat) list \<Rightarrow>
   nat \<Rightarrow> string option \<Rightarrow> ((addr \<times> nat) list \<times> nat \<times> string option) option" where
  "foreach_with child adap c [] tc tr = Some ([], tc, tr)"
| "foreach_with child adap c ((p, depth) # rest) tc tr = do {
     aux \<leftarrow> child p c;
     case aux of
       None \<Rightarrow> foreach_with child adap c rest tc tr
     | Some a \<Rightarrow> do {
         let depth = depth + 1;
         ad \<leftarrow> adap a;
         let (tc, tr) = (if ad \<noteq> None \<and> (tc = 0 \<or> tc < depth) then (depth, ad) else (tc, tr));
         (l, tc, tr) \<leftarrow> foreach_with child adap c rest tc tr;
         Some ((a, depth) # l, tc, tr) } }"

definition node_adapted :: "tree_heap \<Rightarrow> addr \<Rightarrow> string option option" where
  "node_adapted h a = map_option adapted (tree_deref h a)"

definition dbo_list_foreach :: "tree_heap \<Rightarrow> database_object \<Rightarrow> char \<Rightarrow> database_object option" where
  "dbo_list_foreach h d c = do {
     (l, tc, tr) \<leftarrow> foreach_with (\<lambda>p. tree_get_child h (Some p)) (node_adapted h) c (dbo_list d)
       (transformation_consume d) (transformation d);
     Some (d\<lparr>dbo_list := l, transformation_consume := tc, transformation := tr\<rparr>) }"

definition database_instance_evaluate_context ::
  "database_object \<Rightarrow> char \<Rightarrow> int \<times> database_object" where
  "database_instance_evaluate_context d c =
    (case context_of d of
       None \<Rightarrow> (1, d)
     | Some x \<Rightarrow> (case parser_fnc x c of (r, x') \<Rightarrow> (r, d\<lparr>context_of := Some x'\<rparr>)))"

text \<open>The two calls of \<^verbatim>\<open>dbo_list_prepend\<close> in \<^verbatim>\<open>database_instance_lookup\<close>.\<close>

definition dbo_start :: "tree_heap \<Rightarrow> database_object \<Rightarrow> char \<Rightarrow> database_object option" where
  "dbo_start h d c = do {
     n \<leftarrow> tree_get_sibling h (never_rules d) c;
     let d = dbo_list_prepend d n;
     s \<leftarrow> tree_get_sibling h (side_rules d) c;
     Some (dbo_list_prepend d s) }"

text \<open>\<^verbatim>\<open>database_instance_lookup\<close>: its result, what it stores through \<^verbatim>\<open>o\<close> (its callers
  start with a null pointer there), and the object.\<close>

definition database_instance_lookup ::
  "tree_heap \<Rightarrow> database_object \<Rightarrow> char \<Rightarrow>
     (di_output \<times> string option \<times> database_object) option" where
  "database_instance_lookup h d c = (case database_instance_evaluate_context d c of (allowed, d) \<Rightarrow>
     if allowed \<noteq> 0 then do {
       d \<leftarrow> dbo_list_foreach h d c;
       let was_empty = (dbo_list d = []);
       d \<leftarrow> dbo_start h d c;
       if was_empty \<and> transformation_consume d > 0 then do {
         t \<leftarrow> transformation d;
         d \<leftarrow> consume_input d (transformation_consume d);
         Some (DBI_TRANSFORMATION_FOUND, Some t, d\<lparr>transformation_consume := 0, transformation := None\<rparr>) }
       else Some ((if dbo_list d = [] then DBI_NOT_HOLD else DBI_FEED_ME), None, d) }
     else Some ((if dbo_list d = [] then DBI_NOT_HOLD else DBI_FEED_ME), None, d))"

definition database_instance_dump ::
  "tree_heap \<Rightarrow> database_object \<Rightarrow> (string \<times> string) list option" where
  "database_instance_dump h d = do {
     a \<leftarrow> tree_dump h (never_rules d);
     b \<leftarrow> tree_dump h (side_rules d);
     Some (a @ b) }"

definition database_instance_set_context ::
  "database_object \<Rightarrow> context_t option \<Rightarrow> database_object" where
  "database_instance_set_context d c = d\<lparr>context_of := c\<rparr>"

definition database_instance_get_context :: "database_object \<Rightarrow> context_t option" where
  "database_instance_get_context d = context_of d"

definition database_instance_get_holding ::
  "database_object \<Rightarrow> bool \<Rightarrow> string \<times> database_object" where
  "database_instance_get_holding d force =
    (if dbo_list d = [] \<or> force then (take (input_sz d) (input d), clear_input d) else ([], d))"

definition database_instance_get_holding_size :: "database_object \<Rightarrow> nat" where
  "database_instance_get_holding_size d = input_sz d"

text \<open>\<^verbatim>\<open>database_instance_destroy\<close> releases what the object owns; the rules stay.\<close>

definition database_instance_destroy :: "database_object \<Rightarrow> database_object" where
  "database_instance_destroy d = destroy_input (d\<lparr>dbo_list := []\<rparr>)"

text \<open>The setters of \<^verbatim>\<open>context.c\<close>, \<^verbatim>\<open>context_full_link.c\<close> and \<^verbatim>\<open>context_html.c\<close>.\<close>

definition context_destroy :: "database_object \<Rightarrow> database_object" where
  "context_destroy d =
    (case database_instance_get_context d of
       None \<Rightarrow> d | Some _ \<Rightarrow> database_instance_set_context d None)"

definition context_everything_allowed :: "database_object \<Rightarrow> database_object" where
  "context_everything_allowed d = context_destroy d"

definition context_nothing_allowed :: "database_object \<Rightarrow> database_object" where
  "context_nothing_allowed d = database_instance_set_context d (Some Not_Allowed)"

definition context_set_full_link_parser :: "database_object \<Rightarrow> database_object" where
  "context_set_full_link_parser d = database_instance_set_context d (Some (Full_Link 0))"

definition context_set_html_parser :: "database_object \<Rightarrow> database_object" where
  "context_set_html_parser d = database_instance_set_context d (Some (Html 0 1))"

section \<open>What the rule files build\<close>

text \<open>A database whose three trees are well formed and share no node.\<close>

definition db_trees ::
  "tree_heap \<Rightarrow> database \<Rightarrow> anode list \<Rightarrow> anode list \<Rightarrow> anode list \<Rightarrow> bool" where
  "db_trees h db nts tos frs \<longleftrightarrow>
     represents h (no_proxy_rules db) nts \<and> represents h (to_server_rules db) tos \<and>
     represents h (from_server_rules db) frs \<and>
     distinct (addrs nts @ addrs tos @ addrs frs)"

lemma represents_frame:
  assumes "represents h r us" "\<forall>x. x \<in> set (addrs us) \<longrightarrow> nodes h' x = nodes h x" "unused h'"
  shows "represents h' r us"
  using assms chain_cong [of us "nodes h'" "nodes h" None] by (auto simp: represents_def unused_def)

lemma represents_below:
  "represents h r us \<Longrightarrow> x \<in> set (addrs us) \<Longrightarrow> x < brk h"
  using chain_below_brk by (auto simp: represents_def unused_def)

text \<open>Inserting into one tree leaves a tree with other nodes alone.\<close>

lemma insert_keeps_other:
  assumes r: "represents h root ts" and low: "lower v = v" and ne: "v \<noteq> []"
    and others: "\<forall>(q, us) \<in> set qs. represents h q us \<and> set (addrs us) \<inter> set (addrs ts) = {}"
  obtains root' h' ts' where "tree_insert h root v (length v) ad = Some (root', h')"
    "represents h' root' ts'"
    "\<forall>u. rule_of ts' u = (if u = v then first_wins (rule_of ts v) ad else rule_of ts u)"
    "\<forall>(q, us) \<in> set qs. represents h' q us \<and> set (addrs us) \<inter> set (addrs ts') = {}"
proof -
  obtain root' h' ts' where i: "tree_insert h root v (length v) ad = Some (root', h')"
    "represents h' root' ts'" "set (addrs ts') \<subseteq> set (addrs ts) \<union> {brk h..<brk h'}"
    "\<forall>x. x \<notin> set (addrs ts) \<longrightarrow> x < brk h \<longrightarrow> nodes h' x = nodes h x"
    "\<forall>u. rule_of ts' u = (if u = v then first_wins (rule_of ts v) ad else rule_of ts u)"
    using insert_represents [OF r low ne, of ad] by blast
  have un: "unused h'" using i(2) by (simp add: represents_def unused_def)
  have "represents h' q us \<and> set (addrs us) \<inter> set (addrs ts') = {}" if "(q, us) \<in> set qs" for q us
  proof -
    have q: "represents h q us" "set (addrs us) \<inter> set (addrs ts) = {}" using others that by auto
    have "nodes h' x = nodes h x" if "x \<in> set (addrs us)" for x
      using i(4) q(2) represents_below [OF q(1) that] that by blast
    then have "represents h' q us" using represents_frame [OF q(1) _ un] by blast
    moreover have "set (addrs us) \<inter> set (addrs ts') = {}"
      using i(3) q represents_below [OF q(1)] by fastforce
    ultimately show ?thesis by blast
  qed
  with i that show ?thesis by blast
qed

lemma split_space_two: "SPACE \<notin> set a \<Longrightarrow> split_space (a @ SPACE # b) = (a, Some b)"
  by (simp add: split_space_def strchr_split)

lemma split_space_one: "SPACE \<notin> set a \<Longrightarrow> split_space a = (a, None)"
proof -
  assume "SPACE \<notin> set a"
  then have "strchr a SPACE = None" by simp
  then show ?thesis unfolding split_space_def by (simp only: option.case)
qed

text \<open>The line \<^verbatim>\<open>proxy_domain_rename outer inner\<close> of a rule file puts the pair of rules into
  the two directions that undo each other: towards the server the name with the suffix
  becomes the outer name, towards the client the outer name becomes the one with the suffix;
  names that already have a rule keep it, and no other rule changes.\<close>

lemma rename_domain_rules:
  assumes "db_trees h db nts tos frs" "SPACE \<notin> set a" "SPACE \<notin> set b" "a \<noteq> []" "b \<noteq> []"
    "lower a = a" "lower (b @ suffix db) = b @ suffix db" "length (b @ suffix db) < MAX_STR"
  shows "\<exists>h' db' tos' frs'. db_read_line h db ''proxy_domain_rename'' (a @ SPACE # b) = Some (h', db') \<and>
    db_trees h' db' nts tos' frs' \<and>
    (\<forall>u. rule_of tos' u = (if u = b @ suffix db then first_wins (rule_of tos u) (Some a) else rule_of tos u)) \<and>
    (\<forall>u. rule_of frs' u = (if u = a then first_wins (rule_of frs u) (Some (b @ suffix db)) else rule_of frs u))"
proof -
  let ?v = "b @ suffix db"
  have reps: "represents h (no_proxy_rules db) nts" "represents h (to_server_rules db) tos"
    "represents h (from_server_rules db) frs"
    and dist: "set (addrs nts) \<inter> set (addrs tos) = {}" "set (addrs nts) \<inter> set (addrs frs) = {}"
      "set (addrs frs) \<inter> set (addrs tos) = {}"
    using assms(1) by (auto simp: db_trees_def)
  obtain r1 h1 t1 where 1: "tree_insert h (to_server_rules db) ?v (length ?v) (Some a) = Some (r1, h1)"
    "represents h1 r1 t1" "\<forall>u. rule_of t1 u = (if u = ?v then first_wins (rule_of tos ?v) (Some a) else rule_of tos u)"
    "\<forall>(q, us) \<in> set [(no_proxy_rules db, nts), (from_server_rules db, frs)].
       represents h1 q us \<and> set (addrs us) \<inter> set (addrs t1) = {}"
    by (rule insert_keeps_other [OF reps(2) assms(7), of "[(no_proxy_rules db, nts), (from_server_rules db, frs)]"])
      (use assms(5) reps dist in auto)
  obtain r2 h2 t2 where 2: "tree_insert h1 (from_server_rules db) a (length a) (Some ?v) = Some (r2, h2)"
    "represents h2 r2 t2" "\<forall>u. rule_of t2 u = (if u = a then first_wins (rule_of frs a) (Some ?v) else rule_of frs u)"
    "\<forall>(q, us) \<in> set [(no_proxy_rules db, nts), (r1, t1)].
       represents h2 q us \<and> set (addrs us) \<inter> set (addrs t2) = {}"
    by (rule insert_keeps_other [of h1 "from_server_rules db" frs a "[(no_proxy_rules db, nts), (r1, t1)]"])
      (use assms(4,6) 1(2,4) dist in auto)
  let ?db = "db\<lparr>to_server_rules := r1, from_server_rules := r2\<rparr>"
  have "db_read_line h db ''proxy_domain_rename'' (a @ SPACE # b) = Some (h2, ?db)"
    using 1(1) 2(1) assms(2,3,8)
    by (simp add: db_read_line_def rename_domain_def split_space_two split_space_one)
  moreover have "db_trees h2 ?db nts t1 t2"
    using 1(4) 2(2,4) by (auto simp: db_trees_def represents_def)
  ultimately show ?thesis using 1(3) 2(3) by (intro exI [of _ h2] exI [of _ ?db] exI [of _ t1] exI [of _ t2]) auto
qed

definition empty_db :: "string \<Rightarrow> database" where
  "empty_db s = \<lparr>dpath = [], suffix = s, no_proxy_rules = None, to_server_rules = None, from_server_rules = None\<rparr>"

lemma empty_db_trees: "db_trees empty_heap (empty_db s) [] [] []"
  by (simp add: db_trees_def empty_db_def represents_empty)

lemma rename_domain_rules_witness:
  "\<exists>h' db' tos' frs'. db_read_line empty_heap (empty_db ''.z'') ''proxy_domain_rename'' ''a.b c'' = Some (h', db') \<and>
    db_trees h' db' [] tos' frs' \<and> rule_of tos' ''c.z'' = Some ''a.b'' \<and> rule_of frs' ''a.b'' = Some ''c.z''"
proof -
  have len: "length (''c'' @ suffix (empty_db ''.z'')) < MAX_STR" by (simp add: empty_db_def MAX_STR_def)
  obtain h' db' tos' frs' where
    r: "db_read_line empty_heap (empty_db ''.z'') ''proxy_domain_rename'' (''a.b'' @ SPACE # ''c'') = Some (h', db')"
    "db_trees h' db' [] tos' frs'"
    "\<forall>u. rule_of tos' u = (if u = ''c'' @ suffix (empty_db ''.z'') then first_wins (rule_of [] u) (Some ''a.b'') else rule_of [] u)"
    "\<forall>u. rule_of frs' u = (if u = ''a.b'' then first_wins (rule_of [] u) (Some (''c'' @ suffix (empty_db ''.z''))) else rule_of [] u)"
    using rename_domain_rules [OF empty_db_trees _ _ _ _ _ _ len, of "''a.b''"] by (auto simp: empty_db_def)
  have "rule_of tos' ''c.z'' = Some ''a.b''" "rule_of frs' ''a.b'' = Some ''c.z''"
    using r(3) [THEN spec, of "''c.z''"] r(4) [THEN spec, of "''a.b''"]
    by (simp_all add: empty_db_def first_wins_def)
  with r(1,2) show ?thesis by auto
qed

text \<open>A rule file whose name has fewer than three characters makes the reader look before the
  start of the name, unless the name starts with an underscore.\<close>

lemma filename_valid_crash:
  "filename_valid f = None \<longleftrightarrow> length f < 3 \<and> (f = [] \<or> hd f \<noteq> CHR ''_'')"
  by (auto simp: filename_valid_def)

lemma database_free_nodes:
  assumes "db_trees h db nts tos frs"
  shows "\<exists>h'. database_free h (Some db) = Some h' \<and>
    (\<forall>x. nodes h' x = (if x \<in> set (addrs nts @ addrs tos @ addrs frs) then None else nodes h x))"
proof -
  have step: "tree_destroy g r = Some (g\<lparr>nodes := (\<lambda>x. if x \<in> set (addrs us) then None else nodes g x)\<rparr>)"
    if "r = hd_ptr us None" "chain (nodes h) us None" "distinct (addrs us)"
      "\<forall>x \<in> set (addrs us). nodes g x = nodes h x" for g r us
    using that tree_destroy_chain [of g us] chain_cong [of us "nodes g" "nodes h"] by simp
  let ?h1 = "h\<lparr>nodes := (\<lambda>x. if x \<in> set (addrs nts) then None else nodes h x)\<rparr>"
  let ?h2 = "?h1\<lparr>nodes := (\<lambda>x. if x \<in> set (addrs tos) then None else nodes ?h1 x)\<rparr>"
  have 1: "tree_destroy h (no_proxy_rules db) = Some ?h1"
    by (rule step) (use assms in \<open>auto simp: db_trees_def represents_def\<close>)
  have 2: "tree_destroy ?h1 (to_server_rules db) = Some ?h2"
    by (rule step) (use assms in \<open>auto simp: db_trees_def represents_def\<close>)
  have 3: "tree_destroy ?h2 (from_server_rules db) =
      Some (?h2\<lparr>nodes := (\<lambda>x. if x \<in> set (addrs frs) then None else nodes ?h2 x)\<rparr>)"
    by (rule step) (use assms in \<open>auto simp: db_trees_def represents_def\<close>)
  show ?thesis using 1 2 3 by (simp add: database_free_def)
qed

text \<open>Releasing the database frees the nodes of its three trees, each once, and no other
  node.\<close>

theorem database_free_frees:
  assumes "db_trees h db nts tos frs"
  shows "\<exists>h'. database_free h (Some db) = Some h' \<and>
    (\<forall>x. nodes h' x = (if x \<in> set (addrs nts @ addrs tos @ addrs frs) then None else nodes h x))"
  by (rule database_free_nodes [OF assms])

lemma database_free_frees_witness:
  "\<exists>h'. database_free heap_a (Some ((empty_db [])\<lparr>no_proxy_rules := Some 0\<rparr>)) = Some h' \<and> nodes h' 0 = None"
proof -
  have "db_trees heap_a ((empty_db [])\<lparr>no_proxy_rules := Some 0\<rparr>) [AN 0 CHR ''a'' (Some ''X'') []] [] []"
    using heap_a_represents by (auto simp: db_trees_def empty_db_def represents_def)
  from database_free_frees [OF this] show ?thesis by auto
qed

end
