(* ===== verification/DatabaseStream.thy ===== *)
theory DatabaseStream
  imports Database
begin

text \<open>
  What the database object does to a stream of characters.  \<open>dbo_feed\<close> composes the
  operations of Database the way \<^verbatim>\<open>http_pull\<close> (and the unit tests of the repository) call them
  for one character.  The trees enter through the locale \<open>rule_store\<close>, interpreted on the
  operations of Tree; the properties say that no input makes the object abort, that a text
  without rules is unchanged, that rules which cannot overlap are replaced exactly, and where
  overlapping rules and forced flushes go wrong.
\<close>

section \<open>The stream as the connection feeds it\<close>

text \<open>One character of the loop of \<^verbatim>\<open>http_pull\<close>, with the bytes it hands on.\<close>

definition dbo_feed :: "tree_heap \<Rightarrow> database_object \<Rightarrow> char \<Rightarrow> (database_object \<times> string) option" where
  "dbo_feed h d c = do {
     (di, tr, d) \<leftarrow> database_instance_lookup h d c;
     if di = DBI_FEED_ME then do {
       d \<leftarrow> database_instance_add_input d c;
       Some (d, []) }
     else (case tr of
         Some t \<Rightarrow> (case database_instance_get_holding d True of (holding, d) \<Rightarrow> do {
           d \<leftarrow> database_instance_add_input d c;
           Some (d, holding @ t) })
       | None \<Rightarrow> do {
           d \<leftarrow> database_instance_add_input d c;
           (case database_instance_get_holding d False of (holding, d) \<Rightarrow> Some (d, holding)) }) }"

fun dbo_feeds :: "tree_heap \<Rightarrow> database_object \<Rightarrow> string \<Rightarrow> (database_object \<times> string) option" where
  "dbo_feeds h d [] = Some (d, [])"
| "dbo_feeds h d (c # cs) = do {
     (d, out1) \<leftarrow> dbo_feed h d c;
     (d, out2) \<leftarrow> dbo_feeds h d cs;
     Some (d, out1 @ out2) }"

lemma dbo_feeds_snoc:
  "dbo_feeds h d (cs @ [c]) = do {
     (d, out1) \<leftarrow> dbo_feeds h d cs;
     (d, out2) \<leftarrow> dbo_feed h d c;
     Some (d, out1 @ out2) }"
proof (induction cs arbitrary: d)
  case (Cons x cs)
  then show ?case by (cases "dbo_feed h d x") (auto split: bind_splits)
next
  case Nil
  then show ?case by (cases "dbo_feed h d c") auto
qed

section \<open>The buffer\<close>

definition held :: "database_object \<Rightarrow> string" where
  "held d = take (input_sz d) (input d)"

definition buf_ok :: "database_object \<Rightarrow> bool" where
  "buf_ok d \<longleftrightarrow> length (input d) = input_rs d \<and> input_sz d \<le> input_rs d"

lemma held_length [simp]: "buf_ok d \<Longrightarrow> length (held d) = input_sz d"
  by (auto simp: held_def buf_ok_def)

lemma take_Suc_upd: "i < length xs \<Longrightarrow> take (Suc i) (xs[i := c]) = take i xs @ [c]"
  by (simp add: take_Suc_conv_app_nth)

lemma add_input_ok:
  assumes "buf_ok d"
  obtains d' where "database_instance_add_input d c = Some d'" "held d' = held d @ [c]" "buf_ok d'"
    "input_sz d' = Suc (input_sz d)" "d' = d\<lparr>input := input d', input_sz := input_sz d', input_rs := input_rs d'\<rparr>"
proof -
  let ?d1 = "if 1 + input_sz d \<ge> input_rs d
              then d\<lparr>input := input d @ replicate 16 NUL, input_rs := input_rs d + 16\<rparr> else d"
  have 1: "buf_ok ?d1" "held ?d1 = held d" "input_sz ?d1 = input_sz d" "input_sz ?d1 < length (input ?d1)"
    using assms by (auto simp: buf_ok_def held_def)
  let ?d' = "?d1\<lparr>input := (input ?d1)[input_sz ?d1 := c], input_sz := input_sz ?d1 + 1\<rparr>"
  have "database_instance_add_input d c = Some ?d'"
    using 1(4) by (simp add: database_instance_add_input_def Let_def buf_put_def)
  moreover have "held ?d' = held d @ [c]"
    using 1(2) take_Suc_upd [OF 1(4), of c] by (simp add: held_def)
  moreover have "buf_ok ?d'" using 1 by (auto simp: buf_ok_def)
  moreover have "?d' = d\<lparr>input := input ?d', input_sz := input_sz ?d', input_rs := input_rs ?d'\<rparr>"
    by (cases d) auto
  ultimately show ?thesis using that 1(3) by simp
qed

lemma clear_input_simps [simp]:
  "held (clear_input d) = []" "buf_ok d \<Longrightarrow> buf_ok (clear_input d)"
  by (auto simp: clear_input_def held_def buf_ok_def)

lemma consume_input_ok:
  assumes "buf_ok d" "k \<le> input_sz d"
  obtains d' where "consume_input d k = Some d'" "held d' = take (length (held d) - k) (held d)"
    "d' = d\<lparr>input_sz := input_sz d - k\<rparr>" "buf_ok d'"
proof -
  let ?d' = "d\<lparr>input_sz := input_sz d - k\<rparr>"
  have "consume_input d k = Some ?d'" using assms(2) by (cases d) (auto simp: consume_input_def)
  moreover have "held ?d' = take (length (held d) - k) (held d)" 
    using assms(2) unfolding held_length [OF assms(1)] by (simp add: held_def min_def)
  ultimately show ?thesis using that assms by (auto simp: buf_ok_def)
qed

section \<open>What the stream should become\<close>

definition sfx :: "nat \<Rightarrow> string \<Rightarrow> string" where
  "sfx k t = drop (length t - k) t"

text \<open>The longest rule that ends the text, of length at most \<open>k\<close> and at least two.\<close>

fun longest :: "(string \<Rightarrow> string option) \<Rightarrow> string \<Rightarrow> nat \<Rightarrow> (nat \<times> string) option" where
  "longest R t 0 = None"
| "longest R t (Suc k) =
     (case (if k = 0 then None else R (sfx (Suc k) t)) of
        Some s \<Rightarrow> Some (Suc k, s)
      | None \<Rightarrow> longest R t k)"

text \<open>Replacement as soon as a rule is complete; \<open>b\<close> is the text since the last replacement.\<close>

fun rewrite :: "(string \<Rightarrow> string option) \<Rightarrow> string \<Rightarrow> string \<Rightarrow> string" where
  "rewrite R b [] = b"
| "rewrite R b (c # cs) =
     (case longest R (lower (b @ [c])) (Suc (length b)) of
        None \<Rightarrow> rewrite R (b @ [c]) cs
      | Some (k, s) \<Rightarrow> take (Suc (length b) - k) (b @ [c]) @ s @ rewrite R [] cs)"

lemma sfx_length [simp]: "k \<le> length t \<Longrightarrow> length (sfx k t) = k"
  by (simp add: sfx_def)

lemma sfx_snoc: "k \<le> length t \<Longrightarrow> sfx (Suc k) (t @ [c]) = sfx k t @ [c]"
  by (simp add: sfx_def)

lemma sfx_split: "k \<le> length t \<Longrightarrow> \<exists>x. t = x @ sfx k t"
  unfolding sfx_def by (metis append_take_drop_id)

lemma sfx_of_append: "k \<le> length b \<Longrightarrow> sfx k (a @ b) = sfx k b"
  by (simp add: sfx_def)

lemma longest_Some:
  "longest R t n = Some (k, s) \<Longrightarrow> 2 \<le> k \<and> k \<le> n \<and> R (sfx k t) = Some s"
  by (induction n) (auto split: option.splits if_splits)

lemma longest_None:
  "longest R t n = None \<Longrightarrow> 2 \<le> k \<Longrightarrow> k \<le> n \<Longrightarrow> R (sfx k t) = None"
proof (induction n)
  case (Suc n)
  then show ?case by (cases "k = Suc n") (auto split: option.splits if_splits)
qed simp

lemma longest_cong:
  "(\<And>k. 2 \<le> k \<Longrightarrow> k \<le> n \<Longrightarrow> R (sfx k t) = R (sfx k t')) \<Longrightarrow> longest R t n = longest R t' n"
  by (induction n) (auto split: option.split)

lemma longest_stop:
  "m \<le> n \<Longrightarrow> (\<And>k. m < k \<Longrightarrow> k \<le> n \<Longrightarrow> R (sfx k t) = None) \<Longrightarrow> longest R t n = longest R t m"
proof (induction n)
  case (Suc n)
  then show ?case by (cases "m = Suc n") auto
qed simp

section \<open>The candidates\<close>

text \<open>The candidates for the suffix of length \<open>k\<close> of the text: the node of the rules of the
  connection's side first, then the one of the no-proxy rules.\<close>

definition cand_at ::
  "(string \<Rightarrow> ptr) \<Rightarrow> (string \<Rightarrow> ptr) \<Rightarrow> string \<Rightarrow> nat \<Rightarrow> (addr \<times> nat) list" where
  "cand_at fs fn t k =
     (case fs (sfx k t) of None \<Rightarrow> [] | Some p \<Rightarrow> [(p, k)]) @
     (case fn (sfx k t) of None \<Rightarrow> [] | Some p \<Rightarrow> [(p, k)])"

definition cands ::
  "(string \<Rightarrow> ptr) \<Rightarrow> (string \<Rightarrow> ptr) \<Rightarrow> string \<Rightarrow> nat list \<Rightarrow> (addr \<times> nat) list" where
  "cands fs fn t ks = concat (map (cand_at fs fn t) ks)"

text \<open>The rule for a phrase, given the nodes and what they store.\<close>

definition rules_by ::
  "(string \<Rightarrow> ptr) \<Rightarrow> (string \<Rightarrow> ptr) \<Rightarrow> (addr \<Rightarrow> string option option) \<Rightarrow> string \<Rightarrow> string option" where
  "rules_by fs fn adap w =
     (case Option.bind (fs w) (\<lambda>p. the (adap p)) of
        Some s \<Rightarrow> Some s
      | None \<Rightarrow> Option.bind (fn w) (\<lambda>p. the (adap p)))"

definition better :: "nat \<Rightarrow> string option \<Rightarrow> nat \<times> string option \<Rightarrow> nat \<times> string option" where
  "better k r best = (case r of
     None \<Rightarrow> best | Some s \<Rightarrow> if fst best = 0 \<or> fst best < k then (k, Some s) else best)"

lemma foreach_append:
  "foreach_with ch ad c (xs @ ys) tc tr = do {
     (l1, tc, tr) \<leftarrow> foreach_with ch ad c xs tc tr;
     (l2, tc, tr) \<leftarrow> foreach_with ch ad c ys tc tr;
     Some (l1 @ l2, tc, tr) }"
proof (induction xs arbitrary: tc tr)
  case Nil
  show ?case by (cases "foreach_with ch ad c ys tc tr") auto
next
  case (Cons x xs)
  obtain p d where x: "x = (p, d)" by (cases x)
  show ?case unfolding x
    by (cases "ch p c") (auto simp: Cons.IH Let_def split: option.splits bind_splits)
qed

lemma longest_fold:
  "fold (\<lambda>k best. better (Suc k) (R (sfx (Suc k) t)) best) [1..<Suc n] (0, None) =
     (case longest R t (Suc n) of None \<Rightarrow> (0, None) | Some (k, s) \<Rightarrow> (k, Some s))"
proof (induction n)
  case (Suc n)
  have "fold (\<lambda>k best. better (Suc k) (R (sfx (Suc k) t)) best) [1..<Suc (Suc n)] (0, None) =
     better (Suc (Suc n)) (R (sfx (Suc (Suc n)) t))
       (case longest R t (Suc n) of None \<Rightarrow> (0, None) | Some (k, s) \<Rightarrow> (k, Some s))"
    using Suc by simp
  also have "\<dots> = (case longest R t (Suc (Suc n)) of None \<Rightarrow> (0, None) | Some (k, s) \<Rightarrow> (k, Some s))"
    using longest_Some [of R t "Suc n"]
    by (auto simp: better_def split: option.splits if_splits simp del: longest.simps(2))
      (auto split: option.splits if_splits)
  finally show ?case .
qed simp

section \<open>The interface of the rule store\<close>

text \<open>What the candidate walk needs from the trees: \<open>at r w\<close> is the node that the phrase \<open>w\<close>
  leads to, if any.\<close>

locale rule_store =
  fixes first :: "'h \<Rightarrow> ptr \<Rightarrow> char \<Rightarrow> ptr option"
    and child :: "'h \<Rightarrow> addr \<Rightarrow> char \<Rightarrow> ptr option"
    and adap :: "'h \<Rightarrow> addr \<Rightarrow> string option option"
    and at :: "'h \<Rightarrow> ptr \<Rightarrow> string \<Rightarrow> ptr"
    and wf :: "'h \<Rightarrow> ptr \<Rightarrow> bool"
  assumes first_at: "wf h r \<Longrightarrow> first h r c = Some (at h r [c_tolower c])"
    and child_at: "wf h r \<Longrightarrow> at h r w = Some p \<Longrightarrow> child h p c = Some (at h r (w @ [c_tolower c]))"
    and at_prefix: "wf h r \<Longrightarrow> w \<noteq> [] \<Longrightarrow> at h r (w @ [c]) \<noteq> None \<Longrightarrow> at h r w \<noteq> None"
    and adap_at: "wf h r \<Longrightarrow> at h r w = Some p \<Longrightarrow> adap h p \<noteq> None"

begin

lemma foreach_cand:
  assumes "wf h rs" "wf h rn" "k \<le> length t" "0 < k"
  shows "foreach_with (child h) (adap h) c (cand_at (at h rs) (at h rn) t k) tc tr =
    Some (cand_at (at h rs) (at h rn) (t @ [c_tolower c]) (Suc k),
      better (Suc k) (rules_by (at h rs) (at h rn) (adap h) (sfx (Suc k) (t @ [c_tolower c]))) (tc, tr))"
proof -
  let ?w = "sfx k t" and ?w' = "sfx k t @ [c_tolower c]"
  have w': "sfx (Suc k) (t @ [c_tolower c]) = ?w'" by (rule sfx_snoc [OF assms(3)])
  have ne: "?w \<noteq> []" using assms(3,4) sfx_length [of k t] by fastforce
  have one: "foreach_with (child h) (adap h) c (case at h r ?w of None \<Rightarrow> [] | Some p \<Rightarrow> [(p, k)]) tc tr =
      Some ((case at h r ?w' of None \<Rightarrow> [] | Some p \<Rightarrow> [(p, Suc k)]),
        better (Suc k) (Option.bind (at h r ?w') (\<lambda>p. the (adap h p))) (tc, tr))"
    if wf: "wf h r" for r tc tr
  proof (cases "at h r ?w")
    case None
    then have "at h r ?w' = None" using at_prefix [OF wf ne] by blast
    with None show ?thesis by (simp add: better_def)
  next
    case (Some p)
    note ch = child_at [OF wf Some, of c]
    show ?thesis
    proof (cases "at h r ?w'")
      case None
      with Some ch show ?thesis by (simp add: better_def)
    next
      case (Some q)
      then obtain a where "adap h q = Some a" using adap_at [OF wf] by blast
      with ch Some \<open>at h r ?w = Some p\<close> show ?thesis
        by (cases a) (auto simp: better_def Let_def)
    qed
  qed
  show ?thesis
    unfolding cand_at_def w' foreach_append rules_by_def one [OF assms(1)] one [OF assms(2)]
    by (auto simp: better_def one [OF assms(1)] one [OF assms(2)] split: option.splits prod.splits)
qed

lemma foreach_cands:
  assumes "wf h rs" "wf h rn" "\<forall>k \<in> set ks. 0 < k \<and> k \<le> length t"
  shows "foreach_with (child h) (adap h) c (cands (at h rs) (at h rn) t ks) tc tr =
    Some (cands (at h rs) (at h rn) (t @ [c_tolower c]) (map Suc ks),
      fold (\<lambda>k. better (Suc k) (rules_by (at h rs) (at h rn) (adap h) (sfx (Suc k) (t @ [c_tolower c])))) ks
        (tc, tr))"
  using assms(3)
proof (induction ks arbitrary: tc tr)
  case (Cons k ks)
  then have "foreach_with (child h) (adap h) c (cand_at (at h rs) (at h rn) t k) tc tr =
    Some (cand_at (at h rs) (at h rn) (t @ [c_tolower c]) (Suc k),
      better (Suc k) (rules_by (at h rs) (at h rn) (adap h) (sfx (Suc k) (t @ [c_tolower c]))) (tc, tr))"
    by (intro foreach_cand [OF assms(1,2)]) auto
  with Cons show ?case
    by (cases "better (Suc k) (rules_by (at h rs) (at h rn) (adap h) (sfx (Suc k) (t @ [c_tolower c]))) (tc, tr)")
      (auto simp: cands_def foreach_append)
qed (simp add: cands_def)

text \<open>With no match pending, the walk records the longest rule that ends the text.\<close>

lemma foreach_longest:
  assumes "wf h rs" "wf h rn"
  shows "foreach_with (child h) (adap h) c (cands (at h rs) (at h rn) t [1..<Suc (length t)]) 0 None =
    Some (cands (at h rs) (at h rn) (t @ [c_tolower c]) [2..<Suc (Suc (length t))],
      (case longest (rules_by (at h rs) (at h rn) (adap h)) (t @ [c_tolower c]) (Suc (length t)) of
         None \<Rightarrow> (0, None) | Some (k, s) \<Rightarrow> (k, Some s)))"
proof -
  have "map Suc [1..<Suc (length t)] = [2..<Suc (Suc (length t))]"
    by (simp add: map_Suc_upt numeral_2_eq_2 del: upt_Suc)
  then show ?thesis
    using foreach_cands [OF assms, of "[1..<Suc (length t)]" t c 0 None]
    unfolding longest_fold by auto
qed

text \<open>Whatever the candidates, the walk does not crash as long as they are nodes of the trees.\<close>

definition candidate :: "'h \<Rightarrow> ptr \<Rightarrow> ptr \<Rightarrow> nat \<Rightarrow> addr \<times> nat \<Rightarrow> bool" where
  "candidate h rs rn n = (\<lambda>(p, k). 1 \<le> k \<and> k \<le> n \<and>
     (\<exists>r \<in> {rs, rn}. \<exists>w. at h r w = Some p \<and> length w = k))"

lemma candidate_mono: "candidate h rs rn n x \<Longrightarrow> n \<le> m \<Longrightarrow> candidate h rs rn m x"
  by (auto simp: candidate_def)

lemma foreach_safe:
  assumes "wf h rs" "wf h rn" "\<forall>x \<in> set l. candidate h rs rn n x"
  shows "\<exists>l' tc' tr'. foreach_with (child h) (adap h) c l tc tr = Some (l', tc', tr') \<and>
    (\<forall>x \<in> set l'. candidate h rs rn (Suc n) x) \<and>
    ((tc', tr') = (tc, tr) \<or> (l' \<noteq> [] \<and> 2 \<le> tc' \<and> tc' \<le> Suc n \<and> tr' \<noteq> None))"
  using assms(3)
proof (induction l arbitrary: tc tr)
  case (Cons x l)
  obtain p k where x: "x = (p, k)" by (cases x)
  then obtain r w where rw: "r \<in> {rs, rn}" "at h r w = Some p" "length w = k" "1 \<le> k" "k \<le> n"
    using Cons.prems by (auto simp: candidate_def)
  then have wf: "wf h r" using assms by auto
  note ch = child_at [OF wf rw(2), of c]
  show ?case
  proof (cases "at h r (w @ [c_tolower c])")
    case None
    then show ?thesis using Cons ch x by simp
  next
    case (Some q)
    obtain a where a: "adap h q = Some a" using adap_at [OF wf Some] by blast
    have cq: "candidate h rs rn (Suc n) (q, Suc k)"
      using rw Some unfolding candidate_def by fastforce
    let ?b = "if a \<noteq> None \<and> (tc = 0 \<or> tc < Suc k) then (Suc k, a) else (tc, tr)"
    obtain l' tc' tr' where IH:
      "foreach_with (child h) (adap h) c l (fst ?b) (snd ?b) = Some (l', tc', tr')"
      "\<forall>x \<in> set l'. candidate h rs rn (Suc n) x"
      "(tc', tr') = ?b \<or> (l' \<noteq> [] \<and> 2 \<le> tc' \<and> tc' \<le> Suc n \<and> tr' \<noteq> None)"
      using Cons.IH [of "fst ?b" "snd ?b"] Cons.prems by auto
    have "foreach_with (child h) (adap h) c (x # l) tc tr = Some ((q, Suc k) # l', tc', tr')"
      using IH(1) ch Some a x by (cases ?b) (simp add: Let_def split: if_splits)
    moreover have "\<forall>x \<in> set ((q, Suc k) # l'). candidate h rs rn (Suc n) x" using IH(2) cq by simp
    moreover have "(tc', tr') = (tc, tr) \<or>
        ((q, Suc k) # l' \<noteq> [] \<and> 2 \<le> tc' \<and> tc' \<le> Suc n \<and> tr' \<noteq> None)"
      using IH(3) rw(4,5) by (auto split: if_splits)
    ultimately show ?thesis by blast
  qed
qed simp

end

section \<open>The trees provide the interface\<close>

fun trie_from :: "tree_heap \<Rightarrow> addr \<Rightarrow> string \<Rightarrow> ptr" where
  "trie_from h p [] = Some p"
| "trie_from h p (c # cs) =
     (case tree_get_child h (Some p) c of Some (Some q) \<Rightarrow> trie_from h q cs | _ \<Rightarrow> None)"

definition trie_at :: "tree_heap \<Rightarrow> ptr \<Rightarrow> string \<Rightarrow> ptr" where
  "trie_at h r w = (case w of
     [] \<Rightarrow> None
   | c # cs \<Rightarrow> (case tree_get_sibling h r c of Some (Some p) \<Rightarrow> trie_from h p cs | _ \<Rightarrow> None))"

definition is_tree :: "tree_heap \<Rightarrow> ptr \<Rightarrow> bool" where
  "is_tree h r \<longleftrightarrow> (\<exists>ts. represents h r ts)"

lemma trie_from_snoc:
  "trie_from h p (w @ [c]) = Option.bind (trie_from h p w)
     (\<lambda>q. case tree_get_child h (Some q) c of Some (Some r) \<Rightarrow> Some r | _ \<Rightarrow> None)"
  by (induction h p w rule: trie_from.induct) (auto split: option.split)

lemma trie_at_node_at:
  assumes "represents h r ts"
  shows "trie_at h r w = map_option an_addr (node_at ts (lower w))"
proof (induction w rule: rev_induct)
  case (snoc c w)
  have first: "tree_get_sibling h r d = Some (map_option an_addr (find_node ts (c_tolower d)))" for d
    using assms by (simp add: represents_def tree_get_sibling_chain)
  show ?case
  proof (cases w)
    case Nil
    then show ?thesis using first [of c] by (auto simp: trie_at_def split: option.split)
  next
    case (Cons d ds)
    have "trie_at h r (w @ [c]) = Option.bind (trie_at h r w)
      (\<lambda>q. case tree_get_child h (Some q) c of Some (Some r) \<Rightarrow> Some r | _ \<Rightarrow> None)"
      using Cons by (auto simp: trie_at_def trie_from_snoc split: option.split)
    moreover have "node_at ts (lower w @ [c_tolower c]) =
        Option.bind (node_at ts (lower w)) (\<lambda>t. find_node (an_kids t) (c_tolower c))"
      using node_at_snoc [of ts "lower w" "c_tolower c"] Cons by (simp only: map_is_Nil_conv list.distinct if_False)
    ultimately show ?thesis
      using snoc tree_get_child_at [OF assms, of "lower w"]
      by (cases "node_at ts (lower w)") (auto split: option.split simp del: node_at.simps)
  qed
qed (simp add: trie_at_def)

interpretation rs: rule_store tree_get_sibling "\<lambda>h p. tree_get_child h (Some p)" node_adapted trie_at is_tree
proof unfold_locales
  fix h r w p and c :: char
  assume "is_tree h r"
  then obtain ts where ts: "represents h r ts" by (auto simp: is_tree_def)
  show "tree_get_sibling h r c = Some (trie_at h r [c_tolower c])"
    using ts by (auto simp: trie_at_node_at represents_def tree_get_sibling_chain split: option.split)
  show "w \<noteq> [] \<Longrightarrow> trie_at h r (w @ [c]) \<noteq> None \<Longrightarrow> trie_at h r w \<noteq> None"
    by (auto simp: trie_at_node_at [OF ts] node_at_snoc bind_eq_Some_conv)
  assume "trie_at h r w = Some p"
  then obtain t where t: "node_at ts (lower w) = Some t" "p = an_addr t"
    by (auto simp: trie_at_node_at [OF ts])
  then have "w \<noteq> []" by auto
  with t show "tree_get_child h (Some p) c = Some (trie_at h r (w @ [c_tolower c]))"
    by (simp add: trie_at_node_at [OF ts] node_at_snoc tree_get_child_at [OF ts])
  have "chain (nodes h) ts None" "tree_sorted ts" using ts by (auto simp: represents_def)
  from node_at_chain [OF this t(1)] t(2) show "node_adapted h p \<noteq> None"
    by (auto simp: node_adapted_def tree_deref_def)
qed

text \<open>The rule a connection applies to a phrase: those of its side come first.\<close>

definition db_rule :: "anode list \<Rightarrow> anode list \<Rightarrow> string \<Rightarrow> string option" where
  "db_rule ts tn w = (case rule_of ts w of Some s \<Rightarrow> Some s | None \<Rightarrow> rule_of tn w)"

lemma rules_by_db_rule:
  assumes "represents h rs ts" "represents h rn tn" "lower w = w"
  shows "rules_by (trie_at h rs) (trie_at h rn) (node_adapted h) w = db_rule ts tn w"
proof -
  have "Option.bind (trie_at h r w) (\<lambda>p. the (node_adapted h p)) = rule_of us w"
    if r: "represents h r us" for r us
  proof -
    have "chain (nodes h) us None" "tree_sorted us" using r by (auto simp: represents_def)
    from node_at_chain [OF this, of w] show ?thesis
      by (cases "node_at us w")
        (auto simp: trie_at_node_at [OF r] assms(3) rule_of_node_at node_adapted_def tree_deref_def)
  qed
  from this [OF assms(1)] this [OF assms(2)] show ?thesis by (simp add: rules_by_def db_rule_def split: option.split)
qed

section \<open>No input crashes the object\<close>

definition dbo_ok :: "tree_heap \<Rightarrow> database_object \<Rightarrow> bool" where
  "dbo_ok h d \<longleftrightarrow>
     is_tree h (side_rules d) \<and> is_tree h (never_rules d) \<and> buf_ok d \<and>
     (\<forall>x \<in> set (dbo_list d). rs.candidate h (side_rules d) (never_rules d) (input_sz d) x) \<and>
     transformation_consume d \<le> input_sz d \<and>
     (0 < transformation_consume d \<longrightarrow> transformation d \<noteq> None) \<and>
     (dbo_list d = [] \<longrightarrow> transformation_consume d = 0)"

text \<open>The candidates for a text of one character.\<close>

definition starters :: "tree_heap \<Rightarrow> database_object \<Rightarrow> char \<Rightarrow> (addr \<times> nat) list" where
  "starters h d c = cand_at (trie_at h (side_rules d)) (trie_at h (never_rules d)) [c_tolower c] 1"

lemma starters_ok: "\<forall>x \<in> set (starters h d c). rs.candidate h (side_rules d) (never_rules d) (Suc n) x"
  by (auto simp: starters_def cand_at_def rs.candidate_def sfx_def split: option.splits
      intro: exI [of _ "[c_tolower c]"])

lemma dbo_start_starters:
  assumes "is_tree h (side_rules d)" "is_tree h (never_rules d)"
  shows "dbo_start h d c = Some (d\<lparr>dbo_list := starters h d c @ dbo_list d\<rparr>)"
proof -
  have "side_rules (dbo_list_prepend d n) = side_rules d" for n
    by (simp add: dbo_list_prepend_def split: option.split)
  then show ?thesis
    using rs.first_at [OF assms(1), of c] rs.first_at [OF assms(2), of c]
    by (auto simp: dbo_start_def starters_def cand_at_def dbo_list_prepend_def sfx_def Let_def
        split: option.split)
qed

text \<open>The result of a look-up, given that of the walk.\<close>

lemma lookup_allowed:
  assumes "is_tree h (side_rules d)" "is_tree h (never_rules d)"
    "database_instance_evaluate_context d c = (a, d0)" "a \<noteq> 0"
    "d0 = d\<lparr>context_of := x\<rparr>"
    "foreach_with (\<lambda>p. tree_get_child h (Some p)) (node_adapted h) c (dbo_list d)
       (transformation_consume d) (transformation d) = Some (l, tc, tr)"
    "d1 = d0\<lparr>dbo_list := starters h d c @ l, transformation_consume := tc, transformation := tr\<rparr>"
  shows "database_instance_lookup h d c =
    (if l = [] \<and> tc > 0 then do {
       t \<leftarrow> tr;
       d2 \<leftarrow> consume_input d1 tc;
       Some (DBI_TRANSFORMATION_FOUND, Some t, d2\<lparr>transformation_consume := 0, transformation := None\<rparr>) }
     else Some ((if dbo_list d1 = [] then DBI_NOT_HOLD else DBI_FEED_ME), None, d1))"
proof -
  let ?d = "d0\<lparr>dbo_list := l, transformation_consume := tc, transformation := tr\<rparr>"
  have each: "dbo_list_foreach h d0 c = Some ?d"
    using assms(5,6) by (simp add: dbo_list_foreach_def)
  have start: "dbo_start h ?d c = Some d1"
  proof -
    have "?d\<lparr>dbo_list := starters h ?d c @ dbo_list ?d\<rparr> = d1"
      using assms(5,7) by (cases d) (simp add: starters_def)
    then show ?thesis using dbo_start_starters [of h ?d c] assms(1,2,5) by simp
  qed
  have fields: "transformation_consume d1 = tc" "transformation d1 = tr" using assms(7) by simp_all
  show ?thesis
    unfolding database_instance_lookup_def assms(3) prod.case each bind.bind_lunit
    using assms(4) start fields by (simp add: Let_def)
qed

lemma lookup_refused:
  assumes "database_instance_evaluate_context d c = (0, d0)"
  shows "database_instance_lookup h d c =
    Some ((if dbo_list d0 = [] then DBI_NOT_HOLD else DBI_FEED_ME), None, d0)"
  using assms by (simp add: database_instance_lookup_def)

lemma evaluate_context_frame:
  "\<exists>a x. database_instance_evaluate_context d c = (a, d\<lparr>context_of := x\<rparr>)"
  by (cases d) (auto simp: database_instance_evaluate_context_def split: option.split prod.split)

text \<open>What a character that completes no replacement does.\<close>

lemma feed_no_match:
  assumes "database_instance_lookup h d c =
      Some ((if dbo_list d1 = [] then DBI_NOT_HOLD else DBI_FEED_ME), None, d1)" "buf_ok d1"
  obtains d' e where "dbo_feed h d c = Some (d', e)" "e @ held d' = held d1 @ [c]" "buf_ok d'"
    "dbo_list d1 = [] \<longrightarrow> held d' = []"
    "dbo_list d1 \<noteq> [] \<longrightarrow> input_sz d' = Suc (input_sz d1) \<and> e = []"
    "d' = d1\<lparr>input := input d', input_sz := input_sz d', input_rs := input_rs d'\<rparr>"
proof -
  obtain d2 where d2: "database_instance_add_input d1 c = Some d2" "held d2 = held d1 @ [c]" "buf_ok d2"
    "input_sz d2 = Suc (input_sz d1)"
    "d2 = d1\<lparr>input := input d2, input_sz := input_sz d2, input_rs := input_rs d2\<rparr>"
    by (rule add_input_ok [OF assms(2)])
  have l2: "dbo_list d2 = dbo_list d1" by (subst d2(5)) simp
  show ?thesis
  proof (cases "dbo_list d1 = []")
    case True
    then have "dbo_feed h d c = Some (clear_input d2, held d2)"
      using assms(1) d2(1) l2 by (simp add: dbo_feed_def database_instance_get_holding_def held_def)
    moreover have "clear_input d2 = d1\<lparr>input := input (clear_input d2),
        input_sz := input_sz (clear_input d2), input_rs := input_rs (clear_input d2)\<rparr>"
      by (subst d2(5)) (simp add: clear_input_def, subst d2(5), simp)
    ultimately show ?thesis using that True d2 by simp
  next
    case False
    then have "dbo_feed h d c = Some (d2, [])" using assms(1) d2(1) by (simp add: dbo_feed_def)
    then show ?thesis using that False d2 by simp
  qed
qed

text \<open>What a character that completes a replacement of the last \<open>tc\<close> bytes does.\<close>

lemma feed_match:
  assumes "database_instance_lookup h d c = do {
       d2 \<leftarrow> consume_input d1 tc;
       Some (DBI_TRANSFORMATION_FOUND, Some t, d2\<lparr>transformation_consume := 0, transformation := None\<rparr>) }"
    "buf_ok d1" "tc \<le> input_sz d1"
  obtains d' where "dbo_feed h d c = Some (d', take (length (held d1) - tc) (held d1) @ t)"
    "held d' = [c]" "buf_ok d'" "input_sz d' = 1"
    "d' = d1\<lparr>input := input d', input_sz := input_sz d', input_rs := input_rs d',
       transformation_consume := 0, transformation := None\<rparr>"
proof -
  obtain d2 where d2: "consume_input d1 tc = Some d2" "held d2 = take (length (held d1) - tc) (held d1)"
    "d2 = d1\<lparr>input_sz := input_sz d1 - tc\<rparr>" "buf_ok d2"
    by (rule consume_input_ok [OF assms(2,3)])
  let ?d3 = "clear_input (d2\<lparr>transformation_consume := 0, transformation := None\<rparr>)"
  have "buf_ok ?d3" using d2(4) by (simp add: clear_input_def buf_ok_def)
  then obtain d' where d': "database_instance_add_input ?d3 c = Some d'" "held d' = held ?d3 @ [c]"
    "buf_ok d'" "input_sz d' = Suc (input_sz ?d3)"
    "d' = ?d3\<lparr>input := input d', input_sz := input_sz d', input_rs := input_rs d'\<rparr>"
    by (rule add_input_ok)
  have "held (d2\<lparr>transformation_consume := 0, transformation := None\<rparr>) = held d2"
    by (simp add: held_def)
  then have "dbo_feed h d c = Some (d', held d2 @ t)"
    using assms(1) d2(1) d'(1) by (simp add: dbo_feed_def database_instance_get_holding_def held_def)
  moreover have "d' = d1\<lparr>input := input d', input_sz := input_sz d', input_rs := input_rs d',
       transformation_consume := 0, transformation := None\<rparr>"
    by (subst d'(5)) (simp add: d2(3) clear_input_def)
  moreover have "held ?d3 = []" "input_sz ?d3 = 0" by (simp_all add: clear_input_def held_def)
  ultimately show ?thesis using that [of d'] d2(2) d'(2-4) by simp
qed

lemma buf_ok_upd:
  "buf_ok (d\<lparr>context_of := x\<rparr>) = buf_ok d"
  "buf_ok (d\<lparr>context_of := x, dbo_list := l, transformation_consume := tc, transformation := tr\<rparr>) = buf_ok d"
  "held (d\<lparr>context_of := x\<rparr>) = held d"
  "held (d\<lparr>context_of := x, dbo_list := l, transformation_consume := tc, transformation := tr\<rparr>) = held d"
  by (simp_all add: buf_ok_def held_def)

text \<open>One character never crashes an object in a sound state; its bytes are kept, in order,
  unless the end of what was held is replaced.\<close>

definition feed_effect :: "database_object \<Rightarrow> char \<Rightarrow> database_object \<Rightarrow> string \<Rightarrow> bool" where
  "feed_effect d c d' e \<longleftrightarrow>
     e @ held d' = held d @ [c] \<or>
     (\<exists>k t. 0 < k \<and> k \<le> length (held d) \<and> e = take (length (held d) - k) (held d) @ t \<and> held d' = [c])"

lemma feed_keeps:
  assumes ok: "dbo_ok h d1" and lk: "database_instance_lookup h d c =
      Some ((if dbo_list d1 = [] then DBI_NOT_HOLD else DBI_FEED_ME), None, d1)"
    and hd: "held d1 = held d"
  shows "\<exists>d' e. dbo_feed h d c = Some (d', e) \<and> dbo_ok h d' \<and> e @ held d' = held d @ [c] \<and>
    side_rules d' = side_rules d1 \<and> never_rules d' = never_rules d1"
proof -
  have buf: "buf_ok d1" using ok by (simp add: dbo_ok_def)
  obtain d' e where d': "dbo_feed h d c = Some (d', e)" "e @ held d' = held d1 @ [c]" "buf_ok d'"
    "dbo_list d1 = [] \<longrightarrow> held d' = []"
    "dbo_list d1 \<noteq> [] \<longrightarrow> input_sz d' = Suc (input_sz d1) \<and> e = []"
    "d' = d1\<lparr>input := input d', input_sz := input_sz d', input_rs := input_rs d'\<rparr>"
    by (rule feed_no_match [OF lk buf])
  have f: "side_rules d' = side_rules d1" "never_rules d' = never_rules d1" "dbo_list d' = dbo_list d1"
    "transformation_consume d' = transformation_consume d1" "transformation d' = transformation d1"
    by (subst d'(6), simp)+
  have "dbo_ok h d'"
  proof (cases "dbo_list d1 = []")
    case True
    then show ?thesis using ok d'(3) f by (simp add: dbo_ok_def)
  next
    case False
    then have "input_sz d' = Suc (input_sz d1)" using d'(5) by simp
    then show ?thesis using ok d'(3) f rs.candidate_mono
      unfolding dbo_ok_def by (metis le_SucI order_refl)
  qed
  with d' f hd show ?thesis by auto
qed

text \<open>The state just after the look-up may count the character that is not stored yet.\<close>

lemma feed_ok:
  assumes ok: "dbo_ok h d"
  shows "\<exists>d' e. dbo_feed h d c = Some (d', e) \<and> dbo_ok h d' \<and> feed_effect d c d' e \<and>
    side_rules d' = side_rules d \<and> never_rules d' = never_rules d"
proof -
  have trees: "is_tree h (side_rules d)" "is_tree h (never_rules d)" and buf: "buf_ok d"
    and cand: "\<forall>x \<in> set (dbo_list d). rs.candidate h (side_rules d) (never_rules d) (input_sz d) x"
    using ok by (auto simp: dbo_ok_def)
  obtain a x where ev: "database_instance_evaluate_context d c = (a, d\<lparr>context_of := x\<rparr>)"
    using evaluate_context_frame by blast
  show ?thesis
  proof (cases "a = 0")
    case True
    have "dbo_ok h (d\<lparr>context_of := x\<rparr>)" using ok by (simp add: dbo_ok_def buf_ok_def)
    from feed_keeps [OF this lookup_refused [OF ev [unfolded True]]] show ?thesis
      unfolding feed_effect_def by (auto simp: buf_ok_upd)
  next
    case False
    obtain l tc tr where fe: "foreach_with (\<lambda>p. tree_get_child h (Some p)) (node_adapted h) c (dbo_list d)
         (transformation_consume d) (transformation d) = Some (l, tc, tr)"
      and l: "\<forall>x \<in> set l. rs.candidate h (side_rules d) (never_rules d) (Suc (input_sz d)) x"
      and t: "(tc, tr) = (transformation_consume d, transformation d) \<or>
        (l \<noteq> [] \<and> 2 \<le> tc \<and> tc \<le> Suc (input_sz d) \<and> tr \<noteq> None)"
      using rs.foreach_safe [OF trees cand, of c "transformation_consume d" "transformation d"] by blast
    let ?l1 = "starters h d c @ l"
    let ?d1 = "d\<lparr>context_of := x, dbo_list := ?l1, transformation_consume := tc, transformation := tr\<rparr>"
    note lk = lookup_allowed [OF trees ev False refl fe refl]
    have cand1: "\<forall>x \<in> set ?l1. rs.candidate h (side_rules d) (never_rules d) (Suc (input_sz d)) x"
      using l starters_ok by auto
    show ?thesis
    proof (cases "l = [] \<and> tc > 0")
      case True
      then have tc: "tc = transformation_consume d" "tr = transformation d" using t by auto
      then obtain s where s: "tr = Some s" using True ok by (auto simp: dbo_ok_def)
      have le: "tc \<le> input_sz ?d1" using ok tc by (simp add: dbo_ok_def)
      have lk': "database_instance_lookup h d c = do {
         d2 \<leftarrow> consume_input ?d1 tc;
         Some (DBI_TRANSFORMATION_FOUND, Some s, d2\<lparr>transformation_consume := 0, transformation := None\<rparr>) }"
        using lk True s by simp
      obtain d' where d': "dbo_feed h d c = Some (d', take (length (held ?d1) - tc) (held ?d1) @ s)"
        "held d' = [c]" "buf_ok d'" "input_sz d' = 1"
        "d' = ?d1\<lparr>input := input d', input_sz := input_sz d', input_rs := input_rs d',
           transformation_consume := 0, transformation := None\<rparr>"
        by (rule feed_match [OF lk' _ le]) (use buf in \<open>simp add: buf_ok_upd\<close>)
      have f: "side_rules d' = side_rules d" "never_rules d' = never_rules d" "dbo_list d' = starters h d c"
        "transformation_consume d' = 0" by (subst d'(5), simp add: True)+
      have "dbo_ok h d'" using d'(3,4) f trees starters_ok [of h d c 0] by (simp add: dbo_ok_def)
      moreover have "feed_effect d c d' (take (length (held ?d1) - tc) (held ?d1) @ s)"
        using d'(2) True le buf unfolding feed_effect_def by (auto simp: buf_ok_upd)
      ultimately show ?thesis using d'(1) f by blast
    next
      case False
      have lk': "database_instance_lookup h d c =
        Some ((if dbo_list ?d1 = [] then DBI_NOT_HOLD else DBI_FEED_ME), None, ?d1)"
        using lk False by (simp only: if_False)
      have hd: "held ?d1 = held d" "buf_ok ?d1" using buf by (simp_all add: buf_ok_upd)
      obtain d' e where d': "dbo_feed h d c = Some (d', e)" "e @ held d' = held ?d1 @ [c]" "buf_ok d'"
        "dbo_list ?d1 = [] \<longrightarrow> held d' = []"
        "dbo_list ?d1 \<noteq> [] \<longrightarrow> input_sz d' = Suc (input_sz ?d1) \<and> e = []"
        "d' = ?d1\<lparr>input := input d', input_sz := input_sz d', input_rs := input_rs d'\<rparr>"
        by (rule feed_no_match [OF lk' hd(2)])
      have f: "side_rules d' = side_rules d" "never_rules d' = never_rules d" "dbo_list d' = ?l1"
        "transformation_consume d' = tc" "transformation d' = tr" by (subst d'(6), simp)+
      have "dbo_ok h d'"
      proof (cases "?l1 = []")
        case True
        with False have "tc = 0" by simp
        with True d'(3) f trees show ?thesis by (simp add: dbo_ok_def)
      next
        case ne: False
        then have "input_sz d' = Suc (input_sz d)" using d'(5) by simp
        moreover have "tc \<le> Suc (input_sz d)" "0 < tc \<longrightarrow> tr \<noteq> None" using t ok by (auto simp: dbo_ok_def)
        ultimately show ?thesis using ne cand1 d'(3) f trees by (auto simp: dbo_ok_def)
      qed
      moreover have "feed_effect d c d' e" using d'(2) hd(1) by (simp add: feed_effect_def)
      ultimately show ?thesis using d'(1) f by blast
    qed
  qed
qed

lemma feeds_ok:
  assumes "dbo_ok h d"
  shows "\<exists>d' e. dbo_feeds h d cs = Some (d', e) \<and> dbo_ok h d' \<and>
    side_rules d' = side_rules d \<and> never_rules d' = never_rules d"
  using assms
proof (induction cs arbitrary: d)
  case (Cons c cs)
  obtain d1 e1 where 1: "dbo_feed h d c = Some (d1, e1)" "dbo_ok h d1"
    "side_rules d1 = side_rules d" "never_rules d1 = never_rules d"
    using feed_ok [OF Cons.prems] by blast
  from Cons.IH [OF 1(2)] obtain d2 e2 where "dbo_feeds h d1 cs = Some (d2, e2)" "dbo_ok h d2"
    "side_rules d2 = side_rules d1" "never_rules d2 = never_rules d1" by blast
  with 1 show ?case by auto
qed simp

section \<open>Rules that cannot overlap are replaced exactly\<close>

text \<open>No rule ends inside a phrase that can still grow, and no phrase that can still grow
  ends a rule.\<close>

definition apart :: "(string \<Rightarrow> string option) \<Rightarrow> (string \<Rightarrow> bool) \<Rightarrow> bool" where
  "apart R live \<longleftrightarrow> (\<forall>u w x. R u \<noteq> None \<and> 2 \<le> length u \<and> w \<noteq> [] \<and> live (w @ [x]) \<and>
     lower u = u \<and> lower (w @ [x]) = w @ [x] \<longrightarrow> \<not> (\<exists>y. u = y @ w \<or> w = y @ u))"

lemma apartD:
  assumes "apart R live" "R (sfx k t) \<noteq> None" "2 \<le> k" "k \<le> length t" "0 < j" "j \<le> length t"
    "lower t = t" "c_tolower x = x"
  shows "\<not> live (sfx j t @ [x])"
proof
  assume live: "live (sfx j t @ [x])"
  have low: "lower (sfx i t) = sfx i t" for i
    using assms(7) unfolding sfx_def by (metis drop_map length_map)
  have "sfx j t \<noteq> []" using assms(5,6) sfx_length [of j t] by fastforce
  then have "\<not> (\<exists>y. sfx k t = y @ sfx j t \<or> sfx j t = y @ sfx k t)"
  proof -
    have "2 \<le> length (sfx k t)" "lower (sfx j t @ [x]) = sfx j t @ [x]" using assms(3,4,8) low by simp_all
    with assms(1,2) live low [of k] \<open>sfx j t \<noteq> []\<close> show ?thesis unfolding apart_def by blast
  qed
  moreover have "\<exists>y. sfx k t = y @ sfx j t \<or> sfx j t = y @ sfx k t"
  proof (cases "j \<le> k")
    case True
    then have "sfx j t = sfx j (sfx k t)" using assms(4) by (simp add: sfx_def)
    then show ?thesis using True assms(4) sfx_split [of j "sfx k t"] by (metis sfx_length)
  next
    case False
    then have "sfx k t = sfx k (sfx j t)" using assms(6) by (simp add: sfx_def)
    then show ?thesis using False assms(6) sfx_split [of k "sfx j t"] by (metis nat_le_linear sfx_length)
  qed
  ultimately show False by blast
qed

text \<open>The abstract view of the two trees of an object.\<close>

abbreviation at_side :: "tree_heap \<Rightarrow> database_object \<Rightarrow> string \<Rightarrow> ptr" where
  "at_side h d \<equiv> trie_at h (side_rules d)"

abbreviation at_never :: "tree_heap \<Rightarrow> database_object \<Rightarrow> string \<Rightarrow> ptr" where
  "at_never h d \<equiv> trie_at h (never_rules d)"

definition obj_rule :: "tree_heap \<Rightarrow> database_object \<Rightarrow> string \<Rightarrow> string option" where
  "obj_rule h d = rules_by (at_side h d) (at_never h d) (node_adapted h)"

definition obj_live :: "tree_heap \<Rightarrow> database_object \<Rightarrow> string \<Rightarrow> bool" where
  "obj_live h d w \<longleftrightarrow> at_side h d w \<noteq> None \<or> at_never h d w \<noteq> None"

lemma rule_live: "obj_rule h d w \<noteq> None \<Longrightarrow> obj_live h d w"
  by (auto simp: obj_rule_def obj_live_def rules_by_def split: option.splits)

lemma live_prefix:
  assumes "dbo_ok h d" "w \<noteq> []" "obj_live h d (w @ v)"
  shows "obj_live h d w"
proof -
  have "trie_at h r w \<noteq> None" if "is_tree h r" "trie_at h r (w @ v) \<noteq> None" for r
    using that(2)
  proof (induction v rule: rev_induct)
    case (snoc x v)
    then show ?case using rs.at_prefix [OF that(1), of "w @ v" x] assms(2) by simp
  qed simp
  then show ?thesis using assms(1,3) by (auto simp: obj_live_def dbo_ok_def)
qed

definition ends_in_rule :: "(string \<Rightarrow> string option) \<Rightarrow> string \<Rightarrow> bool" where
  "ends_in_rule R p \<longleftrightarrow> (\<exists>k. 2 \<le> k \<and> k \<le> length p \<and> R (sfx k (lower p)) \<noteq> None)"

lemma no_rule_across:
  assumes ok: "dbo_ok h d" and ap: "apart (obj_rule h d) (obj_live h d)"
    and pre: "ends_in_rule (obj_rule h d) pre" and k: "length b < k" "k \<le> length (pre @ b)" and b: "b \<noteq> []"
  shows "obj_rule h d (sfx k (lower (pre @ b))) = None"
proof (rule ccontr)
  assume r: "obj_rule h d (sfx k (lower (pre @ b))) \<noteq> None"
  let ?j = "k - length b" and ?w = "sfx (k - length b) (lower pre)"
  have s: "sfx k (lower (pre @ b)) = ?w @ lower b" using k by (simp add: sfx_def)
  obtain x b' where xb: "lower b = x # b'" "c_tolower x = x" using b by (cases b) auto
  have j: "0 < ?j" "?j \<le> length (lower pre)" using k by auto
  then have "?w \<noteq> []" using sfx_length [of ?j "lower pre"] by fastforce
  have "obj_live h d ((?w @ [x]) @ b')" using rule_live [OF r] s xb by simp
  then have "obj_live h d (?w @ [x])" using live_prefix [OF ok] by blast
  moreover obtain i where "2 \<le> i" "i \<le> length (lower pre)" "obj_rule h d (sfx i (lower pre)) \<noteq> None"
    using pre by (auto simp: ends_in_rule_def)
  ultimately show False using apartD [OF ap _ _ _ j _ xb(2)] by simp
qed

text \<open>After a match the next character ends every candidate.\<close>

lemma cands_dead:
  assumes ap: "apart (obj_rule h d) (obj_live h d)" and t: "ends_in_rule (obj_rule h d) t"
  shows "cands (at_side h d) (at_never h d) (lower t @ [c_tolower c]) [2..<Suc (Suc (length t))] = []"
    and "\<forall>k \<in> {1..length t}. obj_rule h d (sfx (Suc k) (lower t @ [c_tolower c])) = None"
proof -
  obtain i where i: "2 \<le> i" "i \<le> length (lower t)" "obj_rule h d (sfx i (lower t)) \<noteq> None"
    using t by (auto simp: ends_in_rule_def)
  have dead: "\<not> obj_live h d (sfx (Suc k) (lower t @ [c_tolower c]))" if "0 < k" "k \<le> length t" for k
    using apartD [OF ap i(3,1,2), of k "c_tolower c"] that by (simp add: sfx_snoc)
  have "cand_at (at_side h d) (at_never h d) (lower t @ [c_tolower c]) k = []"
    if "k \<in> set [2..<Suc (Suc (length t))]" for k
  proof -
    have "0 < k - 1" "k - 1 \<le> length t" "Suc (k - 1) = k" using that by auto
    with dead [of "k - 1"] show ?thesis by (simp add: cand_at_def obj_live_def)
  qed
  then show "cands (at_side h d) (at_never h d) (lower t @ [c_tolower c]) [2..<Suc (Suc (length t))] = []"
    by (simp add: cands_def del: upt_Suc)
  show "\<forall>k \<in> {1..length t}. obj_rule h d (sfx (Suc k) (lower t @ [c_tolower c])) = None"
  proof
    fix k assume "k \<in> {1..length t}"
    then have "0 < k" "k \<le> length t" by auto
    from dead [OF this] rule_live show "obj_rule h d (sfx (Suc k) (lower t @ [c_tolower c])) = None"
      by blast
  qed
qed

lemma starters_cands:
  "starters h d c @ cands (at_side h d) (at_never h d) (lower t @ [c_tolower c]) [2..<Suc (Suc (length t))] =
   cands (at_side h d) (at_never h d) (lower (t @ [c])) [1..<Suc (length (t @ [c]))]"
proof -
  have "[1..<Suc (length (t @ [c]))] = 1 # [2..<Suc (Suc (length t))]"
    by (simp add: upt_conv_Cons numeral_2_eq_2 del: upt_Suc)
  moreover have "sfx 1 (lower t @ [c_tolower c]) = sfx 1 [c_tolower c]" by (simp add: sfx_def)
  ultimately show ?thesis by (simp add: cands_def starters_def cand_at_def del: upt_Suc)
qed

lemma take_same:
  assumes "xs @ h = ys @ b" "k \<le> length h" "k \<le> length b"
  shows "xs @ take (length h - k) h = ys @ take (length b - k) b"
proof -
  have "xs @ take (length h - k) h = take (length (xs @ h) - k) (xs @ h)" using assms(2) by simp
  also have "\<dots> = take (length (ys @ b) - k) (ys @ b)" using assms(1) by simp
  also have "\<dots> = ys @ take (length b - k) b" using assms(3) by simp
  finally show ?thesis .
qed

declare longest.simps(2) [simp del]

text \<open>What is known after the text \<open>T\<close>, when the bytes \<open>out\<close> were handed on.\<close>

definition tracks :: "tree_heap \<Rightarrow> database_object \<Rightarrow> string \<Rightarrow> string \<Rightarrow> bool" where
  "tracks h d t out \<longleftrightarrow>
     dbo_ok h d \<and> context_of d = None \<and>
     dbo_list d = cands (at_side h d) (at_never h d) (lower t) [1..<Suc (length t)] \<and>
     (\<exists>o' b pre. t = pre @ b \<and> (pre = [] \<or> ends_in_rule (obj_rule h d) pre) \<and>
        (\<forall>rest. rewrite (obj_rule h d) [] (t @ rest) = o' @ rewrite (obj_rule h d) b rest) \<and>
        (if transformation_consume d = 0
         then transformation d = None \<and> out @ held d = o' @ b
         else b = [] \<and> pre \<noteq> [] \<and>
           (\<exists>s. transformation d = Some s \<and> out @ take (length (held d) - transformation_consume d) (held d) @ s = o')))"

lemma no_context: "context_of d = None \<Longrightarrow> database_instance_evaluate_context d c = (1, d\<lparr>context_of := None\<rparr>)"
  by (cases d) (simp add: database_instance_evaluate_context_def)

lemma obj_rule_cong:
  "side_rules d' = side_rules d \<Longrightarrow> never_rules d' = never_rules d \<Longrightarrow>
     obj_rule h d' = obj_rule h d \<and> obj_live h d' = obj_live h d"
  by (auto simp: obj_rule_def obj_live_def fun_eq_iff)

text \<open>A character while a match is pending: the match is handed out.\<close>

lemma tracks_pending:
  assumes tr: "tracks h d t out" and ap: "apart (obj_rule h d) (obj_live h d)"
    and pend: "transformation_consume d \<noteq> 0"
  shows "\<exists>d' e. dbo_feed h d c = Some (d', e) \<and> tracks h d' (t @ [c]) (out @ e) \<and>
    side_rules d' = side_rules d \<and> never_rules d' = never_rules d"
proof -
  let ?R = "obj_rule h d" and ?tc = "transformation_consume d"
  have ok: "dbo_ok h d" and ctx: "context_of d = None"
    and lst: "dbo_list d = cands (at_side h d) (at_never h d) (lower t) [1..<Suc (length t)]"
    using tr by (auto simp: tracks_def)
  obtain o' s where os: "\<forall>rest. rewrite ?R [] (t @ rest) = o' @ rewrite ?R [] rest"
    "transformation d = Some s" "out @ take (length (held d) - ?tc) (held d) @ s = o'"
    and ends: "ends_in_rule ?R t"
    using tr pend by (auto simp: tracks_def)
  have trees: "is_tree h (side_rules d)" "is_tree h (never_rules d)" and buf: "buf_ok d"
    and le: "?tc \<le> input_sz d" using ok by (auto simp: dbo_ok_def)
  have fe: "foreach_with (\<lambda>p. tree_get_child h (Some p)) (node_adapted h) c (dbo_list d) ?tc (transformation d)
      = Some ([], ?tc, Some s)"
  proof -
    have "fold (\<lambda>k. better (Suc k) (?R (sfx (Suc k) (lower t @ [c_tolower c])))) ks best = best"
      if "set ks \<subseteq> {1..length t}" for ks best
      using that cands_dead(2) [OF ap ends, of c] by (induction ks) (auto simp: better_def)
    from this [of "[1..<Suc (length t)]"] have "fold (\<lambda>k. better (Suc k) (?R (sfx (Suc k)
        (lower t @ [c_tolower c])))) [1..<Suc (length t)] best = best" for best
      by fastforce
    moreover have "map Suc [1..<Suc (length t)] = [2..<Suc (Suc (length t))]"
      by (simp add: map_Suc_upt numeral_2_eq_2 del: upt_Suc)
    ultimately show ?thesis
      using rs.foreach_cands [OF trees, of "[1..<Suc (length t)]" "lower t" c ?tc "transformation d"]
        cands_dead(1) [OF ap ends, of c] os(2) unfolding lst obj_rule_def by (auto simp del: upt_Suc)
  qed
  let ?d1 = "d\<lparr>context_of := None, dbo_list := starters h d c @ [], transformation_consume := ?tc,
    transformation := Some s\<rparr>"
  have lk: "database_instance_lookup h d c = do {
         d2 \<leftarrow> consume_input ?d1 ?tc;
         Some (DBI_TRANSFORMATION_FOUND, Some s, d2\<lparr>transformation_consume := 0, transformation := None\<rparr>) }"
    using lookup_allowed [OF trees no_context [OF ctx] one_neq_zero refl fe refl] pend by simp
  have b1: "buf_ok ?d1" "?tc \<le> input_sz ?d1" "held ?d1 = held d" using buf le by (simp_all add: buf_ok_def held_def)
  obtain d' where d': "dbo_feed h d c = Some (d', take (length (held ?d1) - ?tc) (held ?d1) @ s)"
    "held d' = [c]" "buf_ok d'" "input_sz d' = 1"
    "d' = ?d1\<lparr>input := input d', input_sz := input_sz d', input_rs := input_rs d',
       transformation_consume := 0, transformation := None\<rparr>"
    by (rule feed_match [OF lk b1(1,2)])
  have f: "side_rules d' = side_rules d" "never_rules d' = never_rules d" "dbo_list d' = starters h d c"
    "transformation_consume d' = 0" "transformation d' = None" "context_of d' = None"
    by (subst d'(5), simp)+
  have ok': "dbo_ok h d'" using feed_ok [OF ok, of c] d'(1) by auto
  have lst': "dbo_list d' = cands (at_side h d) (at_never h d) (lower (t @ [c])) [1..<Suc (length (t @ [c]))]"
    using starters_cands [of h d c t] cands_dead(1) [OF ap ends, of c] f(3) by (simp del: upt_Suc)
  have "rewrite ?R [] ((t @ [c]) @ rest) = o' @ rewrite ?R [c] rest" for rest
    using os(1) by (simp add: longest.simps)
  then have "tracks h d' (t @ [c]) (out @ take (length (held d) - ?tc) (held d) @ s)"
    unfolding tracks_def using ok' f(4-6) lst' ends os(3) d'(2) obj_rule_cong [OF f(1,2)] f(1,2)
    by (intro conjI exI [of _ o'] exI [of _ "[c]"] exI [of _ t]) auto
  with d'(1) f(1,2) b1(3) show ?thesis by auto
qed

text \<open>A character while no match is pending.\<close>

lemma tracks_open:
  assumes tr: "tracks h d t out" and ap: "apart (obj_rule h d) (obj_live h d)"
    and open_: "transformation_consume d = 0"
  shows "\<exists>d' e. dbo_feed h d c = Some (d', e) \<and> tracks h d' (t @ [c]) (out @ e) \<and>
    side_rules d' = side_rules d \<and> never_rules d' = never_rules d"
proof -
  let ?R = "obj_rule h d" and ?t' = "lower (t @ [c])"
  have ok: "dbo_ok h d" and ctx: "context_of d = None"
    and lst: "dbo_list d = cands (at_side h d) (at_never h d) (lower t) [1..<Suc (length t)]"
    using tr by (auto simp: tracks_def)
  obtain o' b pre where os: "t = pre @ b" "pre = [] \<or> ends_in_rule ?R pre"
    "\<forall>rest. rewrite ?R [] (t @ rest) = o' @ rewrite ?R b rest"
    "transformation d = None" "out @ held d = o' @ b"
  proof -
    have "\<exists>o' b pre. t = pre @ b \<and> (pre = [] \<or> ends_in_rule ?R pre) \<and>
        (\<forall>rest. rewrite ?R [] (t @ rest) = o' @ rewrite ?R b rest) \<and>
        transformation d = None \<and> out @ held d = o' @ b"
      using tr unfolding tracks_def by (simp only: open_ if_True simp_thms)
    with that show ?thesis by blast
  qed
  have trees: "is_tree h (side_rules d)" "is_tree h (never_rules d)" and buf: "buf_ok d"
    using ok by (auto simp: dbo_ok_def)
  let ?L = "longest ?R ?t' (Suc (length t))" and ?Lb = "longest ?R (lower (b @ [c])) (Suc (length b))"
  have same: "?L = ?Lb"
  proof -
    have "?R (sfx k ?t') = None" if "Suc (length b) < k" "k \<le> Suc (length t)" for k
    proof (cases "pre = []")
      case False
      with os(2) have "ends_in_rule ?R pre" by simp
      from no_rule_across [OF ok ap this, of "b @ [c]" k] that os(1) show ?thesis by simp
    qed (use that os(1) in simp)
    then have "?L = longest ?R ?t' (Suc (length b))" using os(1) by (intro longest_stop) auto
    also have "\<dots> = ?Lb"
      using os(1) by (intro longest_cong) (auto simp: sfx_def)
    finally show ?thesis .
  qed
  let ?l = "cands (at_side h d) (at_never h d) (lower t @ [c_tolower c]) [2..<Suc (Suc (length t))]"
  let ?tc = "case ?Lb of None \<Rightarrow> 0 | Some (k, s) \<Rightarrow> k" and ?tr = "case ?Lb of None \<Rightarrow> None | Some (k, s) \<Rightarrow> Some s"
  have fe: "foreach_with (\<lambda>p. tree_get_child h (Some p)) (node_adapted h) c (dbo_list d)
      (transformation_consume d) (transformation d) = Some (?l, ?tc, ?tr)"
    using rs.foreach_longest [OF trees, of c "lower t"] same
    unfolding lst open_ os(4) by (simp add: obj_rule_def split: option.splits prod.splits del: upt_Suc)
  have nonempty: "?l \<noteq> []" if nn: "?Lb \<noteq> None"
  proof -
    obtain k s where ks: "?L = Some (k, s)" using nn unfolding same by (cases ?Lb) auto
    from longest_Some [OF this] have k: "2 \<le> k" "k \<le> Suc (length t)" "?R (sfx k ?t') = Some s" by simp_all
    then have "obj_live h d (sfx k ?t')" using rule_live by simp
    with k have "cand_at (at_side h d) (at_never h d) (lower t @ [c_tolower c]) k \<noteq> []"
      by (auto simp: cand_at_def obj_live_def)
    moreover have "k \<in> set [2..<Suc (Suc (length t))]" using k by (simp del: upt_Suc)
    ultimately show ?thesis unfolding cands_def concat_eq_Nil_conv set_map by blast
  qed
  let ?d1 = "d\<lparr>context_of := None, dbo_list := starters h d c @ ?l, transformation_consume := ?tc,
    transformation := ?tr\<rparr>"
  have "\<not> (?l = [] \<and> ?tc > 0)" using nonempty by (cases ?Lb) auto
  then have lk: "database_instance_lookup h d c =
      Some ((if dbo_list ?d1 = [] then DBI_NOT_HOLD else DBI_FEED_ME), None, ?d1)"
    using lookup_allowed [OF trees no_context [OF ctx] one_neq_zero refl fe refl] by (simp only: if_False)
  have b1: "buf_ok ?d1" "held ?d1 = held d" using buf by (simp_all add: buf_ok_def held_def)
  obtain d' e where d': "dbo_feed h d c = Some (d', e)" "e @ held d' = held ?d1 @ [c]" "buf_ok d'"
    "dbo_list ?d1 = [] \<longrightarrow> held d' = []"
    "dbo_list ?d1 \<noteq> [] \<longrightarrow> input_sz d' = Suc (input_sz ?d1) \<and> e = []"
    "d' = ?d1\<lparr>input := input d', input_sz := input_sz d', input_rs := input_rs d'\<rparr>"
    by (rule feed_no_match [OF lk b1(1)])
  have f: "side_rules d' = side_rules d" "never_rules d' = never_rules d"
    "dbo_list d' = starters h d c @ ?l" "transformation_consume d' = ?tc" "transformation d' = ?tr"
    "context_of d' = None"
    by (subst d'(6), simp)+
  have ok': "dbo_ok h d'" using feed_ok [OF ok, of c] d'(1) by auto
  have lst': "dbo_list d' = cands (at_side h d) (at_never h d) ?t' [1..<Suc (length (t @ [c]))]"
    using starters_cands [of h d c t] f(3) by simp
  have keep: "(out @ e) @ held d' = o' @ (b @ [c])" using d'(2) b1(2) os(5) by simp
  have rw: "rewrite ?R [] ((t @ [c]) @ rest) = o' @ rewrite ?R b (c # rest)" for rest
    using os(3) by simp
  have "tracks h d' (t @ [c]) (out @ e)"
  proof (cases ?Lb)
    case None
    then have "rewrite ?R [] ((t @ [c]) @ rest) = o' @ rewrite ?R (b @ [c]) rest" for rest
      using rw by simp
    then show ?thesis
      unfolding tracks_def using None ok' f lst' os(1,2) keep obj_rule_cong [OF f(1,2)]
      by (intro conjI exI [of _ o'] exI [of _ "b @ [c]"] exI [of _ pre]) auto
  next
    case (Some ks)
    obtain k s where ks: "?Lb = Some (k, s)" using Some by (cases ks) auto
    from longest_Some [OF this] have k: "2 \<le> k" "k \<le> Suc (length b)" by auto
    have rule: "?R (sfx k (lower (t @ [c]))) = Some s" using longest_Some [OF ks [folded same]] by simp
    have kh: "k \<le> length (held d')" using ok' f(4) ks d'(3) by (simp add: dbo_ok_def)
    let ?o2 = "o' @ take (Suc (length b) - k) (b @ [c]) @ s"
    have "rewrite ?R [] ((t @ [c]) @ rest) = ?o2 @ rewrite ?R [] rest" for rest
      using rw ks by simp
    moreover have "(out @ e) @ take (length (held d') - k) (held d') @ s = ?o2"
      using take_same [OF keep kh] k by simp
    moreover have "ends_in_rule ?R (t @ [c])"
      unfolding ends_in_rule_def using k rule os(1) by (intro exI [of _ k]) auto
    ultimately show ?thesis
      unfolding tracks_def using ks k ok' f lst' obj_rule_cong [OF f(1,2)]
      by (intro conjI exI [of _ ?o2] exI [of _ "[]"] exI [of _ "t @ [c]"]) auto
  qed
  with d'(1) f(1,2) show ?thesis by blast
qed

lemma tracks_feed:
  assumes "tracks h d t out" "apart (obj_rule h d) (obj_live h d)"
  shows "\<exists>d' e. dbo_feed h d c = Some (d', e) \<and> tracks h d' (t @ [c]) (out @ e) \<and>
    side_rules d' = side_rules d \<and> never_rules d' = never_rules d"
  using tracks_pending [OF assms] tracks_open [OF assms] by blast

lemma tracks_feeds:
  assumes "tracks h d t out" "apart (obj_rule h d) (obj_live h d)"
  shows "\<exists>d' e. dbo_feeds h d cs = Some (d', e) \<and> tracks h d' (t @ cs) (out @ e) \<and>
    side_rules d' = side_rules d \<and> never_rules d' = never_rules d"
  using assms
proof (induction cs arbitrary: d t out)
  case (Cons c cs)
  obtain d1 e1 where 1: "dbo_feed h d c = Some (d1, e1)" "tracks h d1 (t @ [c]) (out @ e1)"
    "side_rules d1 = side_rules d" "never_rules d1 = never_rules d"
    using tracks_feed [OF Cons.prems] by blast
  have "apart (obj_rule h d1) (obj_live h d1)" using Cons.prems(2) obj_rule_cong [OF 1(3,4)] by simp
  from Cons.IH [OF 1(2) this] obtain d2 e2 where "dbo_feeds h d1 cs = Some (d2, e2)"
    "tracks h d2 ((t @ [c]) @ cs) ((out @ e1) @ e2)"
    "side_rules d2 = side_rules d1" "never_rules d2 = never_rules d1" by blast
  with 1 show ?case by auto
qed auto

text \<open>An object as \<^verbatim>\<open>database_instance_create\<close> makes it.\<close>

definition fresh :: "ptr \<Rightarrow> ptr \<Rightarrow> database_object" where
  "fresh never side = \<lparr>context_of = None, never_rules = never, side_rules = side, dbo_list = [],
     transformation = None, input = [], input_sz = 0, input_rs = 0, transformation_consume = 0\<rparr>"

lemma fresh_create:
  "database_instance_create db v =
     fresh (no_proxy_rules db) (if v then from_server_rules db else to_server_rules db)"
  by (simp add: fresh_def database_instance_create_def)

lemma fresh_tracks:
  assumes "is_tree h side" "is_tree h never"
  shows "tracks h (fresh never side) [] []"
  unfolding tracks_def
  by (intro conjI exI [of _ "[]"])
    (use assms in \<open>auto simp: dbo_ok_def fresh_def buf_ok_def cands_def held_def\<close>)

lemma fresh_ok: "is_tree h side \<Longrightarrow> is_tree h never \<Longrightarrow> dbo_ok h (fresh never side)"
  using fresh_tracks by (auto simp: tracks_def)

section \<open>A text without rules\<close>

definition quiet :: "tree_heap \<Rightarrow> database_object \<Rightarrow> string \<Rightarrow> bool" where
  "quiet h d t \<longleftrightarrow>
     dbo_ok h d \<and> context_of d = None \<and> transformation_consume d = 0 \<and> transformation d = None \<and>
     dbo_list d = cands (at_side h d) (at_never h d) (lower t) [1..<Suc (length t)]"

lemma quiet_feed:
  assumes q: "quiet h d t" and none: "longest (obj_rule h d) (lower (t @ [c])) (Suc (length t)) = None"
  shows "\<exists>d' e. dbo_feed h d c = Some (d', e) \<and> quiet h d' (t @ [c]) \<and> e @ held d' = held d @ [c] \<and>
    side_rules d' = side_rules d \<and> never_rules d' = never_rules d"
proof -
  have ok: "dbo_ok h d" and ctx: "context_of d = None" and z: "transformation_consume d = 0" "transformation d = None"
    and lst: "dbo_list d = cands (at_side h d) (at_never h d) (lower t) [1..<Suc (length t)]"
    using q by (auto simp: quiet_def)
  have trees: "is_tree h (side_rules d)" "is_tree h (never_rules d)" and buf: "buf_ok d"
    using ok by (auto simp: dbo_ok_def)
  let ?l = "cands (at_side h d) (at_never h d) (lower t @ [c_tolower c]) [2..<Suc (Suc (length t))]"
  have fe: "foreach_with (\<lambda>p. tree_get_child h (Some p)) (node_adapted h) c (dbo_list d)
      (transformation_consume d) (transformation d) = Some (?l, 0, None)"
    using rs.foreach_longest [OF trees, of c "lower t"] none
    unfolding lst z by (simp add: obj_rule_def del: upt_Suc)
  let ?d1 = "d\<lparr>context_of := None, dbo_list := starters h d c @ ?l, transformation_consume := 0,
    transformation := None\<rparr>"
  have lk: "database_instance_lookup h d c =
      Some ((if dbo_list ?d1 = [] then DBI_NOT_HOLD else DBI_FEED_ME), None, ?d1)"
    using lookup_allowed [OF trees no_context [OF ctx] one_neq_zero refl fe refl] by simp
  have b1: "buf_ok ?d1" "held ?d1 = held d" using buf by (simp_all add: buf_ok_def held_def)
  obtain d' e where d': "dbo_feed h d c = Some (d', e)" "e @ held d' = held ?d1 @ [c]" "buf_ok d'"
    "dbo_list ?d1 = [] \<longrightarrow> held d' = []"
    "dbo_list ?d1 \<noteq> [] \<longrightarrow> input_sz d' = Suc (input_sz ?d1) \<and> e = []"
    "d' = ?d1\<lparr>input := input d', input_sz := input_sz d', input_rs := input_rs d'\<rparr>"
    by (rule feed_no_match [OF lk b1(1)])
  have f: "side_rules d' = side_rules d" "never_rules d' = never_rules d"
    "dbo_list d' = starters h d c @ ?l" "transformation_consume d' = 0" "transformation d' = None"
    "context_of d' = None"
    by (subst d'(6), simp)+
  have "dbo_ok h d'" using feed_ok [OF ok, of c] d'(1) by auto
  moreover have "dbo_list d' = cands (at_side h d') (at_never h d') (lower (t @ [c])) [1..<Suc (length (t @ [c]))]"
    using starters_cands [of h d c t] f(1-3) by simp
  ultimately have "quiet h d' (t @ [c])" using f by (simp add: quiet_def del: upt_Suc)
  then show ?thesis using d'(1,2) f(1,2) b1(2) by auto
qed

lemma quiet_feeds:
  assumes "quiet h d t"
    and "\<forall>a u b. lower (t @ cs) = a @ u @ b \<and> 2 \<le> length u \<longrightarrow> obj_rule h d u = None"
  shows "\<exists>d' e. dbo_feeds h d cs = Some (d', e) \<and> quiet h d' (t @ cs) \<and> e @ held d' = held d @ cs"
  using assms
proof (induction cs arbitrary: d t)
  case (Cons c cs)
  have "longest (obj_rule h d) (lower (t @ [c])) (Suc (length t)) = None"
  proof (rule ccontr)
    assume "longest (obj_rule h d) (lower (t @ [c])) (Suc (length t)) \<noteq> None"
    then obtain k s where "longest (obj_rule h d) (lower (t @ [c])) (Suc (length t)) = Some (k, s)" by auto
    from longest_Some [OF this] have k: "2 \<le> k" "k \<le> length (lower (t @ [c]))"
      "obj_rule h d (sfx k (lower (t @ [c]))) = Some s" by auto
    obtain a where "lower (t @ [c]) = a @ sfx k (lower (t @ [c]))" using sfx_split [OF k(2)] by blast
    then have "lower (t @ c # cs) = a @ sfx k (lower (t @ [c])) @ lower cs" by simp
    with Cons.prems(2) k show False by (metis option.distinct(1) sfx_length)
  qed
  from quiet_feed [OF Cons.prems(1) this] obtain d1 e1 where 1: "dbo_feed h d c = Some (d1, e1)"
    "quiet h d1 (t @ [c])" "e1 @ held d1 = held d @ [c]"
    "side_rules d1 = side_rules d" "never_rules d1 = never_rules d" by blast
  have "\<forall>a u b. lower ((t @ [c]) @ cs) = a @ u @ b \<and> 2 \<le> length u \<longrightarrow> obj_rule h d1 u = None"
    using Cons.prems(2) obj_rule_cong [OF 1(4,5)] by simp
  from Cons.IH [OF 1(2) this] obtain d2 e2 where "dbo_feeds h d1 cs = Some (d2, e2)"
    "quiet h d2 ((t @ [c]) @ cs)" "e2 @ held d2 = held d1 @ cs" by blast
  with 1 show ?case by auto
qed auto

lemma fresh_quiet: "is_tree h side \<Longrightarrow> is_tree h never \<Longrightarrow> quiet h (fresh never side) []"
  using fresh_tracks [of h side never] by (simp add: tracks_def quiet_def fresh_def)

section \<open>The rules in terms of the abstract trees\<close>

lemma rewrite_cong:
  assumes "\<And>w. lower w = w \<Longrightarrow> R w = R' w"
  shows "rewrite R b cs = rewrite R' b cs"
proof -
  have L: "longest R (lower t) n = longest R' (lower t) n" for t n
  proof (induction n)
    case (Suc n)
    have "lower (sfx (Suc n) (lower t)) = sfx (Suc n) (lower t)" by (simp add: sfx_def drop_map)
    with Suc show ?case by (auto simp: longest.simps assms split: option.split)
  qed (simp add: longest.simps)
  show ?thesis by (induction cs arbitrary: b) (simp_all only: rewrite.simps L)
qed

lemma obj_rule_fresh:
  assumes "represents h side ts" "represents h never tn" "lower w = w"
  shows "obj_rule h (fresh never side) w = db_rule ts tn w"
  using rules_by_db_rule [OF assms] by (simp add: obj_rule_def fresh_def)

lemma obj_live_fresh:
  assumes "represents h side ts" "represents h never tn" "lower w = w"
  shows "obj_live h (fresh never side) w \<longleftrightarrow> node_at ts w \<noteq> None \<or> node_at tn w \<noteq> None"
  using assms by (simp add: obj_live_def fresh_def trie_at_node_at)

lemma apart_fresh:
  assumes "represents h side ts" "represents h never tn"
    "apart (db_rule ts tn) (\<lambda>w. node_at ts w \<noteq> None \<or> node_at tn w \<noteq> None)"
  shows "apart (obj_rule h (fresh never side)) (obj_live h (fresh never side))"
  unfolding apart_def
proof (intro allI impI, elim conjE)
  fix u w x
  assume u: "obj_rule h (fresh never side) u \<noteq> None" "2 \<le> length u" "w \<noteq> []"
    "obj_live h (fresh never side) (w @ [x])" "lower u = u" "lower (w @ [x]) = w @ [x]"
  then have "db_rule ts tn u \<noteq> None" "node_at ts (w @ [x]) \<noteq> None \<or> node_at tn (w @ [x]) \<noteq> None"
    using obj_rule_fresh [OF assms(1,2) u(5)] obj_live_fresh [OF assms(1,2) u(6)] by simp_all
  then show "\<not> (\<exists>y. u = y @ w \<or> w = y @ u)"
    using assms(3) u(2,3,5,6) unfolding apart_def by blast
qed

section \<open>Properties of the stream\<close>

text \<open>What the connection ends up with when it flushes the object, had a pending match been
  handed out.\<close>

definition settled :: "database_object \<Rightarrow> string \<Rightarrow> string" where
  "settled d out =
    (if transformation_consume d = 0 then out @ held d
     else out @ take (length (held d) - transformation_consume d) (held d) @
       (case transformation d of None \<Rightarrow> [] | Some s \<Rightarrow> s))"

lemma tracks_settled: "tracks h d t out \<Longrightarrow> settled d out = rewrite (obj_rule h d) [] t"
proof -
  assume tr: "tracks h d t out"
  then obtain o' b where o': "\<forall>rest. rewrite (obj_rule h d) [] (t @ rest) = o' @ rewrite (obj_rule h d) b rest"
    and c: "if transformation_consume d = 0 then transformation d = None \<and> out @ held d = o' @ b
      else b = [] \<and> (\<exists>s. transformation d = Some s \<and>
        out @ take (length (held d) - transformation_consume d) (held d) @ s = o')"
    unfolding tracks_def by (metis (no_types, lifting))
  from o' [THEN spec, of "[]"] have "rewrite (obj_rule h d) [] t = o' @ b" by simp
  with c show ?thesis by (auto simp: settled_def split: if_splits)
qed


text \<open>A text in which no rule of two or more characters occurs passes unchanged: the bytes
  handed on, followed by those still held, are the text.\<close>

theorem stream_identity:
  assumes "represents h side ts" "represents h never tn"
    "\<forall>a u b. lower inp = a @ u @ b \<and> 2 \<le> length u \<longrightarrow> db_rule ts tn u = None"
  shows "\<exists>d out. dbo_feeds h (fresh never side) inp = Some (d, out) \<and> out @ held d = inp \<and>
    transformation_consume d = 0"
proof -
  have trees: "is_tree h side" "is_tree h never" using assms(1,2) by (auto simp: is_tree_def)
  have "obj_rule h (fresh never side) u = None" if u: "lower ([] @ inp) = a @ u @ b" "2 \<le> length u" for a u b
  proof -
    have "lower (a @ u @ b) = a @ u @ b" using u(1) lower_idem [of inp] by simp
    then have "lower u = u" by simp
    from obj_rule_fresh [OF assms(1,2) this] assms(3) u show ?thesis by auto
  qed
  then obtain d e where d: "dbo_feeds h (fresh never side) inp = Some (d, e)" "quiet h d ([] @ inp)"
    "e @ held d = held (fresh never side) @ inp"
    using quiet_feeds [OF fresh_quiet [OF trees], of inp] by blast
  then show ?thesis by (auto simp: quiet_def held_def fresh_def)
qed

text \<open>C33: from a sound state, and with any parser context, a character never makes the search
  abort; the state stays sound, and every byte is kept in order, except that the end of the
  held bytes may be replaced by the text of a rule.\<close>

theorem feed_never_aborts:
  assumes "dbo_ok h d"
  shows "\<exists>d' e. dbo_feed h d c = Some (d', e) \<and> dbo_ok h d' \<and> feed_effect d c d' e"
  using feed_ok [OF assms] by blast

text \<open>Whatever context the connection has, no text makes the search of a new object
  abort.\<close>

theorem stream_never_aborts:
  assumes "represents h side ts" "represents h never tn"
  shows "\<exists>d out. dbo_feeds h (database_instance_set_context (fresh never side) ctx) inp = Some (d, out) \<and>
    dbo_ok h d"
proof -
  have "dbo_ok h (fresh never side)" using assms fresh_ok by (auto simp: is_tree_def)
  then have "dbo_ok h (database_instance_set_context (fresh never side) ctx)"
    by (simp add: dbo_ok_def database_instance_set_context_def buf_ok_def)
  from feeds_ok [OF this] show ?thesis by blast
qed

text \<open>The rules of the tree with the one rule \<^verbatim>\<open>ab\<close>.\<close>

lemma tree_ab_apart:
  "apart (db_rule tree_ab []) (\<lambda>w. node_at tree_ab w \<noteq> None \<or> node_at [] w \<noteq> None)"
  unfolding apart_def
proof (intro allI impI, elim conjE)
  fix u w x
  assume u: "db_rule tree_ab [] u \<noteq> None" "w \<noteq> []" "node_at tree_ab (w @ [x]) \<noteq> None \<or> node_at [] (w @ [x]) \<noteq> None"
  have "u = ''ab''" using u(1) by (simp add: db_rule_def tree_ab_rule split: if_splits option.splits)
  moreover have "w @ [x] = ''a'' \<or> w @ [x] = ''ab''" using u(3) tree_ab_live [of "w @ [x]"] by simp
  then have "w @ [x] = ''a'' @ [CHR ''b'']" using u(2) by (auto simp: append_eq_Cons_conv)
  then have "w = ''a''" by (simp only: append1_eq_conv)
  ultimately show "\<not> (\<exists>y. u = y @ w \<or> w = y @ u)" by (auto simp: Cons_eq_append_conv)
qed


lemma stream_identity_witness:
  "\<exists>d out. dbo_feeds heap_ab (fresh None (Some 0)) ''axb'' = Some (d, out) \<and> out @ held d = ''axb''"
proof -
  have "db_rule tree_ab [] u = None" if "lower ''axb'' = a @ u @ b" "2 \<le> length u" for a u b
    using that by (auto simp: db_rule_def tree_ab_rule append_eq_Cons_conv Cons_eq_append_conv)
  then show ?thesis using stream_identity [OF heap_ab_represents, of "''axb''"] by blast
qed

lemma feed_never_aborts_witness:
  "\<exists>d' e. dbo_feed heap_ab (fresh None (Some 0)) (CHR ''a'') = Some (d', e) \<and> dbo_ok heap_ab d'"
proof -
  have "dbo_ok heap_ab (fresh None (Some 0))"
    using heap_ab_represents by (intro fresh_ok) (auto simp: is_tree_def)
  from feed_never_aborts [OF this] show ?thesis by blast
qed

lemma stream_never_aborts_witness:
  "\<exists>d out. dbo_feeds heap_ab (database_instance_set_context (fresh None (Some 0)) (Some (Html 0 1)))
     ''<a href=ab>'' = Some (d, out)"
  using stream_never_aborts [OF heap_ab_represents, of "Some (Html 0 1)" "''<a href=ab>''"] by blast

text \<open>Two rules inserted one after the other on the side of the connection.\<close>

definition two_rules :: "string \<Rightarrow> string \<Rightarrow> (tree_heap \<times> ptr) option" where
  "two_rules u v = do {
     (r, h) \<leftarrow> tree_insert empty_heap None u (length u) (Some ''T'');
     (r, h) \<leftarrow> tree_insert h r v (length v) (Some ''W'');
     Some (h, r) }"

definition run_two :: "string \<Rightarrow> string \<Rightarrow> string \<Rightarrow> (string \<times> string) option" where
  "run_two u v inp = do {
     (h, r) \<leftarrow> two_rules u v;
     (d, out) \<leftarrow> dbo_feeds h (fresh None r) inp;
     Some (out, held d) }"

text \<open>When a longer rule is still possible after a match and then fails, the replacement
  removes as many bytes as the match had, but at the end of what is held and not where the
  match was: with the rules \<^verbatim>\<open>ab\<close> and \<^verbatim>\<open>abcd\<close> the text \<^verbatim>\<open>abcx\<close> becomes \<^verbatim>\<open>aTx\<close> and not
  \<^verbatim>\<open>Tcx\<close>.\<close>

lemma stream_removes_wrong_bytes:
  "run_two ''ab'' ''abcd'' ''abcx'' = Some (''aT'', ''x'')"
  by code_simp

text \<open>A rule of a single character is never applied, and a match that ends the text is
  handed out as it was read when the connection flushes the object.\<close>

lemma stream_misses_matches:
  "run_two ''a'' ''xyz'' ''-a-'' = Some (''-a-'', []) \<and>
   run_two ''ab'' ''xyz'' ''-ab'' = Some (''-'', ''ab'')"
  by code_simp

text \<open>A forced flush empties the held bytes but keeps the candidates; when the stream goes on
  and completes a rule that began before the flush, more is consumed than is held and the
  process aborts.\<close>

lemma flush_then_abort:
  "do { (h, r) \<leftarrow> two_rules ''ab'' ''xyz'';
        (d, _) \<leftarrow> dbo_feeds h (fresh None r) ''-a'';
        dbo_feeds h (snd (database_instance_get_holding d True)) ''b'' } \<noteq> None \<and>
   do { (h, r) \<leftarrow> two_rules ''ab'' ''xyz'';
        (d, _) \<leftarrow> dbo_feeds h (fresh None r) ''-a'';
        dbo_feeds h (snd (database_instance_get_holding d True)) ''b-'' } = None"
  by code_simp

text \<open>A no-proxy rule has the empty text as its replacement, so the names that were meant to
  pass untouched are deleted from the stream.\<close>

lemma no_proxy_deletes:
  "do { (h, db) \<leftarrow> db_read_line empty_heap (empty_db ''.z'') ''no_proxy'' ''ab'';
        (d, out) \<leftarrow> dbo_feeds h (database_instance_create db True) ''-ab-'';
        Some (out, held d) } = Some (''-'', ''-'')"
  by code_simp

end
