(* ===== verification/TaskQueue.thy ===== *)
theory TaskQueue
  imports RenaPrelude
begin

text \<open>
  The bounded buffer of \<^verbatim>\<open>rena/external/queue/queue.c\<close> and the task manager of
  \<^verbatim>\<open>rena/src/task_manager.c\<close> that owns it.  An operation runs under the queue's mutex and is
  atomic; one that has to wait on a condition variable is not enabled, and its result is
  \<^const>\<open>None\<close>.  The interface that the workers rely on is the locale \<open>fifo_queue\<close>,
  interpreted on the ring of the code.
\<close>

section \<open>The ring\<close>

record 'a queue_t =
  buffer :: "'a list"
  capacity :: nat
  q_size :: nat
  q_in :: nat
  q_out :: nat

text \<open>\<^verbatim>\<open>QUEUE_INITIALIZER\<close>: the capacity is the length of the array.\<close>

definition QUEUE_INITIALIZER :: "'a list \<Rightarrow> 'a queue_t" where
  "QUEUE_INITIALIZER b = \<lparr>buffer = b, capacity = length b, q_size = 0, q_in = 0, q_out = 0\<rparr>"

definition queue_enqueue :: "'a queue_t \<Rightarrow> 'a \<Rightarrow> 'a queue_t option" where
  "queue_enqueue q x =
    (if q_size q = capacity q then None
     else Some (q\<lparr>buffer := (buffer q)[q_in q := x], q_size := q_size q + 1,
                  q_in := (q_in q + 1) mod capacity q\<rparr>))"

definition queue_dequeue :: "'a queue_t \<Rightarrow> ('a \<times> 'a queue_t) option" where
  "queue_dequeue q =
    (if q_size q = 0 then None
     else Some (buffer q ! q_out q,
                q\<lparr>q_size := q_size q - 1, q_out := (q_out q + 1) mod capacity q\<rparr>))"

definition queue_size :: "'a queue_t \<Rightarrow> nat" where
  "queue_size q = q_size q"

text \<open>The invariant, and the queued values from the oldest to the newest.\<close>

definition queue_inv :: "'a queue_t \<Rightarrow> bool" where
  "queue_inv q \<longleftrightarrow>
     0 < capacity q \<and> length (buffer q) = capacity q \<and> q_size q \<le> capacity q \<and>
     q_out q < capacity q \<and> q_in q = (q_out q + q_size q) mod capacity q"

definition slot :: "'a queue_t \<Rightarrow> nat \<Rightarrow> nat" where
  "slot q i = (q_out q + i) mod capacity q"

definition contents :: "'a queue_t \<Rightarrow> 'a list" where
  "contents q = map (\<lambda>i. buffer q ! slot q i) [0..<q_size q]"

lemma contents_length [simp]: "length (contents q) = q_size q"
  by (simp add: contents_def)

lemma slot_less: "queue_inv q \<Longrightarrow> slot q i < capacity q"
  by (simp add: queue_inv_def slot_def)

lemma mod_add_inj:
  assumes "(a + i) mod c = (a + j) mod c" "i < c" "j < (c::nat)"
  shows "i = j"
proof -
  have "\<exists>q. a + i = a + j + c * q \<or> a + j = a + i + c * q"
    using assms(1) by (metis mod_eq_nat1E mod_eq_nat2E nat_le_linear)
  then obtain q where "i = j + c * q \<or> j = i + c * q" by auto
  with assms(2,3) show ?thesis by (cases q) auto
qed

lemma slot_inj:
  "queue_inv q \<Longrightarrow> i < capacity q \<Longrightarrow> j < capacity q \<Longrightarrow> slot q i = slot q j \<Longrightarrow> i = j"
  unfolding slot_def by (rule mod_add_inj)

lemma enqueue_contents:
  assumes inv: "queue_inv q" and e: "queue_enqueue q x = Some q'"
  shows "queue_inv q' \<and> contents q' = contents q @ [x] \<and> capacity q' = capacity q \<and> q_size q < capacity q"
proof -
  have less: "q_size q < capacity q" and q': "q' = q\<lparr>buffer := (buffer q)[q_in q := x],
      q_size := q_size q + 1, q_in := (q_in q + 1) mod capacity q\<rparr>"
    using inv e by (auto simp: queue_enqueue_def queue_inv_def split: if_splits)
  have s: "slot q' i = slot q i" for i using q' by (simp add: slot_def)
  have in_slot: "q_in q = slot q (q_size q)" using inv by (simp add: queue_inv_def slot_def)
  have old: "buffer q' ! slot q i = buffer q ! slot q i" if "i < q_size q" for i
  proof -
    have "slot q (q_size q) \<noteq> slot q i" using slot_inj [OF inv, of i "q_size q"] that less by auto
    then show ?thesis using q' in_slot by simp
  qed
  have new: "buffer q' ! slot q (q_size q) = x"
    using q' in_slot slot_less [OF inv] inv by (simp add: queue_inv_def)
  have "q_size q' = Suc (q_size q)" using q' by simp
  then have "contents q' = contents q @ [x]"
    using old new by (simp add: contents_def s)
  moreover have "queue_inv q'"
    using inv less q' by (simp add: queue_inv_def mod_simps)
  ultimately show ?thesis using less q' by simp
qed

lemma dequeue_contents:
  assumes inv: "queue_inv q" and d: "queue_dequeue q = Some (x, q')"
  shows "queue_inv q' \<and> contents q = x # contents q' \<and> capacity q' = capacity q"
proof -
  have pos: "0 < q_size q" and x: "x = buffer q ! q_out q"
    and q': "q' = q\<lparr>q_size := q_size q - 1, q_out := (q_out q + 1) mod capacity q\<rparr>"
    using d by (auto simp: queue_dequeue_def split: if_splits)
  have s: "slot q' i = slot q (Suc i)" for i using q' by (simp add: slot_def mod_simps)
  have "[0..<q_size q] = 0 # map Suc [0..<q_size q - 1]"
    using pos by (simp add: upt_conv_Cons map_Suc_upt)
  then have "contents q = buffer q ! slot q 0 # map (\<lambda>i. buffer q ! slot q (Suc i)) [0..<q_size q - 1]"
    by (simp add: contents_def)
  moreover have "q_size q' = q_size q - 1" "buffer q' = buffer q" using q' by simp_all
  then have "contents q' = map (\<lambda>i. buffer q ! slot q (Suc i)) [0..<q_size q - 1]"
    by (simp add: contents_def s)
  moreover have "slot q 0 = q_out q" using inv by (simp add: slot_def queue_inv_def)
  moreover have "queue_inv q'"
  proof -
    have "q_out q + q_size q = Suc (q_out q) + (q_size q - 1)" using pos by simp
    then have "(q_out q + q_size q) mod capacity q = (Suc (q_out q) mod capacity q + (q_size q - 1)) mod capacity q"
      by (simp only: mod_add_left_eq)
    then show ?thesis using inv pos q' by (auto simp: queue_inv_def)
  qed
  ultimately show ?thesis using x q' by simp
qed

section \<open>The interface of a bounded queue\<close>

datatype 'a queue_op = Enq 'a | Deq 'a

locale fifo_queue =
  fixes enq :: "'q \<Rightarrow> 'a \<Rightarrow> 'q option" and deq :: "'q \<Rightarrow> ('a \<times> 'q) option"
    and items :: "'q \<Rightarrow> 'a list" and room :: "'q \<Rightarrow> nat" and inv :: "'q \<Rightarrow> bool"
  assumes enq_enabled: "inv q \<Longrightarrow> enq q x = None \<longleftrightarrow> length (items q) = room q"
    and deq_enabled: "inv q \<Longrightarrow> deq q = None \<longleftrightarrow> items q = []"
    and enq_items: "inv q \<Longrightarrow> enq q x = Some q' \<Longrightarrow> items q' = items q @ [x]"
    and deq_items: "inv q \<Longrightarrow> deq q = Some (x, q') \<Longrightarrow> items q = x # items q'"
    and enq_inv: "inv q \<Longrightarrow> enq q x = Some q' \<Longrightarrow> inv q' \<and> room q' = room q"
    and deq_inv: "inv q \<Longrightarrow> deq q = Some (x, q') \<Longrightarrow> inv q' \<and> room q' = room q"
    and bounded: "inv q \<Longrightarrow> length (items q) \<le> room q"
begin

text \<open>The executions of any number of threads: a sequence of completed operations.\<close>

inductive steps :: "'q \<Rightarrow> 'a queue_op list \<Rightarrow> 'q \<Rightarrow> bool" where
  steps_Nil: "steps q [] q"
| steps_Enq: "enq q x = Some q1 \<Longrightarrow> steps q1 ops q2 \<Longrightarrow> steps q (Enq x # ops) q2"
| steps_Deq: "deq q = Some (x, q1) \<Longrightarrow> steps q1 ops q2 \<Longrightarrow> steps q (Deq x # ops) q2"

definition put_in :: "'a queue_op list \<Rightarrow> 'a list" where
  "put_in ops = List.map_filter (\<lambda>e. case e of Enq x \<Rightarrow> Some x | Deq x \<Rightarrow> None) ops"

definition taken :: "'a queue_op list \<Rightarrow> 'a list" where
  "taken ops = List.map_filter (\<lambda>e. case e of Enq x \<Rightarrow> None | Deq x \<Rightarrow> Some x) ops"

lemma put_in_simps [simp]:
  "put_in [] = []" "put_in (Enq x # ops) = x # put_in ops" "put_in (Deq x # ops) = put_in ops"
  "taken [] = []" "taken (Enq x # ops) = taken ops" "taken (Deq x # ops) = x # taken ops"
  by (simp_all add: put_in_def taken_def List.map_filter_def)

lemma steps_fifo:
  "steps q ops q' \<Longrightarrow> inv q \<Longrightarrow>
     inv q' \<and> room q' = room q \<and> items q @ put_in ops = taken ops @ items q'"
proof (induction rule: steps.induct)
  case (steps_Enq q x q1 ops q2)
  with enq_inv enq_items show ?case by fastforce
next
  case (steps_Deq q x q1 ops q2)
  with deq_inv deq_items show ?case by fastforce
qed simp

lemma not_both_blocked: "inv q \<Longrightarrow> 0 < room q \<Longrightarrow> enq q x \<noteq> None \<or> deq q \<noteq> None"
  using enq_enabled deq_enabled by (metis length_0_conv less_irrefl)

end

interpretation ring: fifo_queue queue_enqueue queue_dequeue contents capacity queue_inv
proof unfold_locales
  fix q q' :: "'a queue_t" and x :: 'a
  assume inv: "queue_inv q"
  show "queue_enqueue q x = None \<longleftrightarrow> length (contents q) = capacity q"
    by (simp add: queue_enqueue_def)
  show "queue_dequeue q = None \<longleftrightarrow> contents q = []"
    by (simp add: queue_dequeue_def contents_def)
  show "length (contents q) \<le> capacity q" using inv by (simp add: queue_inv_def)
  show "queue_enqueue q x = Some q' \<Longrightarrow> contents q' = contents q @ [x]"
    "queue_enqueue q x = Some q' \<Longrightarrow> queue_inv q' \<and> capacity q' = capacity q"
    using enqueue_contents [OF inv] by auto
  show "queue_dequeue q = Some (x, q') \<Longrightarrow> contents q = x # contents q'"
    "queue_dequeue q = Some (x, q') \<Longrightarrow> queue_inv q' \<and> capacity q' = capacity q"
    using dequeue_contents [OF inv] by auto
qed

lemma QUEUE_INITIALIZER_inv:
  "b \<noteq> [] \<Longrightarrow> queue_inv (QUEUE_INITIALIZER b) \<and> contents (QUEUE_INITIALIZER b) = []"
  by (simp add: QUEUE_INITIALIZER_def queue_inv_def contents_def)

section \<open>Tasks and the task manager\<close>

definition TT_INVALID :: nat where "TT_INVALID = 0"
definition TT_READ :: nat where "TT_READ = 1"
definition TT_WRITE :: nat where "TT_WRITE = 2"
definition TT_NORMAL_READ :: nat where "TT_NORMAL_READ = 3"
definition TT_NORMAL_WRITE :: nat where "TT_NORMAL_WRITE = 4"
definition TT_SECURE_READ :: nat where "TT_SECURE_READ = 5"
definition TT_SECURE_WRITE :: nat where "TT_SECURE_WRITE = 6"
definition TT_SIGNAL_READ :: nat where "TT_SIGNAL_READ = 7"
definition TT_SIGNAL_WRITE :: nat where "TT_SIGNAL_WRITE = 8"

lemmas task_types =
  TT_INVALID_def TT_READ_def TT_WRITE_def TT_NORMAL_READ_def TT_NORMAL_WRITE_def
  TT_SECURE_READ_def TT_SECURE_WRITE_def TT_SIGNAL_READ_def TT_SIGNAL_WRITE_def

record task =
  t_type :: nat
  t_fd :: int

text \<open>A queued task is reachable through its slot only, so the slot holds the task itself;
  \<^const>\<open>None\<close> is the null pointer that wakes a worker up at the end.  \<^verbatim>\<open>tasks\<close> holds the
  thread handles; \<^const>\<open>None\<close> is one that was never written.\<close>

record task_manager =
  min_tasks :: int
  max_tasks :: int
  number_of_tasks :: nat
  number_of_working_tasks :: int
  last_peak :: int
  tasks :: "nat option list"
  tm_queue :: "task option queue_t"

definition queue_init :: "task_manager \<Rightarrow> task_manager" where
  "queue_init tm = tm\<lparr>tm_queue := QUEUE_INITIALIZER (replicate 4096 None)\<rparr>"

text \<open>\<^verbatim>\<open>task_manager_init\<close>, given the two values of the configuration and the time.\<close>

definition task_manager_init :: "int \<Rightarrow> int \<Rightarrow> int \<Rightarrow> task_manager option" where
  "task_manager_init pool_min pool_max now =
    (if pool_min \<le> 1 \<or> pool_min > pool_max then None
     else Some (queue_init
       \<lparr>min_tasks = pool_min, max_tasks = pool_max, number_of_tasks = 0,
        number_of_working_tasks = pool_max, last_peak = now, tasks = [],
        tm_queue = QUEUE_INITIALIZER []\<rparr>))"

text \<open>The loop of \<^verbatim>\<open>task_manager_run\<close>: the calling thread is the first worker, the others are
  created; \<open>created\<close> holds the outcomes of the calls of \<^verbatim>\<open>pthread_create\<close>, a handle or an
  error.  The result is the new \<^verbatim>\<open>forced_exit\<close>, the manager and the outcomes not used.\<close>

fun start_workers ::
  "nat \<Rightarrow> bool \<Rightarrow> task_manager \<Rightarrow> nat \<Rightarrow> nat option list \<Rightarrow> bool \<times> task_manager \<times> nat option list" where
  "start_workers 0 forced tm self created = (forced, tm, created)"
| "start_workers (Suc k) forced tm self created =
    (if forced \<or> \<not> int (number_of_tasks tm) < min_tasks tm then (forced, tm, created)
     else let n = number_of_tasks tm in
       if n = 0 then
         start_workers k forced (tm\<lparr>tasks := (tasks tm)[n := Some self], number_of_tasks := n + 1\<rparr>)
           self created
       else (case created of
           Some t # cs \<Rightarrow>
             start_workers k forced (tm\<lparr>tasks := (tasks tm)[n := Some t], number_of_tasks := n + 1\<rparr>) self cs
         | None # cs \<Rightarrow> start_workers k True (tm\<lparr>number_of_tasks := n + 1\<rparr>) self cs
         | [] \<Rightarrow> start_workers k True (tm\<lparr>number_of_tasks := n + 1\<rparr>) self []))"

definition task_manager_run ::
  "bool \<Rightarrow> task_manager \<Rightarrow> nat \<Rightarrow> nat option list \<Rightarrow> bool \<times> task_manager" where
  "task_manager_run forced tm self created =
    (let tm = tm\<lparr>tasks := replicate (nat (min_tasks tm)) None, number_of_tasks := 0\<rparr>;
         (forced, tm, _) = start_workers (nat (min_tasks tm)) forced tm self created
     in if \<not> forced then (forced, tm\<lparr>number_of_working_tasks := 0\<rparr>) else (forced, tm))"

text \<open>The threads \<^verbatim>\<open>task_manager_destroy\<close> joins; a handle that was never written is the
  crash.\<close>

definition joined_threads :: "task_manager \<Rightarrow> nat list option" where
  "joined_threads tm = those (map (\<lambda>i. tasks tm ! i) [1..<number_of_tasks tm])"

definition task_manager_task_queue_size :: "task_manager \<Rightarrow> nat" where
  "task_manager_task_queue_size tm = queue_size (tm_queue tm)"

definition task_manager_task_push :: "task_manager \<Rightarrow> int \<Rightarrow> nat \<Rightarrow> task_manager option" where
  "task_manager_task_push tm fd tt = do {
     q \<leftarrow> queue_enqueue (tm_queue tm) (Some \<lparr>t_type = tt, t_fd = fd\<rparr>);
     Some (tm\<lparr>tm_queue := q\<rparr>) }"

definition task_manager_task_consume :: "task_manager \<Rightarrow> (task option \<times> task_manager) option" where
  "task_manager_task_consume tm = do {
     (t, q) \<leftarrow> queue_dequeue (tm_queue tm);
     Some (t, tm\<lparr>tm_queue := q\<rparr>) }"

definition task_manager_set_working :: "task_manager \<Rightarrow> int \<Rightarrow> task_manager" where
  "task_manager_set_working tm flag =
    (if flag \<noteq> 0 then tm\<lparr>number_of_working_tasks := number_of_working_tasks tm + 1\<rparr>
     else tm\<lparr>number_of_working_tasks := number_of_working_tasks tm - 1\<rparr>)"

text \<open>\<^verbatim>\<open>task_manager_forced_exit\<close>: one null task for every worker; \<^const>\<open>None\<close> waits for
  room.\<close>

fun enqueue_nulls :: "nat \<Rightarrow> task option queue_t \<Rightarrow> task option queue_t option" where
  "enqueue_nulls 0 q = Some q"
| "enqueue_nulls (Suc n) q = do { q \<leftarrow> queue_enqueue q None; enqueue_nulls n q }"

definition task_manager_forced_exit :: "bool \<Rightarrow> task_manager \<Rightarrow> task_manager option" where
  "task_manager_forced_exit forced tm =
    (if \<not> forced then Some tm
     else do { q \<leftarrow> enqueue_nulls (number_of_tasks tm) (tm_queue tm); Some (tm\<lparr>tm_queue := q\<rparr>) })"

text \<open>\<^verbatim>\<open>task_manager_task_drop_fd\<close>: the walk goes from \<^verbatim>\<open>out\<close> until it meets \<^verbatim>\<open>in\<close>.\<close>

definition drop_slot :: "int \<Rightarrow> task option \<Rightarrow> task option" where
  "drop_slot fd t = map_option (\<lambda>t. if t_fd t = fd then t\<lparr>t_fd := - 1\<rparr> else t) t"

partial_function (option) drop_fd_loop ::
  "task option queue_t \<Rightarrow> int \<Rightarrow> nat \<Rightarrow> task option queue_t option" where [code]:
  "drop_fd_loop q fd pos =
     (if pos = q_in q then Some q
      else drop_fd_loop (q\<lparr>buffer := (buffer q)[pos := drop_slot fd (buffer q ! pos)]\<rparr>) fd
             ((pos + 1) mod capacity q))"

definition task_manager_task_drop_fd :: "task_manager \<Rightarrow> int \<Rightarrow> task_manager option" where
  "task_manager_task_drop_fd tm fd = do {
     q \<leftarrow> drop_fd_loop (tm_queue tm) fd (q_out (tm_queue tm));
     Some (tm\<lparr>tm_queue := q\<rparr>) }"

section \<open>Properties\<close>

text \<open>C37: however the workers and the dispatcher interleave their calls, the tasks leave the
  queue in the order in which they entered it, none is lost, none is invented, and the ring
  never holds more than its capacity.\<close>

theorem queue_is_fifo:
  assumes "queue_inv q" "ring.steps q ops q'"
  shows "contents q @ ring.put_in ops = ring.taken ops @ contents q' \<and> queue_inv q' \<and>
    length (contents q') \<le> capacity q"
  using ring.steps_fifo [OF assms(2,1)] ring.bounded [of q'] by simp

lemma queue_is_fifo_witness:
  "\<exists>q'. ring.steps (QUEUE_INITIALIZER [0, 0 :: nat]) [Enq 5, Enq 6, Deq 5, Enq 7] q' \<and> contents q' = [6, 7]"
proof -
  let ?q = "QUEUE_INITIALIZER [0, 0 :: nat]"
  let ?last = "\<lparr>buffer = [7, 6 :: nat], capacity = Suc (Suc 0), q_size = Suc (Suc 0), q_in = Suc 0,
    q_out = Suc 0\<rparr>"
  have "ring.steps ?q [Enq 5, Enq 6, Deq 5, Enq 7] ?last"
    by (rule ring.steps_Enq ring.steps_Deq ring.steps_Nil |
        (simp add: QUEUE_INITIALIZER_def queue_enqueue_def queue_dequeue_def))+
  moreover from queue_is_fifo [OF _ this] QUEUE_INITIALIZER_inv [of "[0, 0 :: nat]"]
  have "contents ?last = [6, 7]" by (simp del: One_nat_def)
  ultimately show ?thesis by blast
qed

lemma drop_fd_loop_from:
  assumes "queue_inv q" "q_size q < capacity q" "i \<le> q_size q"
  shows "\<exists>b. drop_fd_loop q fd (slot q i) = Some (q\<lparr>buffer := b\<rparr>) \<and> length b = length (buffer q) \<and>
    (\<forall>j < capacity q. b ! slot q j =
       (if i \<le> j \<and> j < q_size q then drop_slot fd (buffer q ! slot q j) else buffer q ! slot q j))"
  using assms
proof (induction "q_size q - i" arbitrary: q i)
  case 0
  then have "i = q_size q" by simp
  then have "slot q i = q_in q" using 0 by (simp add: queue_inv_def slot_def)
  then show ?case using \<open>i = q_size q\<close> by (subst drop_fd_loop.simps) (auto intro: exI [of _ "buffer q"])
next
  case (Suc n)
  let ?s = "slot q i" and ?q = "q\<lparr>buffer := (buffer q)[slot q i := drop_slot fd (buffer q ! slot q i)]\<rparr>"
  have i: "i < q_size q" using Suc by simp
  have fields: "slot ?q j = slot q j" "q_size ?q = q_size q" "capacity ?q = capacity q" for j
    by (simp_all add: slot_def)
  have inv: "queue_inv ?q" using Suc.prems(1) by (simp add: queue_inv_def)
  have "q_in q = slot q (q_size q)" using Suc.prems(1) by (simp add: queue_inv_def slot_def)
  then have ne: "?s \<noteq> q_in q" using slot_inj [OF Suc.prems(1), of i "q_size q"] i Suc.prems(2) by auto
  have next_slot: "(?s + 1) mod capacity q = slot ?q (Suc i)" by (simp add: slot_def mod_simps)
  have "\<exists>b. drop_fd_loop ?q fd (slot ?q (Suc i)) = Some (?q\<lparr>buffer := b\<rparr>) \<and>
    length b = length (buffer ?q) \<and>
    (\<forall>j < capacity ?q. b ! slot ?q j = (if Suc i \<le> j \<and> j < q_size ?q
       then drop_slot fd (buffer ?q ! slot ?q j) else buffer ?q ! slot ?q j))"
    by (rule Suc.hyps(1)) (use Suc.hyps(2) Suc.prems inv i in simp_all)
  then obtain b where b: "drop_fd_loop ?q fd (slot ?q (Suc i)) = Some (?q\<lparr>buffer := b\<rparr>)"
    "length b = length (buffer ?q)"
    "\<forall>j < capacity ?q. b ! slot ?q j = (if Suc i \<le> j \<and> j < q_size ?q
       then drop_slot fd (buffer ?q ! slot ?q j) else buffer ?q ! slot ?q j)"
    by blast
  have "b ! slot q j = (if i \<le> j \<and> j < q_size q then drop_slot fd (buffer q ! slot q j) else buffer q ! slot q j)"
    if j: "j < capacity q" for j
  proof (cases "j = i")
    case True
    have "slot q i < length (buffer q)" using slot_less [OF Suc.prems(1)] Suc.prems(1) by (simp add: queue_inv_def)
    with True b(3) j i fields show ?thesis by simp
  next
    case False
    then have "slot q i \<noteq> slot q j" using slot_inj [OF Suc.prems(1)] j i Suc.prems(2) by (metis less_trans)
    with False b(3) j fields show ?thesis by auto
  qed
  moreover have "drop_fd_loop q fd ?s = Some (q\<lparr>buffer := b\<rparr>)"
    using b(1) ne next_slot by (subst drop_fd_loop.simps) simp
  ultimately show ?case using b(2) by auto
qed

lemma drop_fd_contents:
  assumes "queue_inv (tm_queue tm)" "q_size (tm_queue tm) < capacity (tm_queue tm)"
  shows "\<exists>b. task_manager_task_drop_fd tm fd = Some (tm\<lparr>tm_queue := (tm_queue tm)\<lparr>buffer := b\<rparr>\<rparr>) \<and>
    contents ((tm_queue tm)\<lparr>buffer := b\<rparr>) = map (drop_slot fd) (contents (tm_queue tm)) \<and>
    queue_inv ((tm_queue tm)\<lparr>buffer := b\<rparr>)"
proof -
  let ?q = "tm_queue tm"
  obtain b where b: "drop_fd_loop ?q fd (slot ?q 0) = Some (?q\<lparr>buffer := b\<rparr>)" "length b = length (buffer ?q)"
    "\<forall>j < capacity ?q. b ! slot ?q j =
       (if 0 \<le> j \<and> j < q_size ?q then drop_slot fd (buffer ?q ! slot ?q j) else buffer ?q ! slot ?q j)"
    using drop_fd_loop_from [OF assms, of 0] by auto
  have s0: "slot ?q 0 = q_out ?q" using assms(1) by (simp add: slot_def queue_inv_def)
  have fields: "slot (?q\<lparr>buffer := b\<rparr>) j = slot ?q j" for j by (simp add: slot_def)
  have "contents (?q\<lparr>buffer := b\<rparr>) = map (drop_slot fd) (contents ?q)"
    using b(3) assms(2) by (simp add: contents_def fields)
  moreover have "queue_inv (?q\<lparr>buffer := b\<rparr>)" using assms(1) b(2) by (simp add: queue_inv_def)
  ultimately show ?thesis using b(1) s0
    by (intro exI [of _ b]) (simp add: task_manager_task_drop_fd_def)
qed

text \<open>Dropping a descriptor turns the descriptor of exactly its queued tasks into -1, which
  the workers ignore, and keeps the number and the order of the tasks, as long as the ring is
  not full.\<close>

theorem drop_fd_marks:
  assumes "queue_inv (tm_queue tm)" "q_size (tm_queue tm) < capacity (tm_queue tm)"
  shows "\<exists>tm'. task_manager_task_drop_fd tm fd = Some tm' \<and>
    contents (tm_queue tm') = map (drop_slot fd) (contents (tm_queue tm)) \<and> queue_inv (tm_queue tm')"
  using drop_fd_contents [OF assms, of fd] by auto

text \<open>A manager whose ring has two places, to apply the properties on.\<close>

definition small_tm :: "task option list \<Rightarrow> nat \<Rightarrow> nat \<Rightarrow> task_manager" where
  "small_tm b sz i = \<lparr>min_tasks = 4, max_tasks = 16, number_of_tasks = 0, number_of_working_tasks = 0,
     last_peak = 0, tasks = [],
     tm_queue = \<lparr>buffer = b, capacity = length b, q_size = sz, q_in = i, q_out = 0\<rparr>\<rparr>"

lemma drop_fd_marks_witness:
  "\<exists>tm'. task_manager_task_drop_fd (small_tm [Some \<lparr>t_type = 1, t_fd = 7\<rparr>, None] 1 1) 7 = Some tm' \<and>
    contents (tm_queue tm') = [Some \<lparr>t_type = 1, t_fd = - 1\<rparr>]"
  using drop_fd_marks [of "small_tm [Some \<lparr>t_type = 1, t_fd = 7\<rparr>, None] 1 1" 7]
  by (auto simp: small_tm_def queue_inv_def contents_def slot_def drop_slot_def)

text \<open>When the ring is full, \<^verbatim>\<open>in\<close> and \<^verbatim>\<open>out\<close> are equal, the walk ends before its first slot,
  and no task is dropped.\<close>

lemma drop_fd_full_does_nothing:
  assumes "queue_inv (tm_queue tm)" "q_size (tm_queue tm) = capacity (tm_queue tm)"
  shows "task_manager_task_drop_fd tm fd = Some tm"
proof -
  have "q_in (tm_queue tm) = q_out (tm_queue tm)" using assms by (auto simp: queue_inv_def)
  then show ?thesis by (simp add: task_manager_task_drop_fd_def drop_fd_loop.simps)
qed

text \<open>In either case the ring stays well formed, and every queued task stays or is marked.\<close>

lemma drop_fd_keeps:
  assumes "queue_inv (tm_queue tm)" "task_manager_task_drop_fd tm fd = Some tm'"
  shows "queue_inv (tm_queue tm') \<and> capacity (tm_queue tm') = capacity (tm_queue tm) \<and>
    q_size (tm_queue tm') = q_size (tm_queue tm) \<and> number_of_tasks tm' = number_of_tasks tm \<and>
    set (contents (tm_queue tm')) \<subseteq> set (contents (tm_queue tm)) \<union> drop_slot fd ` set (contents (tm_queue tm))"
proof (cases "q_size (tm_queue tm) = capacity (tm_queue tm)")
  case True
  with assms drop_fd_full_does_nothing have "tm' = tm" by simp
  with assms(1) show ?thesis by auto
next
  case False
  then have "q_size (tm_queue tm) < capacity (tm_queue tm)" using assms(1) by (simp add: queue_inv_def)
  then obtain b where "tm' = tm\<lparr>tm_queue := (tm_queue tm)\<lparr>buffer := b\<rparr>\<rparr>"
    "contents ((tm_queue tm)\<lparr>buffer := b\<rparr>) = map (drop_slot fd) (contents (tm_queue tm))"
    "queue_inv ((tm_queue tm)\<lparr>buffer := b\<rparr>)"
    using drop_fd_contents [OF assms(1), of fd] assms(2) by auto
  then show ?thesis by auto
qed

lemma drop_fd_full_does_nothing_witness:
  "task_manager_task_drop_fd (small_tm [Some \<lparr>t_type = 1, t_fd = 7\<rparr>] 1 0) 7 =
     Some (small_tm [Some \<lparr>t_type = 1, t_fd = 7\<rparr>] 1 0)"
  by (rule drop_fd_full_does_nothing) (simp_all add: small_tm_def queue_inv_def)

lemma start_workers_all:
  assumes "n = number_of_tasks tm" "int n + int k = min_tasks tm" "length (tasks tm) = nat (min_tasks tm)"
    "\<forall>i < n. tasks tm ! i \<noteq> None" "None \<notin> set created" "min_tasks tm - 1 \<le> int (length created) + int (n - 1)" "0 < n \<or> 0 < k"
  shows "\<exists>tm' cs. start_workers k False tm self created = (False, tm', cs) \<and>
    int (number_of_tasks tm') = min_tasks tm \<and> length (tasks tm') = nat (min_tasks tm) \<and>
    (\<forall>i < number_of_tasks tm'. tasks tm' ! i \<noteq> None)"
  using assms
proof (induction k arbitrary: n tm created)
  case (Suc k)
  have lt: "n < length (tasks tm)" using Suc.prems(2,3) by simp
  show ?case
  proof (cases "n = 0")
    case True
    let ?tm = "tm\<lparr>tasks := (tasks tm)[0 := Some self], number_of_tasks := 1\<rparr>"
    have "start_workers (Suc k) False tm self created = start_workers k False ?tm self created"
      using Suc.prems(1,2) True by (simp add: Let_def)
    moreover have "\<exists>tm' cs. start_workers k False ?tm self created = (False, tm', cs) \<and>
      int (number_of_tasks tm') = min_tasks ?tm \<and> length (tasks tm') = nat (min_tasks ?tm) \<and>
      (\<forall>i < number_of_tasks tm'. tasks tm' ! i \<noteq> None)"
      by (rule Suc.IH [of 1]) (use Suc.prems True lt in auto)
    ultimately show ?thesis by simp
  next
    case False
    obtain t cs where c: "created = Some t # cs"
    proof -
      have "created \<noteq> []" using Suc.prems(2,6) False by auto
      then obtain a as where "created = a # as" by (cases created) auto
      with Suc.prems(5) that show ?thesis by (cases a) auto
    qed
    let ?tm = "tm\<lparr>tasks := (tasks tm)[n := Some t], number_of_tasks := n + 1\<rparr>"
    have "start_workers (Suc k) False tm self created = start_workers k False ?tm self cs"
      using Suc.prems(1,2) False c by (simp add: Let_def)
    moreover have "\<exists>tm' cs'. start_workers k False ?tm self cs = (False, tm', cs') \<and>
      int (number_of_tasks tm') = min_tasks ?tm \<and> length (tasks tm') = nat (min_tasks ?tm) \<and>
      (\<forall>i < number_of_tasks tm'. tasks tm' ! i \<noteq> None)"
      by (rule Suc.IH [of "n + 1"])
        (use Suc.prems c lt False in \<open>auto simp: nth_list_update less_Suc_eq\<close>)
    ultimately show ?thesis by simp
  qed
qed auto

lemma those_Some: "(\<forall>x \<in> set xs. x \<noteq> None) \<Longrightarrow> those xs \<noteq> None"
  by (induction xs) (auto split: option.splits)

text \<open>When all threads are created, the pool has the configured number of workers and the
  handle of every thread that will be joined was written.\<close>

theorem task_manager_run_all:
  assumes "2 \<le> min_tasks tm" "None \<notin> set created" "min_tasks tm - 1 \<le> int (length created)"
  shows "\<exists>tm'. task_manager_run False tm self created = (False, tm') \<and>
    int (number_of_tasks tm') = min_tasks tm \<and> joined_threads tm' \<noteq> None"
proof -
  let ?tm = "tm\<lparr>tasks := replicate (nat (min_tasks tm)) None, number_of_tasks := 0\<rparr>"
  obtain tm' cs where r: "start_workers (nat (min_tasks tm)) False ?tm self created = (False, tm', cs)"
    "int (number_of_tasks tm') = min_tasks ?tm" "\<forall>i < number_of_tasks tm'. tasks tm' ! i \<noteq> None"
    using start_workers_all [of 0 ?tm "nat (min_tasks tm)" created self] assms by auto
  have "joined_threads (tm'\<lparr>number_of_working_tasks := 0\<rparr>) \<noteq> None"
    unfolding joined_threads_def using r(3) by (intro those_Some) auto
  with r(1,2) show ?thesis by (simp add: task_manager_run_def Let_def)
qed

lemma task_manager_run_all_witness:
  "\<exists>tm'. task_manager_run False (small_tm [] 0 0) 1 [Some 2, Some 3, Some 4] = (False, tm') \<and>
    int (number_of_tasks tm') = 4"
  using task_manager_run_all [of "small_tm [] 0 0" "[Some 2, Some 3, Some 4]" 1] by (auto simp: small_tm_def)

text \<open>When a thread cannot be created the loop still counts it, and the manager later joins
  a thread whose handle was never written.\<close>

lemma task_manager_run_joins_garbage:
  "\<exists>tm'. task_manager_run False (small_tm [] 0 0) 1 [Some 2, None] = (True, tm') \<and>
    number_of_tasks tm' = 3 \<and> joined_threads tm' = None"
  by (simp add: task_manager_run_def small_tm_def joined_threads_def Let_def eval_nat_numeral upt_conv_Cons)

end
