(* ===== verification/Ini.thy ===== *)
theory Ini
  imports RenaPrelude
begin

text \<open>
  The INI reader of \<^verbatim>\<open>rena/external/libini/libini.c\<close>.  The pointers \<^verbatim>\<open>buf\<close>, \<^verbatim>\<open>curr\<close> and
  \<^verbatim>\<open>end\<close> are 0, \<^verbatim>\<open>ini_curr\<close> and the length of the buffer; a read at or behind the end is the
  crash \<^const>\<open>None\<close>.  The reader's loops end because they move towards the end; as the code
  can step over it, they are partial functions and their termination is a theorem.
\<close>

record INI =
  ini_buf :: string
  ini_curr :: nat

definition EIO :: int where "EIO = 5"
definition EINVAL :: int where "EINVAL = 22"

definition ini_end :: "INI \<Rightarrow> nat" where
  "ini_end ini = length (ini_buf ini)"

definition ini_at :: "INI \<Rightarrow> nat \<Rightarrow> char option" where
  "ini_at ini i = (if i < length (ini_buf ini) then Some (ini_buf ini ! i) else None)"

definition ini_open_mem :: "string \<Rightarrow> INI" where
  "ini_open_mem b = \<lparr>ini_buf = b, ini_curr = 0\<rparr>"

text \<open>\<^verbatim>\<open>ini_open\<close>: the contents of the file, \<^const>\<open>None\<close> when it cannot be opened; an empty file is
  refused.\<close>

definition ini_open :: "string option \<Rightarrow> INI option" where
  "ini_open file = (case file of
     None \<Rightarrow> None | Some b \<Rightarrow> if length b = 0 then None else Some (ini_open_mem b))"

text \<open>The inner loop of \<^verbatim>\<open>skip_comments\<close>: \<^verbatim>\<open>do { curr++; } while (curr != end && *curr != '\n')\<close>.\<close>

partial_function (option) comment_end :: "INI \<Rightarrow> nat \<Rightarrow> nat option" where [code]:
  "comment_end ini pos =
     (let pos = pos + 1 in
      if pos = ini_end ini then Some pos
      else do { c \<leftarrow> ini_at ini pos; if c \<noteq> LF then comment_end ini pos else Some pos })"

partial_function (option) skip_comments_loop :: "INI \<Rightarrow> nat \<Rightarrow> nat option" where [code]:
  "skip_comments_loop ini pos =
     (if pos = ini_end ini then Some pos
      else do {
        c \<leftarrow> ini_at ini pos;
        if c = CR \<or> c = LF then skip_comments_loop ini (pos + 1)
        else if c = CHR ''#'' then do { pos \<leftarrow> comment_end ini pos; skip_comments_loop ini pos }
        else Some pos })"

definition skip_comments :: "INI \<Rightarrow> (bool \<times> INI) option" where
  "skip_comments ini = do {
     pos \<leftarrow> skip_comments_loop ini (ini_curr ini);
     Some (pos = ini_end ini, ini\<lparr>ini_curr := pos\<rparr>) }"

partial_function (option) find_lf :: "INI \<Rightarrow> nat \<Rightarrow> nat option" where [code]:
  "find_lf ini pos =
     (if pos = ini_end ini then Some pos
      else do { c \<leftarrow> ini_at ini pos; if c \<noteq> LF then find_lf ini (pos + 1) else Some pos })"

definition skip_line :: "INI \<Rightarrow> (bool \<times> INI) option" where
  "skip_line ini = do {
     pos \<leftarrow> find_lf ini (ini_curr ini);
     if pos = ini_end ini then Some (True, ini\<lparr>ini_curr := pos\<rparr>)
     else Some (False, ini\<lparr>ini_curr := pos + 1\<rparr>) }"

text \<open>\<^verbatim>\<open>while (*ini->curr != '[' && !skip_line(ini));\<close>\<close>

partial_function (option) seek_section :: "INI \<Rightarrow> INI option" where [code]:
  "seek_section ini = do {
     c \<leftarrow> ini_at ini (ini_curr ini);
     if c = CHR ''['' then Some ini
     else do {
       (eof, ini) \<leftarrow> skip_line ini;
       if eof then Some ini else seek_section ini } }"

text \<open>The \<^verbatim>\<open>do\<close> loop that looks for the closing bracket: \<^const>\<open>None\<close> inside for \<^verbatim>\<open>-EIO\<close>.\<close>

partial_function (option) bracket_loop :: "INI \<Rightarrow> nat \<Rightarrow> nat option option" where [code]:
  "bracket_loop ini pos =
     (let pos = pos + 1 in
      if pos = ini_end ini then Some None
      else do {
        c \<leftarrow> ini_at ini pos;
        if c = LF then Some None
        else if c = CHR '']'' then Some (Some pos)
        else bracket_loop ini pos })"

definition ini_next_section :: "INI \<Rightarrow> (int \<times> string \<times> INI) option" where
  "ini_next_section ini =
    (if ini_curr ini = ini_end ini then Some (0, [], ini)
     else do {
       (bad, ini) \<leftarrow>
         (if ini_curr ini = 0 then do {
            (eof, ini) \<leftarrow> skip_comments ini;
            if eof then Some (True, ini)
            else do { c \<leftarrow> ini_at ini (ini_curr ini); Some (c \<noteq> CHR ''['', ini) } }
          else do { ini \<leftarrow> seek_section ini; Some (False, ini) });
       if bad then Some (- EIO, [], ini)
       else if ini_curr ini = ini_end ini then Some (0, [], ini)
       else do {
         let name = ini_curr ini + 1;
         r \<leftarrow> bracket_loop ini name;
         (case r of
            None \<Rightarrow> Some (- EIO, [], ini)
          | Some pos \<Rightarrow>
              Some (1, take (pos - name) (drop name (ini_buf ini)), ini\<lparr>ini_curr := pos + 1\<rparr>)) } })"

text \<open>The \<^verbatim>\<open>while (true)\<close> loop that looks for the equals sign.\<close>

partial_function (option) equals_loop :: "INI \<Rightarrow> nat \<Rightarrow> nat option option" where [code]:
  "equals_loop ini pos =
     (let pos = pos + 1 in
      if pos = ini_end ini then Some None
      else do {
        c \<leftarrow> ini_at ini pos;
        if c = LF then Some None
        else if c = CHR ''='' then Some (Some pos)
        else equals_loop ini pos })"

text \<open>The blanks in front of the equals sign, down to but not including the first character of
  the key.\<close>

fun key_blanks :: "string \<Rightarrow> nat \<Rightarrow> nat" where
  "key_blanks key 0 = 0"
| "key_blanks key (Suc k) =
     (if 0 < k \<and> (key ! k = SPACE \<or> key ! k = TAB) then Suc (key_blanks key k) else 0)"

partial_function (option) skip_blanks :: "INI \<Rightarrow> nat \<Rightarrow> nat option" where [code]:
  "skip_blanks ini pos =
     (if pos = ini_end ini then Some pos
      else do { c \<leftarrow> ini_at ini pos;
                if c = SPACE \<or> c = TAB then skip_blanks ini (pos + 1) else Some pos })"

text \<open>\<^verbatim>\<open>ini_read_pair\<close>: its result, the key, the value, and the reader.\<close>

definition ini_read_pair :: "INI \<Rightarrow> (int \<times> string \<times> string \<times> INI) option" where
  "ini_read_pair ini = do {
     (eof, ini) \<leftarrow> skip_comments ini;
     if eof then Some (0, [], [], ini)
     else do {
       let key = ini_curr ini;
       c \<leftarrow> ini_at ini key;
       if c = CHR ''['' then Some (0, [], [], ini)
       else do {
         r \<leftarrow> equals_loop ini key;
         (case r of
            None \<Rightarrow> Some (- EIO, [], [], ini)
          | Some eq \<Rightarrow> do {
              let word = take (eq - key) (drop key (ini_buf ini));
              let word = take (length word - key_blanks word (length word)) word;
              pos \<leftarrow> skip_blanks ini (eq + 1);
              if pos = ini_end ini then Some (- EIO, [], [], ini)
              else do {
                let val = pos;
                pos \<leftarrow> find_lf ini pos;
                if pos = ini_end ini then Some (- EIO, [], [], ini)
                else do {
                  l \<leftarrow> ini_at ini (pos - 1);
                  let len = pos - val - (if l = CR then 1 else 0);
                  Some (1, word, take len (drop val (ini_buf ini)), ini\<lparr>ini_curr := pos + 1\<rparr>) } } }) } } }"

definition ini_get_line_number :: "INI \<Rightarrow> nat \<Rightarrow> int" where
  "ini_get_line_number ini pointer =
    (if pointer > ini_end ini then - EINVAL
     else 1 + int (length (filter (\<lambda>c. c = LF) (take pointer (ini_buf ini)))))"

definition ini_set_read_pointer :: "INI \<Rightarrow> nat \<Rightarrow> INI" where
  "ini_set_read_pointer ini pointer =
    ini\<lparr>ini_curr := (if pointer > ini_end ini then ini_end ini else pointer)\<rparr>"

section \<open>The reader stays inside the buffer\<close>

lemma ini_at_ok: "pos < ini_end ini \<Longrightarrow> ini_at ini pos = Some (ini_buf ini ! pos)"
  by (simp add: ini_at_def ini_end_def)

lemma ini_end_upd [simp]: "ini_end (ini\<lparr>ini_curr := x\<rparr>) = ini_end ini"
  by (simp add: ini_end_def)

lemma comment_end_ok:
  "pos < ini_end ini \<Longrightarrow> \<exists>p. comment_end ini pos = Some p \<and> pos < p \<and> p \<le> ini_end ini"
proof (induction "ini_end ini - pos" arbitrary: pos)
  case (Suc n)
  show ?case
  proof (cases "pos + 1 = ini_end ini")
    case True
    then show ?thesis by (subst comment_end.simps) (auto simp: Let_def)
  next
    case False
    then have "pos + 1 < ini_end ini" using Suc.prems by simp
    moreover from this Suc.hyps(2) have "\<exists>p. comment_end ini (pos + 1) = Some p \<and> pos + 1 < p \<and> p \<le> ini_end ini"
      by (intro Suc.hyps(1)) auto
    ultimately show ?thesis by (subst comment_end.simps) (auto simp: Let_def ini_at_ok)
  qed
qed simp

lemma skip_comments_loop_ok:
  "pos \<le> ini_end ini \<Longrightarrow> \<exists>p. skip_comments_loop ini pos = Some p \<and> pos \<le> p \<and> p \<le> ini_end ini \<and>
     (p \<noteq> ini_end ini \<longrightarrow> ini_buf ini ! p \<notin> {CR, LF, CHR ''#''})"
proof (induction "ini_end ini - pos" arbitrary: pos rule: less_induct)
  case less
  show ?case
  proof (cases "pos = ini_end ini")
    case True
    then show ?thesis by (subst skip_comments_loop.simps) auto
  next
    case False
    then have lt: "pos < ini_end ini" using less.prems by simp
    have next_ok: "\<exists>p. skip_comments_loop ini q = Some p \<and> pos \<le> p \<and> p \<le> ini_end ini \<and>
     (p \<noteq> ini_end ini \<longrightarrow> ini_buf ini ! p \<notin> {CR, LF, CHR ''#''})" if "pos < q" "q \<le> ini_end ini" for q
      using less.hyps [of q] that by fastforce
    obtain p1 where p1: "comment_end ini pos = Some p1" "pos < p1" "p1 \<le> ini_end ini"
      using comment_end_ok [OF lt] by blast
    show ?thesis
      using False lt next_ok [of "pos + 1"] next_ok [OF p1(2,3)] p1(1)
      by (subst skip_comments_loop.simps) (simp add: ini_at_ok)
  qed
qed

lemma skip_comments_ok:
  assumes "ini_curr ini \<le> ini_end ini"
  obtains p where "skip_comments ini = Some (p = ini_end ini, ini\<lparr>ini_curr := p\<rparr>)" "p \<le> ini_end ini"
    "ini_curr ini \<le> p"
  using skip_comments_loop_ok [OF assms] by (auto simp: skip_comments_def)

lemma find_lf_ok:
  "pos \<le> ini_end ini \<Longrightarrow> \<exists>p. find_lf ini pos = Some p \<and> pos \<le> p \<and> p \<le> ini_end ini"
proof (induction "ini_end ini - pos" arbitrary: pos)
  case 0
  then show ?case by (subst find_lf.simps) auto
next
  case (Suc n)
  then have "\<exists>p. find_lf ini (pos + 1) = Some p \<and> pos + 1 \<le> p \<and> p \<le> ini_end ini"
    by (intro Suc.hyps(1)) auto
  with Suc.hyps(2) show ?case by (subst find_lf.simps) (auto simp: ini_at_ok)
qed

lemma skip_blanks_ok:
  "pos \<le> ini_end ini \<Longrightarrow> \<exists>p. skip_blanks ini pos = Some p \<and> pos \<le> p \<and> p \<le> ini_end ini"
proof (induction "ini_end ini - pos" arbitrary: pos)
  case 0
  then show ?case by (subst skip_blanks.simps) auto
next
  case (Suc n)
  then have "\<exists>p. skip_blanks ini (pos + 1) = Some p \<and> pos + 1 \<le> p \<and> p \<le> ini_end ini"
    by (intro Suc.hyps(1)) auto
  with Suc.hyps(2) show ?case by (subst skip_blanks.simps) (auto simp: ini_at_ok)
qed

lemma equals_loop_ok:
  "pos < ini_end ini \<Longrightarrow> \<exists>r. equals_loop ini pos = Some r \<and> (\<forall>p. r = Some p \<longrightarrow> pos < p \<and> p < ini_end ini)"
proof (induction "ini_end ini - pos" arbitrary: pos)
  case (Suc n)
  show ?case
  proof (cases "pos + 1 = ini_end ini")
    case True
    then show ?thesis by (subst equals_loop.simps) (auto simp: Let_def)
  next
    case False
    then have lt: "pos + 1 < ini_end ini" using Suc.prems by simp
    with Suc.hyps(2) have "\<exists>r. equals_loop ini (pos + 1) = Some r \<and> (\<forall>p. r = Some p \<longrightarrow> pos + 1 < p \<and> p < ini_end ini)"
      by (intro Suc.hyps(1)) auto
    then obtain r where r: "equals_loop ini (pos + 1) = Some r" "\<forall>p. r = Some p \<longrightarrow> pos + 1 < p \<and> p < ini_end ini"
      by blast
    have step: "equals_loop ini pos = (if ini_buf ini ! (pos + 1) = LF then Some None
        else if ini_buf ini ! (pos + 1) = CHR ''='' then Some (Some (pos + 1)) else Some r)"
      using lt r(1) by (subst equals_loop.simps) (simp add: Let_def ini_at_ok)
    show ?thesis unfolding step using r(2) lt by auto
  qed
qed simp

lemma bracket_loop_ok:
  "pos < ini_end ini \<Longrightarrow> \<exists>r. bracket_loop ini pos = Some r \<and> (\<forall>p. r = Some p \<longrightarrow> pos < p \<and> p < ini_end ini)"
proof (induction "ini_end ini - pos" arbitrary: pos)
  case (Suc n)
  show ?case
  proof (cases "pos + 1 = ini_end ini")
    case True
    then show ?thesis by (subst bracket_loop.simps) (auto simp: Let_def)
  next
    case False
    then have lt: "pos + 1 < ini_end ini" using Suc.prems by simp
    with Suc.hyps(2) have "\<exists>r. bracket_loop ini (pos + 1) = Some r \<and> (\<forall>p. r = Some p \<longrightarrow> pos + 1 < p \<and> p < ini_end ini)"
      by (intro Suc.hyps(1)) auto
    then obtain r where r: "bracket_loop ini (pos + 1) = Some r" "\<forall>p. r = Some p \<longrightarrow> pos + 1 < p \<and> p < ini_end ini"
      by blast
    have step: "bracket_loop ini pos = (if ini_buf ini ! (pos + 1) = LF then Some None
        else if ini_buf ini ! (pos + 1) = CHR '']'' then Some (Some (pos + 1)) else Some r)"
      using lt r(1) by (subst bracket_loop.simps) (simp add: Let_def ini_at_ok)
    show ?thesis unfolding step using r(2) lt by auto
  qed
qed simp

text \<open>Where the reader stands between a section's pairs and the next section.\<close>

definition at_section :: "INI \<Rightarrow> bool" where
  "at_section ini \<longleftrightarrow> ini_curr ini \<le> ini_end ini \<and>
     (ini_curr ini = 0 \<or> ini_curr ini = ini_end ini \<or> ini_buf ini ! ini_curr ini = CHR ''['')"

lemma ini_read_pair_ok:
  assumes "ini_curr ini \<le> ini_end ini"
  shows "\<exists>r k v ini'. ini_read_pair ini = Some (r, k, v, ini') \<and> ini_buf ini' = ini_buf ini \<and>
    ini_curr ini' \<le> ini_end ini' \<and> (r = 0 \<longrightarrow> at_section ini') \<and> (r = 1 \<longrightarrow> ini_curr ini < ini_curr ini')"
proof -
  obtain p where p: "skip_comments ini = Some (p = ini_end ini, ini\<lparr>ini_curr := p\<rparr>)" "p \<le> ini_end ini"
    "ini_curr ini \<le> p"
    by (rule skip_comments_ok [OF assms])
  let ?i = "ini\<lparr>ini_curr := p\<rparr>"
  have e: "ini_end ?i = ini_end ini" by (rule ini_end_upd)
  show ?thesis
  proof (cases "p = ini_end ini")
    case True
    then show ?thesis using p by (auto simp: ini_read_pair_def at_section_def)
  next
    case False
    then have lt: "p < ini_end ?i" using p e by simp
    show ?thesis
    proof (cases "ini_buf ini ! p = CHR ''[''")
      case True
      then show ?thesis using p False lt by (auto simp: ini_read_pair_def at_section_def ini_at_ok)
    next
      case nb: False
      obtain r where r: "equals_loop ?i p = Some r" "\<forall>q. r = Some q \<longrightarrow> p < q \<and> q < ini_end ?i"
        using equals_loop_ok [OF lt] by blast
      show ?thesis
      proof (cases r)
        case None
        then show ?thesis using p False lt nb r(1)
          by (auto simp: ini_read_pair_def ini_at_ok EIO_def)
      next
        case (Some eq)
        then have eq: "p < eq" "eq < ini_end ?i" using r(2) by auto
        obtain v where v: "skip_blanks ?i (eq + 1) = Some v" "eq + 1 \<le> v" "v \<le> ini_end ?i"
          using skip_blanks_ok [of "eq + 1" ?i] eq by auto
        obtain l where l: "find_lf ?i v = Some l" "v \<le> l" "l \<le> ini_end ?i"
          using find_lf_ok [OF v(3)] by blast
        have "ini_at ?i (l - 1) = Some (ini_buf ini ! (l - 1))" using l v eq by (simp add: ini_at_def ini_end_def)
        then show ?thesis using p False lt nb r(1) Some v l eq
          by (auto simp: ini_read_pair_def ini_at_ok EIO_def Let_def)
      qed
    qed
  qed
qed

lemma ini_next_section_ok:
  assumes "at_section ini" "ini_buf ini = [] \<or> last (ini_buf ini) \<noteq> CHR ''[''"
  shows "\<exists>r nm ini'. ini_next_section ini = Some (r, nm, ini') \<and> ini_buf ini' = ini_buf ini \<and>
    ini_curr ini' \<le> ini_end ini' \<and> (r = 1 \<longrightarrow> ini_curr ini < ini_curr ini')"
proof -
  have go: "\<exists>r nm ini'. (do {
         let name = p + 1;
         r \<leftarrow> bracket_loop (ini\<lparr>ini_curr := p\<rparr>) name;
         (case r of
            None \<Rightarrow> Some (- EIO, [], ini\<lparr>ini_curr := p\<rparr>)
          | Some pos \<Rightarrow>
              Some (1, take (pos - name) (drop name (ini_buf ini)), ini\<lparr>ini_curr := pos + 1\<rparr>)) })
      = Some (r, nm, ini') \<and> ini_buf ini' = ini_buf ini \<and>
      ini_curr ini' \<le> ini_end ini' \<and> (r = 1 \<longrightarrow> p < ini_curr ini')"
    if p: "p < ini_end ini" "ini_buf ini ! p = CHR ''[''" for p
  proof -
    have "p \<noteq> ini_end ini - 1"
      using assms(2) p last_conv_nth [of "ini_buf ini"] by (cases "ini_buf ini = []") (auto simp: ini_end_def)
    then have "p + 1 < ini_end (ini\<lparr>ini_curr := p\<rparr>)" using p by simp
    from bracket_loop_ok [OF this] obtain r where
      "bracket_loop (ini\<lparr>ini_curr := p\<rparr>) (p + 1) = Some r" "\<forall>q. r = Some q \<longrightarrow> p + 1 < q \<and> q < ini_end ini"
      by auto
    then show ?thesis using p by (cases r) (auto simp: EIO_def)
  qed
  consider (fin) "ini_curr ini = ini_end ini"
    | (start) "ini_curr ini = 0" "ini_curr ini < ini_end ini"
    | (sec) "ini_curr ini \<noteq> 0" "ini_curr ini < ini_end ini" "ini_buf ini ! ini_curr ini = CHR ''[''"
    using assms(1) unfolding at_section_def by linarith
  then show ?thesis
  proof cases
    case fin
    then show ?thesis by (simp add: ini_next_section_def)
  next
    case sec
    then have "seek_section ini = Some ini" by (subst seek_section.simps) (simp add: ini_at_ok)
    moreover have "ini\<lparr>ini_curr := ini_curr ini\<rparr> = ini" by simp
    ultimately show ?thesis using go [OF sec(2,3)] sec by (simp add: ini_next_section_def Let_def)
  next
    case start
    obtain p where p: "skip_comments ini = Some (p = ini_end ini, ini\<lparr>ini_curr := p\<rparr>)" "p \<le> ini_end ini"
      by (rule skip_comments_ok [of ini]) (use start in auto)
    show ?thesis
    proof (cases "p < ini_end ini \<and> ini_buf ini ! p = CHR ''[''")
      case True
      then show ?thesis using go [of p] start p
        by (auto simp: ini_next_section_def Let_def ini_at_ok)
    next
      case False
      then show ?thesis using start p
        by (auto simp: ini_next_section_def ini_at_ok EIO_def)
    qed
  qed
qed

section \<open>Properties\<close>

text \<open>C38: reading a pair never leaves the buffer and always returns; after a pair the reader has
  moved on, and where it finds no pair it stands at the end or at the next section.\<close>

theorem ini_read_pair_total:
  assumes "ini_curr ini \<le> ini_end ini"
  shows "\<exists>r k v ini'. ini_read_pair ini = Some (r, k, v, ini') \<and> ini_curr ini' \<le> ini_end ini' \<and>
    (r = 0 \<longrightarrow> at_section ini') \<and> (r = 1 \<longrightarrow> ini_curr ini < ini_curr ini')"
  using ini_read_pair_ok [OF assms] by blast

lemma ini_read_pair_total_witness:
  "\<exists>r k v ini'. ini_read_pair (ini_open_mem ''a=b'') = Some (r, k, v, ini')"
  using ini_read_pair_total [of "ini_open_mem ''a=b''"] by (auto simp: ini_open_mem_def)

text \<open>A buffer that ends with an opening bracket where a section is expected is read behind its
  end.\<close>

lemma ini_trailing_bracket_overrun:
  "ini_next_section (ini_open_mem ''['') = None"
  by code_simp

section \<open>What is written is read back\<close>

lemma find_lf_at:
  "ini_buf ini = a @ b @ LF # c \<Longrightarrow> LF \<notin> set b \<Longrightarrow> find_lf ini (length a) = Some (length a + length b)"
proof (induction b arbitrary: a)
  case Nil
  then show ?case by (subst find_lf.simps) (simp add: ini_at_def ini_end_def nth_append)
next
  case (Cons x b)
  from Cons.IH [of "a @ [x]"] Cons.prems show ?case
    by (subst find_lf.simps) (auto simp: ini_at_def ini_end_def nth_append)
qed

lemma skip_blanks_stop:
  "ini_buf ini = a @ x # c \<Longrightarrow> x \<noteq> SPACE \<Longrightarrow> x \<noteq> TAB \<Longrightarrow> skip_blanks ini (length a) = Some (length a)"
  by (subst skip_blanks.simps) (simp add: ini_at_def ini_end_def nth_append)

lemma equals_loop_at:
  "ini_buf ini = a @ x # b @ CHR ''='' # c \<Longrightarrow> LF \<notin> set b \<Longrightarrow> CHR ''='' \<notin> set b \<Longrightarrow>
     equals_loop ini (length a) = Some (Some (length a + Suc (length b)))"
proof (induction b arbitrary: a x)
  case Nil
  then show ?case by (subst equals_loop.simps) (simp add: Let_def ini_at_def ini_end_def nth_append)
next
  case (Cons y b)
  from Cons.IH [of "a @ [x]" y] Cons.prems show ?case
    by (subst equals_loop.simps) (auto simp: Let_def ini_at_def ini_end_def nth_append)
qed

lemma key_blanks_none:
  "w \<noteq> [] \<Longrightarrow> last w \<notin> {SPACE, TAB} \<Longrightarrow> key_blanks w (length w) = 0"
  by (cases w rule: rev_cases) (auto simp: nth_append)

text \<open>C39: the line \<^verbatim>\<open>key=value\<close> of a file is read back as this key and this value, and the reader
  goes on behind it; the key does not start like a section or a comment and holds no equals
  sign, the value is not empty, does not start with a blank and does not end with a carriage
  return, and neither holds a line end.\<close>

theorem ini_pair_roundtrip:
  assumes "ini_buf ini = pre @ key @ ''='' @ val @ [LF] @ rest" "ini_curr ini = length pre"
    and "key \<noteq> []" "hd key \<notin> {CHR ''['', CHR ''#'', CR, LF}" "last key \<notin> {SPACE, TAB}"
      "CHR ''='' \<notin> set key" "LF \<notin> set key"
    and "val \<noteq> []" "hd val \<notin> {SPACE, TAB}" "last val \<noteq> CR" "LF \<notin> set val"
  shows "ini_read_pair ini = Some (1, key, val, ini\<lparr>ini_curr := length pre + length key + length val + 2\<rparr>)"
proof -
  obtain x ks where key: "key = x # ks" using assms(3) by (cases key) auto
  obtain y vs where val: "val = y # vs" using assms(8) by (cases val) auto
  have buf: "ini_buf ini = pre @ x # ks @ CHR ''='' # val @ LF # rest" using assms(1) key by simp
  have skip: "skip_comments ini = Some (False, ini)"
    using buf assms(2,4) key unfolding skip_comments_def
    by (subst skip_comments_loop.simps) (auto simp: ini_at_def ini_end_def nth_append)
  have eq: "equals_loop ini (length pre) = Some (Some (length pre + Suc (length ks)))"
    using equals_loop_at [OF buf] assms(6,7) key by auto
  let ?v = "length pre + Suc (length ks) + 1"
  have "ini_buf ini = (pre @ x # ks @ ''='') @ y # vs @ LF # rest" using buf val by simp
  from skip_blanks_stop [OF this] have blanks: "skip_blanks ini ?v = Some ?v"
    using assms(9) val by simp
  have "ini_buf ini = (pre @ x # ks @ ''='') @ val @ LF # rest" using buf by simp
  from find_lf_at [OF this assms(11)] have lf: "find_lf ini ?v = Some (?v + length val)" by simp
  have lst: "ini_at ini (?v + length val - 1) = Some (last val)"
  proof -
    have "ini_buf ini = (pre @ x # ks @ ''='' @ butlast val) @ last val # LF # rest"
      using buf assms(8) by simp
    moreover have "?v + length val - 1 = length (pre @ x # ks @ ''='' @ butlast val)"
      using val by simp
    ultimately show ?thesis by (metis ini_at_def length_append length_Cons less_add_Suc1 add_Suc_right nth_append_length)
  qed
  have at_x: "ini_at ini (length pre) = Some x" using buf by (simp add: ini_at_def)
  have ends: "?v < ini_end ini" "?v + length val < ini_end ini" using buf val by (simp_all add: ini_end_def)
  have word: "take (Suc (length ks)) (drop (length pre) (ini_buf ini)) = key" using buf key by simp
  have value_: "take (length val) (drop ?v (ini_buf ini)) = val" using buf by simp
  have kb: "key_blanks key (length key) = 0" by (rule key_blanks_none [OF assms(3,5)])
  show ?thesis
    using skip eq blanks lf lst at_x ends word value_ kb assms(2,4,10) key
    by (simp add: ini_read_pair_def Let_def)
qed

lemma ini_pair_roundtrip_witness:
  "ini_read_pair (ini_open_mem (''a b=c d'' @ [LF])) = Some (1, ''a b'', ''c d'', \<lparr>ini_buf = ''a b=c d'' @ [LF], ini_curr = 8\<rparr>)"
  using ini_pair_roundtrip [of "ini_open_mem (''a b=c d'' @ [LF])" "[]" "''a b''" "''c d''" "[]"]
  by (simp add: ini_open_mem_def)

text \<open>A last line without a line end is not read: the reader reports an error.\<close>

lemma ini_last_line_refused:
  "ini_read_pair (ini_open_mem ''key=value'') = Some (- EIO, [], [], ini_open_mem ''key=value'')"
  by code_simp

end
