(* ===== verification/Strtod.thy ===== *)
theory Strtod
  imports RenaPrelude
begin

text \<open>
  \<^verbatim>\<open>strtod\<close> of the C library, as far as the configuration uses it: the value that a text in the
  C locale denotes, rounded to the nearest double.  A finite double is a sign, a mantissa and
  a binary exponent.
\<close>

datatype dbl = Fin bool int int | Inf bool | NaN

function bit_len :: "int \<Rightarrow> int" where
  "bit_len n = (if n \<le> 0 then 0 else 1 + bit_len (n div 2))"
  by auto

termination bit_len
  by (relation "measure nat") auto

declare bit_len.simps [simp del]

text \<open>The quotient, rounded to the nearest integer, to even in the middle.\<close>

definition div_round :: "int \<Rightarrow> int \<Rightarrow> int" where
  "div_round n d =
    (let q = n div d; r = n mod d
     in if 2 * r > d \<or> (2 * r = d \<and> odd q) then q + 1 else q)"

text \<open>\<open>n / d\<close> scaled by \<open>2 ^ - e\<close>, as a fraction.\<close>

definition scale_frac :: "int \<Rightarrow> int \<Rightarrow> int \<Rightarrow> int \<times> int" where
  "scale_frac n d e = (if e \<ge> 0 then (n, d * 2 ^ nat e) else (n * 2 ^ nat (- e), d))"

text \<open>Rounding of \<open>n / d\<close> to a mantissa of \<open>p\<close> bits with exponents from \<open>emin\<close>; the numbers from
  \<open>2 ^ emax\<close> are infinite.\<close>

definition round_frac :: "nat \<Rightarrow> int \<Rightarrow> int \<Rightarrow> bool \<Rightarrow> int \<Rightarrow> int \<Rightarrow> dbl" where
  "round_frac p emin emax neg n d =
    (if n = 0 then Fin neg 0 0
     else let e0 = max emin (bit_len n - bit_len d - int p);
              (n0, d0) = scale_frac n d e0;
              e = (if n0 div d0 \<ge> 2 ^ p then e0 + 1 else e0);
              (n1, d1) = scale_frac n d e;
              m = div_round n1 d1
          in if bit_len m + e > emax then Inf neg else Fin neg m e)"

definition round_double :: "bool \<Rightarrow> int \<Rightarrow> int \<Rightarrow> dbl" where
  "round_double = round_frac 53 (- 1074) 1024"

definition to_float :: "dbl \<Rightarrow> dbl" where
  "to_float x = (case x of
     Fin neg m e \<Rightarrow>
       (if e \<ge> 0 then round_frac 24 (- 149) 128 neg (m * 2 ^ nat e) 1
        else round_frac 24 (- 149) 128 neg m (2 ^ nat (- e)))
   | _ \<Rightarrow> x)"

section \<open>Reading\<close>

definition digit_of :: "char \<Rightarrow> int" where
  "digit_of c = of_char c - 48"

definition is_xdigit :: "char \<Rightarrow> bool" where
  "is_xdigit c = (is_digit c \<or> c_tolower c \<in> set ''abcdef'')"

definition xdigit_of :: "char \<Rightarrow> int" where
  "xdigit_of c = (if is_digit c then digit_of c else of_char (c_tolower c) - 87)"

fun number_of :: "int \<Rightarrow> (char \<Rightarrow> int) \<Rightarrow> int \<Rightarrow> string \<Rightarrow> int" where
  "number_of b f acc [] = acc"
| "number_of b f acc (c # cs) = number_of b f (b * acc + f c) cs"

text \<open>Digits, optionally a point and more digits: all digits, and how many follow the point.\<close>

definition mantissa :: "(char \<Rightarrow> bool) \<Rightarrow> string \<Rightarrow> string \<times> nat \<times> string" where
  "mantissa dig s =
    (let whole = takeWhile dig s; s1 = dropWhile dig s
     in if s1 \<noteq> [] \<and> hd s1 = CHR ''.''
        then (let frac = takeWhile dig (tl s1)
              in (whole @ frac, length frac, dropWhile dig (tl s1)))
        else (whole, 0, s1))"

definition exponent :: "char \<Rightarrow> string \<Rightarrow> int" where
  "exponent mark s =
    (if s \<noteq> [] \<and> c_tolower (hd s) = mark
     then (let t = tl s;
               neg = (t \<noteq> [] \<and> hd t = CHR ''-'');
               u = (if t \<noteq> [] \<and> (hd t = CHR ''-'' \<or> hd t = CHR ''+'') then tl t else t);
               v = number_of 10 digit_of 0 (takeWhile is_digit u)
           in if neg then - v else v)
     else 0)"

definition scaled :: "bool \<Rightarrow> int \<Rightarrow> int \<Rightarrow> int \<Rightarrow> dbl" where
  "scaled neg n b e =
    (if e \<ge> 0 then round_double neg (n * b ^ nat e) 1 else round_double neg n (b ^ nat (- e)))"

definition starts_with :: "string \<Rightarrow> string \<Rightarrow> bool" where
  "starts_with s w = (lower (take (length w) s) = w)"

definition strtod :: "string \<Rightarrow> dbl" where
  "strtod str =
    (let s = dropWhile is_space str;
         neg = (s \<noteq> [] \<and> hd s = CHR ''-'');
         s = (if s \<noteq> [] \<and> (hd s = CHR ''-'' \<or> hd s = CHR ''+'') then tl s else s)
     in if starts_with s ''inf'' then Inf neg
        else if starts_with s ''nan'' then NaN
        else if starts_with s ''0x'' \<and> fst (mantissa is_xdigit (drop 2 s)) \<noteq> []
        then (case mantissa is_xdigit (drop 2 s) of (ds, k, rest) \<Rightarrow>
                scaled neg (number_of 16 xdigit_of 0 ds) 2 (exponent (CHR ''p'') rest - 4 * int k))
        else (case mantissa is_digit s of (ds, k, rest) \<Rightarrow>
                if ds = [] then Fin False 0 0
                else scaled neg (number_of 10 digit_of 0 ds) 10 (exponent (CHR ''e'') rest - int k)))"

text \<open>\<^verbatim>\<open>temp <= 0\<close>: false for NaN.\<close>

definition le_zero :: "dbl \<Rightarrow> bool" where
  "le_zero x = (case x of Fin neg m e \<Rightarrow> neg \<or> m = 0 | Inf neg \<Rightarrow> neg | NaN \<Rightarrow> False)"

text \<open>\<^verbatim>\<open>(int) temp\<close>: truncation; outside the range of \<^verbatim>\<open>int\<close> the behaviour is undefined.\<close>

definition trunc_abs :: "int \<Rightarrow> int \<Rightarrow> int" where
  "trunc_abs m e = (if e \<ge> 0 then m * 2 ^ nat e else m div 2 ^ nat (- e))"

definition to_int :: "dbl \<Rightarrow> int option" where
  "to_int x = (case x of
     Fin neg m e \<Rightarrow> (let v = (if neg then - trunc_abs m e else trunc_abs m e)
                     in if - (2 ^ 31) \<le> v \<and> v < 2 ^ 31 then Some v else None)
   | _ \<Rightarrow> None)"

end
