(* ===== verification/Config.thy ===== *)
theory Config
  imports Ini Strtod
begin

text \<open>
  The configuration of \<^verbatim>\<open>rena/src/config.c\<close>: the structure with its defaults, one parser for
  each setting, the table that finds the parser, and the loader that feeds it with the pairs
  of an INI file.  A parser returns its code and the structure; \<^const>\<open>None\<close> is the undefined
  conversion of a number that is no \<^verbatim>\<open>int\<close>.
\<close>

record config_rena =
  certificate_file :: string
  certificate_key :: string
  database_directory :: string
  database_suffix :: string
  server_bind :: string
  server_port_http :: int
  server_port_https :: int
  logging_facility :: int
  logging_options :: int
  logging_minimum :: int
  pool_minimum :: int
  pool_maximum :: int
  pool_reap_time :: int
  pool_addictive :: dbl

definition MAX_FILENAME :: nat where "MAX_FILENAME = 5120"
definition CFG_MAX_STR :: nat where "CFG_MAX_STR = 1024"

type_synonym setter = "config_rena \<Rightarrow> string \<Rightarrow> (int \<times> config_rena) option"

definition parse_certificate_file :: setter where
  "parse_certificate_file c v = Some (0, c\<lparr>certificate_file := snprintf_to MAX_FILENAME v\<rparr>)"

definition parse_certificate_key :: setter where
  "parse_certificate_key c v = Some (0, c\<lparr>certificate_key := snprintf_to MAX_FILENAME v\<rparr>)"

definition parse_database_directory :: setter where
  "parse_database_directory c v = Some (0, c\<lparr>database_directory := snprintf_to MAX_FILENAME v\<rparr>)"

definition parse_database_suffix :: setter where
  "parse_database_suffix c v =
    (if v \<noteq> [] \<and> hd v = CHR ''.'' \<and> strchr (tl v) (CHR ''.'') \<noteq> None
     then Some (0, c\<lparr>database_suffix := snprintf_to CFG_MAX_STR v\<rparr>)
     else Some (- 1, c))"

text \<open>The common shape of the parsers of positive numbers.\<close>

definition parse_positive :: "(int \<Rightarrow> config_rena) \<Rightarrow> setter" where
  "parse_positive set_to c v =
    (let temp = strtod v in
     if le_zero temp then Some (- 1, c) else do { n \<leftarrow> to_int temp; Some (0, set_to n) })"

definition parse_pool_minimum :: setter where
  "parse_pool_minimum c v = parse_positive (\<lambda>n. c\<lparr>pool_minimum := n\<rparr>) c v"

definition parse_pool_maximum :: setter where
  "parse_pool_maximum c v = parse_positive (\<lambda>n. c\<lparr>pool_maximum := n\<rparr>) c v"

definition parse_pool_reap_time :: setter where
  "parse_pool_reap_time c v = parse_positive (\<lambda>n. c\<lparr>pool_reap_time := n\<rparr>) c v"

definition parse_pool_addictive :: setter where
  "parse_pool_addictive c v =
    (let temp = strtod v in
     if le_zero temp then Some (- 1, c) else Some (0, c\<lparr>pool_addictive := to_float temp\<rparr>))"

definition parse_server_http :: setter where
  "parse_server_http c v = parse_positive (\<lambda>n. c\<lparr>server_port_http := n\<rparr>) c v"

definition parse_server_https :: setter where
  "parse_server_https c v = parse_positive (\<lambda>n. c\<lparr>server_port_https := n\<rparr>) c v"

definition parse_server_bind :: setter where
  "parse_server_bind c v =
    (if strchr v (CHR ''.'') = None \<and> strchr v (CHR '':'') = None then Some (- 1, c)
     else Some (0, c\<lparr>server_bind := snprintf_to CFG_MAX_STR v\<rparr>))"

text \<open>The tables of \<^verbatim>\<open>syslog.h\<close> (glibc).\<close>

definition prioritynames :: "(string \<times> int) list" where
  "prioritynames = [(''alert'', 1), (''crit'', 2), (''debug'', 7), (''emerg'', 0), (''err'', 3),
     (''error'', 3), (''info'', 6), (''none'', 16), (''notice'', 5), (''panic'', 0), (''warn'', 4),
     (''warning'', 4)]"

definition facilitynames :: "(string \<times> int) list" where
  "facilitynames = [(''auth'', 32), (''authpriv'', 80), (''cron'', 72), (''daemon'', 24), (''ftp'', 88),
     (''kern'', 0), (''lpr'', 48), (''mail'', 16), (''mark'', 192), (''news'', 56), (''security'', 32),
     (''syslog'', 40), (''user'', 8), (''uucp'', 64), (''local0'', 128), (''local1'', 136),
     (''local2'', 144), (''local3'', 152), (''local4'', 160), (''local5'', 168), (''local6'', 176),
     (''local7'', 184)]"

fun syslog_lookup :: "(string \<times> int) list \<Rightarrow> string \<Rightarrow> int option" where
  "syslog_lookup [] v = None"
| "syslog_lookup ((name, val) # rest) v =
    (let value_len = min (length v) CFG_MAX_STR;
         name_len = min (length name) CFG_MAX_STR;
         n = (if name_len > value_len then name_len else value_len)
     in if strncasecmp_eq name v n then Some val else syslog_lookup rest v)"

definition parse_logging_facility :: setter where
  "parse_logging_facility c v = (case syslog_lookup facilitynames v of
     Some n \<Rightarrow> Some (0, c\<lparr>logging_facility := n\<rparr>) | None \<Rightarrow> Some (- 1, c))"

definition parse_logging_minimum :: setter where
  "parse_logging_minimum c v = (case syslog_lookup prioritynames v of
     Some n \<Rightarrow> Some (0, c\<lparr>logging_minimum := n\<rparr>) | None \<Rightarrow> Some (- 1, c))"

definition parse_logging_options :: setter where
  "parse_logging_options c v = parse_positive (\<lambda>n. c\<lparr>logging_options := n\<rparr>) c v"

definition all_settings :: "(string \<times> string \<times> setter) list" where
  "all_settings = [
     (''certificate'', ''file'', parse_certificate_file),
     (''certificate'', ''key'', parse_certificate_key),
     (''database'', ''directory'', parse_database_directory),
     (''database'', ''suffix'', parse_database_suffix),
     (''logging'', ''facility'', parse_logging_facility),
     (''logging'', ''minimum'', parse_logging_minimum),
     (''logging'', ''options'', parse_logging_options),
     (''server'', ''port_https'', parse_server_https),
     (''server'', ''port_http'', parse_server_http),
     (''server'', ''bind'', parse_server_bind),
     (''pool'', ''reap_time'', parse_pool_reap_time),
     (''pool'', ''addictive'', parse_pool_addictive),
     (''pool'', ''minimum'', parse_pool_minimum),
     (''pool'', ''maximum'', parse_pool_maximum)]"

definition setting_matches :: "string \<Rightarrow> string \<Rightarrow> string \<Rightarrow> string \<Rightarrow> bool" where
  "setting_matches sec skey section_name key =
    (let sec_len = min (length sec) CFG_MAX_STR;
         sky_len = min (length skey) CFG_MAX_STR;
         pky_len = min (length key) CFG_MAX_STR;
         key_len = (if sky_len > pky_len then sky_len else pky_len)
     in strncasecmp_eq sec section_name sec_len \<and> strncasecmp_eq skey key key_len)"

fun config_set_loop ::
  "(string \<times> string \<times> setter) list \<Rightarrow> config_rena \<Rightarrow> string \<Rightarrow> string \<Rightarrow> string \<Rightarrow> (int \<times> config_rena) option" where
  "config_set_loop [] c section_name key v = Some (- 1, c)"
| "config_set_loop ((sec, skey, f) # rest) c section_name key v =
    (if setting_matches sec skey section_name key then do {
       (r, c) \<leftarrow> f c v;
       if r = 0 then Some (0, c) else Some (- 1, c) }
     else config_set_loop rest c section_name key v)"

definition config_set :: "config_rena \<Rightarrow> string \<Rightarrow> string \<Rightarrow> string \<Rightarrow> (int \<times> config_rena) option" where
  "config_set c section_name key v = config_set_loop all_settings c section_name key v"

definition DEFAULT_HTTP_PORT :: int where "DEFAULT_HTTP_PORT = 80"
definition DEFAULT_HTTPS_PORT :: int where "DEFAULT_HTTPS_PORT = 443"

text \<open>The facility is \<^verbatim>\<open>LOG_LOCAL7\<close>, the options \<^verbatim>\<open>LOG_PID|LOG_CONS|LOG_NDELAY|LOG_PERROR\<close>, the
  minimum \<^verbatim>\<open>LOG_INFO\<close>; 0.1 is stored as a \<^verbatim>\<open>float\<close>.\<close>

definition default_config :: config_rena where
  "default_config = \<lparr>certificate_file = ''/etc/rena/certificate.pem'',
     certificate_key = ''/etc/rena/certificate.pem'', database_directory = ''/etc/rena/dbs'',
     database_suffix = ''.example.org'', server_bind = ''127.0.0.1'',
     server_port_http = DEFAULT_HTTP_PORT, server_port_https = DEFAULT_HTTPS_PORT,
     logging_facility = 184, logging_options = 43, logging_minimum = 6,
     pool_minimum = 4, pool_maximum = 16, pool_reap_time = 1800,
     pool_addictive = Fin False 13421773 (- 27)\<rparr>"

text \<open>The inner \<^verbatim>\<open>while\<close> of \<^verbatim>\<open>config_load\<close>: it returns the last result of \<^verbatim>\<open>ini_read_pair\<close>.\<close>

partial_function (option) load_pairs ::
  "INI \<Rightarrow> config_rena \<Rightarrow> string \<Rightarrow> (int \<times> INI \<times> config_rena) option" where [code]:
  "load_pairs ini c section_name = do {
     (res, k, v, ini) \<leftarrow> ini_read_pair ini;
     if res > 0 then do {
       let key = snprintf_to CFG_MAX_STR (cstr_of k);
       let val = snprintf_to MAX_FILENAME (cstr_of v);
       (_, c) \<leftarrow> config_set c section_name key val;
       load_pairs ini c section_name }
     else Some (res, ini, c) }"

partial_function (option) load_sections :: "INI \<Rightarrow> config_rena \<Rightarrow> (int \<times> config_rena) option" where [code]:
  "load_sections ini c = do {
     (res, name, ini) \<leftarrow> ini_next_section ini;
     if res > 0 then do {
       (res, ini, c) \<leftarrow> load_pairs ini c (snprintf_to CFG_MAX_STR (cstr_of name));
       if res < 0 then Some (res, c) else load_sections ini c }
     else Some (res, c) }"

text \<open>\<^verbatim>\<open>config_load\<close>: \<open>existing\<close> is \<^verbatim>\<open>*inout\<close>, \<open>filename\<close> the name or a null pointer, \<open>file\<close> the
  contents of the file; it returns the code and the new \<^verbatim>\<open>*inout\<close>.\<close>

definition config_load ::
  "config_rena option \<Rightarrow> string option \<Rightarrow> string option \<Rightarrow> (int \<times> config_rena option) option" where
  "config_load existing filename file =
    (case existing of
       Some _ \<Rightarrow> Some (- 1, existing)
     | None \<Rightarrow>
         (if filename = None \<or> filename = Some [] then Some (0, Some default_config)
          else (case ini_open file of
              None \<Rightarrow> Some (- 3, None)
            | Some ini \<Rightarrow> do {
                (res, c) \<leftarrow> load_sections ini default_config;
                if res < 0 then Some (- 4, None) else Some (0, Some c) })))"

section \<open>The getters\<close>

definition config_get_server_address :: "config_rena \<Rightarrow> string" where
  "config_get_server_address c = server_bind c"

definition config_get_server_port_http :: "config_rena \<Rightarrow> int" where
  "config_get_server_port_http c = server_port_http c"

definition config_get_server_port_https :: "config_rena \<Rightarrow> int" where
  "config_get_server_port_https c = server_port_https c"

definition config_get_certificate_file :: "config_rena \<Rightarrow> string" where
  "config_get_certificate_file c = certificate_file c"

definition config_get_certificate_key :: "config_rena \<Rightarrow> string" where
  "config_get_certificate_key c = certificate_key c"

definition config_get_database_directory :: "config_rena \<Rightarrow> string" where
  "config_get_database_directory c = database_directory c"

definition config_get_database_suffix :: "config_rena \<Rightarrow> string" where
  "config_get_database_suffix c = database_suffix c"

definition config_get_logging_facility :: "config_rena \<Rightarrow> int" where
  "config_get_logging_facility c = logging_facility c"

definition config_get_logging_minimum :: "config_rena \<Rightarrow> int" where
  "config_get_logging_minimum c = logging_minimum c"

definition config_get_logging_options :: "config_rena \<Rightarrow> int" where
  "config_get_logging_options c = logging_options c"

definition config_get_pool_minimum :: "config_rena \<Rightarrow> int" where
  "config_get_pool_minimum c = pool_minimum c"

definition config_get_pool_maximum :: "config_rena \<Rightarrow> int" where
  "config_get_pool_maximum c = pool_maximum c"

definition config_get_pool_reap_time :: "config_rena \<Rightarrow> int" where
  "config_get_pool_reap_time c = pool_reap_time c"

definition config_get_pool_addictive :: "config_rena \<Rightarrow> dbl" where
  "config_get_pool_addictive c = pool_addictive c"

section \<open>Numbers that are read exactly\<close>

lemma bit_len_bounds:
  "0 < n \<Longrightarrow> 0 < bit_len n \<and> 2 ^ nat (bit_len n - 1) \<le> n \<and> n < 2 ^ nat (bit_len n)"
proof (induction n rule: bit_len.induct)
  case (1 n)
  show ?case
  proof (cases "n = 1")
    case True
    then show ?thesis by (simp add: bit_len.simps)
  next
    case False
    with 1(2) have half: "0 < n div 2" by simp
    with 1 have IH: "0 < bit_len (n div 2)" "2 ^ nat (bit_len (n div 2) - 1) \<le> n div 2"
      "n div 2 < 2 ^ nat (bit_len (n div 2))" by auto
    have bl: "bit_len n = 1 + bit_len (n div 2)" using 1(2) by (subst bit_len.simps) simp
    have "nat (bit_len n) = Suc (nat (bit_len (n div 2)))" "nat (bit_len n - 1) = Suc (nat (bit_len (n div 2) - 1))"
      using IH(1) bl by auto
    moreover have "2 * (n div 2) \<le> n" "n < 2 * (n div 2) + 2" by simp_all
    ultimately show ?thesis using IH bl by (simp only: power_Suc) linarith
  qed
qed

lemma div_round_one: "div_round n 1 = n"
  by (simp add: div_round_def Let_def)

lemma round_double_exact:
  assumes n: "0 < n" "n < 2 ^ 53"
  shows "round_double False n 1 = Fin False (n * 2 ^ nat (53 - bit_len n)) (bit_len n - 53)"
proof -
  let ?b = "bit_len n"
  have b: "0 < ?b" "2 ^ nat (?b - 1) \<le> n" "n < 2 ^ nat ?b" using bit_len_bounds [OF n(1)] by auto
  have b53: "?b \<le> 53"
  proof (rule ccontr)
    assume "\<not> ?b \<le> 53"
    then have "(2::int) ^ 53 \<le> 2 ^ nat (?b - 1)" by (intro power_increasing) auto
    with b(2) n(2) show False by simp
  qed
  have one: "bit_len 1 = 1" by (simp add: bit_len.simps)
  let ?e0 = "?b - 54"
  have e0: "max (- 1074) (?b - bit_len 1 - int 53) = ?e0" using b(1) one by simp
  have s0: "scale_frac n 1 ?e0 = (n * 2 ^ nat (54 - ?b), 1)" using b53 by (simp add: scale_frac_def)
  have big: "2 ^ 53 \<le> n * 2 ^ nat (54 - ?b)"
  proof -
    have "(2::int) ^ 53 = 2 ^ (nat (?b - 1) + nat (54 - ?b))"
      using b(1) b53 by (simp flip: nat_add_distrib)
    also have "\<dots> = 2 ^ nat (?b - 1) * 2 ^ nat (54 - ?b)" by (simp add: power_add)
    also have "\<dots> \<le> n * 2 ^ nat (54 - ?b)" using b(2) by (intro mult_right_mono) auto
    finally show ?thesis .
  qed
  have s1: "scale_frac n 1 (?e0 + 1) = (n * 2 ^ nat (53 - ?b), 1)"
    using b53 by (cases "?b = 53") (auto simp: scale_frac_def)
  let ?m = "n * 2 ^ nat (53 - ?b)"
  have m: "0 < ?m" "?m < 2 ^ 53"
  proof -
    have "?m < 2 ^ nat ?b * 2 ^ nat (53 - ?b)" using b(3) by (intro mult_strict_right_mono) auto
    also have "\<dots> = 2 ^ (nat ?b + nat (53 - ?b))" by (simp add: power_add)
    also have "\<dots> = 2 ^ 53" using b(1) b53 by (simp flip: nat_add_distrib)
    finally show "?m < 2 ^ 53" .
    show "0 < ?m" using n(1) by simp
  qed
  have bm: "bit_len ?m \<le> 53"
  proof (rule ccontr)
    assume "\<not> bit_len ?m \<le> 53"
    then have "(2::int) ^ 53 \<le> 2 ^ nat (bit_len ?m - 1)" by (intro power_increasing) auto
    with bit_len_bounds [OF m(1)] m(2) show False by simp
  qed
  show ?thesis
    unfolding round_double_def round_frac_def Let_def e0 s0 prod.case
    using n(1) big s1 bm b53 by (simp add: div_round_one)
qed

text \<open>The decimal text of a number.\<close>

fun dec :: "nat \<Rightarrow> string" where
  "dec n = (if n < 10 then [char_of (48 + n)] else dec (n div 10) @ [char_of (48 + n mod 10)])"

declare dec.simps [simp del]

lemma digit_char: "d < 10 \<Longrightarrow> is_digit (char_of (48 + d)) \<and> digit_of (char_of (48 + d)) = int d"
proof -
  assume d: "d < 10"
  then have "(of_char (char_of (48 + d)) :: nat) = 48 + d" by simp
  moreover have "(of_char c :: int) = int (of_char c)" for c :: char
    by (metis of_nat_of_char)
  ultimately show ?thesis using d by (simp add: is_digit_def digit_of_def)
qed

lemma number_of_snoc: "number_of b f a (s @ [c]) = b * number_of b f a s + f c"
  by (induction s arbitrary: a) auto

lemma dec_digits: "(\<forall>c \<in> set (dec n). is_digit c) \<and> dec n \<noteq> [] \<and> number_of 10 digit_of 0 (dec n) = int n"
proof (induction n rule: dec.induct)
  case (1 n)
  show ?case
  proof (cases "n < 10")
    case True
    then show ?thesis using digit_char [of n] by (subst (1 2 3) dec.simps) simp
  next
    case False
    have "n mod 10 < 10" by simp
    moreover have "10 * int (n div 10) + int (n mod 10) = int n"
      by (metis mult_div_mod_eq of_nat_add of_nat_mult of_nat_numeral)
    moreover have "dec n = dec (n div 10) @ [char_of (48 + n mod 10)]" using False by (subst dec.simps) simp
    ultimately show ?thesis using digit_char [of "n mod 10"] 1 [OF False]
      by (auto simp: number_of_snoc)
  qed
qed

lemma digit_not_special:
  "is_digit c \<Longrightarrow> \<not> is_space c \<and> c \<noteq> CHR ''-'' \<and> c \<noteq> CHR ''+'' \<and> c_tolower c = c \<and> c \<noteq> CHR ''i'' \<and> c \<noteq> CHR ''n'' \<and> c \<noteq> CHR ''x''"
  by (auto simp: is_digit_def is_space_def c_tolower_def Let_def)

lemma strtod_dec:
  assumes "0 < n" "int n < 2 ^ 31"
  shows "\<not> le_zero (strtod (dec n)) \<and> to_int (strtod (dec n)) = Some (int n)"
proof -
  note d = dec_digits [of n]
  obtain x xs where x: "dec n = x # xs" "is_digit x" using d by (cases "dec n") auto
  have drop_sp: "dropWhile is_space (dec n) = dec n" using digit_not_special [OF x(2)] x(1) by simp
  have mant: "mantissa is_digit (dec n) = (dec n, 0, [])"
    using d by (simp add: mantissa_def takeWhile_eq_all_conv [THEN iffD2] Let_def)
  have no0x: "\<not> starts_with (dec n) ''0x''"
  proof (cases xs)
    case Nil
    then show ?thesis using x by (simp add: starts_with_def)
  next
    case (Cons y ys)
    then have "is_digit y" using d x by auto
    with Cons x show ?thesis using digit_not_special [of y] by (simp add: starts_with_def)
  qed
  have words: "\<not> starts_with (dec n) ''inf''" "\<not> starts_with (dec n) ''nan''"
    using digit_not_special [OF x(2)] x(1) by (simp_all add: starts_with_def)
  have sign: "hd (dec n) \<noteq> CHR ''-''" "hd (dec n) \<noteq> CHR ''+''" using digit_not_special [OF x(2)] x(1) by simp_all
  have "strtod (dec n) = scaled False (int n) 10 0"
    using d unfolding strtod_def drop_sp by (simp add: Let_def sign words no0x mant exponent_def)
  also have "\<dots> = Fin False (int n * 2 ^ nat (53 - bit_len (int n))) (bit_len (int n) - 53)"
    using round_double_exact [of "int n"] assms by (simp add: scaled_def)
  finally have s: "strtod (dec n) = \<dots>" .
  have b: "bit_len (int n) \<le> 31"
  proof (rule ccontr)
    assume "\<not> bit_len (int n) \<le> 31"
    then have "(2::int) ^ 31 \<le> 2 ^ nat (bit_len (int n) - 1)" by (intro power_increasing) auto
    moreover have "0 < int n" using assms(1) by simp
    from bit_len_bounds [OF this, THEN conjunct2, THEN conjunct1]
    have "2 ^ nat (bit_len (int n) - 1) \<le> int n" .
    ultimately show False using assms(2) by linarith
  qed
  then have "nat (- (bit_len (int n) - 53)) = nat (53 - bit_len (int n))" by simp
  then have "trunc_abs (int n * 2 ^ nat (53 - bit_len (int n))) (bit_len (int n) - 53) = int n"
    using b by (simp add: trunc_abs_def)
  then show ?thesis using assms unfolding s by (simp add: le_zero_def to_int_def)
qed

section \<open>Properties\<close>

lemma parse_positive_result:
  "parse_positive (\<lambda>n. g n) c v = Some (r, c') \<Longrightarrow> r = 0 \<or> r = - 1 \<and> c' = c"
  by (auto simp: parse_positive_def Let_def bind_eq_Some_conv split: if_splits)

lemmas parser_defs =
  parse_certificate_file_def parse_certificate_key_def parse_database_directory_def
  parse_database_suffix_def parse_pool_minimum_def parse_pool_maximum_def parse_pool_reap_time_def
  parse_pool_addictive_def parse_server_http_def parse_server_https_def parse_server_bind_def
  parse_logging_facility_def parse_logging_minimum_def parse_logging_options_def

definition careful :: "setter \<Rightarrow> bool" where
  "careful f \<longleftrightarrow> (\<forall>c v r c'. f c v = Some (r, c') \<longrightarrow> r = 0 \<or> r = - 1 \<and> c' = c)"

lemma settings_careful: "\<forall>(sec, skey, f) \<in> set all_settings. careful f"
  unfolding all_settings_def careful_def parser_defs
  by (auto dest: parse_positive_result simp: Let_def split: if_splits option.splits)

lemma config_set_loop_result:
  "\<forall>(sec, skey, f) \<in> set l. careful f \<Longrightarrow> config_set_loop l c s k v = Some (r, c') \<Longrightarrow>
     r = 0 \<or> r = - 1 \<and> c' = c"
proof (induction l)
  case (Cons a l)
  obtain sec skey f where a: "a = (sec, skey, f)" by (cases a)
  show ?case
  proof (cases "setting_matches sec skey s k")
    case True
    then obtain q c1 where "f c v = Some (q, c1)" "r = (if q = 0 then 0 else - 1)" "c' = c1"
      using Cons.prems(2) a by (auto simp: bind_eq_Some_conv split: if_splits)
    moreover have "careful f" using Cons.prems(1) a by simp
    ultimately show ?thesis unfolding careful_def by (metis (full_types))
  next
    case False
    then show ?thesis using Cons a by simp
  qed
qed simp



text \<open>Every decimal number from 1 to 2147483647 is read exactly: setting the minimum of the
  pool stores the number itself and nothing else.\<close>

theorem config_set_number:
  assumes "0 < n" "int n < 2 ^ 31"
  shows "config_set c ''pool'' ''minimum'' (dec n) = Some (0, c\<lparr>pool_minimum := int n\<rparr>)"
proof -
  have "config_set c ''pool'' ''minimum'' (dec n) = do {
     (r, c') \<leftarrow> parse_pool_minimum c (dec n);
     if r = 0 then Some (0, c') else Some (- 1, c') }"
    by (simp add: config_set_def all_settings_def setting_matches_def strncasecmp_eq_def CFG_MAX_STR_def Let_def)
  then show ?thesis
    using strtod_dec [OF assms] by (simp add: parse_pool_minimum_def parse_positive_def Let_def)
qed

lemma config_set_number_witness:
  "config_set default_config ''pool'' ''minimum'' (dec 8) = Some (0, default_config\<lparr>pool_minimum := 8\<rparr>)"
  using config_set_number [of 8 default_config] by simp

text \<open>The section is compared up to the length of the known name only, so a longer name is
  taken for it; and a fraction between 0 and 1 passes the test for a positive number and
  becomes port 0.\<close>

lemma config_set_lax:
  "config_set default_config ''serverless'' ''port_http'' ''0.5'' = Some (0, default_config\<lparr>server_port_http := 0\<rparr>)"
  by code_simp

text \<open>A file with two sections is loaded setting by setting on top of the defaults.\<close>

lemma config_load_example:
  "config_load None (Some ''f'') (Some (''[pool]'' @ [LF] @ ''minimum = 8'' @ [LF] @ ''#x'' @ [LF] @
     ''[server]'' @ [LF] @ ''bind=::1'' @ [LF])) =
   Some (0, Some (default_config\<lparr>pool_minimum := 8, server_bind := ''::1''\<rparr>))"
  by code_simp

end
