(* ===== verification/HttpBuffer.thy ===== *)
theory HttpBuffer
  imports DatabaseStream
begin

text \<open>
  The structure \<^verbatim>\<open>struct http\<close> of \<^verbatim>\<open>rena/src/http.c\<close> and the functions that work on it
  alone.  The structure and its buffer are one block of \<^verbatim>\<open>total_block\<close> bytes, of which the
  buffer starts at byte 80; \<^verbatim>\<open>hbuf\<close> is that buffer with all its bytes, used or not, so that its
  length is \<open>total_block - 80\<close>.  Pointers into the buffer (\<^verbatim>\<open>headers\<close>, \<^verbatim>\<open>payload\<close>) are offsets;
  a read or a write behind the block is the crash \<^const>\<open>None\<close>.
\<close>

record http =
  lookup_tree :: database_object
  headers_used :: nat
  headers :: "nat list option"
  headers_length :: "nat list"
  expected_payload :: int
  found_delimiters :: int
  last_found_delimiters :: char
  payload :: "nat option"
  total_block :: nat
  buffer_sent :: nat
  buffer_recv :: nat
  buffer_used :: nat
  hbuf :: string

definition SIZEOF_HTTP :: nat where "SIZEOF_HTTP = 1104"

abbreviation header_content_length :: string where "header_content_length \<equiv> ''Content-Length''"
abbreviation header_content_type :: string where "header_content_type \<equiv> ''Content-Type''"
abbreviation header_host :: string where "header_host \<equiv> ''Host''"
abbreviation header_connection :: string where "header_connection \<equiv> ''Connection''"
abbreviation accept_encoding :: string where "accept_encoding \<equiv> ''Accept-Encoding''"
abbreviation accept_ranges :: string where "accept_ranges \<equiv> ''Accept-Ranges''"
abbreviation header_accept :: string where "header_accept \<equiv> ''Accept''"

definition protocol_text :: string where "protocol_text = ''HTTP/1.1''"
definition delim :: string where "delim = [CR, LF]"

definition hget :: "http \<Rightarrow> nat \<Rightarrow> char option" where
  "hget h i = (if i < length (hbuf h) then Some (hbuf h ! i) else None)"

definition hput :: "http \<Rightarrow> nat \<Rightarrow> char \<Rightarrow> http option" where
  "hput h i c = (if i < length (hbuf h) then Some (h\<lparr>hbuf := (hbuf h)[i := c]\<rparr>) else None)"

text \<open>The bytes in front of the buffer are those of \<^verbatim>\<open>buffer_used\<close>, little endian.\<close>

definition hget_int :: "http \<Rightarrow> int \<Rightarrow> char option" where
  "hget_int h i =
    (if i \<ge> 0 then hget h (nat i)
     else if i \<ge> - 8 then Some (char_of (buffer_used h div 256 ^ nat (8 + i) mod 256)) else None)"

text \<open>\<^verbatim>\<open>buffer_find\<close>: the first of the given characters, \<^const>\<open>None\<close> for -1.\<close>

fun buffer_find :: "string \<Rightarrow> string \<Rightarrow> nat option" where
  "buffer_find [] cs = None"
| "buffer_find (x # xs) cs = (if x \<in> set cs then Some 0 else map_option Suc (buffer_find xs cs))"

fun find_header_loop :: "http \<Rightarrow> string \<Rightarrow> nat \<Rightarrow> nat list \<Rightarrow> nat option option" where
  "find_header_loop h name i [] = Some None"
| "find_header_loop h name i (off # offs) = do {
     c \<leftarrow> hget h (off + length name);
     if c = CHR '':'' \<and> strncasecmp_eq (drop off (hbuf h)) name (length name) then Some (Some i)
     else find_header_loop h name (i + 1) offs }"

definition find_header :: "http \<Rightarrow> string \<Rightarrow> nat option option" where
  "find_header h name =
    (case headers h of
       None \<Rightarrow> Some None
     | Some offs \<Rightarrow> find_header_loop h name 0 (take (headers_used h) offs))"

definition http_create :: "database \<Rightarrow> bool \<Rightarrow> http" where
  "http_create db is_victim =
    \<lparr>lookup_tree = database_instance_create db is_victim, headers_used = 0, headers = None,
     headers_length = [], expected_payload = - 1, found_delimiters = 0, last_found_delimiters = NUL,
     payload = None, total_block = SIZEOF_HTTP, buffer_sent = 0, buffer_recv = 0, buffer_used = 0,
     hbuf = replicate (SIZEOF_HTTP - 80) NUL\<rparr>"

text \<open>\<^verbatim>\<open>copy_internal_data\<close> into a zeroed block of \<open>target_size\<close> bytes: the pointers keep their
  offsets.\<close>

definition copy_internal_data :: "http \<Rightarrow> nat \<Rightarrow> http" where
  "copy_internal_data source target_size =
     source\<lparr>total_block := target_size,
            hbuf := hbuf source @ replicate (target_size - total_block source) NUL\<rparr>"

text \<open>\<^verbatim>\<open>reallocation_protocol\<close>: whether the block moved, and the structure.\<close>

definition reallocation_protocol :: "http \<Rightarrow> nat \<Rightarrow> bool \<times> http" where
  "reallocation_protocol h olen =
    (let str_size = total_block h - SIZEOF_HTTP + MAX_STR;
         new_size = buffer_used h + olen
     in if new_size \<ge> str_size
        then (let r = new_size div str_size + 1;
                  total = total_block h + SIZEOF_HTTP * r
              in (True, copy_internal_data h total))
        else (False, h))"

text \<open>Bytes written into the buffer at an offset.\<close>

definition hwrite :: "http \<Rightarrow> nat \<Rightarrow> string \<Rightarrow> http option" where
  "hwrite h off s =
    (if off + length s \<le> length (hbuf h)
     then Some (h\<lparr>hbuf := take off (hbuf h) @ s @ drop (off + length s) (hbuf h)\<rparr>) else None)"

definition force_onto_buffer :: "http \<Rightarrow> string \<Rightarrow> (bool \<times> http) option" where
  "force_onto_buffer h s = (case reallocation_protocol h (length s) of (moved, h) \<Rightarrow> do {
     h \<leftarrow> hwrite h (buffer_used h) s;
     Some (moved, h\<lparr>buffer_used := buffer_used h + length s\<rparr>) })"

definition update_buffer_forced :: "http \<Rightarrow> string \<Rightarrow> (bool \<times> http) option" where
  "update_buffer_forced h s = force_onto_buffer h s"

definition flush_pending_data_to_buffer :: "http \<Rightarrow> (bool \<times> http) option" where
  "flush_pending_data_to_buffer h =
    (case database_instance_get_holding (lookup_tree h) True of (holding, d) \<Rightarrow>
       update_buffer_forced (h\<lparr>lookup_tree := d\<rparr>) holding)"

definition wrap8 :: "int \<Rightarrow> int" where
  "wrap8 x = (x + 128) mod 256 - 128"

definition check_delimiter_header :: "http \<Rightarrow> char \<Rightarrow> bool \<times> http" where
  "check_delimiter_header h ch =
    (if payload h \<noteq> None then (False, h)
     else
       (let repeat = (strchr_found delim ch \<and> ch = last_found_delimiters h);
            h = (if strchr_found delim ch
                 then h\<lparr>found_delimiters := wrap8 (found_delimiters h + 1), last_found_delimiters := ch\<rparr>
                 else h\<lparr>found_delimiters := 0, last_found_delimiters := NUL\<rparr>)
        in (found_delimiters h = 4 \<or> (repeat \<and> found_delimiters h = 2), h)))"

section \<open>Headers\<close>

definition FIRST_LINE_FIRST_DELIM :: nat where "FIRST_LINE_FIRST_DELIM = 0"
definition FIRST_LINE_SECOND_DELIM :: nat where "FIRST_LINE_SECOND_DELIM = 1"
definition HEADER_FIRST_DELIM :: nat where "HEADER_FIRST_DELIM = 2"
definition HEADER_SECOND_DELIM :: nat where "HEADER_SECOND_DELIM = 3"
definition HEADER_THIRD_DELIM :: nat where "HEADER_THIRD_DELIM = 4"
definition HEADER_DONE :: nat where "HEADER_DONE = 5"

lemmas header_states =
  FIRST_LINE_FIRST_DELIM_def FIRST_LINE_SECOND_DELIM_def HEADER_FIRST_DELIM_def
  HEADER_SECOND_DELIM_def HEADER_THIRD_DELIM_def HEADER_DONE_def

type_synonym header_fnc = "http \<Rightarrow> nat \<Rightarrow> nat \<Rightarrow> nat \<Rightarrow> (http \<times> nat) option"

definition headers_sum_1 :: header_fnc where
  "headers_sum_1 h off len user = Some (h, user + 1)"

definition headers_save :: header_fnc where
  "headers_save h off len user =
    (case headers h of
       None \<Rightarrow> None
     | Some offs \<Rightarrow>
         if user < length offs \<and> user < length (headers_length h)
         then Some (h\<lparr>headers := Some (offs[user := off]),
                      headers_length := (headers_length h)[user := len]\<rparr>, user + 1)
         else None)"

text \<open>The end of the first line: \<^verbatim>\<open>HTTP/1.x\<close> is downgraded to \<^verbatim>\<open>HTTP/1.0\<close>.\<close>

definition downgrade :: "http \<Rightarrow> nat \<Rightarrow> http option" where
  "downgrade h old = do {
     ds \<leftarrow> those (map (\<lambda>i. hget_int h (int old - 10 + int i)) [0..<6]);
     if ds = take 6 protocol_text then
       (if old < 5 then None
        else do { h \<leftarrow> hput h (old - 5) (CHR ''1''); hput h (old - 3) (CHR ''0'') })
     else Some h }"

text \<open>What happens at one delimiter that ends at \<open>expected\<close>: the next state, \<^verbatim>\<open>old_position_buf\<close>,
  the counter and the payload.\<close>

definition header_delim ::
  "header_fnc \<Rightarrow> http \<Rightarrow> nat \<Rightarrow> nat \<Rightarrow> nat \<Rightarrow> nat \<Rightarrow> (http \<times> nat \<times> nat \<times> nat \<times> nat option) option" where
  "header_delim fnc h hs state old expected =
    (if state = FIRST_LINE_SECOND_DELIM then do {
       h \<leftarrow> downgrade h expected;
       Some (h, hs, HEADER_FIRST_DELIM, expected, None) }
     else if state = HEADER_SECOND_DELIM then do {
       c \<leftarrow> hget h expected;
       (h, hs, old) \<leftarrow> (if c = TAB \<or> c = SPACE then Some (h, hs, old)
                       else do { (h, hs) \<leftarrow> fnc h old (expected - old - 2) hs; Some (h, hs, expected) });
       c \<leftarrow> hget h expected;
       Some (h, hs, if c \<in> set delim then HEADER_THIRD_DELIM else HEADER_FIRST_DELIM, old, None) }
     else if state = HEADER_DONE then Some (h, hs, state, old, Some expected)
     else Some (h, hs, state + 1, old, None))"

text \<open>The \<^verbatim>\<open>while\<close> loop of \<^verbatim>\<open>process_headers_and_get_payload\<close>.\<close>

function process_loop ::
  "header_fnc \<Rightarrow> http \<Rightarrow> nat \<Rightarrow> nat \<Rightarrow> nat \<Rightarrow> nat \<Rightarrow> nat \<Rightarrow> (http \<times> nat \<times> nat option) option" where
  "process_loop fnc h hs state old pos lim =
    (if pos < lim then
       (case buffer_find (take (lim - pos) (drop pos (hbuf h))) delim of
          Some k \<Rightarrow> do {
            (h, hs, state, old, ret) \<leftarrow> header_delim fnc h hs state old (pos + k + 1);
            (case ret of
               Some p \<Rightarrow> Some (h, hs, Some p)
             | None \<Rightarrow> process_loop fnc h hs state old (pos + k + 1) lim) }
        | None \<Rightarrow> process_loop fnc h hs state old (pos + 1) lim)
     else Some (h, hs, None))"
  by pat_completeness auto

termination process_loop
  by (relation "measure (\<lambda>(fnc, h, hs, state, old, pos, lim). lim - pos)") auto

definition process_headers_and_get_payload ::
  "header_fnc \<Rightarrow> http \<Rightarrow> nat \<Rightarrow> (http \<times> nat \<times> nat option) option" where
  "process_headers_and_get_payload fnc h hs =
     process_loop fnc h hs FIRST_LINE_FIRST_DELIM 0 0 (buffer_used h)"

section \<open>The value of a header\<close>

text \<open>\<^verbatim>\<open>copy_header\<close>: the allocated bytes, of which the one at the length of the header becomes
  NUL; a NUL inside the header makes the copy too short for that store.\<close>

definition copy_header :: "http \<Rightarrow> nat \<Rightarrow> string option" where
  "copy_header h pos = do {
     offs \<leftarrow> headers h;
     if pos < length offs \<and> pos < length (headers_length h) then do {
       let off = offs ! pos;
       let len = headers_length h ! pos;
       let bytes = take (len + 1) (drop off (hbuf h));
       let dup = cstr_of bytes @ [NUL];
       if off \<le> length (hbuf h) \<and> (NUL \<in> set bytes \<or> length bytes = len + 1)
       then buf_put dup len NUL else None }
     else None }"

text \<open>The C string that starts at byte \<open>k\<close> of the copy.\<close>

definition cstr_from :: "string \<Rightarrow> nat \<Rightarrow> string option" where
  "cstr_from bytes k = (if k < length bytes then Some (cstr_of (drop k bytes)) else None)"

definition content_length_value :: "http \<Rightarrow> (int \<times> http) option" where
  "content_length_value h = do {
     hr \<leftarrow> find_header h header_content_length;
     (case hr of
        None \<Rightarrow> Some (- 1, h)
      | Some hr \<Rightarrow> do {
          (early, h) \<leftarrow>
            (if expected_payload h < 0 then do {
               header \<leftarrow> copy_header h hr;
               v \<leftarrow> cstr_from header (length header_content_length + 2);
               let (n, erange) = atoi v;
               let n = (if erange then - 1 else n);
               Some (n < 0, h\<lparr>expected_payload := n\<rparr>) }
             else Some (False, h));
          if early then Some (0, h)
          else do {
            p \<leftarrow> payload h;
            let h = h\<lparr>expected_payload := wrap32 (expected_payload h + int p)\<rparr>;
            Some (expected_payload h, h) } }) }"

text \<open>\<^verbatim>\<open>check_payload_length\<close>: is the payload incomplete, and should the held bytes be
  flushed.  The counter of received bytes is converted to \<^verbatim>\<open>int\<close>.\<close>

definition check_payload_length :: "http \<Rightarrow> bool \<times> bool" where
  "check_payload_length h =
    (if expected_payload h < 0 then (False, False)
     else (let expected = wrap32 (int (buffer_recv h));
               hs = database_instance_get_holding_size (lookup_tree h)
           in if expected < expected_payload h
              then (wrap32 (expected + int hs) < expected_payload h, hs > 0)
              else (False, False)))"

text \<open>\<^verbatim>\<open>get_n_split_hostname\<close>: its result, the host and the port.\<close>

definition get_n_split_hostname :: "http \<Rightarrow> int \<Rightarrow> (int \<times> string \<times> int) option" where
  "get_n_split_hostname h port = do {
     hr \<leftarrow> find_header h header_host;
     (case hr of
        None \<Rightarrow> Some (- 1, [], port)
      | Some hr \<Rightarrow> do {
          header \<leftarrow> copy_header h hr;
          v \<leftarrow> cstr_from header (length header_host + 2);
          (case strchr v (CHR '':'') of
             Some i \<Rightarrow> do {
               let (n, erange) = atoi (drop (i + 1) v);
               if erange then Some (1, take i v, port) else Some (0, take i v, n) }
           | None \<Rightarrow> Some (0, v, port)) }) }"

section \<open>Changing the headers\<close>

definition find_and_remove_header :: "http \<Rightarrow> string \<Rightarrow> http option" where
  "find_and_remove_header h hdr = do {
     found \<leftarrow> find_header h hdr;
     (case found of
        None \<Rightarrow> Some h
      | Some i \<Rightarrow> do {
          offs \<leftarrow> headers h;
          let hdr_found = offs ! i;
          next \<leftarrow> (if i + 1 \<ge> headers_used h then map_option (\<lambda>p. p - 2) (payload h) else Some (offs ! (i + 1)));
          p \<leftarrow> payload h;
          let diff = next - hdr_found;
          h \<leftarrow> hwrite h hdr_found (take (buffer_used h - next) (drop next (hbuf h)));
          let h = h\<lparr>headers := Some (map (\<lambda>k. if i \<le> k \<and> k + 1 < headers_used h then offs ! (k + 1) - diff else offs ! k)
                                   [0..<length offs]),
                   headers_length := map (\<lambda>k. if i \<le> k \<and> k + 1 < headers_used h then headers_length h ! (k + 1) else headers_length h ! k)
                                   [0..<length (headers_length h)],
                   headers_used := headers_used h - 1, payload := Some (p - diff),
                   buffer_used := buffer_used h - diff\<rparr>;
          if buffer_used h = 0 then None else Some h }) }"

definition dprop :: string where "dprop = ''; DOMAIN=''"
definition terminator :: string where "terminator = '';'' @ [CR, LF]"

text \<open>\<^verbatim>\<open>apply_on_domain\<close> up to the payload; \<open>f\<close> gets the structure, the begin and the end of a
  domain, and the user data.  The length it compares with is \<^verbatim>\<open>sizeof\<close> a pointer, 8.\<close>

function apply_on_domain_loop ::
  "(http \<Rightarrow> nat \<Rightarrow> nat \<Rightarrow> int \<Rightarrow> (http \<times> int) option) \<Rightarrow> http \<Rightarrow> int \<Rightarrow> nat \<Rightarrow> nat option \<Rightarrow> nat \<Rightarrow> nat \<Rightarrow>
     (http \<times> int) option" where
  "apply_on_domain_loop f h u match beg s body =
    (if s < body then do {
       c \<leftarrow> hget h s;
       if match > 8 then
         (case beg of
            None \<Rightarrow> apply_on_domain_loop f h u match (Some s) (s + 1) body
          | Some b \<Rightarrow>
              (if strchr terminator c \<noteq> None then do {
                 (h, u) \<leftarrow> f h b s u;
                 apply_on_domain_loop f h u 0 None (s + 1) body }
               else apply_on_domain_loop f h u match beg (s + 1) body))
       else if match > 1 then
         apply_on_domain_loop f h u (if dprop ! match = c_toupper c then match + 1 else 0) beg (s + 1) body
       else
         apply_on_domain_loop f h u (if dprop ! match = c then match + 1 else 0) beg (s + 1) body }
     else Some (h, u))"
  by pat_completeness auto

termination apply_on_domain_loop
  by (relation "measure (\<lambda>(f, h, u, match, beg, s, body). body - s)") auto

definition apply_on_domain ::
  "http \<Rightarrow> (http \<Rightarrow> nat \<Rightarrow> nat \<Rightarrow> int \<Rightarrow> (http \<times> int) option) \<Rightarrow> int \<Rightarrow> (http \<times> int) option" where
  "apply_on_domain h f u = do {
     body \<leftarrow> payload h;
     apply_on_domain_loop f h u 0 None 0 body }"

definition suffix_len :: "string \<Rightarrow> nat" where
  "suffix_len suff = min (length suff) 4096"

definition size_need_for_suffix ::
  "string \<Rightarrow> http \<Rightarrow> nat \<Rightarrow> nat \<Rightarrow> int \<Rightarrow> (http \<times> int) option" where
  "size_need_for_suffix suff h b e u =
    (let effected = int (suffix_len suff) - int (e - b)
     in Some (h, if effected > 0 then u + effected else u))"

definition copy_suffix :: "string \<Rightarrow> http \<Rightarrow> nat \<Rightarrow> nat \<Rightarrow> int \<Rightarrow> (http \<times> int) option" where
  "copy_suffix suff h b e u =
    (let n = suffix_len suff; effected = int n - int (e - b) in do {
       h \<leftarrow> hwrite h (b + n) (take (buffer_used h - e) (drop e (hbuf h)));
       h \<leftarrow> hwrite h b (take n suff);
       p \<leftarrow> payload h;
       Some (h\<lparr>payload := Some (nat (int p + effected)),
               buffer_used := nat (int (buffer_used h) + effected)\<rparr>, u) })"

definition adjust_domain_property :: "string \<Rightarrow> http \<Rightarrow> http option" where
  "adjust_domain_property suff h = do {
     (h, new_elements) \<leftarrow> apply_on_domain h (size_need_for_suffix suff) 0;
     let h = (if new_elements > 0 then snd (reallocation_protocol h (nat new_elements)) else h);
     (h, _) \<leftarrow> apply_on_domain h (copy_suffix suff) 0;
     Some h }"

text \<open>\<^verbatim>\<open>adjust_expect_payload\<close> calls \<^verbatim>\<open>content_length_value\<close> a second time when the first
  result was not positive.\<close>

definition adjust_expect_payload :: "http \<Rightarrow> http option" where
  "adjust_expect_payload h =
    (if expected_payload h > 0 then Some h
     else do {
       (clv, h) \<leftarrow> content_length_value h;
       if clv \<le> 0 then
         (if clv = expected_payload h then Some h
          else do { (_, h) \<leftarrow> content_length_value h; Some h })
       else Some h })"

definition remove_headers :: "bool \<Rightarrow> http \<Rightarrow> http option" where
  "remove_headers is_victim h =
    (if is_victim then do {
       h \<leftarrow> find_and_remove_header h header_content_length;
       find_and_remove_header h accept_ranges }
     else do {
       h \<leftarrow> find_and_remove_header h header_connection;
       find_and_remove_header h accept_encoding })"

definition allowed_mime :: "string \<Rightarrow> bool" where
  "allowed_mime v = (\<exists>p \<in> set [''text/'', ''javascript'', ''json'', ''xml'']. strcasestr v p)"

definition not_allowed_accept :: "string \<Rightarrow> bool" where
  "not_allowed_accept v = (\<exists>p \<in> set [''font'', ''image'']. strcasestr v p)"

text \<open>\<^verbatim>\<open>check_to_disable_transformations\<close>, with the structure of the peer, if there is one.  The
  search for \<^verbatim>\<open>Accept\<close> may fail, and its result is used as an index all the same: the
  crash.\<close>

definition check_to_disable_transformations :: "http \<Rightarrow> http option \<Rightarrow> http option" where
  "check_to_disable_transformations h peer = do {
     hr \<leftarrow> find_header h header_content_type;
     (do_disable, html) \<leftarrow>
       (case hr of
          Some i \<Rightarrow> do {
            header \<leftarrow> copy_header h i;
            v \<leftarrow> cstr_from header (length header_content_type + 2);
            Some (\<not> allowed_mime v, strcasestr v ''html'') }
        | None \<Rightarrow>
            (case peer of
               None \<Rightarrow> Some (False, False)
             | Some p \<Rightarrow> do {
                 phr \<leftarrow> find_header p header_accept;
                 phr \<leftarrow> phr;
                 header \<leftarrow> copy_header p phr;
                 v \<leftarrow> cstr_from header (length header_accept + 2);
                 Some (not_allowed_accept v, False) }));
     let d = lookup_tree h;
     let d = (if do_disable then context_nothing_allowed d
              else if \<not> html then context_set_full_link_parser d else context_set_html_parser d);
     Some (h\<lparr>lookup_tree := d\<rparr>) }"

text \<open>\<^verbatim>\<open>http_evaluate_headers\<close>.  The size of the last reallocation is computed with unsigned
  64-bit numbers and stored in an \<^verbatim>\<open>int\<close>.\<close>

definition payload_delta :: "http \<Rightarrow> int" where
  "payload_delta h =
     wrap32 (int (buffer_used h) + expected_payload h - int (total_block h) - int SIZEOF_HTTP + int MAX_STR)"

definition http_evaluate_headers :: "string \<Rightarrow> bool \<Rightarrow> http option \<Rightarrow> http \<Rightarrow> http option" where
  "http_evaluate_headers suff is_victim peer h =
    (if payload h \<noteq> None then Some h
     else do {
       (h, n, pl) \<leftarrow> process_headers_and_get_payload headers_sum_1 (h\<lparr>headers_used := 0\<rparr>) 0;
       let h = h\<lparr>headers_used := n\<rparr>;
       (case pl of
          None \<Rightarrow> Some h
        | Some p \<Rightarrow> do {
            h \<leftarrow> adjust_domain_property suff (h\<lparr>payload := Some p\<rparr>);
            h \<leftarrow> (if headers h = None then do {
                    let h = h\<lparr>headers := Some (replicate (headers_used h) 0),
                             headers_length := replicate (headers_used h) 0\<rparr>;
                    (h, _, pl) \<leftarrow> process_headers_and_get_payload headers_save h 0;
                    Some (h\<lparr>payload := pl\<rparr>) }
                  else Some h);
            h \<leftarrow> adjust_expect_payload h;
            h \<leftarrow> remove_headers is_victim h;
            let delta = payload_delta h;
            let h = (if payload h \<noteq> None \<and> expected_payload h > 0 \<and> delta > 0
                     then snd (reallocation_protocol h (nat delta)) else h);
            check_to_disable_transformations h peer }) })"

end
