(* ===== verification/HttpMessage.thy ===== *)
theory HttpMessage
  imports HttpBuffer
begin

text \<open>
  What the functions of \<^verbatim>\<open>rena/src/http.c\<close> do to whole messages.  A message is a first line, a
  list of header lines and a body; \<open>render\<close> is its text and \<open>layout\<close> relates a structure
  whose buffer holds that text, with the recorded header positions, to the message.  The
  functions on buffers and offsets are shown to implement functions on messages.
\<close>

section \<open>The text of a message\<close>

definition header_block :: "string list \<Rightarrow> string" where
  "header_block hs = concat (map (\<lambda>x. x @ delim) hs)"

definition render :: "string \<Rightarrow> string list \<Rightarrow> string" where
  "render fl hs = fl @ delim @ header_block hs @ delim"

fun offsets :: "nat \<Rightarrow> string list \<Rightarrow> nat list" where
  "offsets k [] = []"
| "offsets k (x # xs) = k # offsets (k + length x + 2) xs"

definition no_delim :: "string \<Rightarrow> bool" where
  "no_delim x \<longleftrightarrow> CR \<notin> set x \<and> LF \<notin> set x"

definition header_line :: "string \<Rightarrow> bool" where
  "header_line x \<longleftrightarrow> no_delim x \<and> x \<noteq> [] \<and> hd x \<noteq> TAB \<and> hd x \<noteq> SPACE"

definition old_version :: "string \<Rightarrow> string" where
  "old_version fl =
    (if take 6 (drop (length fl - 8) fl) = ''HTTP/1''
     then take (length fl - 3) fl @ [CHR ''1'', fl ! (length fl - 2), CHR ''0''] else fl)"

lemma length_delim [simp]: "length delim = 2" "set delim = {CR, LF}"
  by (simp_all add: delim_def)

lemma header_block_simps [simp]:
  "header_block [] = []" "header_block (x # xs) = x @ CR # LF # header_block xs"
  by (simp_all add: header_block_def delim_def)

lemma header_block_append [simp]: "header_block (xs @ ys) = header_block xs @ header_block ys"
  by (simp add: header_block_def)

lemma length_render [simp]: "length (render fl hs) = length fl + length (header_block hs) + 4"
  by (simp add: render_def)

lemma length_offsets [simp]: "length (offsets k hs) = length hs"
  by (induction hs arbitrary: k) simp_all

lemma offsets_append:
  "offsets k (xs @ ys) = offsets k xs @ offsets (k + length (header_block xs)) ys"
  by (induction xs arbitrary: k) (simp_all add: algebra_simps)

lemma offsets_nth:
  "i < length hs \<Longrightarrow> offsets k hs ! i = k + length (header_block (take i hs))"
  by (induction hs arbitrary: k i) (auto simp: nth_Cons algebra_simps split: nat.splits)

lemma offsets_shift: "offsets (k + d) xs = map (\<lambda>p. p + d) (offsets k xs)"
proof (induction xs arbitrary: k)
  case (Cons x xs)
  show ?case using Cons [of "k + length x + 2"] by (simp add: ac_simps)
qed simp

section \<open>The scanner\<close>

lemma buffer_find_skip:
  "no_delim x \<Longrightarrow> buffer_find (x @ y) delim = map_option (\<lambda>k. length x + k) (buffer_find y delim)"
  by (induction x) (auto simp: no_delim_def option.map_comp o_def option.map_ident cong: map_option_cong)

lemma buffer_find_hit: "c \<in> {CR, LF} \<Longrightarrow> buffer_find (c # y) delim = Some 0"
  by simp

declare process_loop.simps [simp del]

lemma process_step:
  assumes "hbuf h = p @ x @ c # y" "no_delim x" "c \<in> {CR, LF}"
    and "length p + length x < lim"
  shows "process_loop fnc h k st old (length p) lim =
    do { (h, k, st, old, ret) \<leftarrow> header_delim fnc h k st old (length p + length x + 1);
         (case ret of Some q \<Rightarrow> Some (h, k, Some q)
          | None \<Rightarrow> process_loop fnc h k st old (length p + length x + 1) lim) }"
proof -
  have "take (lim - length p) (drop (length p) (hbuf h)) = x @ c # take (lim - length p - length x - 1) y"
    using assms by (auto simp: take_Cons intro!: arg_cong [where f = "\<lambda>n. take n y"] split: nat.splits)
  then have "buffer_find (take (lim - length p) (drop (length p) (hbuf h))) delim = Some (length x)"
    using buffer_find_skip [OF assms(2), of "c # take (lim - length p - length x - 1) y"] assms(3) by simp
  then show ?thesis
    using assms(4) by (subst process_loop.simps) (simp cong: option.case_cong)
qed

text \<open>The contract of the functions that are called for each header: they leave the buffer.\<close>

locale header_visitor =
  fixes fnc :: header_fnc
  assumes keeps_buffer: "fnc h o1 l k = Some (h', k') \<Longrightarrow> hbuf h' = hbuf h"
begin

fun visit :: "http \<Rightarrow> nat \<Rightarrow> nat \<Rightarrow> string list \<Rightarrow> (http \<times> nat) option" where
  "visit h k off [] = Some (h, k)"
| "visit h k off (x # xs) =
     do { (h, k) \<leftarrow> fnc h off (length x) k; visit h k (off + length x + 2) xs }"

lemma one_header:
  assumes "hbuf h = p @ x @ CR # LF # c # y" "header_line x" "length p + length x + 2 < lim"
    and "c \<noteq> TAB" "c \<noteq> SPACE"
  shows "process_loop fnc h k HEADER_FIRST_DELIM (length p) (length p) lim =
    do { (h, k) \<leftarrow> fnc h (length p) (length x) k;
         process_loop fnc h k (if c \<in> {CR, LF} then HEADER_THIRD_DELIM else HEADER_FIRST_DELIM)
           (length p + length x + 2) (length p + length x + 2) lim }"
proof -
  have a: "process_loop fnc h k HEADER_FIRST_DELIM (length p) (length p) lim =
      process_loop fnc h k HEADER_SECOND_DELIM (length p) (length (p @ x @ [CR])) lim"
    using assms(2,3) process_step [OF assms(1), of lim fnc k HEADER_FIRST_DELIM "length p"]
    by (simp add: header_line_def header_delim_def header_states ac_simps numeral_eq_Suc)
  have "hget h (length p + length x + 2) = Some c"
    using assms(1) by (simp add: hget_def nth_append)
  moreover have "hget h' (length p + length x + 2) = Some c" if "fnc h (length p) (length x) k = Some (h', k')" for h' k'
    using keeps_buffer [OF that] assms(1) by (simp add: hget_def nth_append)
  ultimately show ?thesis
    unfolding a using assms(3-5)
      process_step [of h "p @ x @ [CR]" "[]" LF "c # y" lim fnc k HEADER_SECOND_DELIM "length p"] assms(1)
    by (cases "fnc h (length p) (length x) k")
       (auto simp: header_delim_def header_states no_delim_def numeral_eq_Suc split: prod.splits)
qed

lemma all_headers:
  assumes "hbuf h = p @ header_block hs @ CR # LF # y" "hs \<noteq> []" "\<forall>x \<in> set hs. header_line x"
    and "length p + length (header_block hs) + 2 \<le> lim"
  shows "process_loop fnc h k HEADER_FIRST_DELIM (length p) (length p) lim =
    do { (h, k) \<leftarrow> visit h k (length p) hs;
         Some (h, k, Some (length p + length (header_block hs) + 2)) }"
  using assms
proof (induction hs arbitrary: h p k)
  case (Cons x xs)
  show ?case
  proof (cases xs)
    case Nil
    have step: "process_loop fnc h' k' HEADER_THIRD_DELIM (length p + length x + 2) (length p + length x + 2) lim
        = Some (h', k', Some (length p + length x + 4))" if "hbuf h' = hbuf h" for h' k'
    proof -
      let ?q = "p @ x @ [CR, LF]"
      have "hbuf h' = ?q @ [] @ CR # LF # y" "hbuf h' = (?q @ [CR]) @ [] @ LF # y"
        using that Cons.prems Nil by simp_all
      then show ?thesis
        using Cons.prems(4) Nil
          process_step [of h' ?q "[]" CR "LF # y" lim fnc k' HEADER_THIRD_DELIM "length ?q"]
          process_step [of h' "?q @ [CR]" "[]" LF y lim fnc k' HEADER_DONE "length ?q"]
        by (simp add: header_delim_def header_states no_delim_def numeral_eq_Suc)
    qed
    have "hbuf h = p @ x @ CR # LF # CR # LF # y" using Cons.prems Nil by simp
    then show ?thesis
      using Cons.prems Nil one_header [of h p x CR "LF # y" lim k] step keeps_buffer
      by (auto split: prod.splits Option.bind_splits simp: ac_simps)
  next
    case (Cons x2 xs2)
    then obtain c t where x2: "x2 = c # t" and c: "c \<noteq> TAB" "c \<noteq> SPACE" "c \<noteq> CR" "c \<noteq> LF"
      using Cons.prems(3) by (cases x2) (auto simp: header_line_def no_delim_def)
    let ?q = "p @ x @ [CR, LF]"
    have "process_loop fnc h k HEADER_FIRST_DELIM (length p) (length p) lim =
      do { (h, k) \<leftarrow> fnc h (length p) (length x) k;
           process_loop fnc h k HEADER_FIRST_DELIM (length ?q) (length ?q) lim }"
      using Cons.prems Cons x2 c one_header [of h p x c "t @ CR # LF # header_block xs2 @ CR # LF # y" lim k]
      by simp
    also have "\<dots> = do { (h, k) \<leftarrow> fnc h (length p) (length x) k;
          (h, k) \<leftarrow> visit h k (length ?q) xs;
          Some (h, k, Some (length ?q + length (header_block xs) + 2)) }"
      using Cons.IH [of _ ?q] Cons.prems \<open>xs = x2 # xs2\<close> keeps_buffer
      by (auto split: prod.splits Option.bind_splits)
    finally show ?thesis by (auto split: prod.splits Option.bind_splits simp: ac_simps)
  qed
qed simp

end

interpretation sum: header_visitor headers_sum_1
  by unfold_locales (auto simp: headers_sum_1_def)

interpretation save: header_visitor headers_save
  by unfold_locales (auto simp: headers_save_def split: option.splits if_splits)

lemma sum_visit: "sum.visit h k off hs = Some (h, k + length hs)"
  by (induction hs arbitrary: k off) (simp_all add: headers_sum_1_def)

lemma save_visit:
  assumes "headers h = Some offs" "k + length hs \<le> length offs" "k + length hs \<le> length (headers_length h)"
  shows "save.visit h k off hs =
    Some (h\<lparr>headers := Some (take k offs @ offsets off hs @ drop (k + length hs) offs),
            headers_length := take k (headers_length h) @ map length hs @ drop (k + length hs) (headers_length h)\<rparr>,
          k + length hs)"
  using assms
proof (induction hs arbitrary: h k off offs)
  case (Cons x xs)
  have "headers_save h off (length x) k =
      Some (h\<lparr>headers := Some (offs[k := off]), headers_length := (headers_length h)[k := length x]\<rparr>, k + 1)"
    using Cons.prems by (simp add: headers_save_def)
  then show ?case
    using Cons.prems Cons.IH [where h = "h\<lparr>headers := Some (offs[k := off]),
        headers_length := (headers_length h)[k := length x]\<rparr>" and offs = "offs[k := off]" and k = "k + 1"]
    by (simp add: take_Suc_conv_app_nth)
qed simp

definition holds :: "http \<Rightarrow> string \<Rightarrow> bool" where
  "holds h t \<longleftrightarrow> buffer_used h = length t \<and> take (length t) (hbuf h) = t"

lemma holdsD: "holds h t \<Longrightarrow> hbuf h = t @ drop (length t) (hbuf h) \<and> buffer_used h = length t"
  unfolding holds_def using append_take_drop_id [of "length t" "hbuf h"] by simp

lemma holdsI: "hbuf h = t @ z \<Longrightarrow> buffer_used h = length t \<Longrightarrow> holds h t"
  by (simp add: holds_def)

lemma those_hget:
  "i + n \<le> length (hbuf h) \<Longrightarrow>
   those (map (\<lambda>j. hget_int h (int i + int j)) [0..<n]) = Some (take n (drop i (hbuf h)))"
proof (induction n)
  case (Suc n)
  have those_snoc: "those (xs @ [x]) = do { ys \<leftarrow> those xs; y \<leftarrow> x; Some (ys @ [y]) }" for xs and x :: "char option"
    by (induction xs) (auto split: option.splits simp: Option.bind_eq_None_conv option.map_ident o_def split: Option.bind_splits)
  show ?case
    using Suc by (simp add: those_snoc hget_int_def hget_def take_Suc_conv_app_nth flip: of_nat_add)
qed simp

lemma old_version_length [simp]: "8 \<le> length fl \<Longrightarrow> length (old_version fl) = length fl"
  by (auto simp: old_version_def)

lemma last_three:
  assumes "3 \<le> length xs"
  obtains p x y w where "xs = p @ [x, y, w]"
proof -
  have "length (drop (length xs - 3) xs) = Suc (Suc (Suc 0))" using assms by simp
  then obtain x y w where "drop (length xs - 3) xs = [x, y, w]" by (auto simp: length_Suc_conv simp del: length_drop)
  then show ?thesis using that append_take_drop_id [of "length xs - 3" xs] by metis
qed

lemma downgrade_line:
  assumes "hbuf h = fl @ z" "2 \<le> length z" "8 \<le> length fl"
  shows "downgrade h (length fl + 2) = Some (h\<lparr>hbuf := old_version fl @ z\<rparr>)"
proof -
  let ?n = "length fl" and ?six = "take 6 (drop (length fl - 8) fl)"
  have ds: "those (map (\<lambda>i. hget_int h (int (?n + 2) - 10 + int i)) [0..<6]) = Some ?six"
    using assms those_hget [of "?n - 8" 6 h] by (simp add: of_nat_diff)
  obtain p x y w where fl: "fl = p @ [x, y, w]"
    by (rule last_three [of fl]) (use assms(3) in simp)
  have old: "old_version fl = (if ?six = ''HTTP/1'' then p @ [CHR ''1'', y, CHR ''0''] else fl)"
    unfolding old_version_def by (simp add: fl nth_append)
  have len: "?n + 2 - 5 = length p" "?n + 2 - 3 = length p + 2" using fl by simp_all
  have put1: "hput h (length p) (CHR ''1'') = Some (h\<lparr>hbuf := p @ CHR ''1'' # y # w # z\<rparr>)"
    by (simp add: hput_def assms(1) fl)
  have put2: "hput (h\<lparr>hbuf := p @ CHR ''1'' # y # w # z\<rparr>) (length p + 2) (CHR ''0'') =
      Some (h\<lparr>hbuf := p @ CHR ''1'' # y # CHR ''0'' # z\<rparr>)"
    by (simp add: hput_def list_update_append)
  have h: "h\<lparr>hbuf := fl @ z\<rparr> = h" using assms(1) by simp
  have p6: "take 6 protocol_text = ''HTTP/1''" by (simp add: protocol_text_def)
  have n5: "\<not> ?n + 2 < 5" using assms(3) by linarith
  show ?thesis
  proof (cases "?six = ''HTTP/1''")
    case True
    show ?thesis
      unfolding downgrade_def ds old p6 using True n5
      by (simp only: bind.bind_lunit len put1 put2 if_True if_False append_assoc append_Cons append_Nil simp_thms)
  next
    case False
    show ?thesis
      unfolding downgrade_def ds old p6 using False
      by (simp only: bind.bind_lunit h if_False simp_thms)
  qed
qed

context header_visitor begin

lemma whole_head:
  assumes "hbuf h = render fl hs @ z" "length (render fl hs) \<le> buffer_used h"
    and "no_delim fl" "8 \<le> length fl" "hs \<noteq> []" "\<forall>x \<in> set hs. header_line x"
  shows "process_headers_and_get_payload fnc h k =
    do { (h, k) \<leftarrow> visit (h\<lparr>hbuf := render (old_version fl) hs @ z\<rparr>) k (length fl + 2) hs;
         Some (h, k, Some (length (render fl hs))) }"
proof -
  let ?m = "header_block hs @ CR # LF # z"
  have b: "hbuf h = fl @ CR # LF # ?m" using assms(1) by (simp add: render_def delim_def)
  let ?h = "h\<lparr>hbuf := old_version fl @ CR # LF # ?m\<rparr>" and ?lim = "buffer_used h"
  have "process_headers_and_get_payload fnc h k =
      process_loop fnc h k FIRST_LINE_SECOND_DELIM 0 (length (fl @ [CR])) ?lim"
    using process_step [of h "[]" fl CR "LF # ?m" ?lim fnc k FIRST_LINE_FIRST_DELIM 0] assms(2,3) b
    by (simp add: process_headers_and_get_payload_def header_delim_def header_states)
  also have "\<dots> = process_loop fnc ?h k HEADER_FIRST_DELIM (length (fl @ [CR, LF])) (length (fl @ [CR, LF])) ?lim"
    using process_step [of h "fl @ [CR]" "[]" LF ?m ?lim fnc k FIRST_LINE_SECOND_DELIM 0] assms(2,4) b
      downgrade_line [of h fl "CR # LF # ?m"]
    by (simp add: header_delim_def header_states no_delim_def)
  also have "\<dots> = do { (h, k) \<leftarrow> visit ?h k (length fl + 2) hs; Some (h, k, Some (length (render fl hs))) }"
    using all_headers [of ?h "old_version fl @ [CR, LF]" hs z ?lim k] assms(2,4-6)
    by (simp add: numeral_eq_Suc)
  finally show ?thesis by (simp add: render_def delim_def)
qed

end

section \<open>A structure that holds a message\<close>

definition layout :: "http \<Rightarrow> string \<Rightarrow> string list \<Rightarrow> string \<Rightarrow> bool" where
  "layout h fl hs body \<longleftrightarrow>
     holds h (render fl hs @ body) \<and> payload h = Some (length (render fl hs)) \<and>
     headers_used h = length hs \<and>
     (\<exists>offs. headers h = Some offs \<and> take (length hs) offs = offsets (length fl + 2) hs) \<and>
     take (length hs) (headers_length h) = map length hs"

definition named :: "string \<Rightarrow> string \<Rightarrow> bool" where
  "named n x \<longleftrightarrow> length n < length x \<and> x ! length n = CHR '':'' \<and> lower (take (length n) x) = lower n"

fun find_pos :: "('a \<Rightarrow> bool) \<Rightarrow> 'a list \<Rightarrow> nat option" where
  "find_pos P [] = None"
| "find_pos P (x # xs) = (if P x then Some 0 else map_option Suc (find_pos P xs))"

fun drop_first :: "('a \<Rightarrow> bool) \<Rightarrow> 'a list \<Rightarrow> 'a list" where
  "drop_first P [] = []"
| "drop_first P (x # xs) = (if P x then xs else x # drop_first P xs)"

lemma find_pos_None: "find_pos P xs = None \<longleftrightarrow> (\<forall>x \<in> set xs. \<not> P x)"
  by (induction xs) auto

lemma find_pos_Some:
  "find_pos P xs = Some i \<Longrightarrow> i < length xs \<and> P (xs ! i) \<and> drop_first P xs = take i xs @ drop (Suc i) xs"
  by (induction xs arbitrary: i) (auto split: if_splits)

lemma drop_first_None: "find_pos P xs = None \<Longrightarrow> drop_first P xs = xs"
  by (induction xs) (auto split: if_splits)

lemma drop_first_subset: "set (drop_first P xs) \<subseteq> set xs"
  by (induction xs) auto

lemma c_tolower_delim [simp]: "c_tolower c = CR \<longleftrightarrow> c = CR" "c_tolower c = LF \<longleftrightarrow> c = LF"
  by (cases c; simp; blast)+

lemma lower_eq_delim: "lower x = lower y \<Longrightarrow> no_delim y \<Longrightarrow> no_delim x"
proof -
  have "no_delim x \<longleftrightarrow> no_delim (lower x)" for x
    by (auto simp: no_delim_def image_iff) (metis c_tolower_delim)+
  then show "lower x = lower y \<Longrightarrow> no_delim y \<Longrightarrow> no_delim x" by metis
qed

lemma header_matches:
  assumes "no_delim n" "length n < length (x @ CR # y)"
  shows "(x @ CR # y) ! length n = CHR '':'' \<and> strncasecmp_eq (x @ CR # y) n (length n) \<longleftrightarrow> named n x"
proof (cases "length n < length x")
  case True
  then show ?thesis by (simp add: nth_append strncasecmp_eq_def named_def)
next
  case False
  show ?thesis
  proof (cases "length n = length x")
    case True
    then show ?thesis by (simp add: named_def)
  next
    case ne: False
    then have "CR \<in> set (take (length n) (x @ CR # y))" using False
      by (cases "length n - length x") (simp_all add: take_Cons)
    then have "\<not> no_delim (take (length n) (x @ CR # y))" by (simp add: no_delim_def)
    then have "\<not> strncasecmp_eq (x @ CR # y) n (length n)"
      using assms lower_eq_delim [of "take (length n) (x @ CR # y)" n] by (auto simp: strncasecmp_eq_def)
    then show ?thesis using False by (simp add: named_def)
  qed
qed

lemma find_header_loop_layout:
  assumes "hbuf h = p @ header_block hs @ z" "length n < length z" "no_delim n"
  shows "find_header_loop h n i (offsets (length p) hs) = Some (map_option (\<lambda>k. i + k) (find_pos (named n) hs))"
  using assms(1)
proof (induction hs arbitrary: p i)
  case (Cons x xs)
  let ?y = "LF # header_block xs @ z"
  have d: "drop (length p) (hbuf h) = x @ CR # ?y" using Cons.prems by simp
  have g: "hget h (length p + length n) = Some ((x @ CR # ?y) ! length n)"
    using assms(2) d by (simp add: hget_def Cons.prems nth_append)
  have "named n x \<longleftrightarrow> (x @ CR # ?y) ! length n = CHR '':'' \<and> strncasecmp_eq (x @ CR # ?y) n (length n)"
    by (rule header_matches [symmetric]) (use assms in simp_all)
  moreover have "find_header_loop h n (i + 1) (offsets (length (p @ x @ [CR, LF])) xs) =
      Some (map_option (\<lambda>k. i + 1 + k) (find_pos (named n) xs))"
    by (rule Cons.IH) (simp add: Cons.prems)
  ultimately show ?case
    using d g by (auto simp: option.map_comp o_def ac_simps)
qed simp

lemma find_header_layout:
  assumes "layout h fl hs body" "no_delim n" "length (render fl hs) + length n < length (hbuf h) + 2"
  shows "find_header h n = Some (find_pos (named n) hs)"
proof -
  obtain offs where offs: "headers h = Some offs" "take (length hs) offs = offsets (length fl + 2) hs"
    using assms(1) by (auto simp: layout_def)
  obtain z where z: "hbuf h = (fl @ delim) @ header_block hs @ delim @ z"
    using assms(1) holdsD [of h "render fl hs @ body"] by (auto simp: layout_def render_def)
  then show ?thesis
    using find_header_loop_layout [OF z, of n 0] assms offs
    by (simp add: find_header_def layout_def option.map_ident)
qed

section \<open>Values, removal and allocation\<close>

lemma header_block_nth:
  "i < length hs \<Longrightarrow> header_block hs = header_block (take i hs) @ hs ! i @ delim @ header_block (drop (Suc i) hs)"
  by (subst id_take_nth_drop [of i hs]) (simp_all add: delim_def)

lemma layout_text:
  "layout h fl hs body \<Longrightarrow> \<exists>z. hbuf h = render fl hs @ body @ z"
  using holdsD [of h "render fl hs @ body"] by (auto simp: layout_def)

lemma layout_offset:
  assumes "layout h fl hs body" "i < length hs"
  obtains offs where "headers h = Some offs" "i < length offs" "i < length (headers_length h)"
    "offs ! i = length fl + 2 + length (header_block (take i hs))" "headers_length h ! i = length (hs ! i)"
proof -
  obtain offs where offs: "headers h = Some offs" "take (length hs) offs = offsets (length fl + 2) hs"
    and l: "take (length hs) (headers_length h) = map length hs"
    using assms(1) by (auto simp: layout_def)
  have "length (take (length hs) offs) = length hs" "length (take (length hs) (headers_length h)) = length hs"
    using offs l by simp_all
  then have "i < length offs" "i < length (headers_length h)" using assms(2) by simp_all
  moreover have "offs ! i = take (length hs) offs ! i" "headers_length h ! i = take (length hs) (headers_length h) ! i"
    using assms(2) by simp_all
  ultimately show ?thesis using that [OF offs(1)] offs l assms(2) by (simp add: offsets_nth)
qed

lemma copy_header_layout:
  assumes "layout h fl hs body" "i < length hs" "NUL \<notin> set (hs ! i)"
  shows "copy_header h i = Some (hs ! i @ [NUL, NUL])"
proof -
  obtain offs where offs: "headers h = Some offs" "i < length offs" "i < length (headers_length h)"
    "offs ! i = length fl + 2 + length (header_block (take i hs))" "headers_length h ! i = length (hs ! i)"
    using layout_offset [OF assms(1,2)] .
  obtain z where "hbuf h = render fl hs @ body @ z" using layout_text [OF assms(1)] by blast
  then have t: "drop (offs ! i) (hbuf h) = hs ! i @ CR # LF # header_block (drop (Suc i) hs) @ delim @ body @ z"
    using assms(2) offs(4) header_block_nth [OF assms(2)] by (simp add: render_def delim_def)
  then have "take (length (hs ! i) + 1) (drop (offs ! i) (hbuf h)) = hs ! i @ [CR]" by simp
  moreover have "offs ! i \<le> length (hbuf h)"
    using arg_cong [OF t, where f = length] by simp
  moreover have "cstr_of (hs ! i @ [CR]) = hs ! i @ [CR]" using assms(3) by simp
  ultimately show ?thesis
    using offs(1-3,5) by (simp add: copy_header_def buf_put_def list_update_append Let_def del: length_take length_drop)
qed

definition value_of :: "string \<Rightarrow> string \<Rightarrow> string" where
  "value_of n x = drop (length n + 2) x"

lemma cstr_from_value:
  assumes "named n x" "NUL \<notin> set x"
  shows "cstr_from (x @ [NUL, NUL]) (length n + 2) = Some (value_of n x)"
proof -
  have "length n + 2 \<le> length x + 1" using assms(1) by (simp add: named_def)
  moreover have "cstr_of (drop k x @ [NUL, NUL]) = drop k x" for k
    using assms(2) in_set_dropD [of _ k x] by (subst cstr_of_def, subst takeWhile_append2) auto
  moreover have "cstr_of (drop 1 [NUL, NUL]) = []" by (simp add: cstr_of_def)
  ultimately show ?thesis
    by (cases "length n + 2 \<le> length x")
       (auto simp: cstr_from_def value_of_def le_Suc_eq cstr_of_def)
qed

text \<open>The expected length: the value of \<^verbatim>\<open>Content-Length\<close> counted from the beginning of the
  buffer; a negative or unreadable value stays as it is.\<close>

definition length_field :: "string \<Rightarrow> int" where
  "length_field x = (case atoi (value_of header_content_length x) of (n, erange) \<Rightarrow> if erange then - 1 else n)"

definition expected_length :: "string list \<Rightarrow> nat \<Rightarrow> int" where
  "expected_length hs p =
    (case find_pos (named header_content_length) hs of
       None \<Rightarrow> - 1
     | Some i \<Rightarrow> (let n = length_field (hs ! i) in if n < 0 then n else wrap32 (n + int p)))"

definition roomy :: "http \<Rightarrow> string \<Rightarrow> string list \<Rightarrow> bool" where
  "roomy h fl hs \<longleftrightarrow> length (render fl hs) + 15 \<le> length (hbuf h)"

lemma names_no_delim [simp]:
  "no_delim header_content_length" "no_delim header_content_type" "no_delim header_host"
  "no_delim header_connection" "no_delim accept_encoding" "no_delim accept_ranges" "no_delim header_accept"
  by (simp_all add: no_delim_def)

lemma content_length_layout:
  assumes "layout h fl hs body" "roomy h fl hs" "\<forall>x \<in> set hs. NUL \<notin> set x" "expected_payload h < 0"
  shows "content_length_value h =
    (case find_pos (named header_content_length) hs of
       None \<Rightarrow> Some (- 1, h)
     | Some i \<Rightarrow> (let n = length_field (hs ! i); e = (if n < 0 then n else wrap32 (n + int (length (render fl hs))))
                 in Some (if n < 0 then 0 else e, h\<lparr>expected_payload := e\<rparr>)))"
proof -
  have f: "find_header h header_content_length = Some (find_pos (named header_content_length) hs)"
    using find_header_layout [OF assms(1), of header_content_length] assms(2) by (simp add: roomy_def)
  have p: "payload h = Some (length (render fl hs))" using assms(1) by (simp add: layout_def)
  show ?thesis
  proof (cases "find_pos (named header_content_length) hs")
    case None
    then show ?thesis by (simp add: content_length_value_def f)
  next
    case (Some i)
    have i: "i < length hs" "named header_content_length (hs ! i)" using find_pos_Some [OF Some] by simp_all
    have c: "copy_header h i = Some (hs ! i @ [NUL, NUL])"
      by (rule copy_header_layout [OF assms(1)]) (use i assms(3) in auto)
    have v: "cstr_from (hs ! i @ [NUL, NUL]) (length header_content_length + 2) =
        Some (value_of header_content_length (hs ! i))"
      by (rule cstr_from_value) (use i assms(3) in auto)
    show ?thesis
      unfolding content_length_value_def f Some using assms(4) p c v
      by (simp add: length_field_def Let_def split: prod.split)
  qed
qed

text \<open>What an operation on headers leaves alone.\<close>

definition same_rest :: "http \<Rightarrow> http \<Rightarrow> bool" where
  "same_rest h h' \<longleftrightarrow>
     lookup_tree h' = lookup_tree h \<and> expected_payload h' = expected_payload h \<and>
     total_block h' = total_block h \<and> buffer_sent h' = buffer_sent h \<and> buffer_recv h' = buffer_recv h \<and>
     length (hbuf h') = length (hbuf h)"

lemma same_rest_refl [simp]: "same_rest h h"
  by (simp add: same_rest_def)

lemma same_rest_trans: "same_rest a b \<Longrightarrow> same_rest b c \<Longrightarrow> same_rest a c"
  by (simp add: same_rest_def)

lemma take_map_offsets:
  assumes "hs = xs @ x # ys" "take (length hs) offs = offsets k hs"
  shows "take (length hs - 1) (map (\<lambda>j. if length xs \<le> j \<and> j + 1 < length hs then offs ! (j + 1) - (length x + 2) else offs ! j)
      [0..<length offs]) = offsets k (xs @ ys)"
proof (rule nth_equalityI)
  have "length (take (length hs) offs) = length hs" using assms(2) by simp
  then have len: "length hs \<le> length offs" by simp
  then show "length (take (length hs - 1) (map (\<lambda>j. if length xs \<le> j \<and> j + 1 < length hs then offs ! (j + 1) - (length x + 2) else offs ! j)
      [0..<length offs])) = length (offsets k (xs @ ys))"
    using assms(1) by simp
  have o: "offs ! j = k + length (header_block (take j hs))" if "j < length hs" for j
  proof -
    have "offs ! j = take (length hs) offs ! j" using that by simp
    then show ?thesis unfolding assms(2) using that by (simp add: offsets_nth)
  qed
  fix j assume "j < length (take (length hs - 1) (map (\<lambda>j. if length xs \<le> j \<and> j + 1 < length hs then offs ! (j + 1) - (length x + 2) else offs ! j)
      [0..<length offs]))"
  then have j: "j < length xs + length ys" using assms(1) len by simp
  have "length (header_block (take j (xs @ ys))) = (if length xs \<le> j then length (header_block (take (Suc j) hs)) - (length x + 2)
      else length (header_block (take j hs)))"
    using assms(1) by (auto simp: Suc_diff_le)
  moreover have "length xs \<le> j \<Longrightarrow> length x + 2 \<le> length (header_block (take (Suc j) hs))"
    using assms(1) by (auto simp: Suc_diff_le)
  ultimately show "take (length hs - 1) (map (\<lambda>j. if length xs \<le> j \<and> j + 1 < length hs then offs ! (j + 1) - (length x + 2) else offs ! j)
      [0..<length offs]) ! j = offsets k (xs @ ys) ! j"
    using j len assms(1) o [of j] o [of "Suc j"] by (auto simp: offsets_nth)
qed

lemma take_map_lengths:
  assumes "hs = xs @ x # ys" "take (length hs) ls = map length hs"
  shows "take (length hs - 1) (map (\<lambda>j. if length xs \<le> j \<and> j + 1 < length hs then ls ! (j + 1) else ls ! j)
      [0..<length ls]) = map length (xs @ ys)"
proof (rule nth_equalityI)
  have "length (take (length hs) ls) = length hs" using assms(2) by simp
  then have len: "length hs \<le> length ls" by simp
  then show "length (take (length hs - 1) (map (\<lambda>j. if length xs \<le> j \<and> j + 1 < length hs then ls ! (j + 1) else ls ! j)
      [0..<length ls])) = length (map length (xs @ ys))"
    using assms(1) by simp
  have o: "ls ! j = length (hs ! j)" if "j < length hs" for j
  proof -
    have "ls ! j = take (length hs) ls ! j" using that by simp
    then show ?thesis unfolding assms(2) using that by simp
  qed
  fix j assume "j < length (take (length hs - 1) (map (\<lambda>j. if length xs \<le> j \<and> j + 1 < length hs then ls ! (j + 1) else ls ! j)
      [0..<length ls]))"
  then have j: "j < length xs + length ys" using assms(1) len by simp
  then show "take (length hs - 1) (map (\<lambda>j. if length xs \<le> j \<and> j + 1 < length hs then ls ! (j + 1) else ls ! j)
      [0..<length ls]) ! j = map length (xs @ ys) ! j"
    using len assms(1) o [of j] o [of "Suc j"] by (auto simp: nth_append Suc_diff_le)
qed

lemma remove_layout:
  assumes l: "layout h fl hs body" and r: "roomy h fl hs" and n: "no_delim n" "length n \<le> 15"
  shows "\<exists>h'. find_and_remove_header h n = Some h' \<and> layout h' fl (drop_first (named n) hs) body \<and> same_rest h h'"
proof (cases "find_pos (named n) hs")
  case None
  then show ?thesis
    using find_header_layout [OF l n(1)] r n(2) l
    by (simp add: find_and_remove_header_def roomy_def drop_first_None)
next
  case (Some i)
  have i: "i < length hs" and dropped: "drop_first (named n) hs = take i hs @ drop (Suc i) hs"
    using find_pos_Some [OF Some] by simp_all
  define xs x ys where "xs = take i hs" "x = hs ! i" "ys = drop (Suc i) hs"
  have hs: "hs = xs @ x # ys" and len: "length xs = i"
    using i by (simp_all add: xs_x_ys_def id_take_nth_drop [symmetric])
  obtain offs where offs: "headers h = Some offs" "take (length hs) offs = offsets (length fl + 2) hs"
    and ls: "take (length hs) (headers_length h) = map length hs"
    and used: "headers_used h = length hs" and pl: "payload h = Some (length (render fl hs))"
    using l by (auto simp: layout_def)
  let ?hdr = "length fl + 2 + length (header_block xs)" and ?S = "header_block ys @ delim @ body"
  have off: "offs ! j = length fl + 2 + length (header_block (take j hs))" if "j < length hs" for j
    using layout_offset [OF l that] offs(1) by (metis option.inject)
  obtain z where z: "hbuf h = (fl @ delim @ header_block xs) @ (x @ delim) @ ?S @ z"
    using layout_text [OF l] by (auto simp: render_def hs delim_def)
  have bu: "buffer_used h = ?hdr + (length x + 2) + length ?S"
    using l by (simp add: layout_def holds_def render_def hs)
  have nxt: "(if i + 1 \<ge> headers_used h then map_option (\<lambda>p. p - 2) (payload h) else Some (offs ! (i + 1)))
      = Some (?hdr + (length x + 2))"
    using off [of "i + 1"] used pl by (auto simp: hs len [symmetric])
  have t: "take (buffer_used h - (?hdr + (length x + 2))) (drop (?hdr + (length x + 2)) (hbuf h)) = ?S"
    by (simp add: z bu)
  have w: "hwrite h ?hdr ?S = Some (h\<lparr>hbuf := (fl @ delim @ header_block xs) @ ?S @ drop (?hdr + length ?S) (hbuf h)\<rparr>)"
    using z by (simp add: hwrite_def)
  have ho: "offs ! i = ?hdr" using off [OF i] by (simp add: xs_x_ys_def)
  let ?h = "h\<lparr>hbuf := (fl @ delim @ header_block xs) @ ?S @ drop (?hdr + length ?S) (hbuf h),
      headers := Some (map (\<lambda>j. if i \<le> j \<and> j + 1 < headers_used h then offs ! (j + 1) - (length x + 2) else offs ! j) [0..<length offs]),
      headers_length := map (\<lambda>j. if i \<le> j \<and> j + 1 < headers_used h then headers_length h ! (j + 1) else headers_length h ! j)
        [0..<length (headers_length h)],
      headers_used := headers_used h - 1, payload := Some (length (render fl hs) - (length x + 2)),
      buffer_used := buffer_used h - (length x + 2)\<rparr>"
  have "find_and_remove_header h n = Some ?h"
    using find_header_layout [OF l n(1)] r n(2) Some nxt t w
    by (simp add: find_and_remove_header_def roomy_def offs(1) pl ho bu Let_def)
  moreover have "layout ?h fl (xs @ ys) body"
    unfolding layout_def
  proof (intro conjI exI)
    show "holds ?h (render fl (xs @ ys) @ body)"
      by (rule holdsI [where z = "drop (?hdr + length ?S) (hbuf h)"]) (simp_all add: render_def bu)
    show "take (length (xs @ ys)) (map (\<lambda>j. if i \<le> j \<and> j + 1 < headers_used h then offs ! (j + 1) - (length x + 2) else offs ! j) [0..<length offs])
        = offsets (length fl + 2) (xs @ ys)"
      using take_map_offsets [OF hs offs(2)] used by (simp add: hs len)
    show "take (length (xs @ ys)) (headers_length ?h) = map length (xs @ ys)"
      using take_map_lengths [OF hs ls] used by (simp add: hs len)
  qed (simp_all add: used hs)
  moreover have "same_rest h ?h" using z by (simp add: same_rest_def)
  ultimately show ?thesis unfolding dropped xs_x_ys_def by blast
qed

section \<open>Domains of cookies\<close>

definition domain_at :: "string \<Rightarrow> nat \<Rightarrow> bool" where
  "domain_at t k \<longleftrightarrow> k + 9 \<le> length t \<and>
     (\<forall>j < 9. if j > 1 then dprop ! j = c_toupper (t ! (k + j)) else dprop ! j = t ! (k + j))"

definition no_domain :: "string \<Rightarrow> bool" where
  "no_domain t \<longleftrightarrow> (\<forall>k < length t. \<not> domain_at t k)"

declare apply_on_domain_loop.simps [simp del]

lemma domain_loop_none:
  assumes "hbuf h = t @ z" "no_domain t" "m \<le> 8" "m \<le> s" "s \<le> length t"
    and "\<forall>j < m. if j > 1 then dprop ! j = c_toupper (t ! (s - m + j)) else dprop ! j = t ! (s - m + j)"
  shows "apply_on_domain_loop f h u m None s (length t) = Some (h, u)"
  using assms(3-)
proof (induction "length t - s" arbitrary: s m)
  case 0
  then show ?case by (subst apply_on_domain_loop.simps) simp
next
  case (Suc d)
  then have s: "s < length t" by simp
  have g: "hget h s = Some (t ! s)" using s by (simp add: hget_def assms(1) nth_append)
  let ?hit = "if m > 1 then dprop ! m = c_toupper (t ! s) else dprop ! m = t ! s"
  have miss: "apply_on_domain_loop f h u 0 None (s + 1) (length t) = Some (h, u)"
    by (rule Suc.hyps(1)) (use Suc.hyps(2) s in auto)
  have hit: "apply_on_domain_loop f h u (m + 1) None (s + 1) (length t) = Some (h, u)" if ?hit
  proof -
    have all: "\<forall>j < m + 1. if j > 1 then dprop ! j = c_toupper (t ! (s + 1 - (m + 1) + j))
        else dprop ! j = t ! (s + 1 - (m + 1) + j)"
      using Suc.prems(4) that Suc.prems(2) by (auto simp: less_Suc_eq)
    have "m + 1 \<le> 8"
    proof (rule ccontr)
      assume "\<not> m + 1 \<le> 8"
      then have "m = 8" using Suc.prems(1) by simp
      then have "domain_at t (s - 8)" using all s Suc.prems(2) by (simp add: domain_at_def)
      then show False using assms(2) s by (simp add: no_domain_def)
    qed
    then show ?thesis using Suc.hyps(1) [of "s + 1" "m + 1"] Suc.hyps(2) all s Suc.prems(2) by simp
  qed
  show ?case
    using g miss hit s Suc.prems(1)
    by (subst apply_on_domain_loop.simps) (cases "m > 1"; simp)
qed

lemma adjust_domain_none:
  assumes "hbuf h = t @ z" "no_domain t" "payload h = Some (length t)"
  shows "adjust_domain_property suff h = Some h"
  using domain_loop_none [OF assms(1,2), of 0 0] assms(3)
  by (simp add: adjust_domain_property_def apply_on_domain_def)

section \<open>Evaluation of a message\<close>

lemma old_version_idem [simp]: "8 \<le> length fl \<Longrightarrow> old_version (old_version fl) = old_version fl"
proof -
  assume a: "8 \<le> length fl"
  obtain p x y w where fl: "fl = p @ [x, y, w]" by (rule last_three [of fl]) (use a in simp)
  have "old_version (p @ [c, y, CHR ''0'']) = p @ [c, y, CHR ''0'']" if "c = CHR ''1''" for c
    using that by (simp add: old_version_def nth_append)
  moreover have "old_version fl = p @ [CHR ''1'', y, CHR ''0''] \<or> old_version fl = fl"
    by (simp add: old_version_def fl nth_append)
  ultimately show ?thesis by auto
qed

lemma old_version_no_delim: "no_delim fl \<Longrightarrow> 8 \<le> length fl \<Longrightarrow> no_delim (old_version fl)"
proof -
  assume a: "no_delim fl" "8 \<le> length fl"
  obtain p x y w where fl: "fl = p @ [x, y, w]" by (rule last_three [of fl]) (use a in simp)
  then have "old_version fl = p @ [CHR ''1'', y, CHR ''0''] \<or> old_version fl = fl"
    by (simp add: old_version_def nth_append)
  then show ?thesis using a(1) by (auto simp: no_delim_def fl)
qed

lemma holds_append: "holds h t \<Longrightarrow> holds (h\<lparr>total_block := n, hbuf := hbuf h @ z\<rparr>) t"
proof -
  assume a: "holds h t"
  then have "length (take (length t) (hbuf h)) = length t" by (simp add: holds_def)
  then show ?thesis using a by (simp add: holds_def)
qed

lemma reallocation_layout:
  "layout h fl hs body \<Longrightarrow> layout (snd (reallocation_protocol h n)) fl hs body"
  using holds_append [of h "render fl hs @ body"]
  by (simp add: layout_def reallocation_protocol_def copy_internal_data_def Let_def)

lemma reallocation_rest:
  "lookup_tree (snd (reallocation_protocol h n)) = lookup_tree h"
  "expected_payload (snd (reallocation_protocol h n)) = expected_payload h"
  "buffer_sent (snd (reallocation_protocol h n)) = buffer_sent h"
  "buffer_recv (snd (reallocation_protocol h n)) = buffer_recv h"
  "length (hbuf h) \<le> length (hbuf (snd (reallocation_protocol h n)))"
  by (simp_all add: reallocation_protocol_def copy_internal_data_def Let_def)

definition strip :: "bool \<Rightarrow> string list \<Rightarrow> string list" where
  "strip is_victim hs =
    (if is_victim then drop_first (named accept_ranges) (drop_first (named header_content_length) hs)
     else drop_first (named accept_encoding) (drop_first (named header_connection) hs))"

lemma strip_subset: "set (strip v hs) \<subseteq> set hs"
  using drop_first_subset by (auto simp: strip_def dest!: subsetD [OF drop_first_subset])

lemma header_block_drop_first: "length (header_block (drop_first P hs)) \<le> length (header_block hs)"
  by (induction hs) auto

lemma roomy_drop_first: "roomy h fl hs \<Longrightarrow> same_rest h h' \<Longrightarrow> roomy h' fl (drop_first P hs)"
  using header_block_drop_first [of P hs] by (simp add: roomy_def same_rest_def)

lemma remove_two:
  assumes "layout h fl hs body" "roomy h fl hs" "no_delim n" "length n \<le> 15" "no_delim m" "length m \<le> 15"
  shows "\<exists>h'. do { h \<leftarrow> find_and_remove_header h n; find_and_remove_header h m } = Some h' \<and>
    layout h' fl (drop_first (named m) (drop_first (named n) hs)) body \<and> same_rest h h' \<and>
    roomy h' fl (drop_first (named m) (drop_first (named n) hs))"
proof -
  obtain h1 where h1: "find_and_remove_header h n = Some h1" "layout h1 fl (drop_first (named n) hs) body" "same_rest h h1"
    using remove_layout [OF assms(1-4)] by blast
  have r1: "roomy h1 fl (drop_first (named n) hs)" using assms(2) h1(3) by (rule roomy_drop_first)
  obtain h2 where h2: "find_and_remove_header h1 m = Some h2"
      "layout h2 fl (drop_first (named m) (drop_first (named n) hs)) body" "same_rest h1 h2"
    using remove_layout [OF h1(2) r1 assms(5,6)] by blast
  have "roomy h2 fl (drop_first (named m) (drop_first (named n) hs))" using r1 h2(3) by (rule roomy_drop_first)
  then show ?thesis using h1 h2 same_rest_trans by auto
qed

lemma remove_headers_layout:
  assumes "layout h fl hs body" "roomy h fl hs"
  shows "\<exists>h'. remove_headers v h = Some h' \<and> layout h' fl (strip v hs) body \<and> same_rest h h' \<and> roomy h' fl (strip v hs)"
  using remove_two [OF assms, of header_content_length accept_ranges]
    remove_two [OF assms, of header_connection accept_encoding]
  by (simp add: remove_headers_def strip_def)

lemma adjust_expect_layout:
  assumes "layout h fl hs body" "roomy h fl hs" "\<forall>x \<in> set hs. NUL \<notin> set x" "expected_payload h = - 1"
  shows "adjust_expect_payload h = Some (h\<lparr>expected_payload := expected_length hs (length (render fl hs))\<rparr>)"
proof -
  let ?e = "expected_length hs (length (render fl hs))"
  have neg: "expected_payload h < 0" using assms(4) by simp
  have lay: "layout (h\<lparr>expected_payload := e\<rparr>) fl hs body" "roomy (h\<lparr>expected_payload := e\<rparr>) fl hs" for e
    using assms(1,2) by (simp_all add: layout_def roomy_def holds_def)
  note c1 = content_length_layout [OF assms(1,2,3) neg]
  show ?thesis
  proof (cases "find_pos (named header_content_length) hs")
    case None
    moreover have "h\<lparr>expected_payload := - 1\<rparr> = h" using assms(4) by simp
    ultimately show ?thesis using assms(4) c1 by (simp add: adjust_expect_payload_def expected_length_def)
  next
    case (Some i)
    let ?n = "length_field (hs ! i)"
    show ?thesis
    proof (cases "?n < 0")
      case True
      then have "content_length_value (h\<lparr>expected_payload := ?n\<rparr>) = Some (0, h\<lparr>expected_payload := ?n\<rparr>)"
        using content_length_layout [OF lay assms(3), of ?n] Some by simp
      then show ?thesis
        using c1 Some True assms(4) by (simp add: adjust_expect_payload_def expected_length_def)
    next
      case False
      then show ?thesis
        using c1 Some assms(4) by (simp add: adjust_expect_payload_def expected_length_def Let_def)
    qed
  qed
qed

text \<open>The parser that a message gets: whether the search is switched off and whether the HTML
  parser is used; without \<^verbatim>\<open>Content-Type\<close> the peer's \<^verbatim>\<open>Accept\<close> decides, which must be there.\<close>

definition mime_choice :: "string list \<Rightarrow> string list option \<Rightarrow> (bool \<times> bool) option" where
  "mime_choice hs peer =
    (case find_pos (named header_content_type) hs of
       Some i \<Rightarrow> (let v = value_of header_content_type (hs ! i) in Some (\<not> allowed_mime v, strcasestr v ''html''))
     | None \<Rightarrow>
         (case peer of
            None \<Rightarrow> Some (False, False)
          | Some phs \<Rightarrow>
              map_option (\<lambda>j. (not_allowed_accept (value_of header_accept (phs ! j)), False))
                (find_pos (named header_accept) phs)))"

definition parser_for :: "bool \<times> bool \<Rightarrow> database_object \<Rightarrow> database_object" where
  "parser_for c d =
    (if fst c then context_nothing_allowed d
     else if \<not> snd c then context_set_full_link_parser d else context_set_html_parser d)"

definition peer_shows :: "http option \<Rightarrow> string list option \<Rightarrow> bool" where
  "peer_shows peer phs \<longleftrightarrow>
    (case peer of
       None \<Rightarrow> phs = None
     | Some p \<Rightarrow> (\<exists>fl hs body. phs = Some hs \<and> layout p fl hs body \<and> roomy p fl hs \<and> (\<forall>x \<in> set hs. NUL \<notin> set x)))"

lemma check_layout:
  assumes l: "layout h fl hs body" "roomy h fl hs" and z: "\<forall>x \<in> set hs. NUL \<notin> set x" and p: "peer_shows peer phs"
  shows "check_to_disable_transformations h peer =
    map_option (\<lambda>c. h\<lparr>lookup_tree := parser_for c (lookup_tree h)\<rparr>) (mime_choice hs phs)"
proof -
  have val: "do { header \<leftarrow> copy_header g i; cstr_from header (length n + 2) } = Some (value_of n (xs ! i))"
    if "layout g gl xs b" "find_pos (named n) xs = Some i" "\<forall>x \<in> set xs. NUL \<notin> set x" for g gl xs b n i
    using copy_header_layout [OF that(1), of i] find_pos_Some [OF that(2)] that(3) cstr_from_value by simp
  have f: "find_header h header_content_type = Some (find_pos (named header_content_type) hs)"
    using find_header_layout [OF l(1), of header_content_type] l(2) by (simp add: roomy_def)
  show ?thesis
  proof (cases "find_pos (named header_content_type) hs")
    case (Some i)
    then show ?thesis
      using val [OF l(1) Some z] f
      by (auto simp: check_to_disable_transformations_def mime_choice_def parser_for_def Let_def
          split: Option.bind_splits)
  next
    case None
    show ?thesis
    proof (cases peer)
      case None
      then show ?thesis
        using f \<open>find_pos (named header_content_type) hs = None\<close> p
        by (simp add: check_to_disable_transformations_def mime_choice_def parser_for_def peer_shows_def)
    next
      case (Some q)
      then obtain ql qs qb where q: "phs = Some qs" "layout q ql qs qb" "roomy q ql qs" "\<forall>x \<in> set qs. NUL \<notin> set x"
        using p by (auto simp: peer_shows_def)
      have "find_header q header_accept = Some (find_pos (named header_accept) qs)"
        using find_header_layout [OF q(2), of header_accept] q(3) by (simp add: roomy_def)
      then show ?thesis
        using f None Some q(1) val [OF q(2) _ q(4), of header_accept]
        by (cases "find_pos (named header_accept) qs")
           (auto simp: check_to_disable_transformations_def mime_choice_def parser_for_def Let_def
             split: Option.bind_splits)
    qed
  qed
qed

definition arrived :: "http \<Rightarrow> string \<Rightarrow> string list \<Rightarrow> string \<Rightarrow> bool" where
  "arrived h fl hs body \<longleftrightarrow>
     holds h (render fl hs @ body) \<and> payload h = None \<and> headers h = None \<and> expected_payload h = - 1 \<and>
     roomy h fl hs \<and> no_delim fl \<and> 8 \<le> length fl \<and> hs \<noteq> [] \<and>
     (\<forall>x \<in> set hs. header_line x \<and> NUL \<notin> set x) \<and> no_domain (render (old_version fl) hs)"

lemma evaluate_message:
  assumes a: "arrived h fl hs body" and p: "peer_shows peer phs"
  shows "case mime_choice (strip v hs) phs of
      None \<Rightarrow> http_evaluate_headers suff v peer h = None
    | Some c \<Rightarrow> \<exists>h'. http_evaluate_headers suff v peer h = Some h' \<and>
        layout h' (old_version fl) (strip v hs) body \<and>
        lookup_tree h' = parser_for c (lookup_tree h) \<and>
        expected_payload h' = expected_length hs (length (render fl hs)) \<and>
        buffer_sent h' = buffer_sent h \<and> buffer_recv h' = buffer_recv h"
proof -
  let ?fl = "old_version fl"
  obtain z where z: "hbuf h = render fl hs @ body @ z"
    using a holdsD [of h "render fl hs @ body"] by (auto simp: arrived_def)
  have used: "buffer_used h = length (render fl hs @ body)" using a by (simp add: arrived_def holds_def)
  have fl: "no_delim fl" "8 \<le> length fl" and hs: "hs \<noteq> []" "\<forall>x \<in> set hs. header_line x"
      and nul: "\<forall>x \<in> set hs. NUL \<notin> set x" and nd: "no_domain (render ?fl hs)"
    using a by (auto simp: arrived_def)
  have fl': "no_delim ?fl" using fl by (rule old_version_no_delim)
  have s1: "process_headers_and_get_payload headers_sum_1 (h\<lparr>headers_used := 0\<rparr>) 0 =
      Some (h\<lparr>headers_used := 0, hbuf := render ?fl hs @ body @ z\<rparr>, length hs, Some (length (render fl hs)))"
    using sum.whole_head [of "h\<lparr>headers_used := 0\<rparr>" fl hs "body @ z" 0] z used fl hs by (simp add: sum_visit)
  let ?h1 = "h\<lparr>hbuf := render ?fl hs @ body @ z, headers_used := length hs, payload := Some (length (render fl hs))\<rparr>"
  have s2: "adjust_domain_property suff ?h1 = Some ?h1"
    by (rule adjust_domain_none [where t = "render ?fl hs" and z = "body @ z"]) (use nd fl in simp_all)
  let ?h2 = "?h1\<lparr>headers := Some (replicate (length hs) 0), headers_length := replicate (length hs) 0\<rparr>"
  let ?h3 = "h\<lparr>hbuf := render ?fl hs @ body @ z, headers_used := length hs,
      headers := Some (offsets (length fl + 2) hs), headers_length := map length hs,
      payload := Some (length (render fl hs))\<rparr>"
  have s3: "process_headers_and_get_payload headers_save ?h2 0 = Some (?h3, length hs, Some (length (render fl hs)))"
    using save.whole_head [of ?h2 ?fl hs "body @ z" 0] z used fl hs fl'
    by (simp add: save_visit)
  have lay3: "layout ?h3 ?fl hs body" using used fl by (simp add: layout_def holds_def)
  have room: "roomy g ?fl hs" if "length (hbuf g) = length (hbuf h)" for g
    using a fl that by (simp add: arrived_def roomy_def)
  let ?h4 = "?h3\<lparr>expected_payload := expected_length hs (length (render fl hs))\<rparr>"
  have s4: "adjust_expect_payload ?h3 = Some ?h4"
    using adjust_expect_layout [OF lay3 _ nul] room [of ?h3] z a fl by (simp add: arrived_def)
  have lay4: "layout ?h4 ?fl hs body" using lay3 by (simp add: layout_def holds_def)
  obtain h5 where h5: "remove_headers v ?h4 = Some h5" "layout h5 ?fl (strip v hs) body" "same_rest ?h4 h5"
      "roomy h5 ?fl (strip v hs)"
    using remove_headers_layout [OF lay4, of v] room [of ?h4] z fl by auto
  define h6 where "h6 = (if payload h5 \<noteq> None \<and> expected_payload h5 > 0 \<and> payload_delta h5 > 0
      then snd (reallocation_protocol h5 (nat (payload_delta h5))) else h5)"
  have lay6: "layout h6 ?fl (strip v hs) body" "roomy h6 ?fl (strip v hs)"
    using h5(2,4) reallocation_rest(5) [of h5] by (auto simp: h6_def reallocation_layout roomy_def intro: order_trans)
  have rest6: "lookup_tree h6 = lookup_tree h" "expected_payload h6 = expected_payload ?h4"
      "buffer_sent h6 = buffer_sent h" "buffer_recv h6 = buffer_recv h"
    using h5(3) by (simp_all add: h6_def reallocation_rest same_rest_def)
  have nul6: "\<forall>x \<in> set (strip v hs). NUL \<notin> set x" using strip_subset nul by blast
  have "http_evaluate_headers suff v peer h = check_to_disable_transformations h6 peer"
    using a by (simp add: http_evaluate_headers_def arrived_def h6_def Let_def
        s1 [simplified] s2 [simplified] s3 [simplified] s4 [simplified] h5(1) [simplified])
  also note check_layout [OF lay6 nul6 p]
  finally show ?thesis
    using lay6(1) rest6 by (auto simp: layout_def holds_def split: option.split)
qed

section \<open>The end of the header and the room of the block\<close>

fun delim_fires :: "http \<Rightarrow> string \<Rightarrow> bool list \<times> http" where
  "delim_fires h [] = ([], h)"
| "delim_fires h (c # cs) =
     (case check_delimiter_header h c of (b, h) \<Rightarrow>
        (case delim_fires h cs of (bs, h) \<Rightarrow> (b # bs, h)))"

lemma delim_fires_append:
  "delim_fires h (xs @ ys) =
    (case delim_fires h xs of (bs, h) \<Rightarrow> (case delim_fires h ys of (cs, h) \<Rightarrow> (bs @ cs, h)))"
  by (induction xs arbitrary: h) (auto split: prod.splits)

lemma delim_fires_plain:
  "no_delim x \<Longrightarrow> x \<noteq> [] \<Longrightarrow> payload h = None \<Longrightarrow>
   delim_fires h x = (replicate (length x) False, h\<lparr>found_delimiters := 0, last_found_delimiters := NUL\<rparr>)"
proof (induction x arbitrary: h)
  case (Cons c x)
  then have "check_delimiter_header h c = (False, h\<lparr>found_delimiters := 0, last_found_delimiters := NUL\<rparr>)"
    by (auto simp: check_delimiter_header_def no_delim_def)
  then show ?case using Cons by (cases "x = []") (auto simp: no_delim_def)
qed simp

lemma delim_fires_line:
  assumes "no_delim x" "x \<noteq> []" "payload h = None"
  shows "delim_fires h (x @ delim) =
    (replicate (length x + 2) False, h\<lparr>found_delimiters := 2, last_found_delimiters := LF\<rparr>)"
  using assms(3)
  by (simp add: delim_fires_append delim_fires_plain [OF assms] delim_def check_delimiter_header_def wrap8_def
      flip: replicate_append_same)

lemma delim_fires_block:
  assumes "\<forall>x \<in> set hs. no_delim x \<and> x \<noteq> []" "payload h = None" "found_delimiters h = 2" "last_found_delimiters h = LF"
  shows "delim_fires h (header_block hs) = (replicate (length (header_block hs)) False, h)"
  using assms
proof (induction hs)
  case (Cons x hs)
  have "h\<lparr>found_delimiters := 2, last_found_delimiters := LF\<rparr> = h" using Cons.prems(3,4) by simp
  then have "delim_fires h (x @ delim) = (replicate (length x + 2) False, h)"
    using delim_fires_line [of x h] Cons.prems(1,2) by simp
  moreover have "delim_fires h (header_block hs) = (replicate (length (header_block hs)) False, h)"
    using Cons by simp
  ultimately have "delim_fires h ((x @ delim) @ header_block hs) =
      (replicate (length x + 2) False @ replicate (length (header_block hs)) False, h)"
    by (subst delim_fires_append) simp
  then show ?case by (simp add: delim_def replicate_add [symmetric])
qed simp

definition block_ok :: "http \<Rightarrow> bool" where
  "block_ok h \<longleftrightarrow> SIZEOF_HTTP \<le> total_block h \<and> length (hbuf h) = total_block h - 80 \<and>
     buffer_used h \<le> length (hbuf h)"

lemma room_enough:
  fixes cap used n :: nat
  assumes "used \<le> cap" "n \<le> 2208" "cap \<le> used + n" "0 < cap"
  shows "used + n \<le> cap + 1104 * ((used + n) div cap + 1)"
proof -
  have "1 \<le> (used + n) div cap" using assms(3,4) div_le_mono [of cap "used + n" cap] by simp
  then show ?thesis using assms(1,2) by simp
qed

lemma reallocation_room:
  assumes "block_ok h" "n \<le> 2208"
  shows "case reallocation_protocol h n of (m, h') \<Rightarrow>
    block_ok h' \<and> buffer_used h' = buffer_used h \<and> buffer_used h + n \<le> length (hbuf h') \<and>
    take (buffer_used h) (hbuf h') = take (buffer_used h) (hbuf h)"
proof -
  let ?cap = "total_block h - SIZEOF_HTTP + MAX_STR"
  have cap: "?cap = length (hbuf h)" "0 < ?cap" "SIZEOF_HTTP \<le> total_block h"
    using assms(1) by (simp_all add: block_ok_def SIZEOF_HTTP_def MAX_STR_def)
  show ?thesis
  proof (cases "buffer_used h + n < ?cap")
    case True
    then show ?thesis using assms(1) cap(1) by (simp add: reallocation_protocol_def)
  next
    case False
    then have "buffer_used h + n \<le> length (hbuf h) + SIZEOF_HTTP * ((buffer_used h + n) div ?cap + 1)"
      using room_enough [of "buffer_used h" ?cap n] assms cap by (simp add: block_ok_def SIZEOF_HTTP_def MAX_STR_def)
    then show ?thesis
      using False assms(1) by (auto simp: reallocation_protocol_def copy_internal_data_def Let_def block_ok_def SIZEOF_HTTP_def MAX_STR_def)
  qed
qed

lemma force_appends:
  assumes "block_ok h" "length s \<le> 2208"
  shows "\<exists>m h'. force_onto_buffer h s = Some (m, h') \<and> block_ok h' \<and>
    buffer_used h' = buffer_used h + length s \<and>
    take (buffer_used h') (hbuf h') = take (buffer_used h) (hbuf h) @ s"
proof -
  obtain m g where r: "reallocation_protocol h (length s) = (m, g)" by fastforce
  then have g: "block_ok g" "buffer_used g = buffer_used h" "buffer_used h + length s \<le> length (hbuf g)"
      "take (buffer_used h) (hbuf g) = take (buffer_used h) (hbuf h)"
    using reallocation_room [OF assms] by simp_all
  moreover have "length (take (buffer_used h) (hbuf g)) = buffer_used h" using g(3) by simp
  ultimately show ?thesis
    using r by (simp add: force_onto_buffer_def hwrite_def block_ok_def del: length_take)
qed

section \<open>Properties\<close>


text \<open>C30: on the head of a message the delimiter check fires at the last character and at no
  other.\<close>

theorem header_end_found:
  assumes "payload h = None" "no_delim fl" "fl \<noteq> []" "\<forall>x \<in> set hs. no_delim x \<and> x \<noteq> []"
  shows "fst (delim_fires h (render fl hs)) = replicate (length (render fl hs) - 1) False @ [True]"
proof -
  let ?h = "h\<lparr>found_delimiters := 2, last_found_delimiters := LF\<rparr>"
  have "render fl hs = (fl @ delim) @ header_block hs @ delim" by (simp add: render_def)
  moreover have "delim_fires h (fl @ delim) = (replicate (length fl + 2) False, ?h)"
    by (rule delim_fires_line [OF assms(2,3,1)])
  moreover have "delim_fires ?h (header_block hs) = (replicate (length (header_block hs)) False, ?h)"
    by (rule delim_fires_block) (use assms in simp_all)
  moreover obtain h2 where "delim_fires ?h delim = ([False, True], h2)"
    using assms(1) by (simp add: delim_def check_delimiter_header_def wrap8_def)
  ultimately have "fst (delim_fires h (render fl hs)) =
      replicate (length fl + 2) False @ replicate (length (header_block hs)) False @ [False, True]"
    by (simp only: delim_fires_append [of _ "fl @ delim"] delim_fires_append [of _ "header_block hs"]
        prod.case fst_conv)
  also have "\<dots> = replicate (length fl + 2 + length (header_block hs) + 1) False @ [True]"
    by (induction "length fl") (simp_all add: replicate_app_Cons_same replicate_add replicate_append_same)
  finally show ?thesis by (simp add: numeral_eq_Suc)
qed

text \<open>C31: what is appended to the buffer fits into its block after the reallocation, whatever the
  block's size is, as long as a piece has at most 2208 characters.\<close>

theorem force_onto_buffer_appends:
  assumes "block_ok h" "length s \<le> 2208"
  shows "\<exists>m h'. force_onto_buffer h s = Some (m, h') \<and> block_ok h' \<and>
    buffer_used h' = buffer_used h + length s \<and>
    take (buffer_used h') (hbuf h') = take (buffer_used h) (hbuf h) @ s"
  by (rule force_appends [OF assms])

text \<open>A longer piece can overrun the block: the new size grows by the number of blocks the text
  fills, not by the room it needs.\<close>

lemma reallocation_too_small:
  assumes "total_block h = 3312" "length (hbuf h) = 3232" "buffer_used h = 3232" "length s = 2209"
  shows "force_onto_buffer h s = None"
  using assms
  by (simp add: force_onto_buffer_def reallocation_protocol_def hwrite_def copy_internal_data_def
      SIZEOF_HTTP_def MAX_STR_def Let_def)

definition sample_http :: http where
  "sample_http = (http_create (empty_db ''.p'') False)
     \<lparr>hbuf := render ''GET /a HTTP/1.1'' [''Host: a'', ''Connection: close''] @ replicate 15 NUL,
      buffer_used := 47\<rparr>"

lemma no_domain_no_semicolon: "CHR '';'' \<notin> set t \<Longrightarrow> no_domain t"
proof -
  assume a: "CHR '';'' \<notin> set t"
  have "\<not> domain_at t k" for k
  proof
    assume d: "domain_at t k"
    then have "dprop ! 0 = t ! (k + 0)" unfolding domain_at_def by (metis less_numeral_extra(1) not_one_less_zero zero_less_numeral)
    moreover have "k < length t" using d by (simp add: domain_at_def)
    ultimately show False using a by (auto simp: dprop_def)
  qed
  then show ?thesis by (simp add: no_domain_def)
qed

lemma sample_arrived: "arrived sample_http ''GET /a HTTP/1.1'' [''Host: a'', ''Connection: close''] []"
  unfolding arrived_def
proof (intro conjI)
  show "no_domain (render (old_version ''GET /a HTTP/1.1'') [''Host: a'', ''Connection: close''])"
    by (rule no_domain_no_semicolon) (simp add: old_version_def render_def)
qed (simp_all add: sample_http_def http_create_def holds_def roomy_def no_delim_def header_line_def)


lemma header_end_found_witness:
  "fst (delim_fires sample_http (render ''GET /a HTTP/1.1'' [''Host: a''])) =
     replicate (length (render ''GET /a HTTP/1.1'' [''Host: a'']) - 1) False @ [True]"
  by (rule header_end_found) (simp_all add: sample_http_def http_create_def no_delim_def)

lemma force_onto_buffer_appends_witness:
  "\<exists>m h'. force_onto_buffer (http_create (empty_db ''.p'') False) ''abc'' = Some (m, h') \<and>
     take (buffer_used h') (hbuf h') = ''abc''"
  using force_onto_buffer_appends [of "http_create (empty_db ''.p'') False" "''abc''"]
  by (auto simp: block_ok_def http_create_def SIZEOF_HTTP_def)

end
