(* ===== verification/World.thy ===== *)
theory World
  imports HttpMessage Config TaskQueue
begin

text \<open>
  The state of the running proxy: \<^verbatim>\<open>struct rena\<close> of \<^verbatim>\<open>rena/src/global.h\<close> with the objects its
  pointers reach, and the part of the operating system that the proxy relies on.  Client
  structures and address lists are in heaps of their own; an HTTP structure is reachable
  through one client structure only, so it is stored in it.

  The kernel keeps the open descriptors and the interest list of the epoll instance, as
  \<^verbatim>\<open>epoll(7)\<close> documents them; the outcomes of the other calls are scripts, one list per
  descriptor, from which every call takes the next outcome.  \<open>trace\<close> records the calls with an
  effect outside.
\<close>

section \<open>Constants\<close>

definition EPOLLIN :: nat where "EPOLLIN = 1"
definition EPOLLOUT :: nat where "EPOLLOUT = 4"
definition EPOLLERR :: nat where "EPOLLERR = 8"
definition EPOLLHUP :: nat where "EPOLLHUP = 16"
definition EPOLLONESHOT :: nat where "EPOLLONESHOT = 2 ^ 30"
definition EPOLLET :: nat where "EPOLLET = 2 ^ 31"

lemmas epoll_masks = EPOLLIN_def EPOLLOUT_def EPOLLERR_def EPOLLHUP_def EPOLLONESHOT_def EPOLLET_def

definition EINTR :: int where "EINTR = 4"
definition EBADF :: int where "EBADF = 9"
definition EAGAIN :: int where "EAGAIN = 11"
definition EEXIST :: int where "EEXIST = 17"
definition ENOENT :: int where "ENOENT = 2"
definition ERESTART :: int where "ERESTART = 85"
definition EALREADY :: int where "EALREADY = 114"
definition EINPROGRESS :: int where "EINPROGRESS = 115"
definition EAFNOSUPPORT :: int where "EAFNOSUPPORT = 97"

lemmas errnos = EINTR_def EBADF_def EAGAIN_def EEXIST_def ENOENT_def ERESTART_def EALREADY_def
  EINPROGRESS_def EAFNOSUPPORT_def

section \<open>The objects of the proxy\<close>

datatype client_type_e = INVALID_TYPE | REQUESTER_TYPE | VICTIM_TYPE

record client_info =
  ci_ip :: string
  tcp_connected :: int
  ssl_connected :: int
  handshake_done :: int
  working :: int
  ci_fd :: int
  want_ssl :: int
  ci_ssl :: ptr
  protocol :: "http option"
  userdata :: ptr

record circle_client_info =
  c_next :: ptr
  c_prev :: ptr
  requester :: ptr
  victim :: ptr

record clients =
  cci :: ptr
  qty :: int

record client_position_t =
  p_info :: ptr
  p_type :: client_type_e
  p_pos :: ptr

text \<open>A socket address: the address family, the port and the four bytes at offset 4, which are the
  address of \<^verbatim>\<open>sockaddr_in\<close> and the flow label of \<^verbatim>\<open>sockaddr_in6\<close>.\<close>

record sockaddr =
  sa_family :: int
  sa_port :: int
  sa_word :: int

record addrinfo =
  ai_family :: int
  ai_addr :: sockaddr
  ai_next :: ptr

record server =
  server_context :: bool
  client_context :: bool
  address_family :: int
  normalfd :: int
  securefd :: int
  pollfd :: int
  signalfd :: int

section \<open>The world\<close>

text \<open>The outcome of a call on a descriptor: the bytes it delivered, the number of bytes it took,
  or the negated return value with \<^verbatim>\<open>errno\<close> or, for a secure connection, the code of
  \<^verbatim>\<open>SSL_get_error\<close>.\<close>

datatype reply = Got string | Took nat | Failed nat int

datatype event =
    Ev_close int
  | Ev_sent int string
  | Ev_connect int sockaddr
  | Ev_ssl_free addr
  | Ev_freeaddrinfo addr
  | Ev_http_destroy
  | Ev_context_free
  | Ev_raise int

record world =
  rena_config :: "config_rena option"
  rena_tm :: "task_manager option"
  rena_server :: "server option"
  rena_db :: "database option"
  rena_trees :: tree_heap
  rena_clients :: "clients option"
  daemonize :: bool
  forced_exit :: bool
  infos :: "addr \<Rightarrow> client_info option"
  cnodes :: "addr \<Rightarrow> circle_client_info option"
  addrinfos :: "addr \<Rightarrow> addrinfo option"
  w_brk :: addr
  open_fd :: "int \<Rightarrow> bool"
  interest :: "int \<Rightarrow> nat option"
  reads :: "int \<Rightarrow> reply list"
  writes :: "int \<Rightarrow> reply list"
  handshakes :: "int \<Rightarrow> reply list"
  accepts :: "int \<Rightarrow> (int + int) list"
  connects :: "int \<Rightarrow> int list"
  sockets :: "(int + int) list"
  oks :: "bool list"
  so_error :: "int \<Rightarrow> int option"
  signals :: "int \<Rightarrow> int list"
  dns :: "string \<Rightarrow> (int \<times> sockaddr) list option"
  peername :: "int \<Rightarrow> string option"
  valid_ip :: "string \<Rightarrow> bool"
  shutdowns :: "int \<Rightarrow> (int \<times> int) list"
  trace :: "event list"

definition emit :: "event \<Rightarrow> world \<Rightarrow> world" where
  "emit e w = w\<lparr>trace := trace w @ [e]\<rparr>"

text \<open>The next outcome of a call that succeeds or fails; an exhausted script succeeds.\<close>

definition next_ok :: "world \<Rightarrow> bool \<times> world" where
  "next_ok w = (case oks w of [] \<Rightarrow> (True, w) | b # bs \<Rightarrow> (b, w\<lparr>oks := bs\<rparr>))"

text \<open>The next outcome of a call on a descriptor; \<open>dflt\<close> when the script is exhausted.\<close>

definition next_of :: "'a \<Rightarrow> (int \<Rightarrow> 'a list) \<Rightarrow> int \<Rightarrow> 'a \<times> (int \<Rightarrow> 'a list)" where
  "next_of dflt s fd = (case s fd of [] \<Rightarrow> (dflt, s) | r # rs \<Rightarrow> (r, s(fd := rs)))"

text \<open>\<^verbatim>\<open>close(2)\<close>: a closed descriptor leaves the interest list.\<close>

definition proc_close :: "int \<Rightarrow> world \<Rightarrow> world" where
  "proc_close fd w =
    emit (Ev_close fd) (w\<lparr>open_fd := (open_fd w)(fd := False), interest := (interest w)(fd := None)\<rparr>)"

definition proc_valid_fd :: "world \<Rightarrow> int \<Rightarrow> bool" where
  "proc_valid_fd w fd = open_fd w fd"

datatype epoll_op = EPOLL_CTL_ADD | EPOLL_CTL_MOD

text \<open>\<^verbatim>\<open>epoll_ctl(2)\<close>: 0, or the value of \<^verbatim>\<open>errno\<close>.\<close>

definition epoll_ctl :: "epoll_op \<Rightarrow> int \<Rightarrow> nat \<Rightarrow> world \<Rightarrow> int \<times> world" where
  "epoll_ctl oper fd evs w =
    (if \<not> open_fd w fd then (EBADF, w)
     else (case oper of
         EPOLL_CTL_ADD \<Rightarrow>
           if interest w fd = None then (0, w\<lparr>interest := (interest w)(fd := Some evs)\<rparr>) else (EEXIST, w)
       | EPOLL_CTL_MOD \<Rightarrow>
           if interest w fd = None then (ENOENT, w) else (0, w\<lparr>interest := (interest w)(fd := Some evs)\<rparr>)))"

text \<open>Memory: a fresh address.\<close>

definition new_addr :: "world \<Rightarrow> addr \<times> world" where
  "new_addr w = (w_brk w, w\<lparr>w_brk := w_brk w + 1\<rparr>)"

lemma next_ok_frame:
  "next_ok w = (b, w') \<Longrightarrow> w' = w\<lparr>oks := oks w'\<rparr>"
  by (auto simp: next_ok_def split: list.splits)

definition init_world :: world where
  "init_world =
    \<lparr>rena_config = None, rena_tm = None, rena_server = None, rena_db = None,
     rena_trees = empty_heap,
     rena_clients = None, daemonize = False, forced_exit = False,
     infos = (\<lambda>_. None), cnodes = (\<lambda>_. None), addrinfos = (\<lambda>_. None), w_brk = 1,
     open_fd = (\<lambda>_. False), interest = (\<lambda>_. None), reads = (\<lambda>_. []), writes = (\<lambda>_. []),
     handshakes = (\<lambda>_. []), accepts = (\<lambda>_. []), connects = (\<lambda>_. []), sockets = [], oks = [],
     so_error = (\<lambda>_. Some 0), signals = (\<lambda>_. []), dns = (\<lambda>_. None), peername = (\<lambda>_. None),
     valid_ip = (\<lambda>_. True), shutdowns = (\<lambda>_. []), trace = []\<rparr>"

end
