(* ===== verification/Clients.thy ===== *)
theory Clients
  imports World
begin

text \<open>
  The registry of connections, \<^verbatim>\<open>rena/src/clients.c\<close>: a circular doubly linked list of pairs of
  a requester (the browser) and a victim (the site), kept as it is, with its pointers, in
  \<^const>\<open>infos\<close> and \<^const>\<open>cnodes\<close>.  A null or dangling pointer that is followed is the crash
  \<^const>\<open>None\<close>.  Calls on mutexes succeed and are not modelled.
\<close>

definition info_of :: "world \<Rightarrow> client_position_t \<Rightarrow> client_info option" where
  "info_of w p = do { a \<leftarrow> p_info p; infos w a }"

definition info_upd :: "world \<Rightarrow> client_position_t \<Rightarrow> (client_info \<Rightarrow> client_info) \<Rightarrow> world option" where
  "info_upd w p f = do {
     a \<leftarrow> p_info p;
     ci \<leftarrow> infos w a;
     Some (w\<lparr>infos := (infos w)(a := Some (f ci))\<rparr>) }"

definition clients_init :: clients where
  "clients_init = \<lparr>cci = None, qty = 0\<rparr>"

definition clients_quantity :: "clients option \<Rightarrow> int" where
  "clients_quantity c = (case c of None \<Rightarrow> 0 | Some c \<Rightarrow> qty c)"

text \<open>\<^verbatim>\<open>getpeer\<close>: the address of the peer, if it is not known yet.\<close>

definition getpeer :: "world \<Rightarrow> int \<Rightarrow> string \<Rightarrow> string" where
  "getpeer w fd s =
    (if s \<noteq> [] \<or> fd < 0 then s else (case peername w fd of None \<Rightarrow> s | Some t \<Rightarrow> t))"

definition clients_add_ci :: "world \<Rightarrow> int \<Rightarrow> addr \<times> world" where
  "clients_add_ci w fd =
    (let (a, w) = new_addr w
     in (a, w\<lparr>infos := (infos w)(a \<mapsto>
            \<lparr>ci_ip = getpeer w fd [], tcp_connected = 0, ssl_connected = 0, handshake_done = 0,
             working = 0, ci_fd = fd, want_ssl = 0, ci_ssl = None, protocol = None, userdata = None\<rparr>)\<rparr>))"

text \<open>Writes to one node.\<close>

definition node_upd :: "world \<Rightarrow> ptr \<Rightarrow> (circle_client_info \<Rightarrow> circle_client_info) \<Rightarrow> world option" where
  "node_upd w p f = do {
     a \<leftarrow> p;
     n \<leftarrow> cnodes w a;
     Some (w\<lparr>cnodes := (cnodes w)(a := Some (f n))\<rparr>) }"

definition node_get :: "world \<Rightarrow> ptr \<Rightarrow> circle_client_info option" where
  "node_get w p = do { a \<leftarrow> p; cnodes w a }"

definition clients_add :: "world \<Rightarrow> client_type_e \<Rightarrow> int \<Rightarrow> world option" where
  "clients_add w t fd = do {
     let (n, w) = new_addr w;
     let (i, w) = clients_add_ci w fd;
     let w = w\<lparr>cnodes := (cnodes w)(n \<mapsto>
        \<lparr>c_next = None, c_prev = None,
         requester = (if t = REQUESTER_TYPE then Some i else None),
         victim = (if t = REQUESTER_TYPE then None else Some i)\<rparr>)\<rparr>;
     cs \<leftarrow> rena_clients w;
     w \<leftarrow> (case cci cs of
         Some first \<Rightarrow> do {
           f \<leftarrow> cnodes w first;
           w \<leftarrow> node_upd w (Some n) (\<lambda>x. x\<lparr>c_next := Some first, c_prev := c_prev f\<rparr>);
           w \<leftarrow> node_upd w (c_prev f) (\<lambda>x. x\<lparr>c_next := Some n\<rparr>);
           node_upd w (Some first) (\<lambda>x. x\<lparr>c_prev := Some n\<rparr>) }
       | None \<Rightarrow> node_upd w (Some n) (\<lambda>x. x\<lparr>c_next := Some n, c_prev := Some n\<rparr>));
     Some (w\<lparr>rena_clients := Some (cs\<lparr>cci := Some n, qty := qty cs + 1\<rparr>)\<rparr>) }"

text \<open>The loop of \<^verbatim>\<open>clients_search_pointer_locked\<close>; it ends where it began.\<close>

partial_function (option) search_pointer_loop :: "world \<Rightarrow> addr \<Rightarrow> addr \<Rightarrow> addr \<Rightarrow> bool option" where [code]:
  "search_pointer_loop w cci0 aux to_search =
     (if aux = to_search then Some True
      else do {
        n \<leftarrow> cnodes w aux;
        next \<leftarrow> c_next n;
        if next = cci0 then Some False else search_pointer_loop w cci0 next to_search })"

text \<open>\<open>True\<close> for the result 0.\<close>

definition clients_search_pointer_locked :: "world \<Rightarrow> clients \<Rightarrow> addr \<Rightarrow> bool option" where
  "clients_search_pointer_locked w cs to_search =
    (case cci cs of None \<Rightarrow> Some False | Some c \<Rightarrow> search_pointer_loop w c c to_search)"

partial_function (option) search_loop ::
  "world \<Rightarrow> addr \<Rightarrow> addr \<Rightarrow> int \<Rightarrow> client_position_t option option" where [code]:
  "search_loop w cci0 aux fd = do {
     n \<leftarrow> cnodes w aux;
     r \<leftarrow> (case requester n of None \<Rightarrow> Some None | Some i \<Rightarrow> map_option Some (infos w i));
     v \<leftarrow> (case victim n of None \<Rightarrow> Some None | Some i \<Rightarrow> map_option Some (infos w i));
     if (case r of None \<Rightarrow> False | Some ci \<Rightarrow> ci_fd ci = fd) then
       Some (Some \<lparr>p_info = requester n, p_type = REQUESTER_TYPE, p_pos = Some aux\<rparr>)
     else if (case v of None \<Rightarrow> False | Some ci \<Rightarrow> ci_fd ci = fd) then
       Some (Some \<lparr>p_info = victim n, p_type = VICTIM_TYPE, p_pos = Some aux\<rparr>)
     else do {
       next \<leftarrow> c_next n;
       if next = cci0 then Some None else search_loop w cci0 next fd } }"

text \<open>\<^verbatim>\<open>clients_search\<close>: the position found, \<^const>\<open>None\<close> inside for the result 1.\<close>

definition clients_search :: "world \<Rightarrow> int \<Rightarrow> client_position_t option option" where
  "clients_search w fd = do {
     cs \<leftarrow> rena_clients w;
     (case cci cs of None \<Rightarrow> Some None | Some c \<Rightarrow> search_loop w c c fd) }"

text \<open>\<^verbatim>\<open>http_sent_done\<close> of \<^verbatim>\<open>http.c\<close>.\<close>

definition http_sent_done :: "http option \<Rightarrow> bool" where
  "http_sent_done p = (case p of None \<Rightarrow> True | Some p \<Rightarrow> buffer_sent p \<ge> buffer_used p)"

text \<open>\<^verbatim>\<open>client_info_destroy\<close>: is the structure released as well.\<close>

definition client_info_destroy :: "world \<Rightarrow> addr \<Rightarrow> bool \<Rightarrow> (bool \<times> world) option" where
  "client_info_destroy w i delete_all = do {
     ci \<leftarrow> infos w i;
     let w = (case ci_ssl ci of
         None \<Rightarrow> w
       | Some s \<Rightarrow> emit (Ev_ssl_free s) (w\<lparr>infos := (infos w)(i := Some (ci\<lparr>ci_ssl := None\<rparr>))\<rparr>));
     ci \<leftarrow> infos w i;
     let w = (if ci_fd ci \<ge> 0
              then proc_close (ci_fd ci) (w\<lparr>infos := (infos w)(i := Some (ci\<lparr>ci_fd := - 1\<rparr>))\<rparr>) else w);
     if \<not> delete_all then Some (False, w)
     else (let w = (if protocol ci \<noteq> None then emit Ev_http_destroy w else w)
           in Some (True, w\<lparr>infos := (infos w)(i := None)\<rparr>)) }"

text \<open>\<^verbatim>\<open>freeaddrinfo\<close> of a chain.\<close>

partial_function (option) free_chain :: "world \<Rightarrow> addr \<Rightarrow> world option" where [code]:
  "free_chain w a = do {
     ai \<leftarrow> addrinfos w a;
     let w = w\<lparr>addrinfos := (addrinfos w)(a := None)\<rparr>;
     (case ai_next ai of None \<Rightarrow> Some w | Some b \<Rightarrow> free_chain w b) }"

definition freeaddrinfo :: "world \<Rightarrow> addr \<Rightarrow> world option" where
  "freeaddrinfo w a = do { w \<leftarrow> free_chain w a; Some (emit (Ev_freeaddrinfo a) w) }"

text \<open>The parts of \<^verbatim>\<open>clients_del\<close>: the requester, the victim and the node.  In the first part a
  requester that is not there is read for the log message: the crash.\<close>

definition del_requester :: "world \<Rightarrow> addr \<Rightarrow> world option" where
  "del_requester w pos = do {
     n \<leftarrow> cnodes w pos;
     i \<leftarrow> requester n;
     ci \<leftarrow> infos w i;
     w \<leftarrow> (case userdata ci of None \<Rightarrow> Some w | Some u \<Rightarrow> freeaddrinfo w u);
     (_, w) \<leftarrow> client_info_destroy w i True;
     node_upd w (Some pos) (\<lambda>n. n\<lparr>requester := None\<rparr>) }"

definition del_victim :: "world \<Rightarrow> addr \<Rightarrow> world option" where
  "del_victim w pos = do {
     n \<leftarrow> cnodes w pos;
     (case victim n of
        None \<Rightarrow> Some w
      | Some i \<Rightarrow> do {
          ci \<leftarrow> infos w i;
          let flag = (requester n = None \<or> (ci_fd ci < 0 \<and> http_sent_done (protocol ci)));
          (gone, w) \<leftarrow> client_info_destroy w i flag;
          if gone then node_upd w (Some pos) (\<lambda>n. n\<lparr>victim := None\<rparr>) else Some w }) }"

definition del_node :: "world \<Rightarrow> clients \<Rightarrow> addr \<Rightarrow> circle_client_info \<Rightarrow> world option" where
  "del_node w cs pos n = do {
     w \<leftarrow> node_upd w (c_next n) (\<lambda>x. x\<lparr>c_prev := c_prev n\<rparr>);
     n \<leftarrow> cnodes w pos;
     w \<leftarrow> node_upd w (c_prev n) (\<lambda>x. x\<lparr>c_next := c_next n\<rparr>);
     n \<leftarrow> cnodes w pos;
     let first = (if cci cs = Some pos then (if c_next n \<noteq> Some pos then c_next n else None) else cci cs);
     Some (w\<lparr>cnodes := (cnodes w)(pos := None),
              rena_clients := Some \<lparr>cci = first, qty = qty cs - 1\<rparr>\<rparr>) }"

text \<open>The sides of the pair that go, and the pair itself when none is left; the position is reset then.\<close>

definition del_pair :: "world \<Rightarrow> clients \<Rightarrow> addr \<Rightarrow> client_position_t \<Rightarrow> (client_position_t \<times> world) option" where
  "del_pair w cs pos p = do {
     w \<leftarrow> (if p_type p = REQUESTER_TYPE then del_requester w pos else Some w);
     n \<leftarrow> cnodes w pos;
     w \<leftarrow> (if p_type p = VICTIM_TYPE \<or> requester n = None then del_victim w pos else Some w);
     n \<leftarrow> cnodes w pos;
     if requester n = None \<and> victim n = None then do {
       w \<leftarrow> del_node w cs pos n;
       Some (\<lparr>p_info = None, p_type = INVALID_TYPE, p_pos = None\<rparr>, w) }
     else Some (p, w) }"

text \<open>\<^verbatim>\<open>clients_del\<close>: the result, the position and the state.\<close>

definition clients_del :: "world \<Rightarrow> client_position_t \<Rightarrow> (int \<times> client_position_t \<times> world) option" where
  "clients_del w p =
    (if p_info p = None \<or> p_pos p = None \<or> p_type p = INVALID_TYPE then Some (- 1, p, w)
     else do {
       cs \<leftarrow> rena_clients w;
       pos \<leftarrow> p_pos p;
       found \<leftarrow> clients_search_pointer_locked w cs pos;
       if \<not> found then Some (1, p, w)
       else do {
         (p, w) \<leftarrow> del_pair w cs pos p;
         cs \<leftarrow> rena_clients w;
         if qty cs < 0 then None else Some (0, p, w) } })"

text \<open>\<^verbatim>\<open>clients_destroy\<close>: the ring is cut open before its first node and walked to its end.\<close>

partial_function (option) destroy_loop :: "world \<Rightarrow> ptr \<Rightarrow> world option" where [code]:
  "destroy_loop w p =
    (case p of
       None \<Rightarrow> Some w
     | Some a \<Rightarrow> do {
         n \<leftarrow> cnodes w a;
         w \<leftarrow> (case requester n of
             None \<Rightarrow> Some w
           | Some i \<Rightarrow> do {
               ci \<leftarrow> infos w i;
               w \<leftarrow> (case userdata ci of None \<Rightarrow> Some w | Some u \<Rightarrow> freeaddrinfo w u);
               (_, w) \<leftarrow> client_info_destroy w i True;
               Some w });
         w \<leftarrow> (case victim n of
             None \<Rightarrow> Some w
           | Some i \<Rightarrow> do { (_, w) \<leftarrow> client_info_destroy w i True; Some w });
         destroy_loop (w\<lparr>cnodes := (cnodes w)(a := None)\<rparr>) (c_next n) })"

definition clients_destroy :: "world \<Rightarrow> world option" where
  "clients_destroy w =
    (case rena_clients w of
       None \<Rightarrow> Some w
     | Some cs \<Rightarrow> do {
         w \<leftarrow> (case cci cs of
             None \<Rightarrow> Some w
           | Some a \<Rightarrow> do { n \<leftarrow> cnodes w a; node_upd w (c_prev n) (\<lambda>x. x\<lparr>c_next := None\<rparr>) });
         w \<leftarrow> destroy_loop w (cci cs);
         Some (w\<lparr>rena_clients := None\<rparr>) })"

section \<open>The attributes of a client\<close>

definition clients_set_tcp :: "world \<Rightarrow> client_position_t \<Rightarrow> int \<Rightarrow> world option" where
  "clients_set_tcp w p s =
     info_upd w p (\<lambda>ci. ci\<lparr>tcp_connected := s, ci_ip := getpeer w (ci_fd ci) (ci_ip ci)\<rparr>)"

definition clients_set_working :: "world \<Rightarrow> client_position_t \<Rightarrow> int \<Rightarrow> world option" where
  "clients_set_working w p s = info_upd w p (\<lambda>ci. ci\<lparr>working := s\<rparr>)"

definition clients_set_fd :: "world \<Rightarrow> client_position_t \<Rightarrow> int \<Rightarrow> world option" where
  "clients_set_fd w p fd = info_upd w p (\<lambda>ci. ci\<lparr>ci_fd := fd\<rparr>)"

definition clients_set_ssl :: "world \<Rightarrow> client_position_t \<Rightarrow> ptr \<Rightarrow> world option" where
  "clients_set_ssl w p s = info_upd w p (\<lambda>ci. ci\<lparr>ci_ssl := s\<rparr>)"

definition clients_set_ssl_state :: "world \<Rightarrow> client_position_t \<Rightarrow> int \<Rightarrow> world option" where
  "clients_set_ssl_state w p s = info_upd w p (\<lambda>ci. ci\<lparr>ssl_connected := s\<rparr>)"

definition clients_set_protocol :: "world \<Rightarrow> client_position_t \<Rightarrow> http option \<Rightarrow> world option" where
  "clients_set_protocol w p s = info_upd w p (\<lambda>ci. ci\<lparr>protocol := s\<rparr>)"

definition clients_set_userdata :: "world \<Rightarrow> client_position_t \<Rightarrow> ptr \<Rightarrow> world option" where
  "clients_set_userdata w p s = info_upd w p (\<lambda>ci. ci\<lparr>userdata := s\<rparr>)"

definition clients_set_handshake :: "world \<Rightarrow> client_position_t \<Rightarrow> int \<Rightarrow> world option" where
  "clients_set_handshake w p s = info_upd w p (\<lambda>ci. ci\<lparr>handshake_done := s\<rparr>)"

definition clients_set_want :: "world \<Rightarrow> client_position_t \<Rightarrow> int \<Rightarrow> int \<Rightarrow> world option" where
  "clients_set_want w p my_want ssl_want =
     info_upd w p (\<lambda>ci. ci\<lparr>want_ssl := wrap8 (my_want * 4 + ssl_want * 2 + 1)\<rparr>)"

definition clients_clear_want :: "world \<Rightarrow> client_position_t \<Rightarrow> world option" where
  "clients_clear_want w p = info_upd w p (\<lambda>ci. ci\<lparr>want_ssl := 0\<rparr>)"

definition clients_get_want :: "world \<Rightarrow> client_position_t \<Rightarrow> int option" where
  "clients_get_want w p = map_option want_ssl (info_of w p)"

definition clients_get_fd :: "world \<Rightarrow> client_position_t \<Rightarrow> int option" where
  "clients_get_fd w p = map_option ci_fd (info_of w p)"

definition clients_get_tcp :: "world \<Rightarrow> client_position_t \<Rightarrow> int option" where
  "clients_get_tcp w p = map_option tcp_connected (info_of w p)"

definition clients_get_working :: "world \<Rightarrow> client_position_t \<Rightarrow> int option" where
  "clients_get_working w p = map_option working (info_of w p)"

definition clients_get_ssl_state :: "world \<Rightarrow> client_position_t \<Rightarrow> int option" where
  "clients_get_ssl_state w p = map_option ssl_connected (info_of w p)"

definition clients_get_ssl :: "world \<Rightarrow> client_position_t \<Rightarrow> ptr option" where
  "clients_get_ssl w p = map_option ci_ssl (info_of w p)"

definition clients_get_ip :: "world \<Rightarrow> client_position_t \<Rightarrow> string option" where
  "clients_get_ip w p = map_option ci_ip (info_of w p)"

definition clients_get_protocol :: "world \<Rightarrow> client_position_t \<Rightarrow> http option option" where
  "clients_get_protocol w p = map_option protocol (info_of w p)"

definition clients_get_userdata :: "world \<Rightarrow> client_position_t \<Rightarrow> ptr option" where
  "clients_get_userdata w p = map_option userdata (info_of w p)"

definition clients_get_handshake :: "world \<Rightarrow> client_position_t \<Rightarrow> int option" where
  "clients_get_handshake w p = map_option handshake_done (info_of w p)"

text \<open>\<^verbatim>\<open>clients_add_peer\<close> and \<^verbatim>\<open>clients_get_peer\<close>.\<close>

definition clients_add_peer :: "world \<Rightarrow> client_position_t \<Rightarrow> int \<Rightarrow> (int \<times> world) option" where
  "clients_add_peer w p fd =
    (if fd < 0 then Some (- 1, w)
     else if p_pos p = None \<or> p_type p = INVALID_TYPE then Some (- 2, w)
     else do {
       n \<leftarrow> node_get w (p_pos p);
       if p_type p = REQUESTER_TYPE then
         (if victim n \<noteq> None then Some (- 3, w)
          else (let (i, w) = clients_add_ci w fd in do {
                  w \<leftarrow> node_upd w (p_pos p) (\<lambda>n. n\<lparr>victim := Some i\<rparr>);
                  Some (0, w) }))
       else
         (if requester n \<noteq> None then Some (- 3, w)
          else (let (i, w) = clients_add_ci w fd in do {
                  w \<leftarrow> node_upd w (p_pos p) (\<lambda>n. n\<lparr>requester := Some i\<rparr>);
                  Some (0, w) })) })"

definition clients_get_peer :: "world \<Rightarrow> client_position_t \<Rightarrow> client_position_t option option" where
  "clients_get_peer w p =
    (if p_type p = INVALID_TYPE then Some None
     else do {
       n \<leftarrow> node_get w (p_pos p);
       Some (Some
         (if p_type p = REQUESTER_TYPE then \<lparr>p_info = victim n, p_type = VICTIM_TYPE, p_pos = p_pos p\<rparr>
          else \<lparr>p_info = requester n, p_type = REQUESTER_TYPE, p_pos = p_pos p\<rparr>)) })"

end
