(* ===== verification/ClientsRing.thy ===== *)
theory ClientsRing
  imports Clients
begin

text \<open>
  The registry of \<^verbatim>\<open>clients.c\<close> as a list.  \<open>circle\<close> says that nodes form a doubly linked circle,
  \<open>registry\<close> that the world's registry is the circle of the given nodes, each with client
  structures of its own; adding, searching and deleting are shown to be the operations on that
  list.
\<close>

section \<open>The circle of nodes\<close>

definition linked :: "(addr \<Rightarrow> circle_client_info option) \<Rightarrow> addr \<Rightarrow> addr \<Rightarrow> bool" where
  "linked m x y \<longleftrightarrow>
     (\<exists>n k. m x = Some n \<and> c_next n = Some y \<and> m y = Some k \<and> c_prev k = Some x)"

fun link_path :: "(addr \<Rightarrow> circle_client_info option) \<Rightarrow> addr \<Rightarrow> addr list \<Rightarrow> addr \<Rightarrow> bool" where
  "link_path m x [] y \<longleftrightarrow> linked m x y"
| "link_path m x (z # zs) y \<longleftrightarrow> linked m x z \<and> link_path m z zs y"

fun circle :: "(addr \<Rightarrow> circle_client_info option) \<Rightarrow> addr list \<Rightarrow> bool" where
  "circle m [] \<longleftrightarrow> True"
| "circle m (a # as) \<longleftrightarrow> link_path m a as a"

lemma link_path_append: "link_path m x (xs @ z # zs) y \<longleftrightarrow> link_path m x xs z \<and> link_path m z zs y"
  by (induction xs arbitrary: x) auto

lemma circle_rotate: "circle m (xs @ ys) \<Longrightarrow> circle m (ys @ xs)"
  by (cases xs; cases ys) (auto simp: link_path_append)

lemma circle_dom: "circle m as \<Longrightarrow> a \<in> set as \<Longrightarrow> \<exists>n b. m a = Some n \<and> c_next n = Some b"
proof -
  assume r: "circle m as" and a: "a \<in> set as"
  obtain xs ys where "as = xs @ a # ys" using split_list [OF a] by blast
  then have "circle m (a # ys @ xs)" using circle_rotate r by (metis append_Cons append.assoc)
  then show ?thesis by (cases "ys @ xs") (auto simp: linked_def)
qed

text \<open>A path depends on the next pointers of its beginning and on the previous pointers of its
  end only.\<close>

lemma link_path_cong:
  assumes "\<forall>a \<in> set (x # xs). map_option c_next (m' a) = map_option c_next (m a)"
    and "\<forall>a \<in> set (xs @ [y]). map_option c_prev (m' a) = map_option c_prev (m a)"
  shows "link_path m' x xs y \<longleftrightarrow> link_path m x xs y"
proof -
  have "linked m' x y \<longleftrightarrow> linked m x y"
    if "map_option c_next (m' x) = map_option c_next (m x)" "map_option c_prev (m' y) = map_option c_prev (m y)" for x y
    using that by (cases "m x"; cases "m y"; cases "m' x"; cases "m' y") (auto simp: linked_def)
  then show ?thesis using assms by (induction xs arbitrary: x) auto
qed

lemma circle_last:
  assumes "circle m (a # as)"
  obtains p where "p = last (a # as)" "linked m p a"
  using assms by (cases as rule: rev_cases) (auto simp: link_path_append)

lemma circle_insert:
  assumes r: "circle m (a # as)" and d: "distinct (n # a # as)" and p: "p = last (a # as)"
    and n': "m' n = Some k" "c_next k = Some a" "c_prev k = Some p"
    and nx: "\<forall>x \<in> set (a # as). map_option c_next (m' x) = (if x = p then Some (Some n) else map_option c_next (m x))"
    and pv: "\<forall>x \<in> set (a # as). map_option c_prev (m' x) = (if x = a then Some (Some n) else map_option c_prev (m x))"
  shows "circle m' (n # a # as)"
proof -
  have dom: "\<exists>k. m' x = Some k" if "x \<in> set (a # as)" for x
    using nx circle_dom [OF r that] that by (cases "m' x") (auto split: if_splits)
  have na: "linked m' n a"
    using n' pv dom [of a] d by (auto simp: linked_def)
  have pn: "linked m' p n"
  proof -
    have "p \<in> set (a # as)" using p last_in_set [of "a # as"] by simp
    then show ?thesis using n' bspec [OF nx, of p] dom [of p] by (auto simp: linked_def)
  qed
  have "link_path m' a as n"
  proof (cases as rule: rev_cases)
    case Nil
    then show ?thesis using pn p by simp
  next
    case (snoc bs b)
    have "link_path m' a bs b"
    proof -
      have "link_path m a bs b" using r snoc by (simp add: link_path_append)
      moreover have "link_path m' a bs b \<longleftrightarrow> link_path m a bs b"
        by (rule link_path_cong) (use nx pv d p snoc in auto)
      ultimately show ?thesis by simp
    qed
    then show ?thesis using pn p snoc by (simp add: link_path_append)
  qed
  then show ?thesis using na by simp
qed

lemma circle_remove:
  assumes r: "circle m (c # b # bs)" and d: "distinct (c # b # bs)" and p: "p = last (b # bs)"
    and nx: "\<forall>x \<in> set (b # bs). map_option c_next (m' x) = (if x = p then Some (Some b) else map_option c_next (m x))"
    and pv: "\<forall>x \<in> set (b # bs). map_option c_prev (m' x) = (if x = b then Some (Some p) else map_option c_prev (m x))"
  shows "circle m' (b # bs)"
proof -
  have dom: "\<exists>k. m' x = Some k" if "x \<in> set (b # bs)" for x
  proof -
    have "\<exists>n y. m x = Some n \<and> c_next n = Some y" using circle_dom [OF r, of x] that by auto
    then show ?thesis using nx that by (cases "m' x") (auto split: if_splits)
  qed
  have pb: "linked m' p b"
  proof -
    have "p \<in> set (b # bs)" using p last_in_set [of "b # bs"] by simp
    then show ?thesis using bspec [OF nx, of p] bspec [OF pv, of b] dom [of p] dom [of b] by (auto simp: linked_def)
  qed
  show ?thesis
  proof (cases bs rule: rev_cases)
    case Nil
    then show ?thesis using pb p by simp
  next
    case (snoc xs x)
    have "link_path m b xs x" using r snoc by (simp add: link_path_append)
    moreover have "link_path m' b xs x \<longleftrightarrow> link_path m b xs x"
      by (rule link_path_cong) (use nx pv d p snoc in auto)
    ultimately show ?thesis using pb p snoc by (simp add: link_path_append)
  qed
qed

section \<open>The registry as a list\<close>

definition owned :: "world \<Rightarrow> addr \<Rightarrow> addr list" where
  "owned w a = (case cnodes w a of
     None \<Rightarrow> []
   | Some n \<Rightarrow> (case requester n of None \<Rightarrow> [] | Some i \<Rightarrow> [i]) @ (case victim n of None \<Rightarrow> [] | Some i \<Rightarrow> [i]))"

definition registry :: "world \<Rightarrow> addr list \<Rightarrow> bool" where
  "registry w as \<longleftrightarrow>
     (\<exists>cs. rena_clients w = Some cs \<and> qty cs = int (length as) \<and>
        cci cs = (case as of [] \<Rightarrow> None | a # _ \<Rightarrow> Some a)) \<and>
     circle (cnodes w) as \<and> distinct as \<and> (\<forall>a \<in> set as. a < w_brk w) \<and>
     distinct (concat (map (owned w) as)) \<and>
     (\<forall>a \<in> set as. owned w a \<noteq> [] \<and> (\<forall>i \<in> set (owned w a). i < w_brk w \<and> infos w i \<noteq> None))"

lemma registry_init: "registry (init_world\<lparr>rena_clients := Some clients_init\<rparr>) []"
  by (simp add: registry_def clients_init_def)

text \<open>Which side of a node has a descriptor.\<close>

definition position_in :: "world \<Rightarrow> int \<Rightarrow> addr \<Rightarrow> client_position_t option" where
  "position_in w fd a = do {
     n \<leftarrow> cnodes w a;
     if (case requester n of None \<Rightarrow> False | Some i \<Rightarrow> map_option ci_fd (infos w i) = Some fd)
     then Some \<lparr>p_info = requester n, p_type = REQUESTER_TYPE, p_pos = Some a\<rparr>
     else if (case victim n of None \<Rightarrow> False | Some i \<Rightarrow> map_option ci_fd (infos w i) = Some fd)
     then Some \<lparr>p_info = victim n, p_type = VICTIM_TYPE, p_pos = Some a\<rparr>
     else None }"

fun first_some :: "('a \<Rightarrow> 'b option) \<Rightarrow> 'a list \<Rightarrow> 'b option" where
  "first_some f [] = None"
| "first_some f (x # xs) = (case f x of None \<Rightarrow> first_some f xs | Some y \<Rightarrow> Some y)"

lemma search_step:
  assumes "cnodes w x = Some n" "\<forall>i \<in> set (owned w x). infos w i \<noteq> None"
  shows "search_loop w c x fd =
    (case position_in w fd x of
       Some p \<Rightarrow> Some (Some p)
     | None \<Rightarrow> do { next \<leftarrow> c_next n; if next = c then Some None else search_loop w c next fd })"
proof -
  have "\<exists>ci. infos w i = Some ci" if "requester n = Some i \<or> victim n = Some i" for i
    using assms that by (auto simp: owned_def)
  then obtain f where f: "\<And>i. requester n = Some i \<or> victim n = Some i \<Longrightarrow> infos w i = Some (f i)" by metis
  show ?thesis
    using assms(1) f by (subst search_loop.simps) (cases "requester n"; cases "victim n"; simp add: position_in_def)
qed

lemma search_loop_path:
  assumes "link_path (cnodes w) x xs c" "c \<notin> set xs"
    and "\<forall>a \<in> set (x # xs). \<forall>i \<in> set (owned w a). infos w i \<noteq> None"
  shows "search_loop w c x fd = Some (first_some (position_in w fd) (x # xs))"
  using assms
proof (induction xs arbitrary: x)
  case Nil
  then obtain n where n: "cnodes w x = Some n" "c_next n = Some c" by (auto simp: linked_def)
  then show ?case
    using Nil.prems(3) search_step [of w x n c fd] by (simp split: option.split)
next
  case (Cons z zs)
  then obtain n where n: "cnodes w x = Some n" "c_next n = Some z" "z \<noteq> c" by (auto simp: linked_def)
  have "search_loop w c z fd = Some (first_some (position_in w fd) (z # zs))"
    using Cons by auto
  then show ?case
    using n Cons.prems(3) search_step [of w x n c fd] by (simp split: option.split del: first_some.simps(2))
      (simp split: option.split)
qed

lemma search_registry:
  assumes "registry w as"
  shows "clients_search w fd = Some (first_some (position_in w fd) as)"
proof (cases as)
  case Nil
  then show ?thesis using assms by (auto simp: registry_def clients_search_def)
next
  case (Cons a bs)
  have "search_loop w a a fd = Some (first_some (position_in w fd) (a # bs))"
    by (rule search_loop_path) (use assms Cons in \<open>auto simp: registry_def\<close>)
  then show ?thesis using assms Cons by (auto simp: registry_def clients_search_def)
qed

lemma search_pointer_path:
  assumes "link_path (cnodes w) x xs c" "c \<notin> set xs"
  shows "search_pointer_loop w c x p = Some (p \<in> set (x # xs))"
  using assms
proof (induction xs arbitrary: x)
  case Nil
  then show ?case by (subst search_pointer_loop.simps) (auto simp: linked_def)
next
  case (Cons z zs)
  then have "search_pointer_loop w c z p = Some (p \<in> set (z # zs))" by auto
  then show ?case using Cons.prems by (subst search_pointer_loop.simps) (auto simp: linked_def)
qed

lemma search_pointer_registry:
  assumes "registry w as" "rena_clients w = Some cs"
  shows "clients_search_pointer_locked w cs p = Some (p \<in> set as)"
proof (cases as)
  case Nil
  then show ?thesis using assms by (auto simp: registry_def clients_search_pointer_locked_def)
next
  case (Cons a bs)
  have "search_pointer_loop w a a p = Some (p \<in> set (a # bs))"
    by (rule search_pointer_path) (use assms Cons in \<open>auto simp: registry_def\<close>)
  then show ?thesis using assms Cons by (auto simp: registry_def clients_search_pointer_locked_def)
qed

section \<open>Adding\<close>

lemma node_upd_simps:
  "node_upd w (Some a) f = (case cnodes w a of None \<Rightarrow> None | Some n \<Rightarrow> Some (w\<lparr>cnodes := (cnodes w)(a \<mapsto> f n)\<rparr>))"
  "node_upd w None f = None"
  by (simp_all add: node_upd_def split: option.split)

definition fresh_info :: "world \<Rightarrow> int \<Rightarrow> client_info" where
  "fresh_info w fd =
    \<lparr>ci_ip = getpeer w fd [], tcp_connected = 0, ssl_connected = 0, handshake_done = 0,
     working = 0, ci_fd = fd, want_ssl = 0, ci_ssl = None, protocol = None, userdata = None\<rparr>"

lemma getpeer_frame [simp]: "getpeer (w\<lparr>w_brk := b\<rparr>) fd s = getpeer w fd s"
  by (simp add: getpeer_def)

text \<open>What an operation on the registry changes at most.\<close>

definition registry_only :: "world \<Rightarrow> world \<Rightarrow> bool" where
  "registry_only w w' \<longleftrightarrow>
     w' = w\<lparr>rena_clients := rena_clients w', infos := infos w', cnodes := cnodes w', w_brk := w_brk w'\<rparr>"

lemma clients_add_cons:
  assumes r: "registry w (a # as)"
  defines "n \<equiv> w_brk w"
  shows "\<exists>w'. clients_add w t fd = Some w' \<and> circle (cnodes w') (n # a # as) \<and>
    rena_clients w' = Some \<lparr>cci = Some n, qty = 2 + int (length as)\<rparr> \<and> w_brk w' = n + 2 \<and>
    infos w' = (infos w)(n + 1 \<mapsto> fresh_info w fd) \<and> registry_only w w' \<and>
    (\<exists>k. cnodes w' n = Some k \<and> requester k = (if t = REQUESTER_TYPE then Some (n + 1) else None) \<and>
       victim k = (if t = REQUESTER_TYPE then None else Some (n + 1))) \<and>
    (\<forall>x. x \<noteq> n \<longrightarrow> map_option (\<lambda>k. (requester k, victim k)) (cnodes w' x) =
       map_option (\<lambda>k. (requester k, victim k)) (cnodes w x))"
proof -
  obtain cs where cs: "rena_clients w = Some cs" "qty cs = 1 + int (length as)" "cci cs = Some a"
    using r by (auto simp: registry_def)
  have rg: "circle (cnodes w) (a # as)" and lt: "\<forall>x \<in> set (a # as). x < n" and d: "distinct (a # as)"
    using r by (auto simp: registry_def n_def)
  obtain p where p: "p = last (a # as)" "linked (cnodes w) p a" using circle_last [OF rg] .
  then obtain pn f where pn: "cnodes w p = Some pn" "c_next pn = Some a" and f: "cnodes w a = Some f" "c_prev f = Some p"
    by (auto simp: linked_def)
  have pin: "p \<in> set (a # as)" using p(1) last_in_set [of "a # as"] by simp
  have ne: "n \<noteq> a" "n \<noteq> p" using lt pin by auto
  let ?k0 = "\<lparr>c_next = None, c_prev = None, requester = (if t = REQUESTER_TYPE then Some (n + 1) else None),
      victim = (if t = REQUESTER_TYPE then None else Some (n + 1))\<rparr>"
  let ?m1 = "(cnodes w)(n \<mapsto> ?k0\<lparr>c_next := Some a, c_prev := Some p\<rparr>)"
  let ?m2 = "?m1(p \<mapsto> pn\<lparr>c_next := Some n\<rparr>)"
  let ?m3 = "?m2(a \<mapsto> (the (?m2 a))\<lparr>c_prev := Some n\<rparr>)"
  let ?w = "w\<lparr>w_brk := n + 2, infos := (infos w)(n + 1 \<mapsto> fresh_info w fd), cnodes := ?m3,
      rena_clients := Some \<lparr>cci = Some n, qty = 2 + int (length as)\<rparr>\<rparr>"
  have m2a: "?m2 a = Some (the (?m2 a))" using f by simp
  have add: "clients_add w t fd = Some ?w"
    using cs f pn ne
    by (cases "a = p")
       (simp_all add: clients_add_def new_addr_def clients_add_ci_def node_upd_simps fresh_info_def n_def [symmetric])
  have r': "circle ?m3 (n # a # as)"
  proof (rule circle_insert [OF rg _ p(1)])
    show "distinct (n # a # as)" using d lt by auto
    show "?m3 n = Some (?k0\<lparr>c_next := Some a, c_prev := Some p\<rparr>)" using ne by simp
    show "\<forall>x \<in> set (a # as). map_option c_next (?m3 x) = (if x = p then Some (Some n) else map_option c_next (cnodes w x))"
      using lt f pn ne by auto
    show "\<forall>x \<in> set (a # as). map_option c_prev (?m3 x) = (if x = a then Some (Some n) else map_option c_prev (cnodes w x))"
      using lt f pn ne by auto
  qed simp_all
  have rest: "\<forall>x. x \<noteq> n \<longrightarrow> map_option (\<lambda>k. (requester k, victim k)) (?m3 x) =
      map_option (\<lambda>k. (requester k, victim k)) (cnodes w x)"
    using f pn ne by auto
  have "\<exists>k. ?m3 n = Some k \<and> requester k = (if t = REQUESTER_TYPE then Some (n + 1) else None) \<and>
      victim k = (if t = REQUESTER_TYPE then None else Some (n + 1))"
    using ne by simp
  then show ?thesis
    using add r' rest by (intro exI [of _ ?w]) (simp add: registry_only_def)
qed

definition sides :: "world \<Rightarrow> addr \<Rightarrow> (ptr \<times> ptr) option" where
  "sides w a = map_option (\<lambda>k. (requester k, victim k)) (cnodes w a)"

lemma owned_sides:
  "owned w a = (case sides w a of None \<Rightarrow> [] | Some (r, v) \<Rightarrow>
     (case r of None \<Rightarrow> [] | Some i \<Rightarrow> [i]) @ (case v of None \<Rightarrow> [] | Some i \<Rightarrow> [i]))"
  by (simp add: owned_def sides_def split: option.split)

definition new_sides :: "client_type_e \<Rightarrow> addr \<Rightarrow> ptr \<times> ptr" where
  "new_sides t i = (if t = REQUESTER_TYPE then (Some i, None) else (None, Some i))"

lemma clients_add_ring:
  assumes r: "registry w as"
  defines "n \<equiv> w_brk w"
  shows "\<exists>w'. clients_add w t fd = Some w' \<and> circle (cnodes w') (n # as) \<and>
    rena_clients w' = Some \<lparr>cci = Some n, qty = 1 + int (length as)\<rparr> \<and> w_brk w' = n + 2 \<and>
    infos w' = (infos w)(n + 1 \<mapsto> fresh_info w fd) \<and> registry_only w w' \<and>
    sides w' n = Some (new_sides t (n + 1)) \<and> (\<forall>x. x \<noteq> n \<longrightarrow> sides w' x = sides w x)"
proof (cases as)
  case (Cons a bs)
  then show ?thesis
    using clients_add_cons [of w a bs t fd] r
    by (auto simp: n_def sides_def new_sides_def)
next
  case Nil
  obtain cs where cs: "rena_clients w = Some cs" "qty cs = 0" "cci cs = None"
    using r Nil by (auto simp: registry_def)
  let ?k = "\<lparr>c_next = Some n, c_prev = Some n, requester = (if t = REQUESTER_TYPE then Some (n + 1) else None),
      victim = (if t = REQUESTER_TYPE then None else Some (n + 1))\<rparr>"
  let ?w = "w\<lparr>w_brk := n + 2, infos := (infos w)(n + 1 \<mapsto> fresh_info w fd), cnodes := (cnodes w)(n \<mapsto> ?k),
      rena_clients := Some \<lparr>cci = Some n, qty = 1\<rparr>\<rparr>"
  have "clients_add w t fd = Some ?w"
    using cs by (simp add: clients_add_def new_addr_def clients_add_ci_def node_upd_simps fresh_info_def n_def [symmetric])
  then show ?thesis
    using Nil by (intro exI [of _ ?w]) (simp add: registry_only_def linked_def sides_def new_sides_def)
qed

lemma clients_add_registry:
  assumes r: "registry w as"
  defines "n \<equiv> w_brk w"
  shows "\<exists>w'. clients_add w t fd = Some w' \<and> registry w' (n # as) \<and> registry_only w w' \<and>
    sides w' n = Some (new_sides t (n + 1)) \<and> infos w' = (infos w)(n + 1 \<mapsto> fresh_info w fd) \<and>
    (\<forall>x \<in> set as. sides w' x = sides w x)"
proof -
  obtain w' where w': "clients_add w t fd = Some w'" "circle (cnodes w') (n # as)"
      "rena_clients w' = Some \<lparr>cci = Some n, qty = 1 + int (length as)\<rparr>" "w_brk w' = n + 2"
      "infos w' = (infos w)(n + 1 \<mapsto> fresh_info w fd)" "registry_only w w'"
      "sides w' n = Some (new_sides t (n + 1))" "\<forall>x. x \<noteq> n \<longrightarrow> sides w' x = sides w x"
    using clients_add_ring [OF r, of t fd] unfolding n_def by blast
  have lt: "\<forall>x \<in> set as. x < n" using r by (simp add: registry_def n_def)
  have own: "owned w' x = owned w x" if "x \<in> set as" for x
    using that w'(8) lt by (auto simp: owned_sides)
  have own_n: "owned w' n = [n + 1]"
    using w'(7) by (simp add: owned_sides new_sides_def)
  have olds: "\<forall>a \<in> set as. owned w a \<noteq> [] \<and> (\<forall>i \<in> set (owned w a). i < n \<and> infos w i \<noteq> None)"
    and dist: "distinct as" "distinct (concat (map (owned w) as))"
    using r by (simp_all add: registry_def n_def)
  have m: "map (owned w') as = map (owned w) as" using own by simp
  have "n \<notin> set as" using lt by auto
  moreover have "n + 1 \<notin> set (concat (map (owned w) as))" using olds by fastforce
  moreover have "concat (map (owned w') (n # as)) = (n + 1) # concat (map (owned w) as)"
    by (simp only: list.map concat.simps own_n m append_Cons append_Nil)
  ultimately have "distinct (concat (map (owned w') (n # as)))" "distinct (n # as)"
    using dist by simp_all
  moreover have "\<forall>a \<in> set (n # as). owned w' a \<noteq> [] \<and> (\<forall>i \<in> set (owned w' a). i < w_brk w' \<and> infos w' i \<noteq> None)"
    using w'(4,5) own own_n olds by (auto intro: less_trans)
  moreover have "\<forall>a \<in> set (n # as). a < w_brk w'" using lt w'(4) by auto
  ultimately have "registry w' (n # as)" using w'(2,3) by (simp add: registry_def)
  then show ?thesis using w' lt by auto
qed

section \<open>Deleting\<close>

fun ai_chain :: "(addr \<Rightarrow> addrinfo option) \<Rightarrow> ptr \<Rightarrow> addr list \<Rightarrow> bool" where
  "ai_chain m p [] \<longleftrightarrow> p = None"
| "ai_chain m p (a # as) \<longleftrightarrow> p = Some a \<and> (\<exists>ai. m a = Some ai \<and> ai_chain m (ai_next ai) as)"

lemma ai_chain_upd: "a \<notin> set as \<Longrightarrow> ai_chain (m(a := x)) p as = ai_chain m p as"
  by (induction as arbitrary: p) auto

lemma free_chain_frees:
  "ai_chain (addrinfos w) (Some a) as \<Longrightarrow> distinct as \<Longrightarrow>
   \<exists>m. free_chain w a = Some (w\<lparr>addrinfos := m\<rparr>) \<and> (\<forall>x. m x = (if x \<in> set as then None else addrinfos w x))"
proof (induction as arbitrary: w a)
  case (Cons b bs)
  then obtain ai where ai: "a = b" "addrinfos w b = Some ai" "ai_chain (addrinfos w) (ai_next ai) bs" "b \<notin> set bs"
    by auto
  let ?w = "w\<lparr>addrinfos := (addrinfos w)(b := None)\<rparr>"
  show ?case
  proof (cases bs)
    case Nil
    then show ?thesis using ai by (subst free_chain.simps) auto
  next
    case (Cons c cs)
    then have nxt: "ai_next ai = Some c" and chain: "ai_chain (addrinfos ?w) (Some c) bs"
      using ai by (auto simp: ai_chain_upd)
    have "distinct bs" using Cons.prems(2) by simp
    from Cons.IH [OF chain this] obtain m where "free_chain ?w c = Some (?w\<lparr>addrinfos := m\<rparr>)"
        "\<forall>x. m x = (if x \<in> set bs then None else addrinfos ?w x)"
      by blast
    then show ?thesis using ai nxt by (subst free_chain.simps) auto
  qed
qed simp

lemma freeaddrinfo_world:
  assumes "ai_chain (addrinfos w) (Some a) as" "distinct as"
  shows "\<exists>m. freeaddrinfo w a = Some (w\<lparr>addrinfos := m, trace := trace w @ [Ev_freeaddrinfo a]\<rparr>)"
  using free_chain_frees [OF assms] by (auto simp: freeaddrinfo_def emit_def)

text \<open>What closing clients changes at most, and which descriptors stay open.\<close>

definition clients_only :: "world \<Rightarrow> world \<Rightarrow> bool" where
  "clients_only w w' \<longleftrightarrow>
     w' = w\<lparr>rena_clients := rena_clients w', infos := infos w', cnodes := cnodes w', addrinfos := addrinfos w',
            open_fd := open_fd w', interest := interest w', trace := trace w'\<rparr>"

definition closed_fd :: "int \<Rightarrow> (int \<Rightarrow> bool) \<Rightarrow> int \<Rightarrow> bool" where
  "closed_fd fd f = (if fd \<ge> 0 then f(fd := False) else f)"

lemma info_destroy_all:
  assumes "infos w i = Some ci"
  shows "\<exists>w'. client_info_destroy w i True = Some (True, w') \<and> clients_only w w' \<and>
    infos w' = (infos w)(i := None) \<and> cnodes w' = cnodes w \<and> addrinfos w' = addrinfos w \<and>
    rena_clients w' = rena_clients w \<and> open_fd w' = closed_fd (ci_fd ci) (open_fd w)"
  using assms
  by (auto simp: client_info_destroy_def emit_def proc_close_def clients_only_def closed_fd_def Let_def
      split: option.split)

lemma clients_only_refl [simp]: "clients_only w w"
  by (simp add: clients_only_def)

lemma clients_only_trans: "clients_only a b \<Longrightarrow> clients_only b c \<Longrightarrow> clients_only a c"
  by (simp add: clients_only_def) (cases a; cases b; cases c; simp)

lemma del_node_single:
  assumes "circle (cnodes w) [a]" "cnodes w a = Some n"
  shows "del_node w cs a n = Some (w\<lparr>cnodes := (cnodes w)(a := None),
    rena_clients := Some \<lparr>cci = (if cci cs = Some a then None else cci cs), qty = qty cs - 1\<rparr>\<rparr>)"
  using assms by (auto simp: del_node_def node_upd_simps linked_def)

lemma del_node_circle:
  assumes c: "circle (cnodes w) (a # b # bs)" and d: "distinct (a # b # bs)" and n: "cnodes w a = Some n"
  shows "\<exists>m. del_node w cs a n = Some (w\<lparr>cnodes := m,
      rena_clients := Some \<lparr>cci = (if cci cs = Some a then Some b else cci cs), qty = qty cs - 1\<rparr>\<rparr>) \<and>
    circle m (b # bs) \<and> m a = None \<and>
    (\<forall>x. x \<noteq> a \<longrightarrow> map_option (\<lambda>k. (requester k, victim k)) (m x) = map_option (\<lambda>k. (requester k, victim k)) (cnodes w x))"
proof -
  obtain p where p: "p = last (a # b # bs)" "linked (cnodes w) p a" using circle_last [OF c] .
  have pb: "p = last (b # bs)" and pin: "p \<in> set (b # bs)" using p(1) last_in_set [of "b # bs"] by simp_all
  obtain pn where pn: "cnodes w p = Some pn" "c_next pn = Some a" and np: "c_prev n = Some p"
    using p(2) n by (auto simp: linked_def)
  obtain bn where bn: "cnodes w b = Some bn" and nb: "c_next n = Some b"
    using c n by (auto simp: linked_def)
  have ne: "a \<noteq> p" "a \<noteq> b" using d pin by auto
  let ?m1 = "(cnodes w)(b \<mapsto> bn\<lparr>c_prev := Some p\<rparr>)"
  let ?m2 = "?m1(p \<mapsto> (the (?m1 p))\<lparr>c_next := Some b\<rparr>)"
  let ?m = "?m2(a := None)"
  have "del_node w cs a n = Some (w\<lparr>cnodes := ?m,
      rena_clients := Some \<lparr>cci = (if cci cs = Some a then Some b else cci cs), qty = qty cs - 1\<rparr>\<rparr>)"
    using n np nb bn pn ne by (cases "p = b") (simp_all add: del_node_def node_upd_simps)
  moreover have "circle ?m (b # bs)"
  proof (rule circle_remove [OF c d pb])
    show "\<forall>x \<in> set (b # bs). map_option c_next (?m x) = (if x = p then Some (Some b) else map_option c_next (cnodes w x))"
      using d bn pn by auto
    show "\<forall>x \<in> set (b # bs). map_option c_prev (?m x) = (if x = b then Some (Some p) else map_option c_prev (cnodes w x))"
      using d bn pn by auto
  qed
  moreover have "\<forall>x. x \<noteq> a \<longrightarrow> map_option (\<lambda>k. (requester k, victim k)) (?m x) =
      map_option (\<lambda>k. (requester k, victim k)) (cnodes w x)"
    using bn pn by auto
  ultimately show ?thesis by (intro exI [of _ ?m]) simp
qed

lemma del_node_list:
  assumes c: "circle (cnodes w) as" and d: "distinct as" and a: "a \<in> set as" and n: "cnodes w a = Some n"
    and h: "cci cs = (case as of [] \<Rightarrow> None | x # _ \<Rightarrow> Some x)"
  shows "\<exists>m. del_node w cs a n = Some (w\<lparr>cnodes := m,
      rena_clients := Some \<lparr>cci = (case remove1 a as of [] \<Rightarrow> None | x # _ \<Rightarrow> Some x), qty = qty cs - 1\<rparr>\<rparr>) \<and>
    circle m (remove1 a as) \<and> m a = None \<and>
    (\<forall>x. x \<noteq> a \<longrightarrow> map_option (\<lambda>k. (requester k, victim k)) (m x) = map_option (\<lambda>k. (requester k, victim k)) (cnodes w x))"
proof -
  obtain xs ys where as: "as = xs @ a # ys" using split_list [OF a] by blast
  have nx: "a \<notin> set xs" "a \<notin> set ys" using d as by auto
  have rem: "remove1 a as = xs @ ys" using as nx by (simp add: remove1_append)
  have rot: "circle (cnodes w) (a # ys @ xs)" using circle_rotate [of "cnodes w" xs "a # ys"] c as by simp
  show ?thesis
  proof (cases "ys @ xs")
    case Nil
    then show ?thesis using del_node_single [of w a n cs] rot n h as rem by auto
  next
    case (Cons b bs)
    have "distinct (a # b # bs)" using d as by (auto simp flip: Cons)
    from del_node_circle [OF rot [unfolded Cons] this n, of cs]
    obtain m where m: "del_node w cs a n = Some (w\<lparr>cnodes := m,
        rena_clients := Some \<lparr>cci = (if cci cs = Some a then Some b else cci cs), qty = qty cs - 1\<rparr>\<rparr>)"
      "circle m (ys @ xs)" "m a = None"
      "\<forall>x. x \<noteq> a \<longrightarrow> map_option (\<lambda>k. (requester k, victim k)) (m x) = map_option (\<lambda>k. (requester k, victim k)) (cnodes w x)"
      unfolding Cons by blast
    have "(if cci cs = Some a then Some b else cci cs) = (case xs @ ys of [] \<Rightarrow> None | x # _ \<Rightarrow> Some x)"
      using h as nx Cons by (cases xs) auto
    then show ?thesis using m(1,3,4) circle_rotate [OF m(2)] rem by auto
  qed
qed

definition addresses_ok :: "world \<Rightarrow> client_info \<Rightarrow> bool" where
  "addresses_ok w ci \<longleftrightarrow>
     (case userdata ci of None \<Rightarrow> True | Some u \<Rightarrow> (\<exists>us. ai_chain (addrinfos w) (Some u) us \<and> distinct us))"

lemma linked_pointers:
  assumes "\<forall>x. map_option c_next (m' x) = map_option c_next (m x) \<and> map_option c_prev (m' x) = map_option c_prev (m x)"
  shows "circle m' as = circle m as"
  using assms link_path_cong [of _ _ m' m] by (cases as) auto

lemma del_requester_world:
  assumes n: "cnodes w a = Some n" "requester n = Some i" "infos w i = Some ci" and u: "addresses_ok w ci"
  shows "\<exists>w'. del_requester w a = Some w' \<and> clients_only w w' \<and> rena_clients w' = rena_clients w \<and>
    cnodes w' = (cnodes w)(a \<mapsto> n\<lparr>requester := None\<rparr>) \<and> infos w' = (infos w)(i := None) \<and>
    open_fd w' = closed_fd (ci_fd ci) (open_fd w)"
proof -
  obtain m t where f: "(case userdata ci of None \<Rightarrow> Some w | Some u \<Rightarrow> freeaddrinfo w u) =
      Some (w\<lparr>addrinfos := m, trace := t\<rparr>)"
  proof (cases "userdata ci")
    case None
    then show ?thesis using that [where m = "addrinfos w" and t = "trace w"] by simp
  next
    case (Some v)
    then show ?thesis using u that freeaddrinfo_world by (fastforce simp: addresses_ok_def)
  qed
  let ?w = "w\<lparr>addrinfos := m, trace := t\<rparr>"
  have "infos ?w i = Some ci" using n by simp
  from info_destroy_all [OF this] obtain w1 where w1: "client_info_destroy ?w i True = Some (True, w1)"
      "clients_only ?w w1" "infos w1 = (infos w)(i := None)" "cnodes w1 = cnodes w" "rena_clients w1 = rena_clients w"
      "open_fd w1 = closed_fd (ci_fd ci) (open_fd w)"
    by auto
  have "del_requester w a = Some (w1\<lparr>cnodes := (cnodes w)(a \<mapsto> n\<lparr>requester := None\<rparr>)\<rparr>)"
    using n f w1 by (simp add: del_requester_def node_upd_simps)
  moreover have "clients_only w (w1\<lparr>cnodes := (cnodes w)(a \<mapsto> n\<lparr>requester := None\<rparr>)\<rparr>)"
    using w1(2) by (cases w1) (auto simp: clients_only_def)
  ultimately show ?thesis using w1 by auto
qed

lemma del_victim_world:
  assumes n: "cnodes w a = Some n" "requester n = None" "\<And>v. victim n = Some v \<Longrightarrow> infos w v \<noteq> None"
  shows "\<exists>w'. del_victim w a = Some w' \<and> clients_only w w' \<and> rena_clients w' = rena_clients w \<and>
    cnodes w' = (cnodes w)(a \<mapsto> n\<lparr>victim := None\<rparr>) \<and>
    (\<forall>x. infos w' x = (if victim n = Some x then None else infos w x)) \<and>
    open_fd w' = (case victim n of None \<Rightarrow> open_fd w | Some v \<Rightarrow> closed_fd (ci_fd (the (infos w v))) (open_fd w))"
proof (cases "victim n")
  case None
  moreover have "n\<lparr>victim := None\<rparr> = n" using None by simp
  ultimately show ?thesis using n by (auto simp: del_victim_def)
next
  case (Some v)
  obtain ci where ci: "infos w v = Some ci" using n(3) [OF Some] by auto
  obtain w1 where w1: "client_info_destroy w v True = Some (True, w1)"
      "clients_only w w1" "infos w1 = (infos w)(v := None)" "cnodes w1 = cnodes w" "rena_clients w1 = rena_clients w"
      "open_fd w1 = closed_fd (ci_fd ci) (open_fd w)"
    using info_destroy_all [OF ci] by auto
  have "del_victim w a = Some (w1\<lparr>cnodes := (cnodes w)(a \<mapsto> n\<lparr>victim := None\<rparr>)\<rparr>)"
    using n Some ci w1 by (simp add: del_victim_def node_upd_simps)
  moreover have "clients_only w (w1\<lparr>cnodes := (cnodes w)(a \<mapsto> n\<lparr>victim := None\<rparr>)\<rparr>)"
    using w1(2) by (cases w1) (auto simp: clients_only_def)
  ultimately show ?thesis using w1 Some ci by auto
qed

lemma concat_disjoint:
  "distinct (concat (map f as)) \<Longrightarrow> x \<in> set as \<Longrightarrow> a \<in> set as \<Longrightarrow> x \<noteq> a \<Longrightarrow> set (f x) \<inter> set (f a) = {}"
  by (induction as) auto

lemma concat_remove1: "distinct (concat (map f as)) \<Longrightarrow> distinct (concat (map f (remove1 a as)))"
proof (induction as)
  case (Cons x xs)
  have "set (concat (map f (remove1 a xs))) \<subseteq> set (concat (map f xs))"
    using set_remove1_subset [of a xs] by auto
  then show ?case using Cons by auto
qed simp

lemma registry_remove:
  assumes r: "registry w as" and a: "a \<in> set as"
    and cs: "rena_clients w' = Some \<lparr>cci = (case remove1 a as of [] \<Rightarrow> None | x # _ \<Rightarrow> Some x), qty = q\<rparr>"
      "q = int (length as) - 1"
    and c: "circle (cnodes w') (remove1 a as)" and b: "w_brk w' = w_brk w"
    and sid: "\<And>x. x \<noteq> a \<Longrightarrow> sides w' x = sides w x"
    and inf: "\<forall>x. infos w' x = (if x \<in> set (owned w a) then None else infos w x)"
  shows "registry w' (remove1 a as)"
proof -
  have d: "distinct as" and own: "distinct (concat (map (owned w) as))" and lt: "\<forall>x \<in> set as. x < w_brk w"
      "\<forall>a \<in> set as. owned w a \<noteq> [] \<and> (\<forall>i \<in> set (owned w a). i < w_brk w \<and> infos w i \<noteq> None)"
    using r by (simp_all add: registry_def)
  have own': "owned w' x = owned w x" if "x \<in> set (remove1 a as)" for x
    using sid that d by (simp add: owned_sides)
  have "set (owned w x) \<inter> set (owned w a) = {}" if "x \<in> set as" "x \<noteq> a" for x
    using concat_disjoint [OF own] that a by blast
  then have "\<forall>x \<in> set (remove1 a as). owned w' x \<noteq> [] \<and> (\<forall>i \<in> set (owned w' x). i < w_brk w' \<and> infos w' i \<noteq> None)"
    using own' lt(2) inf d b by auto
  moreover have "map (owned w') (remove1 a as) = map (owned w) (remove1 a as)" using own' by simp
  then have "distinct (concat (map (owned w') (remove1 a as)))"
    using concat_remove1 [OF own, of a] by (simp only:)
  moreover have "int (length (remove1 a as)) = q"
  proof -
    obtain k where "length as = Suc k" using a by (cases as) auto
    then show ?thesis using a cs(2) by (simp add: length_remove1)
  qed
  ultimately show ?thesis
    using cs(1) c d lt(1) b by (auto simp: registry_def dest: notin_set_remove1)
qed

lemma clients_del_registry:
  assumes r: "registry w as" and a: "a \<in> set as" and s: "sides w a = Some (Some i, v)"
    and ci: "infos w i = Some ci" and u: "addresses_ok w ci"
  shows "\<exists>w'. clients_del w \<lparr>p_info = Some i, p_type = REQUESTER_TYPE, p_pos = Some a\<rparr> =
      Some (0, \<lparr>p_info = None, p_type = INVALID_TYPE, p_pos = None\<rparr>, w') \<and>
    registry w' (remove1 a as) \<and> clients_only w w' \<and>
    (\<forall>x. infos w' x = (if x \<in> set (owned w a) then None else infos w x)) \<and>
    (\<forall>x \<in> set as. x \<noteq> a \<longrightarrow> sides w' x = sides w x) \<and>
    (\<forall>j \<in> set (owned w a). \<forall>cj. infos w j = Some cj \<and> ci_fd cj \<ge> 0 \<longrightarrow> \<not> open_fd w' (ci_fd cj))"
proof -
  obtain cs where cs: "rena_clients w = Some cs" "qty cs = int (length as)" "cci cs = (case as of [] \<Rightarrow> None | x # _ \<Rightarrow> Some x)"
    and rg: "circle (cnodes w) as" "distinct as" and lt: "\<forall>x \<in> set as. x < w_brk w"
    and own: "distinct (concat (map (owned w) as))"
      "\<forall>a \<in> set as. owned w a \<noteq> [] \<and> (\<forall>i \<in> set (owned w a). i < w_brk w \<and> infos w i \<noteq> None)"
    using r by (auto simp: registry_def)
  obtain n where n: "cnodes w a = Some n" "requester n = Some i" "victim n = v" using s by (auto simp: sides_def)
  have owned_a: "owned w a = i # (case v of None \<Rightarrow> [] | Some j \<Rightarrow> [j])" using n by (simp add: owned_def)
  have "distinct (owned w a)" using own(1) a by (simp add: distinct_concat_iff)
  then have iv: "v \<noteq> Some i" using owned_a by auto
  obtain w1 where w1: "del_requester w a = Some w1" "clients_only w w1" "rena_clients w1 = rena_clients w"
      "cnodes w1 = (cnodes w)(a \<mapsto> n\<lparr>requester := None\<rparr>)" "infos w1 = (infos w)(i := None)"
      "open_fd w1 = closed_fd (ci_fd ci) (open_fd w)"
    using del_requester_world [OF n(1,2) ci u] by blast
  have "infos w1 j \<noteq> None" if "v = Some j" for j using own(2) a owned_a w1(5) iv that by auto
  then obtain w2 where w2: "del_victim w1 a = Some w2" "clients_only w1 w2" "rena_clients w2 = rena_clients w"
      "cnodes w2 = (cnodes w)(a \<mapsto> n\<lparr>requester := None, victim := None\<rparr>)"
      "\<forall>x. infos w2 x = (if v = Some x then None else infos w1 x)"
      "open_fd w2 = (case v of None \<Rightarrow> open_fd w1 | Some j \<Rightarrow> closed_fd (ci_fd (the (infos w1 j))) (open_fd w1))"
    using del_victim_world [of w1 a "n\<lparr>requester := None\<rparr>"] n w1(3,4) by auto
  let ?n = "n\<lparr>requester := None, victim := None\<rparr>"
  have "circle (cnodes w2) as" using rg(1) linked_pointers [of "cnodes w2" "cnodes w" as] w2(4) n(1) by simp
  moreover have "cnodes w2 a = Some ?n" using w2(4) by simp
  ultimately obtain m where m: "del_node w2 cs a ?n = Some (w2\<lparr>cnodes := m,
        rena_clients := Some \<lparr>cci = (case remove1 a as of [] \<Rightarrow> None | x # _ \<Rightarrow> Some x), qty = qty cs - 1\<rparr>\<rparr>)"
      "circle m (remove1 a as)" "m a = None"
      "\<forall>x. x \<noteq> a \<longrightarrow> map_option (\<lambda>k. (requester k, victim k)) (m x) = map_option (\<lambda>k. (requester k, victim k)) (cnodes w2 x)"
    using del_node_list [OF _ rg(2) a _ cs(3), of w2 ?n] by blast
  let ?w = "w2\<lparr>cnodes := m, rena_clients := Some \<lparr>cci = (case remove1 a as of [] \<Rightarrow> None | x # _ \<Rightarrow> Some x), qty = qty cs - 1\<rparr>\<rparr>"
  have len: "0 < length as" using a by (cases as) auto
  have del: "clients_del w \<lparr>p_info = Some i, p_type = REQUESTER_TYPE, p_pos = Some a\<rparr> =
      Some (0, \<lparr>p_info = None, p_type = INVALID_TYPE, p_pos = None\<rparr>, ?w)"
    using cs search_pointer_registry [OF r cs(1), of a] a w1 w2 m(1) len by (simp add: clients_del_def del_pair_def)
  have inf: "\<forall>x. infos ?w x = (if x \<in> set (owned w a) then None else infos w x)"
    using w2(5) w1(5) owned_a by (auto split: option.splits)
  have sid: "sides ?w x = sides w x" if "x \<noteq> a" for x
    using m(4) w2(4) that by (simp add: sides_def)
  have only: "clients_only w ?w"
    using clients_only_trans [OF w1(2) w2(2)] by (cases w2) (auto simp: clients_only_def)
  have reg: "registry ?w (remove1 a as)"
    by (rule registry_remove [OF r a, of ?w "qty cs - 1"])
       (use m(2) sid inf only cs(2) len a in \<open>auto simp: clients_only_def length_remove1 of_nat_diff\<close>)
  have fds: "\<forall>j \<in> set (owned w a). \<forall>cj. infos w j = Some cj \<and> ci_fd cj \<ge> 0 \<longrightarrow> \<not> open_fd ?w (ci_fd cj)"
    using w2(6) w1(5,6) ci owned_a iv by (auto simp: closed_fd_def split: option.splits)
  show ?thesis using del reg only inf sid fds by blast
qed

section \<open>Properties\<close>

text \<open>C28: adding a client puts a new pair in front of the ring and touches no other pair; the ring
  stays a well-linked circle with its length in \<^verbatim>\<open>qty\<close>.\<close>

theorem clients_add_registers:
  assumes "registry w as"
  shows "\<exists>w'. clients_add w t fd = Some w' \<and> registry w' (w_brk w # as) \<and> registry_only w w' \<and>
    sides w' (w_brk w) = Some (new_sides t (w_brk w + 1)) \<and>
    infos w' = (infos w)(w_brk w + 1 \<mapsto> fresh_info w fd) \<and> (\<forall>x \<in> set as. sides w' x = sides w x)"
  using clients_add_registry [OF assms] by blast

text \<open>A search always returns, and finds the first pair, in the order of the ring, one side of
  which has the descriptor, its requester before its victim.\<close>

theorem clients_search_finds:
  assumes "registry w as"
  shows "clients_search w fd = Some (first_some (position_in w fd) as)"
  by (rule search_registry [OF assms])

text \<open>C29: deleting a requester removes exactly its pair from the ring, closes the descriptors of both
  sides and releases both structures; every other pair stays as it is.\<close>

theorem clients_del_removes:
  assumes "registry w as" "a \<in> set as" "sides w a = Some (Some i, v)" "infos w i = Some ci" "addresses_ok w ci"
  shows "\<exists>w'. clients_del w \<lparr>p_info = Some i, p_type = REQUESTER_TYPE, p_pos = Some a\<rparr> =
      Some (0, \<lparr>p_info = None, p_type = INVALID_TYPE, p_pos = None\<rparr>, w') \<and>
    registry w' (remove1 a as) \<and>
    (\<forall>x. infos w' x = (if x \<in> set (owned w a) then None else infos w x)) \<and>
    (\<forall>x \<in> set as. x \<noteq> a \<longrightarrow> sides w' x = sides w x) \<and>
    (\<forall>j \<in> set (owned w a). \<forall>cj. infos w j = Some cj \<and> ci_fd cj \<ge> 0 \<longrightarrow> \<not> open_fd w' (ci_fd cj))"
  using clients_del_registry [OF assms] by blast

definition start_world :: world where
  "start_world = init_world\<lparr>rena_clients := Some clients_init\<rparr>"

lemma clients_add_registers_witness:
  "\<exists>w'. clients_add start_world REQUESTER_TYPE 7 = Some w' \<and> registry w' [1]"
  using clients_add_registers [of start_world "[]" REQUESTER_TYPE 7]
  by (auto simp: start_world_def registry_init) (simp add: init_world_def)

definition two_clients :: "world option" where
  "two_clients = do { w \<leftarrow> clients_add start_world REQUESTER_TYPE 7; clients_add w REQUESTER_TYPE 9 }"

lemma two_clients_registry:
  "\<exists>w. two_clients = Some w \<and> registry w [3, 1] \<and> sides w 1 = Some (Some 2, None) \<and>
    (\<exists>ci. infos w 2 = Some ci \<and> ci_fd ci = 7 \<and> userdata ci = None)"
proof -
  have r0: "registry start_world []" by (simp add: start_world_def registry_init)
  obtain w1 where w1: "clients_add start_world REQUESTER_TYPE 7 = Some w1" "registry w1 [1]" "registry_only start_world w1"
      "sides w1 1 = Some (Some 2, None)" "infos w1 2 = Some (fresh_info start_world 7)" "w_brk w1 = 3"
    using clients_add_ring [OF r0, of REQUESTER_TYPE 7] clients_add_registry [OF r0, of REQUESTER_TYPE 7]
    by (auto simp: start_world_def init_world_def new_sides_def numeral_eq_Suc)
  obtain w2 where w2: "clients_add w1 REQUESTER_TYPE 9 = Some w2" "registry w2 [3, 1]"
      "sides w2 1 = sides w1 1" "infos w2 = (infos w1)(4 \<mapsto> fresh_info w1 9)"
    using clients_add_registry [OF w1(2), of REQUESTER_TYPE 9] w1(6) by auto
  show ?thesis using w1 w2 by (simp add: two_clients_def fresh_info_def)
qed

lemma clients_search_finds_witness:
  "\<exists>w. two_clients = Some w \<and> clients_search w 7 = Some (first_some (position_in w 7) [3, 1])"
  using two_clients_registry clients_search_finds by blast

lemma clients_del_removes_witness:
  "\<exists>w w' q. two_clients = Some w \<and>
     clients_del w \<lparr>p_info = Some 2, p_type = REQUESTER_TYPE, p_pos = Some 1\<rparr> = Some (0, q, w') \<and>
     registry w' [3] \<and> \<not> open_fd w' 7"
proof -
  obtain w ci where w: "two_clients = Some w" "registry w [3, 1]" "sides w 1 = Some (Some 2, None)"
      "infos w 2 = Some ci" "ci_fd ci = 7" "userdata ci = None"
    using two_clients_registry by blast
  then have "addresses_ok w ci" "owned w 1 = [2]" by (simp_all add: addresses_ok_def owned_sides)
  then show ?thesis
    using clients_del_removes [OF w(2) _ w(3,4)] w by auto
qed

end
