(* ===== verification/Server.thy ===== *)
theory Server
  imports Clients
begin

unbundle bit_operations_syntax

text \<open>
  The sockets, \<^verbatim>\<open>rena/src/server.c\<close>: the interest list, the dispatch of events into tasks, the
  creation of the listening sockets and of outgoing ones, reading and writing with and without
  TLS, and the way a connection to a site is tried.
\<close>

section \<open>The interest list\<close>

definition server_notify2 :: "world \<Rightarrow> epoll_op \<Rightarrow> int \<Rightarrow> nat \<Rightarrow> (int \<times> world) option" where
  "server_notify2 w oper fd submask = do {
     _ \<leftarrow> rena_server w;
     let (error, w) = epoll_ctl oper fd (submask OR EPOLLERR OR EPOLLHUP OR EPOLLET) w;
     if error = 0 then Some (0, w)
     else if error = EBADF then Some (- 1, w)
     else if error \<noteq> EEXIST then Some (- 2, w)
     else Some (0, w) }"

definition server_notify :: "world \<Rightarrow> epoll_op \<Rightarrow> int \<Rightarrow> nat \<Rightarrow> (int \<times> world) option" where
  "server_notify w oper fd submask =
    (if fd \<ge> 0 then server_notify2 w oper fd (submask OR EPOLLONESHOT) else Some (0, w))"

text \<open>The task type of an event; an event that is neither for writing, nor for reading, nor a
  hang-up ends the process.\<close>

definition task_of_event :: "server \<Rightarrow> int \<Rightarrow> nat \<Rightarrow> nat option" where
  "task_of_event s fd events =
    (if events AND EPOLLOUT \<noteq> 0 then
       Some (if normalfd s = fd then TT_NORMAL_WRITE
             else if securefd s = fd then TT_SECURE_WRITE
             else if signalfd s = fd then TT_SIGNAL_WRITE else TT_WRITE)
     else if events AND EPOLLIN \<noteq> 0 then
       Some (if normalfd s = fd then TT_NORMAL_READ
             else if securefd s = fd then TT_SECURE_READ
             else if signalfd s = fd then TT_SIGNAL_READ else TT_READ)
     else if events AND EPOLLHUP \<noteq> 0 then Some TT_WRITE
     else None)"

fun push_events :: "server \<Rightarrow> (int \<times> nat) list \<Rightarrow> task_manager \<Rightarrow> task_manager option" where
  "push_events s [] tm = Some tm"
| "push_events s ((fd, events) # evs) tm = do {
     tt \<leftarrow> task_of_event s fd events;
     tm \<leftarrow> task_manager_task_push tm fd tt;
     push_events s evs tm }"

text \<open>What \<^verbatim>\<open>epoll_wait(2)\<close> does to the interest list: an entry that is reported once is disabled.\<close>

definition reported :: "int \<Rightarrow> (int \<Rightarrow> nat option) \<Rightarrow> int \<Rightarrow> nat option" where
  "reported fd i =
    i(fd := map_option (\<lambda>m. if m AND EPOLLONESHOT \<noteq> 0 then EPOLLONESHOT OR EPOLLET else m) (i fd))"

definition dispatch_timeout :: "world \<Rightarrow> int" where
  "dispatch_timeout w = (if 4 + clients_quantity (rena_clients w) \<ge> 1024 then 300 else - 1)"

text \<open>\<^verbatim>\<open>server_dispatch\<close>, given what \<^verbatim>\<open>epoll_wait\<close> reports: \<^const>\<open>None\<close> for an error.\<close>

definition server_dispatch :: "(int \<times> nat) list option \<Rightarrow> world \<Rightarrow> (int \<times> world) option" where
  "server_dispatch evs w = do {
     s \<leftarrow> rena_server w;
     (case evs of
        None \<Rightarrow> Some (- 1, w)
      | Some evs \<Rightarrow> do {
          tm \<leftarrow> rena_tm w;
          tm \<leftarrow> push_events s evs tm;
          Some (0, w\<lparr>rena_tm := Some tm, interest := fold (\<lambda>(fd, _). reported fd) evs (interest w)\<rparr>) }) }"

section \<open>Sockets\<close>

definition fd_set_common_flags :: "int \<Rightarrow> world \<Rightarrow> int \<times> world" where
  "fd_set_common_flags fd w =
    (let (a, w) = next_ok w;
         (b, w) = (if a then next_ok w else (False, w));
         (c, w) = (if b then next_ok w else (False, w))
     in if \<not> c then (- 1, proc_close fd w) else (0, w))"

text \<open>A call that makes a descriptor: the next entry of the script; a descriptor is never negative.\<close>

definition next_fd :: "world \<Rightarrow> int \<times> world" where
  "next_fd w = (case sockets w of
     Inr fd # rs \<Rightarrow>
       if fd < 0 then (- 1, w\<lparr>sockets := rs\<rparr>)
       else (fd, w\<lparr>sockets := rs, open_fd := (open_fd w)(fd := True)\<rparr>)
   | Inl _ # rs \<Rightarrow> (- 1, w\<lparr>sockets := rs\<rparr>)
   | [] \<Rightarrow> (- 1, w))"

definition AF_INET :: int where "AF_INET = 2"
definition AF_INET6 :: int where "AF_INET6 = 10"

text \<open>\<^verbatim>\<open>create_socket\<close>; \<^verbatim>\<open>socket(2)\<close> refuses a family it does not know.\<close>

definition create_socket :: "int \<Rightarrow> world \<Rightarrow> int \<times> world" where
  "create_socket family w =
    (if family \<noteq> AF_INET \<and> family \<noteq> AF_INET6 then (- 1, w)
     else (let (ret, w) = next_fd w
           in if ret < 0 then (- 1, w)
              else (let (f, w) = fd_set_common_flags ret w in if f \<noteq> 0 then (- 1, w) else (ret, w))))"

definition server_create_socket :: "int \<Rightarrow> world \<Rightarrow> int \<times> world" where
  "server_create_socket family w =
    (let (ret, w) = create_socket family w
     in if ret < 0 then (- 1, w)
        else (let (b, w) = next_ok w
              in if \<not> b then (- 1, proc_close ret w)
                 else (let (l, w) = next_ok w in if \<not> l then (- 1, proc_close ret w) else (ret, w))))"

text \<open>\<^verbatim>\<open>server_socket_for_client\<close>, given the \<^verbatim>\<open>ai_family\<close> that it reads.\<close>

definition server_socket_for_client :: "world \<Rightarrow> int \<Rightarrow> (int \<times> world) option" where
  "server_socket_for_client w family = do {
     _ \<leftarrow> rena_server w;
     let (ret, w) = create_socket family w;
     if ret < 0 then Some (- 1, w)
     else (let (b, w) = next_ok w in if \<not> b then Some (- 1, proc_close ret w) else Some (ret, w)) }"

definition create_ssl_context_server :: "world \<Rightarrow> (bool \<times> world) option" where
  "create_ssl_context_server w =
    (let (ctx, w) = next_ok w
     in if \<not> ctx then Some (False, w)
        else do {
          _ \<leftarrow> rena_config w;
          let (cert, w) = next_ok w;
          let (key, w) = (if cert then next_ok w else (False, w));
          if \<not> key then Some (False, emit Ev_context_free w) else Some (True, w) })"

definition create_ssl_context_client :: "world \<Rightarrow> bool \<times> world" where
  "create_ssl_context_client w = next_ok w"

definition serving_ip :: "string \<Rightarrow> string" where
  "serving_ip address = snprintf_to MAX_STR ((if strchr address (CHR '':'') = None then ''::FFFF:'' else []) @ address)"

text \<open>\<^verbatim>\<open>create_serving\<close>: the server with its two listening sockets.\<close>

definition create_serving :: "world \<Rightarrow> world option" where
  "create_serving w = do {
     s \<leftarrow> rena_server w;
     c \<leftarrow> rena_config w;
     let s = s\<lparr>normalfd := - 1, securefd := - 1\<rparr>;
     let p0 = config_get_server_port_http c;
     let p1 = config_get_server_port_https c;
     if p0 < 0 \<or> p0 > 65535 \<or> p1 < 0 \<or> p1 > 65535 then Some (w\<lparr>rena_server := Some s\<rparr>)
     else if \<not> valid_ip w (serving_ip (config_get_server_address c)) then Some (w\<lparr>rena_server := Some s\<rparr>)
     else (let (n, w) = server_create_socket AF_INET6 w;
               (t, w) = server_create_socket AF_INET6 w
           in Some (w\<lparr>rena_server := Some (s\<lparr>normalfd := n, securefd := t, address_family := AF_INET6\<rparr>)\<rparr>)) }"

text \<open>\<^verbatim>\<open>proc_signal_block\<close> and \<^verbatim>\<open>proc_create_signalfd\<close> of \<^verbatim>\<open>proc.c\<close>.\<close>

definition proc_signal_block :: "world \<Rightarrow> int \<times> world" where
  "proc_signal_block w = (let (b, w) = next_ok w in (if b then 0 else - 1, w))"

definition proc_create_signalfd :: "world \<Rightarrow> int \<times> world" where
  "proc_create_signalfd w = (let (fd, w) = next_fd w in if fd < 0 then (- 1, w) else (fd, w))"

definition poll_init :: "world \<Rightarrow> int \<times> world" where
  "poll_init w = (let (fd, w) = next_fd w in if fd < 0 then (- 1, w) else (fd, w))"

text \<open>A call of \<^verbatim>\<open>server_notify2\<close> on a descriptor of the server, unless there was an error.\<close>

definition watch :: "bool \<Rightarrow> world \<Rightarrow> (server \<Rightarrow> int) \<Rightarrow> (bool \<times> world) option" where
  "watch err w f =
    (if err then Some (True, w)
     else do { s \<leftarrow> rena_server w; (r, w) \<leftarrow> server_notify2 w EPOLL_CTL_ADD (f s) EPOLLIN; Some (r < 0, w) })"

definition server_init_fail :: "world \<Rightarrow> world option" where
  "server_init_fail w = do {
     s \<leftarrow> rena_server w;
     let w = emit Ev_context_free (emit Ev_context_free w);
     let w = proc_close (signalfd s) (proc_close (securefd s) (proc_close (normalfd s) (proc_close (pollfd s) w)));
     Some (w\<lparr>rena_server := None\<rparr>) }"

text \<open>\<^verbatim>\<open>server_init\<close>: is there a server.  The structure is zeroed, so \<^verbatim>\<open>signalfd\<close> is 0 until a
  descriptor is made.\<close>

definition server_init :: "world \<Rightarrow> (bool \<times> world) option" where
  "server_init w =
    (let (p, w) = poll_init w;
         s = \<lparr>server_context = False, client_context = False, address_family = 0, normalfd = 0,
              securefd = 0, pollfd = p, signalfd = 0\<rparr>
     in if p < 0 then Some (False, (proc_close p w)\<lparr>rena_server := None\<rparr>)
        else do {
          (ctx, w) \<leftarrow> create_ssl_context_server (w\<lparr>rena_server := Some s\<rparr>);
          if \<not> ctx then Some (False, (proc_close p w)\<lparr>rena_server := None\<rparr>)
          else (let (cctx, w) = create_ssl_context_client w
                in if \<not> cctx then Some (False, (proc_close p (emit Ev_context_free w))\<lparr>rena_server := None\<rparr>)
                   else do {
                     w \<leftarrow> create_serving (w\<lparr>rena_server := Some (s\<lparr>server_context := True, client_context := True\<rparr>)\<rparr>);
                     s \<leftarrow> rena_server w;
                     (err, w) \<leftarrow> watch (normalfd s < 0 \<or> securefd s < 0) w normalfd;
                     (err, w) \<leftarrow> watch err w securefd;
                     let (b, w) = (if err then (- 1, w) else proc_signal_block w);
                     let err = (b < 0);
                     s \<leftarrow> rena_server w;
                     (err, w) \<leftarrow>
                       (if err then Some (True, w)
                        else (let (g, w) = proc_create_signalfd w;
                                  w = w\<lparr>rena_server := Some (s\<lparr>signalfd := g\<rparr>)\<rparr>
                              in if g < 0 then Some (True, w) else watch False w signalfd));
                     if err then do { w \<leftarrow> server_init_fail w; Some (False, w) }
                     else Some (True, w) }) })"

definition server_destroy :: "world \<Rightarrow> world" where
  "server_destroy w =
    (case rena_server w of
       None \<Rightarrow> w
     | Some s \<Rightarrow>
         (let w = proc_close (pollfd s) (proc_close (securefd s) (proc_close (normalfd s) (proc_close (signalfd s) w)))
          in (emit Ev_context_free (emit Ev_context_free w))\<lparr>rena_server := None\<rparr>))"

section \<open>Clients\<close>

definition ignore_error :: "int \<Rightarrow> bool" where
  "ignore_error error \<longleftrightarrow>
     error = EINTR \<or> error = EINPROGRESS \<or> error = EALREADY \<or> error = ERESTART \<or> error = EAGAIN"

text \<open>\<^verbatim>\<open>server_receive_client\<close>: the result, the TLS object if one is wanted, and the state.\<close>

definition server_receive_client :: "world \<Rightarrow> int \<Rightarrow> bool \<Rightarrow> (int \<times> ptr \<times> world) option" where
  "server_receive_client w fd want_tls =
    (if rena_server w = None then Some (- 1, None, w)
     else (case next_of (Inl EAGAIN) (accepts w) fd of
         (Inl error, a) \<Rightarrow> Some (if ignore_error error then - 2 else - 1, None, w\<lparr>accepts := a\<rparr>)
       | (Inr new_fd, a) \<Rightarrow>
           (let w = w\<lparr>accepts := a, open_fd := (open_fd w)(new_fd := True)\<rparr>
            in if \<not> want_tls then Some (new_fd, None, w)
               else (let (b, w) = next_ok w
                     in if \<not> b then Some (- 1, None, proc_close new_fd w)
                        else (let (s, w) = new_addr w; (b, w) = next_ok w
                              in if \<not> b then Some (- 1, Some s, proc_close new_fd w)
                                 else Some (new_fd, Some s, w))))))"

text \<open>\<^verbatim>\<open>ssl_error\<close>, given the code of \<^verbatim>\<open>SSL_get_error\<close>.\<close>

definition ssl_error :: "int \<Rightarrow> int" where
  "ssl_error err =
    (if err = 0 then 0
     else if err = 2 \<or> err = 8 then int TT_READ
     else if err = 3 then int TT_WRITE
     else if err = 6 then - 1 else - 2)"

definition server_handshake_client :: "world \<Rightarrow> int \<Rightarrow> int \<times> world" where
  "server_handshake_client w fd =
    (case next_of (Failed 1 2) (handshakes w) fd of
       (Took n, hs) \<Rightarrow> (if n = 1 then 0 else ssl_error 0, w\<lparr>handshakes := hs\<rparr>)
     | (Got _, hs) \<Rightarrow> (ssl_error 0, w\<lparr>handshakes := hs\<rparr>)
     | (Failed _ code, hs) \<Rightarrow> (ssl_error code, w\<lparr>handshakes := hs\<rparr>))"

text \<open>The list that \<^verbatim>\<open>getaddrinfo\<close> allocates.\<close>

fun alloc_chain :: "(int \<times> sockaddr) list \<Rightarrow> world \<Rightarrow> ptr \<times> world" where
  "alloc_chain [] w = (None, w)"
| "alloc_chain ((family, sa) # rest) w =
    (let (next, w) = alloc_chain rest w; (a, w) = new_addr w
     in (Some a, w\<lparr>addrinfos := (addrinfos w)(a \<mapsto> \<lparr>ai_family = family, ai_addr = sa, ai_next = next\<rparr>)\<rparr>))"

definition server_address_from_host :: "world \<Rightarrow> string \<Rightarrow> int \<times> ptr \<times> world" where
  "server_address_from_host w host =
    (case dns w host of None \<Rightarrow> (- 1, None, w) | Some as \<Rightarrow> (let (p, w) = alloc_chain as w in (0, p, w)))"

definition htons :: "int \<Rightarrow> int" where
  "htons p = (p mod 256) * 256 + (p div 256) mod 256"

partial_function (option) server_address_set_port :: "world \<Rightarrow> ptr \<Rightarrow> int \<Rightarrow> world option" where [code]:
  "server_address_set_port w p port =
    (case p of
       None \<Rightarrow> Some w
     | Some a \<Rightarrow> do {
         ai \<leftarrow> addrinfos w a;
         server_address_set_port
           (w\<lparr>addrinfos := (addrinfos w)(a \<mapsto> ai\<lparr>ai_addr := (ai_addr ai)\<lparr>sa_port := htons port\<rparr>\<rparr>)\<rparr>) (ai_next ai) port })"

text \<open>\<^verbatim>\<open>server_read_client\<close> with a buffer of \<open>len\<close> characters: the result, the value of the call, the
  characters read, whether to retry, and the state.  What does not fit is read by the next
  call.\<close>

definition server_read_client ::
  "world \<Rightarrow> int \<Rightarrow> bool \<Rightarrow> nat \<Rightarrow> bool \<Rightarrow> int \<times> int \<times> string \<times> bool \<times> world" where
  "server_read_client w fd tls len retry =
    (case next_of (if tls then Failed 1 2 else Failed 1 EAGAIN) (reads w) fd of
       (Got s, rs) \<Rightarrow>
         (let t = take len s; rest = drop len s;
              rs = (if rest = [] then rs else rs(fd := Got rest # rs fd))
          in (if t \<noteq> [] then 0 else if tls then ssl_error 0 else - 1, int (length t), t, retry, w\<lparr>reads := rs\<rparr>))
     | (Took n, rs) \<Rightarrow> (if tls then ssl_error 0 else - 1, 0, [], retry, w\<lparr>reads := rs\<rparr>)
     | (Failed n e, rs) \<Rightarrow>
         (if tls then (ssl_error e, - int n, [], retry, w\<lparr>reads := rs\<rparr>)
          else if n = 0 then (- 1, 0, [], retry, w\<lparr>reads := rs\<rparr>)
          else if \<not> ignore_error e then (- 1, - int n, [], retry, w\<lparr>reads := rs\<rparr>)
          else (0, - int n, [], True, w\<lparr>reads := rs\<rparr>)))"

text \<open>\<^verbatim>\<open>server_write_client\<close>: the result, the value of the call, whether to retry, and the
  state.\<close>

definition server_write_client ::
  "world \<Rightarrow> int \<Rightarrow> bool \<Rightarrow> string \<Rightarrow> bool \<Rightarrow> int \<times> int \<times> bool \<times> world" where
  "server_write_client w fd tls s retry =
    (case next_of (Took (length s)) (writes w) fd of
       (Failed n e, ws) \<Rightarrow>
         (if tls then (ssl_error e, - int n, retry, w\<lparr>writes := ws\<rparr>)
          else if n = 0 then (- 1, 0, retry, w\<lparr>writes := ws\<rparr>)
          else if \<not> ignore_error e then (- 1, - int n, retry, w\<lparr>writes := ws\<rparr>)
          else (0, - int n, True, w\<lparr>writes := ws\<rparr>))
     | (r, ws) \<Rightarrow>
         (let n = (case r of Took k \<Rightarrow> min k (length s) | _ \<Rightarrow> 0)
          in (if n > 0 then 0 else if tls then ssl_error 0 else - 1, int n, retry,
              (if n > 0 then emit (Ev_sent fd (take n s)) else (\<lambda>w. w)) (w\<lparr>writes := ws\<rparr>))))"

definition server_set_client_as_secure :: "world \<Rightarrow> client_position_t \<Rightarrow> (int \<times> world) option" where
  "server_set_client_as_secure w peer = do {
     _ \<leftarrow> rena_server w;
     let (b, w) = next_ok w;
     if \<not> b then Some (1, w)
     else (let (s, w) = new_addr w in do { w \<leftarrow> clients_set_ssl w peer (Some s); Some (0, w) }) }"

definition server_tcp_connection_done :: "world \<Rightarrow> int \<Rightarrow> int" where
  "server_tcp_connection_done w fd = (case so_error w fd of Some e \<Rightarrow> if e \<noteq> 0 then - 1 else 0 | None \<Rightarrow> - 1)"

section \<open>Connecting\<close>

definition server_client_connect :: "world \<Rightarrow> client_position_t \<Rightarrow> (int \<times> world) option" where
  "server_client_connect w peer = do {
     target \<leftarrow> clients_get_userdata w peer;
     vfd \<leftarrow> clients_get_fd w peer;
     (case target of
        None \<Rightarrow> Some (- 3, w)
      | Some a \<Rightarrow> do {
          ai \<leftarrow> addrinfos w a;
          let (error, cs) = next_of EINPROGRESS (connects w) vfd;
          let w = emit (Ev_connect vfd (ai_addr ai)) (w\<lparr>connects := cs\<rparr>);
          if error \<noteq> 0 \<and> \<not> ignore_error error then do {
            w \<leftarrow> clients_set_fd (proc_close vfd w) peer (- 1);
            Some (- 3, w) }
          else do {
            (r, w) \<leftarrow> server_notify w EPOLL_CTL_ADD vfd EPOLLOUT;
            if r < 0 then do {
              w \<leftarrow> clients_set_fd (proc_close vfd w) peer (- 1);
              Some (- 3, w) }
            else Some (0, w) } }) }"

text \<open>The loop of \<^verbatim>\<open>server_try_client_connect\<close>.  For the next address it calls
  \<^verbatim>\<open>server_socket_for_client\<close> with the socket address where that function expects the address
  list entry: the family it reads is the four bytes at offset 4 of the socket address.\<close>

partial_function (option) try_connect_loop :: "world \<Rightarrow> client_position_t \<Rightarrow> ptr \<Rightarrow> int \<Rightarrow> (int \<times> world) option" where [code]:
  "try_connect_loop w peer target ret =
    (case target of
       None \<Rightarrow> Some (ret, w)
     | Some a \<Rightarrow> do {
         (ret, w) \<leftarrow> server_client_connect w peer;
         if ret = 0 then Some (ret, w)
         else do {
           ai \<leftarrow> addrinfos w a;
           (case ai_next ai of
              None \<Rightarrow> Some (ret, w)
            | Some b \<Rightarrow> do {
                w \<leftarrow> clients_set_userdata w peer (Some b);
                bi \<leftarrow> addrinfos w b;
                (vfd, w) \<leftarrow> server_socket_for_client w (sa_word (ai_addr bi));
                if vfd < 0 then Some (ret, w)
                else do { w \<leftarrow> clients_set_fd w peer vfd; try_connect_loop w peer (Some b) ret } }) } })"

definition server_try_client_connect :: "world \<Rightarrow> client_position_t \<Rightarrow> (int \<times> world) option" where
  "server_try_client_connect w peer = do {
     target \<leftarrow> clients_get_userdata w peer;
     _ \<leftarrow> clients_get_fd w peer;
     try_connect_loop w peer target (- 3) }"

definition server_client_set_ssl_data :: "world \<Rightarrow> int \<times> world" where
  "server_client_set_ssl_data w = (let (b, w) = next_ok w in (if b then 0 else - 1, w))"

text \<open>\<^verbatim>\<open>server_close_client\<close>: at most five times \<^verbatim>\<open>SSL_shutdown\<close>, with the values of the calls of
  \<^verbatim>\<open>SSL_shutdown\<close> and \<^verbatim>\<open>SSL_pending\<close> from a script, and a read that drains what is pending.\<close>

fun shutdown_loop :: "nat \<Rightarrow> int \<Rightarrow> world \<Rightarrow> world" where
  "shutdown_loop 0 fd w = w"
| "shutdown_loop (Suc k) fd w =
    (case next_of (1, 0) (shutdowns w) fd of
       ((ret, pending), ss) \<Rightarrow>
         (let w = w\<lparr>shutdowns := ss\<rparr>;
              w = (if ret = 0 \<and> pending > 0
                   then (case server_read_client w fd True 4096 False of (_, _, _, _, w) \<Rightarrow> w) else w)
          in if ret \<le> 0 then shutdown_loop k fd w else w))"

definition server_close_client :: "int \<Rightarrow> bool \<Rightarrow> int \<Rightarrow> world \<Rightarrow> world" where
  "server_close_client fd tls ret_rw w =
     proc_close fd (if tls \<and> ret_rw \<noteq> - 2 then shutdown_loop 5 fd w else w)"

end
