(* ===== verification/HttpFlow.thy ===== *)
theory HttpFlow
  imports Server
begin

text \<open>
  The part of \<^verbatim>\<open>rena/src/http.c\<close> that moves bytes: \<^verbatim>\<open>http_pull\<close> reads from a client through the
  search for rules into the buffer of its HTTP structure, \<^verbatim>\<open>http_push\<close> sends what the peer's
  buffer holds, \<^verbatim>\<open>http_evaluate\<close> decides what happens to a connection that has been read.
  The loops that read end when the script of reads is exhausted.
\<close>

section \<open>Reading\<close>

text \<open>Into the buffer, if there is something: the two calls of \<^verbatim>\<open>update_buffer_forced\<close> in
  \<^verbatim>\<open>http_pull\<close>.\<close>

definition into_buffer :: "http \<Rightarrow> string \<Rightarrow> http option" where
  "into_buffer h s = map_option snd (update_buffer_forced h s)"

text \<open>One character of the inner loop of \<^verbatim>\<open>http_pull\<close>.\<close>

definition pull_char ::
  "tree_heap \<Rightarrow> string \<Rightarrow> bool \<Rightarrow> http option \<Rightarrow> http \<Rightarrow> char \<Rightarrow> http option" where
  "pull_char trees suff is_victim peer h c = do {
     (di, transformed, d) \<leftarrow> database_instance_lookup trees (lookup_tree h) c;
     if di = DBI_FEED_ME then do {
       d \<leftarrow> database_instance_add_input d c;
       Some (snd (check_delimiter_header (h\<lparr>lookup_tree := d\<rparr>) NUL)) }
     else do {
       (holding, d) \<leftarrow>
         (case transformed of
            Some _ \<Rightarrow> Some (database_instance_get_holding d True)
          | None \<Rightarrow> do { d \<leftarrow> database_instance_add_input d c; Some (database_instance_get_holding d False) });
       let h = h\<lparr>lookup_tree := d\<rparr>;
       h \<leftarrow> (if holding \<noteq> [] then into_buffer h holding else Some h);
       h \<leftarrow> (case transformed of
           Some t \<Rightarrow> do {
             h \<leftarrow> into_buffer h t;
             d \<leftarrow> database_instance_add_input (lookup_tree h) c;
             Some (h\<lparr>lookup_tree := d\<rparr>) }
         | None \<Rightarrow> Some h);
       (case check_delimiter_header h c of (fires, h) \<Rightarrow>
          if fires then http_evaluate_headers suff is_victim peer h else Some h) } }"

fun pull_chars ::
  "tree_heap \<Rightarrow> string \<Rightarrow> bool \<Rightarrow> http option \<Rightarrow> http \<Rightarrow> string \<Rightarrow> http option" where
  "pull_chars trees suff is_victim peer h [] = Some h"
| "pull_chars trees suff is_victim peer h (c # cs) = do {
     h \<leftarrow> pull_char trees suff is_victim peer h c;
     pull_chars trees suff is_victim peer h cs }"

text \<open>The HTTP structure of the peer, if there is a peer and it has one.\<close>

definition peer_protocol :: "world \<Rightarrow> client_position_t \<Rightarrow> http option option" where
  "peer_protocol w client = do {
     out \<leftarrow> clients_get_peer w client;
     (case out of
        None \<Rightarrow> Some None
      | Some peer \<Rightarrow> if p_info peer = None then Some None else clients_get_protocol w peer) }"

definition protocol_or_new :: "world \<Rightarrow> client_position_t \<Rightarrow> (http \<times> world) option" where
  "protocol_or_new w client = do {
     p \<leftarrow> clients_get_protocol w client;
     (case p of
        Some h \<Rightarrow> Some (h, w)
      | None \<Rightarrow> do {
          db \<leftarrow> rena_db w;
          let h = http_create db (p_type client = VICTIM_TYPE);
          w \<leftarrow> clients_set_protocol w client (Some h);
          Some (h, w) }) }"

text \<open>The outer loop: the last result, whether nothing was read, and the state.\<close>

partial_function (option) pull_loop ::
  "world \<Rightarrow> client_position_t \<Rightarrow> int \<Rightarrow> bool \<Rightarrow> bool \<Rightarrow> (int \<times> bool \<times> world) option" where [code]:
  "pull_loop w client cfd tls first =
    (case server_read_client w cfd tls MAX_STR False of (ret, r, bytes, retry, w) \<Rightarrow>
       if ret = 0 \<and> \<not> retry then
         (if r < 0 then None
          else do {
            (h, w) \<leftarrow> protocol_or_new w client;
            db \<leftarrow> rena_db w;
            peer \<leftarrow> peer_protocol w client;
            h \<leftarrow> pull_chars (rena_trees w) (suffix db) (p_type client = VICTIM_TYPE) peer h bytes;
            w \<leftarrow> clients_set_protocol w client (Some (h\<lparr>buffer_recv := buffer_recv h + nat r\<rparr>));
            pull_loop w client cfd tls False })
       else Some (ret, first, w))"

definition http_pull :: "world \<Rightarrow> client_position_t \<Rightarrow> int \<Rightarrow> (int \<times> world) option" where
  "http_pull w client fd = do {
     cfd \<leftarrow> clients_get_fd w client;
     cssl \<leftarrow> clients_get_ssl w client;
     if cfd \<noteq> fd then Some (- 1, w)
     else do {
       (ret, first, w) \<leftarrow> pull_loop w client cfd (cssl \<noteq> None) True;
       if ret < 0 then do {
         cprot \<leftarrow> clients_get_protocol w client;
         w \<leftarrow> (case cprot of
             None \<Rightarrow> Some w
           | Some h \<Rightarrow> do { (_, h) \<leftarrow> flush_pending_data_to_buffer h; clients_set_protocol w client (Some h) });
         let w = server_close_client cfd (cssl \<noteq> None) ret w;
         w \<leftarrow> clients_set_fd w client (- 1);
         Some (if cprot \<noteq> None then 0 else - 1, w) }
       else if first \<and> ret > 0 then do {
         w \<leftarrow> clients_set_want w client 1 (if ret = int TT_READ then 1 else 0);
         Some (ret, w) }
       else do { w \<leftarrow> clients_clear_want w client; Some (0, w) } } }"

section \<open>Writing\<close>

definition wrap64 :: "int \<Rightarrow> nat" where
  "wrap64 x = nat (x mod 2 ^ 64)"

text \<open>\<^verbatim>\<open>http_push2\<close>, with the structure \<open>pp\<close> of the peer, which is returned; more sent than used
  is the crash.\<close>

definition http_push2 :: "world \<Rightarrow> http \<Rightarrow> client_position_t \<Rightarrow> int \<Rightarrow> int \<Rightarrow> (int \<times> http \<times> world) option" where
  "http_push2 w pp client cfd pfd =
    (if buffer_sent pp > buffer_used pp then None
     else do {
       let buffer_sz = buffer_used pp - buffer_sent pp;
       want \<leftarrow> clients_get_want w client;
       if want = 0 \<and> buffer_sz = 0 then Some (int TT_READ, pp, w)
       else do {
         cssl \<leftarrow> clients_get_ssl w client;
         let (res, r, retry, w) = server_write_client w cfd (cssl \<noteq> None)
               (take buffer_sz (drop (buffer_sent pp) (hbuf pp))) False;
         if r = 0 then Some (if pfd < 0 then 0 else int TT_READ, pp, w)
         else if res < 0 then do {
           w \<leftarrow> clients_set_fd (server_close_client cfd (cssl \<noteq> None) res w) client (- 1);
           Some (- 1, pp, w) }
         else if res > 0 then do {
           w \<leftarrow> clients_set_want w client 0 (if res = int TT_READ then 1 else 0);
           Some (res, pp, w) }
         else do {
           w \<leftarrow> clients_clear_want w client;
           let pp = (if retry then pp else pp\<lparr>buffer_sent := wrap64 (int (buffer_sent pp) + r)\<rparr>);
           if \<not> retry \<and> pfd < 0 \<and> buffer_sent pp \<ge> buffer_used pp then Some (0, pp, w)
           else Some (if buffer_sent pp < buffer_used pp then int TT_WRITE else int TT_READ, pp, w) } } })"

definition http_push :: "world \<Rightarrow> client_position_t \<Rightarrow> int \<Rightarrow> (int \<times> world) option" where
  "http_push w client fd = do {
     cfd \<leftarrow> clients_get_fd w client;
     if cfd \<noteq> fd then Some (- 1, w)
     else do {
       (_, w) \<leftarrow> protocol_or_new w client;
       out \<leftarrow> clients_get_peer w client;
       pp \<leftarrow> peer_protocol w client;
       (case (out, pp) of
          (Some peer, Some pp) \<Rightarrow> do {
            pfd \<leftarrow> clients_get_fd w peer;
            (ret, pp, w) \<leftarrow> http_push2 w pp client cfd pfd;
            w \<leftarrow> clients_set_protocol w peer (Some pp);
            Some (ret, w) }
        | _ \<Rightarrow> Some (- 1, w)) } }"

section \<open>Deciding\<close>

text \<open>\<^verbatim>\<open>recover_address_from_hostname\<close>: the addresses, the port, whether to fall back, and the state.
  The first line is searched for a space up to a NUL or past the block (the crash); without one
  the process aborts.\<close>

definition recover_address_from_hostname ::
  "world \<Rightarrow> http \<Rightarrow> int \<Rightarrow> (ptr \<times> int \<times> bool \<times> world) option" where
  "recover_address_from_hostname w h port = do {
     (hr, host, port) \<leftarrow> get_n_split_hostname h port;
     if hr < 0 then Some (None, port, False, w)
     else if SPACE \<notin> set (cstr_of (hbuf h)) then None
     else do {
       c \<leftarrow> rena_config w;
       if strcasestr host (drop 1 (config_get_database_suffix c)) then Some (None, port, True, w)
       else (case server_address_from_host w host of (_, addresses, w) \<Rightarrow> Some (addresses, port, False, w)) } }"

definition dispatch_new_connection :: "world \<Rightarrow> client_position_t \<Rightarrow> http \<Rightarrow> (int \<times> world) option" where
  "dispatch_new_connection w client h = do {
     is_ssl \<leftarrow> clients_get_ssl w client;
     (addresses, port, fallback, w) \<leftarrow> recover_address_from_hostname w h
       (if is_ssl = None then DEFAULT_HTTP_PORT else DEFAULT_HTTPS_PORT);
     (case addresses of
        None \<Rightarrow> Some (if fallback then - 3 else - 1, w)
      | Some a \<Rightarrow> do {
          w \<leftarrow> clients_set_userdata w client (Some a);
          w \<leftarrow> server_address_set_port w (Some a) port;
          ai \<leftarrow> addrinfos w a;
          (vfd, w) \<leftarrow> server_socket_for_client w (ai_family ai);
          if vfd < 0 then Some (- 3, w)
          else do {
            (r, w) \<leftarrow> clients_add_peer w client vfd;
            out \<leftarrow> clients_get_peer w client;
            (case (r = 0, out) of
               (True, Some peer) \<Rightarrow> do {
                 (s, w) \<leftarrow> (if is_ssl = None then Some (0, w) else server_set_client_as_secure w peer);
                 if s \<noteq> 0 then Some (- 3, w)
                 else do {
                   w \<leftarrow> clients_set_userdata w peer (Some a);
                   server_try_client_connect w peer } }
             | _ \<Rightarrow> Some (- 3, w)) } }) }"

text \<open>\<^verbatim>\<open>http_evaluate\<close>.  It keeps the pointer to the HTTP structure over the flush; when the flush
  moved the structure, the later use of the pointer is the crash.\<close>

definition http_evaluate :: "world \<Rightarrow> client_position_t \<Rightarrow> (int \<times> world) option" where
  "http_evaluate w client = do {
     cprot \<leftarrow> clients_get_protocol w client;
     h \<leftarrow> cprot;
     if payload h = None then Some (int TT_READ, w)
     else (case check_payload_length h of (pret, flush_holding) \<Rightarrow> do {
       (moved, h, w) \<leftarrow>
         (if \<not> pret \<and> flush_holding then do {
            (moved, h) \<leftarrow> flush_pending_data_to_buffer h;
            w \<leftarrow> clients_set_protocol w client (Some h);
            Some (moved, h, w) }
          else Some (False, h, w));
       fd \<leftarrow> clients_get_fd w client;
       let eval_ret = (if fd < 0 then - 1 else int TT_READ);
       if p_type client = REQUESTER_TYPE then
         (if pret then Some (int TT_READ, w)
          else if moved then None
          else do {
            (ret, w) \<leftarrow> dispatch_new_connection w client h;
            if ret = - 3 then Some (- 1, w) else Some (eval_ret, w) })
       else Some (eval_ret, w) }) }"

text \<open>\<^verbatim>\<open>client_do_read\<close> and \<^verbatim>\<open>client_do_write\<close> of \<^verbatim>\<open>clients.c\<close>.\<close>

definition client_do_read :: "world \<Rightarrow> client_position_t \<Rightarrow> int \<Rightarrow> (int \<times> world) option" where
  "client_do_read w c fd = do {
     (ret, w) \<leftarrow> http_pull w c fd;
     if ret < 0 then Some (- 1, w)
     else if ret > 0 then Some (ret, w)
     else http_evaluate w c }"

definition client_do_write :: "world \<Rightarrow> client_position_t \<Rightarrow> int \<Rightarrow> (int \<times> world) option" where
  "client_do_write w c fd = do {
     (ret, w) \<leftarrow> http_push w c fd;
     if ret < 0 then Some (- 1, w)
     else if ret > 0 then Some (ret, w)
     else Some (0, w) }"

end
