(* ===== verification/TaskRunner.thy ===== *)
theory TaskRunner
  imports HttpFlow
begin

text \<open>
  The work on one task, \<^verbatim>\<open>rena/src/task_runner.c\<close>: the handlers of signals, new
  connections and clients, and \<^verbatim>\<open>task_handling\<close>, which chooses a handler and afterwards arms the
  descriptor again or drops the client.  The loop of the workers is in the theory of the
  pool.  \<^const>\<open>None\<close> is the crash.
\<close>

section \<open>Signals\<close>

definition proc_receive_signal :: "world \<Rightarrow> int \<Rightarrow> int \<times> world" where
  "proc_receive_signal w fd =
    (case signals w fd of [] \<Rightarrow> (- 1, w) | s # ss \<Rightarrow> (s, w\<lparr>signals := (signals w)(fd := ss)\<rparr>))"

definition SIGINT :: int where "SIGINT = 2"
definition SIGQUIT :: int where "SIGQUIT = 3"
definition SIGTERM :: int where "SIGTERM = 15"
definition SIGCHLD :: int where "SIGCHLD = 17"

lemmas signal_numbers = SIGINT_def SIGQUIT_def SIGTERM_def SIGCHLD_def

definition proc_terminal_signal :: "int \<Rightarrow> bool" where
  "proc_terminal_signal s \<longleftrightarrow> s = SIGQUIT \<or> s = SIGINT \<or> s = SIGTERM"

definition proc_respawn_signal :: "int \<Rightarrow> bool" where
  "proc_respawn_signal s \<longleftrightarrow> s = SIGCHLD"

definition note_signal :: "int \<Rightarrow> world \<Rightarrow> world" where
  "note_signal s w =
    (let w = (if proc_terminal_signal s then w\<lparr>forced_exit := True\<rparr> else w)
     in if proc_respawn_signal s \<and> \<not> forced_exit w then w\<lparr>forced_exit := True\<rparr> else w)"

lemma note_signal_signals [simp]: "signals (note_signal s w) = signals w"
  by (simp add: note_signal_def Let_def)

text \<open>The loop of \<^verbatim>\<open>handle_read_signal\<close>: until there is no signal.\<close>

function signal_loop :: "world \<Rightarrow> int \<Rightarrow> world" where
  "signal_loop w fd =
    (case proc_receive_signal w fd of (s, w) \<Rightarrow>
       if s \<ge> 0 then signal_loop (note_signal s w) fd else w)"
  by pat_completeness auto
termination
  by (relation "measure (\<lambda>(w, fd). length (signals w fd))")
    (auto simp: proc_receive_signal_def split: list.splits)

declare signal_loop.simps [simp del]

definition handle_read_signal :: "world \<Rightarrow> task \<Rightarrow> client_position_t \<Rightarrow> (int \<times> world) option" where
  "handle_read_signal w t c = Some (int EPOLLIN, signal_loop w (t_fd t))"

section \<open>New connections\<close>

text \<open>One connection that was accepted: the error code, and the state.\<close>

definition admit :: "world \<Rightarrow> int \<Rightarrow> ptr \<Rightarrow> (int \<times> world) option" where
  "admit w fd ssl = do {
     w \<leftarrow> clients_add w REQUESTER_TYPE fd;
     (err, w) \<leftarrow>
       (case ssl of
          None \<Rightarrow> Some (0 :: int, w)
        | Some s \<Rightarrow> do {
            out \<leftarrow> clients_search w fd;
            (case out of
               None \<Rightarrow> Some (2, w)
             | Some p \<Rightarrow> do { w \<leftarrow> clients_set_ssl w p (Some s); Some (0, w) }) });
     if err \<noteq> 0 then Some (3, w)
     else do {
       (r, w) \<leftarrow> server_notify w EPOLL_CTL_ADD fd EPOLLOUT;
       Some (if r \<noteq> 0 then 3 else 0, w) } }"

partial_function (option) accept_loop :: "world \<Rightarrow> int \<Rightarrow> bool \<Rightarrow> world option" where [code]:
  "accept_loop w svr want_tls =
     (case server_receive_client w svr want_tls of
        None \<Rightarrow> None
      | Some (fd, ssl, w) \<Rightarrow>
          if fd < 0 then Some w
          else do {
            (err, w) \<leftarrow> admit w fd ssl;
            if err \<noteq> 0 then Some (proc_close fd w) else accept_loop w svr want_tls })"

definition handle_accept :: "world \<Rightarrow> int \<Rightarrow> bool \<Rightarrow> (int \<times> world) option" where
  "handle_accept w svr want_tls = do { w \<leftarrow> accept_loop w svr want_tls; Some (int EPOLLIN, w) }"

definition handle_accept_http :: "world \<Rightarrow> task \<Rightarrow> client_position_t \<Rightarrow> (int \<times> world) option" where
  "handle_accept_http w t c = handle_accept w (t_fd t) False"

definition handle_accept_https :: "world \<Rightarrow> task \<Rightarrow> client_position_t \<Rightarrow> (int \<times> world) option" where
  "handle_accept_https w t c = handle_accept w (t_fd t) True"

section \<open>Clients\<close>

definition handle_handshake ::
  "world \<Rightarrow> task \<Rightarrow> client_position_t \<Rightarrow> ptr \<Rightarrow> (int \<times> world) option" where
  "handle_handshake w t c ssl = do {
     sslok \<leftarrow> clients_get_ssl_state w c;
     (r, w) \<leftarrow>
       (if sslok = 0 \<and> ssl \<noteq> None then
          (case server_handshake_client w (t_fd t) of (r, w) \<Rightarrow>
             if r \<noteq> 0 then
               Some (if r < 0 then - 1 else if r = int TT_READ then int EPOLLIN else int EPOLLOUT, w)
             else do { w \<leftarrow> clients_set_ssl_state w c 1; Some (0, w) })
        else Some (0, w));
     if r \<noteq> 0 then Some (r, w)
     else do { w \<leftarrow> clients_set_handshake w c 1; Some (0, w) } }"

text \<open>What both handlers do while the handshake is not done.\<close>

definition shake :: "world \<Rightarrow> task \<Rightarrow> client_position_t \<Rightarrow> ptr \<Rightarrow> (int \<times> world) option" where
  "shake w t c ssl = do {
     (r, w) \<leftarrow> handle_handshake w t c ssl;
     Some (if r \<noteq> 0 then r else if p_type c = VICTIM_TYPE then int EPOLLOUT else int EPOLLIN, w) }"

definition event_of :: "int \<Rightarrow> int" where
  "event_of r = (if r = int TT_READ then int EPOLLIN else if r = int TT_WRITE then int EPOLLOUT else r)"

definition handle_client_read :: "world \<Rightarrow> task \<Rightarrow> client_position_t \<Rightarrow> (int \<times> world) option" where
  "handle_client_read w t c = do {
     tcpok \<leftarrow> clients_get_tcp w c;
     ssl \<leftarrow> clients_get_ssl w c;
     hnd \<leftarrow> clients_get_handshake w c;
     if tcpok = 0 then Some (int EPOLLOUT, w)
     else if hnd = 0 then shake w t c ssl
     else do { (r, w) \<leftarrow> client_do_read w c (t_fd t); Some (event_of r, w) } }"

definition handle_client_write :: "world \<Rightarrow> task \<Rightarrow> client_position_t \<Rightarrow> (int \<times> world) option" where
  "handle_client_write w t c = do {
     tcpok \<leftarrow> clients_get_tcp w c;
     ssl \<leftarrow> clients_get_ssl w c;
     hnd \<leftarrow> clients_get_handshake w c;
     if tcpok = 0 \<and> server_tcp_connection_done w (t_fd t) \<noteq> 0 then
       (if p_type c \<noteq> VICTIM_TYPE then Some (- 1, w)
        else do {
          (r, w) \<leftarrow> server_try_client_connect w c;
          Some (if r \<noteq> 0 then - 1 else int EPOLLOUT, w) })
     else do {
       w \<leftarrow> (if tcpok = 0 then do {
           w \<leftarrow> clients_set_tcp w c 1;
           Some (if ssl \<noteq> None \<and> p_type c = VICTIM_TYPE then snd (server_client_set_ssl_data w) else w) }
         else Some w);
       if hnd = 0 then shake w t c ssl
       else do { (r, w) \<leftarrow> client_do_write w c (t_fd t); Some (event_of r, w) } } }"

text \<open>\<^verbatim>\<open>task_delete_client\<close>: the peer is woken up, the client is dropped with its queued tasks;
  the result is the position and the state.\<close>

definition wake_peer :: "world \<Rightarrow> client_position_t \<Rightarrow> world option" where
  "wake_peer w c = do {
     p \<leftarrow> clients_get_peer w c;
     (case p of
        None \<Rightarrow> Some w
      | Some p \<Rightarrow>
          if p_info p = None then Some w
          else do {
            fd \<leftarrow> clients_get_fd w p;
            (_, w) \<leftarrow> server_notify w EPOLL_CTL_MOD fd EPOLLOUT;
            Some w }) }"

definition task_delete_client :: "world \<Rightarrow> task \<Rightarrow> client_position_t \<Rightarrow> (client_position_t \<times> world) option" where
  "task_delete_client w t c = do {
     w \<leftarrow> wake_peer w c;
     (r, c, w) \<leftarrow> clients_del w c;
     if r \<noteq> 0 then Some (c, w)
     else do {
       tm \<leftarrow> rena_tm w;
       tm \<leftarrow> task_manager_task_drop_fd tm (t_fd t);
       Some (c, w\<lparr>rena_tm := Some tm\<rparr>) } }"

section \<open>A task\<close>

type_synonym handler = "world \<Rightarrow> task \<Rightarrow> client_position_t \<Rightarrow> (int \<times> world) option"

text \<open>The function pointers that \<^verbatim>\<open>task_handling\<close> chooses by the type of the task; \<open>found\<close> is
  whether there is a client with the descriptor.\<close>

definition fnc_read :: "nat \<Rightarrow> bool \<Rightarrow> handler option" where
  "fnc_read tt found =
    (if tt < TT_READ then None
     else if tt < TT_NORMAL_READ then (if found then Some handle_client_read else None)
     else if tt < TT_SECURE_READ then Some handle_accept_http
     else if tt < TT_SIGNAL_READ then Some handle_accept_https
     else Some handle_read_signal)"

definition fnc_write :: "nat \<Rightarrow> bool \<Rightarrow> handler option" where
  "fnc_write tt found =
    (if TT_READ \<le> tt \<and> tt < TT_NORMAL_READ \<and> found then Some handle_client_write else None)"

definition no_position :: client_position_t where
  "no_position = \<lparr>p_info = None, p_type = INVALID_TYPE, p_pos = None\<rparr>"

text \<open>The type after the wish of a TLS connection: bit 2 of the wish is to read.\<close>

definition wanted_type :: "int \<Rightarrow> nat \<Rightarrow> nat" where
  "wanted_type swant tt =
    (if swant > 1 then
       (if (swant div 4) mod 2 \<noteq> 0 then (if even tt then tt + 1 else tt)
        else (if odd tt then tt - 1 else tt))
     else tt)"

text \<open>The call of the handler: the new events, whether there was no handler, and the state.\<close>

definition call_handler ::
  "world \<Rightarrow> task \<Rightarrow> client_position_t \<Rightarrow> handler option \<Rightarrow> handler option \<Rightarrow> (int \<times> bool \<times> world) option" where
  "call_handler w t cp rd wr =
    (case (if odd (t_type t) then rd else if t_type t > 0 then wr else None) of
       None \<Rightarrow> Some (0, True, w)
     | Some f \<Rightarrow> do { (mod_fd, w) \<leftarrow> f w t cp; Some (mod_fd, False, w) })"

text \<open>After the handler: arm the descriptor again, or drop the client.\<close>

definition rearm ::
  "world \<Rightarrow> task \<Rightarrow> client_position_t \<Rightarrow> int \<Rightarrow> bool \<Rightarrow> (bool \<times> client_position_t \<times> world) option" where
  "rearm w t cp mod_fd error =
    (if mod_fd \<le> 0 \<or> \<not> proc_valid_fd w (t_fd t)
     then do { (cp, w) \<leftarrow> task_delete_client w t cp; Some (True, cp, w) }
     else do {
       (rn, w) \<leftarrow> server_notify w EPOLL_CTL_MOD (t_fd t) (nat mod_fd);
       if rn = - 1 then do { (cp, w) \<leftarrow> task_delete_client w t cp; Some (True, cp, w) }
       else if rn < 0 then do {
         (rn, w) \<leftarrow> server_notify w EPOLL_CTL_ADD (t_fd t) (nat mod_fd);
         if rn < 0 then do { (cp, w) \<leftarrow> task_delete_client w t cp; Some (True, cp, w) }
         else Some (error, cp, w) }
       else Some (error, cp, w) })"

text \<open>What a victim that was read has to say to its requester.\<close>

definition notify_requester :: "world \<Rightarrow> task \<Rightarrow> client_position_t \<Rightarrow> world option" where
  "notify_requester w t cp =
    (if p_type cp \<noteq> VICTIM_TYPE then Some w
     else do {
       h \<leftarrow> clients_get_handshake w cp;
       if h \<noteq> 1 \<or> even (t_type t) then Some w
       else do {
         prot \<leftarrow> clients_get_protocol w cp;
         if prot = None then Some w
         else do {
           peer \<leftarrow> clients_get_peer w cp;
           pfd \<leftarrow> (case peer of
               None \<Rightarrow> Some (- 1)
             | Some q \<Rightarrow> if p_info q = None then Some (- 1) else clients_get_fd w q);
           if pfd < 0 then Some w
           else do { (_, w) \<leftarrow> server_notify w EPOLL_CTL_MOD pfd EPOLLOUT; Some w } } } })"

definition finish_client :: "world \<Rightarrow> client_position_t \<Rightarrow> world option" where
  "finish_client w cp = (if p_type cp = INVALID_TYPE then Some w else clients_set_working w cp 0)"

text \<open>From the call of the handler to the end of \<^verbatim>\<open>task_handling\<close>.\<close>

definition perform ::
  "world \<Rightarrow> task \<Rightarrow> client_position_t \<Rightarrow> handler option \<Rightarrow> handler option \<Rightarrow> world option" where
  "perform w t cp rd wr = do {
     (mod_fd, error, w) \<leftarrow> call_handler w t cp rd wr;
     (error, cp, w) \<leftarrow> rearm w t cp mod_fd error;
     w \<leftarrow> (if error then Some w else notify_requester w t cp);
     finish_client w cp }"

text \<open>The task of a client that is in the registry, unless another worker works on it: then the
  task has to be queued again.\<close>

definition client_task :: "world \<Rightarrow> task \<Rightarrow> client_position_t \<Rightarrow> (task option \<times> world) option" where
  "client_task w t cp = do {
     working \<leftarrow> clients_get_working w cp;
     if working \<noteq> 0 then Some (Some t, w)
     else do {
       w \<leftarrow> clients_set_working w cp 1;
       swant \<leftarrow> clients_get_want w cp;
       w \<leftarrow> perform w (t\<lparr>t_type := wanted_type swant (t_type t)\<rparr>) cp
              (fnc_read (t_type t) True) (fnc_write (t_type t) True);
       Some (None, w) } }"

text \<open>\<^verbatim>\<open>task_handling\<close>: the task that has to be queued again, which is the last thing it does,
  and the state.\<close>

definition task_handling :: "world \<Rightarrow> task option \<Rightarrow> (task option \<times> world) option" where
  "task_handling w task =
    (case task of
       None \<Rightarrow> Some (None, w)
     | Some t \<Rightarrow>
         if t_fd t < 0 then Some (None, w)
         else do {
           found \<leftarrow> (if TT_READ \<le> t_type t \<and> t_type t < TT_NORMAL_READ
                    then clients_search w (t_fd t) else Some None);
           (case found of
              None \<Rightarrow> do {
                w \<leftarrow> perform w t no_position (fnc_read (t_type t) False) (fnc_write (t_type t) False);
                Some (None, w) }
            | Some cp \<Rightarrow> client_task w t cp) })"

section \<open>The end\<close>

text \<open>\<^verbatim>\<open>task_runner_destroy\<close>: the queue is emptied and the clients are destroyed.\<close>

fun drain_queue :: "nat \<Rightarrow> task_manager \<Rightarrow> task_manager option" where
  "drain_queue 0 tm = Some tm"
| "drain_queue (Suc k) tm = do { (_, tm) \<leftarrow> task_manager_task_consume tm; drain_queue k tm }"

definition task_runner_destroy :: "world \<Rightarrow> world option" where
  "task_runner_destroy w = do {
     tm \<leftarrow> rena_tm w;
     tm \<leftarrow> drain_queue (task_manager_task_queue_size tm) tm;
     clients_destroy (w\<lparr>rena_tm := Some tm\<rparr>) }"

end
