(* ===== verification/Frame.thy ===== *)
theory Frame
  imports TaskRunner
begin

text \<open>
  What the handlers keep.  The locale \<open>world_invariant\<close> is about a property of the state that does not depend on the
  descriptors, the scripts and the fields of a client: if the operations that change the registry
  keep it, then so does everything that is built on them, up to the handlers.  It is interpreted here for the
  modules of the proxy, and in another theory for the well-formedness of the registry.
\<close>

section \<open>Results that satisfy a property\<close>

definition keeps :: "(world \<Rightarrow> bool) \<Rightarrow> ('a \<Rightarrow> world) \<Rightarrow> 'a option \<Rightarrow> bool" where
  "keeps P g r \<longleftrightarrow> (\<forall>x. r = Some x \<longrightarrow> P (g x))"

lemma keepsD: "keeps P g r \<Longrightarrow> r = Some x \<Longrightarrow> P (g x)"
  by (simp add: keeps_def)

lemma keepsD3: "keeps P (\<lambda>(_, _, w). w) r \<Longrightarrow> r = Some x \<Longrightarrow> (case x of (_, _, w) \<Rightarrow> P w)"
  by (cases x) (simp add: keeps_def)

lemma keeps_None: "keeps P g None"
  by (simp add: keeps_def)

lemma keeps_Some: "P (g x) \<Longrightarrow> keeps P g (Some x)"
  by (simp add: keeps_def)

lemma keeps_bind_world:
  fixes m :: "world option"
  shows "keeps P (\<lambda>w. w) m \<Longrightarrow> (\<And>w. P w \<Longrightarrow> keeps P g (f w)) \<Longrightarrow> keeps P g (m \<bind> f)"
  by (auto simp: keeps_def bind_eq_Some_conv)

lemma keeps_bind_pair:
  fixes m :: "('a \<times> world) option"
  shows "keeps P snd m \<Longrightarrow> (\<And>a w. P w \<Longrightarrow> keeps P g (f a w)) \<Longrightarrow> keeps P g (m \<bind> (\<lambda>(a, w). f a w))"
  by (fastforce simp: keeps_def bind_eq_Some_conv)

lemma keeps_bind_triple:
  fixes m :: "('a \<times> 'b \<times> world) option"
  shows "keeps P (\<lambda>(_, _, w). w) m \<Longrightarrow> (\<And>a b w. P w \<Longrightarrow> keeps P g (f a b w)) \<Longrightarrow>
    keeps P g (m \<bind> (\<lambda>(a, b, w). f a b w))"
  by (fastforce simp: keeps_def bind_eq_Some_conv)

lemma keeps_bind_quad:
  fixes m :: "('a \<times> 'b \<times> 'd \<times> world) option"
  shows "keeps P (\<lambda>(_, _, _, w). w) m \<Longrightarrow> (\<And>a b d w. P w \<Longrightarrow> keeps P g (f a b d w)) \<Longrightarrow>
    keeps P g (m \<bind> (\<lambda>(a, b, d, w). f a b d w))"
  by (fastforce simp: keeps_def bind_eq_Some_conv)

lemma keeps_bind_pure: "(\<And>x. keeps P g (f x)) \<Longrightarrow> keeps P g (m \<bind> f)"
  by (auto simp: keeps_def bind_eq_Some_conv)

lemma keeps_case_prod:
  "(\<And>a b. x = (a, b) \<Longrightarrow> keeps P g (f a b)) \<Longrightarrow> keeps P g (case x of (a, b) \<Rightarrow> f a b)"
  by (cases x) simp

lemma keeps_if: "(b \<Longrightarrow> keeps P g x) \<Longrightarrow> (\<not> b \<Longrightarrow> keeps P g y) \<Longrightarrow> keeps P g (if b then x else y)"
  by simp

lemma keeps_case_option:
  "(x = None \<Longrightarrow> keeps P g n) \<Longrightarrow> (\<And>a. x = Some a \<Longrightarrow> keeps P g (s a)) \<Longrightarrow>
    keeps P g (case x of None \<Rightarrow> n | Some a \<Rightarrow> s a)"
  by (cases x) auto

lemma keeps_case_sum:
  "(\<And>a. x = Inl a \<Longrightarrow> keeps P g (f a)) \<Longrightarrow> (\<And>a. x = Inr a \<Longrightarrow> keeps P g (f' a)) \<Longrightarrow>
    keeps P g (case x of Inl a \<Rightarrow> f a | Inr a \<Rightarrow> f' a)"
  by (cases x) auto

lemma keeps_case_bool: "keeps P g x \<Longrightarrow> keeps P g y \<Longrightarrow> keeps P g (case b of True \<Rightarrow> x | False \<Rightarrow> y)"
  by (cases b) auto

lemma keeps_case_triple:
  fixes m :: "('a \<times> 'b \<times> world) option"
  shows "keeps P (\<lambda>(_, _, w). w) m \<Longrightarrow> (\<And>a b w. P w \<Longrightarrow> keeps P g (f a b w)) \<Longrightarrow>
    keeps P g (case m of None \<Rightarrow> None | Some (a, b, w) \<Rightarrow> f a b w)"
  by (fastforce simp: keeps_def split: option.splits)

lemmas keeps_struct =
  keeps_bind_world keeps_bind_pair keeps_bind_triple keeps_bind_quad keeps_bind_pure
  keeps_case_prod keeps_if keeps_case_option keeps_case_sum keeps_case_bool keeps_Some keeps_None

section \<open>The interface\<close>

locale script_blind =
  fixes P :: "world \<Rightarrow> bool"
  assumes P_scripts: "P w \<Longrightarrow> P (w\<lparr>reads := a\<rparr>)" "P w \<Longrightarrow> P (w\<lparr>writes := a\<rparr>)" "P w \<Longrightarrow> P (w\<lparr>handshakes := a\<rparr>)"
      "P w \<Longrightarrow> P (w\<lparr>accepts := b\<rparr>)" "P w \<Longrightarrow> P (w\<lparr>connects := c\<rparr>)" "P w \<Longrightarrow> P (w\<lparr>sockets := d\<rparr>)"
      "P w \<Longrightarrow> P (w\<lparr>oks := e\<rparr>)" "P w \<Longrightarrow> P (w\<lparr>shutdowns := f\<rparr>)"
    and P_kernel: "P w \<Longrightarrow> P (w\<lparr>open_fd := g\<rparr>)" "P w \<Longrightarrow> P (w\<lparr>interest := h\<rparr>)" "P w \<Longrightarrow> P (w\<lparr>trace := i\<rparr>)"
    and P_memory: "P w \<Longrightarrow> P (w\<lparr>addrinfos := j\<rparr>)" "P w \<Longrightarrow> P (w\<lparr>w_brk := Suc (w_brk w)\<rparr>)"
begin

named_theorems keeps_rules \<open>operations that keep the property\<close>
named_theorems frames \<open>total operations that keep the property\<close>

lemma P_calls: "P w \<Longrightarrow> P (emit e w)" "P w \<Longrightarrow> P (proc_close fd w)"
  by (simp_all add: emit_def proc_close_def P_kernel)

lemma P_if: "(b \<Longrightarrow> P v) \<Longrightarrow> (\<not> b \<Longrightarrow> P w) \<Longrightarrow> P (if b then v else w)"
  by simp

lemmas P_intros = P_scripts P_kernel P_memory P_calls P_if

lemma pure_pairs [frames]:
  "next_ok w = (b, w') \<Longrightarrow> P w \<Longrightarrow> P w'"
  "new_addr w = (a, w') \<Longrightarrow> P w \<Longrightarrow> P w'"
  "epoll_ctl oper fd evs w = (e, w') \<Longrightarrow> P w \<Longrightarrow> P w'"
  "next_fd w = (r, w') \<Longrightarrow> P w \<Longrightarrow> P w'"
  by (auto simp: next_ok_def new_addr_def epoll_ctl_def next_fd_def Let_def
      split: list.splits epoll_op.splits if_splits sum.splits intro: P_intros)

end

locale world_invariant = script_blind +
  assumes P_info: "P w \<Longrightarrow> infos w k = Some ci \<Longrightarrow> P (w\<lparr>infos := (infos w)(k \<mapsto> ci')\<rparr>)"
    and P_add: "P w \<Longrightarrow> clients_add w t fd = Some w' \<Longrightarrow> P w'"
    and P_add_peer: "P w \<Longrightarrow> clients_add_peer w p fd = Some (r, w') \<Longrightarrow> P w'"
    and P_del: "P w \<Longrightarrow> clients_del w p = Some (q, p', w') \<Longrightarrow> P w'"
begin

lemma keeps_info_upd [keeps_rules]: "P w \<Longrightarrow> keeps P (\<lambda>w. w) (info_upd w p f)"
  by (auto simp: keeps_def info_upd_def bind_eq_Some_conv P_info)

lemma keeps_setters [keeps_rules]:
  "P w \<Longrightarrow> keeps P (\<lambda>w. w) (clients_set_tcp w p s)"
  "P w \<Longrightarrow> keeps P (\<lambda>w. w) (clients_set_working w p s)"
  "P w \<Longrightarrow> keeps P (\<lambda>w. w) (clients_set_fd w p s)"
  "P w \<Longrightarrow> keeps P (\<lambda>w. w) (clients_set_ssl w p q)"
  "P w \<Longrightarrow> keeps P (\<lambda>w. w) (clients_set_ssl_state w p s)"
  "P w \<Longrightarrow> keeps P (\<lambda>w. w) (clients_set_protocol w p h)"
  "P w \<Longrightarrow> keeps P (\<lambda>w. w) (clients_set_userdata w p q)"
  "P w \<Longrightarrow> keeps P (\<lambda>w. w) (clients_set_handshake w p s)"
  "P w \<Longrightarrow> keeps P (\<lambda>w. w) (clients_set_want w p m s)"
  "P w \<Longrightarrow> keeps P (\<lambda>w. w) (clients_clear_want w p)"
  unfolding clients_set_tcp_def clients_set_working_def clients_set_fd_def clients_set_ssl_def
    clients_set_ssl_state_def clients_set_protocol_def clients_set_userdata_def
    clients_set_handshake_def clients_set_want_def clients_clear_want_def
  by (erule keeps_info_upd)+

lemma keeps_registry_ops [keeps_rules]:
  "P w \<Longrightarrow> keeps P (\<lambda>w. w) (clients_add w t fd)"
  "P w \<Longrightarrow> keeps P snd (clients_add_peer w p fd)"
  "P w \<Longrightarrow> keeps P (\<lambda>(_, _, w). w) (clients_del w p)"
  by (auto simp: keeps_def intro: P_add P_add_peer P_del)

text \<open>Sockets.\<close>

lemma keeps_server_notify [keeps_rules]:
  "P w \<Longrightarrow> keeps P snd (server_notify2 w oper fd m)"
  "P w \<Longrightarrow> keeps P snd (server_notify w oper fd m)"
  unfolding server_notify_def server_notify2_def Let_def
  by (assumption | rule keeps_rules keeps_struct P_intros | erule frames | simp)+

lemma pure_sockets [frames]:
  "fd_set_common_flags fd w = (r, w') \<Longrightarrow> P w \<Longrightarrow> P w'"
  "create_socket family w = (r, w') \<Longrightarrow> P w \<Longrightarrow> P w'"
  by (auto simp: create_socket_def fd_set_common_flags_def Let_def split: if_splits prod.splits
      dest!: frames intro: P_intros)

lemma keeps_socket_for_client [keeps_rules]: "P w \<Longrightarrow> keeps P snd (server_socket_for_client w family)"
  unfolding server_socket_for_client_def Let_def by (assumption | rule keeps_rules keeps_struct P_intros | erule frames | simp)+

lemma keeps_receive_client [keeps_rules]: "P w \<Longrightarrow> keeps P (\<lambda>(_, _, w). w) (server_receive_client w fd b)"
  unfolding server_receive_client_def Let_def
  by (assumption | rule keeps_rules keeps_struct P_intros | erule frames | simp)+

lemma pure_reads [frames]:
  "server_handshake_client w fd = (r, w') \<Longrightarrow> P w \<Longrightarrow> P w'"
  "server_read_client w fd tls n b = (ret, k, s, b', w') \<Longrightarrow> P w \<Longrightarrow> P w'"
  "server_write_client w fd tls t b = (ret, k, b', w') \<Longrightarrow> P w \<Longrightarrow> P w'"
  by (auto simp: server_handshake_client_def server_read_client_def server_write_client_def Let_def
      split: prod.splits reply.splits if_splits intro: P_intros)

lemma pure_alloc_chain [frames]: "alloc_chain as w = (p, w') \<Longrightarrow> P w \<Longrightarrow> P w'"
  by (induction as w arbitrary: p w' rule: alloc_chain.induct)
    (auto simp: Let_def split: prod.splits dest!: frames intro: P_intros)

lemma pure_address_from_host [frames]: "server_address_from_host w h = (r, p, w') \<Longrightarrow> P w \<Longrightarrow> P w'"
  by (auto simp: server_address_from_host_def split: option.splits prod.splits dest!: frames)

lemma keeps_set_port [keeps_rules]: "P w \<Longrightarrow> keeps P (\<lambda>w. w) (server_address_set_port w q port)"
proof -
  have "P w \<longrightarrow> P w'" if "server_address_set_port w q port = Some w'" for w'
  proof (rule server_address_set_port.raw_induct [where P = "\<lambda>w q n w'. P w \<longrightarrow> P w'", OF _ that], goal_cases)
    case (1 f w a port w')
    have [keeps_rules]: "P v \<Longrightarrow> keeps P (\<lambda>w. w) (f v b x)" for v b x
      using 1(1) by (auto simp: keeps_def)
    show ?case by (rule impI, rule keepsD [OF _ 1(2), where g = "\<lambda>w. w"]) ((simp only: Let_def)?, (assumption | rule keeps_rules keeps_struct P_intros | erule frames | simp)+)
  qed
  then show "P w \<Longrightarrow> keeps P (\<lambda>w. w) (server_address_set_port w q port)" by (auto simp: keeps_def)
qed

lemma keeps_set_secure [keeps_rules]: "P w \<Longrightarrow> keeps P snd (server_set_client_as_secure w p)"
  unfolding server_set_client_as_secure_def Let_def by (assumption | rule keeps_rules keeps_struct P_intros | erule frames | simp)+

lemma keeps_client_connect [keeps_rules]: "P w \<Longrightarrow> keeps P snd (server_client_connect w p)"
  unfolding server_client_connect_def Let_def by (assumption | rule keeps_rules keeps_struct P_intros | erule frames | simp)+

lemma keeps_try_loop [keeps_rules]: "P w \<Longrightarrow> keeps P snd (try_connect_loop w p q r)"
proof -
  have "P w \<longrightarrow> P (snd x)" if "try_connect_loop w p q r = Some x" for x
  proof (rule try_connect_loop.raw_induct [where P = "\<lambda>w p q r x. P w \<longrightarrow> P (snd x)", OF _ that], goal_cases)
    case (1 f w p q r x)
    have [keeps_rules]: "P v \<Longrightarrow> keeps P snd (f v b y z)" for v b y z
      using 1(1) by (auto simp: keeps_def)
    show ?case by (rule impI, rule keepsD [OF _ 1(2)]) ((simp only: Let_def)?, (assumption | rule keeps_rules keeps_struct P_intros | erule frames | simp)+)
  qed
  then show "P w \<Longrightarrow> keeps P snd (try_connect_loop w p q r)" by (auto simp: keeps_def)
qed

lemma keeps_try_connect [keeps_rules]: "P w \<Longrightarrow> keeps P snd (server_try_client_connect w p)"
  unfolding server_try_client_connect_def by (assumption | rule keeps_rules keeps_struct P_intros | erule frames | simp)+

lemma pure_shutdown [keeps_rules]: "P w \<Longrightarrow> P (shutdown_loop k fd w)"
proof (induction k arbitrary: w)
  case (Suc k)
  obtain ret pending ss where n: "next_of (1, 0) (shutdowns w) fd = ((ret, pending), ss)" by (metis surj_pair)
  obtain a b c d w1 where r: "server_read_client (w\<lparr>shutdowns := ss\<rparr>) fd True 4096 False = (a, b, c, d, w1)"
    by (metis prod_cases5)
  have "P (w\<lparr>shutdowns := ss\<rparr>)" using Suc.prems by (rule P_scripts)
  moreover from this have "P w1" using r by (blast dest: frames)
  ultimately show ?case using n r Suc.IH by (auto simp: Let_def)
qed simp

lemma pure_close_client [keeps_rules]: "P w \<Longrightarrow> P (server_close_client fd tls r w)"
  unfolding server_close_client_def by (intro P_calls P_if pure_shutdown)

lemma pure_ssl_data [keeps_rules]: "P w \<Longrightarrow> P (snd (server_client_set_ssl_data w))"
  by (auto simp: server_client_set_ssl_data_def Let_def split: prod.splits dest!: frames)

text \<open>The flow of bytes.\<close>

lemma keeps_protocol_or_new [keeps_rules]: "P w \<Longrightarrow> keeps P snd (protocol_or_new w p)"
  unfolding protocol_or_new_def Let_def by (assumption | rule keeps_rules keeps_struct P_intros | erule frames | simp)+

lemma keeps_pull_loop [keeps_rules]: "P w \<Longrightarrow> keeps P (\<lambda>(_, _, w). w) (pull_loop w p fd tls first)"
proof -
  have "P w \<longrightarrow> (case x of (_, _, w') \<Rightarrow> P w')" if "pull_loop w p fd tls first = Some x" for x
  proof (rule pull_loop.raw_induct [where P = "\<lambda>w p fd t b x. P w \<longrightarrow> (case x of (_, _, w') \<Rightarrow> P w')", OF _ that], goal_cases)
    case (1 f w p fd tls first x)
    have [keeps_rules]: "P v \<Longrightarrow> keeps P (\<lambda>(_, _, w). w) (f v b y z z')" for v b y z z'
      using 1(1) by (auto simp: keeps_def)
    show ?case
      by (rule impI, rule keepsD3 [OF _ 1(2)]) ((simp only: Let_def)?, (assumption | rule keeps_rules keeps_struct P_intros | erule frames | simp)+)
  qed
  then show "P w \<Longrightarrow> keeps P (\<lambda>(_, _, w). w) (pull_loop w p fd tls first)"
    by (auto simp: keeps_def split: prod.splits)
qed

lemma keeps_http_pull [keeps_rules]: "P w \<Longrightarrow> keeps P snd (http_pull w p fd)"
  unfolding http_pull_def Let_def by (assumption | rule keeps_rules keeps_struct P_intros | erule frames | simp)+

lemma keeps_http_push2 [keeps_rules]: "P w \<Longrightarrow> keeps P (\<lambda>(_, _, w). w) (http_push2 w pp p cfd pfd)"
  unfolding http_push2_def Let_def by (assumption | rule keeps_rules keeps_struct P_intros | erule frames | simp)+

lemma keeps_http_push [keeps_rules]: "P w \<Longrightarrow> keeps P snd (http_push w p fd)"
  unfolding http_push_def Let_def by (assumption | rule keeps_rules keeps_struct P_intros | erule frames | simp)+

lemma keeps_recover [keeps_rules]:
  "P w \<Longrightarrow> keeps P (\<lambda>(_, _, _, w). w) (recover_address_from_hostname w h port)"
  unfolding recover_address_from_hostname_def
  by (assumption | rule keeps_rules keeps_struct P_intros | erule frames | simp)+

lemma keeps_dispatch [keeps_rules]: "P w \<Longrightarrow> keeps P snd (dispatch_new_connection w p h)"
  unfolding dispatch_new_connection_def
  by (assumption | rule keeps_rules keeps_struct P_intros | erule frames | simp)+

lemma keeps_evaluate [keeps_rules]: "P w \<Longrightarrow> keeps P snd (http_evaluate w p)"
  unfolding http_evaluate_def Let_def
  by (assumption | rule keeps_rules keeps_struct P_intros | erule frames | simp)+

lemma keeps_client_do [keeps_rules]:
  "P w \<Longrightarrow> keeps P snd (client_do_read w p fd)"
  "P w \<Longrightarrow> keeps P snd (client_do_write w p fd)"
  unfolding client_do_read_def client_do_write_def by (assumption | rule keeps_rules keeps_struct P_intros | erule frames | simp)+

text \<open>The handlers.\<close>

lemma keeps_admit [keeps_rules]: "P w \<Longrightarrow> keeps P snd (admit w fd ssl)"
  unfolding admit_def by (assumption | rule keeps_rules keeps_struct P_intros | erule frames | simp)+

lemma keeps_accept_loop [keeps_rules]: "P w \<Longrightarrow> keeps P (\<lambda>w. w) (accept_loop w fd b)"
proof -
  have "P w \<longrightarrow> P w'" if "accept_loop w fd b = Some w'" for w'
  proof (rule accept_loop.raw_induct [where P = "\<lambda>w fd b w'. P w \<longrightarrow> P w'", OF _ that], goal_cases)
    case (1 f w fd b w')
    have [keeps_rules]: "P v \<Longrightarrow> keeps P (\<lambda>w. w) (f v x y)" for v x y
      using 1(1) by (auto simp: keeps_def)
    show ?case
      by (rule impI, rule keepsD [OF _ 1(2), where g = "\<lambda>w. w"])
        (assumption | rule keeps_case_triple keeps_rules keeps_struct P_intros | erule frames | simp)+
  qed
  then show "P w \<Longrightarrow> keeps P (\<lambda>w. w) (accept_loop w fd b)" by (auto simp: keeps_def)
qed

lemma keeps_shake [keeps_rules]: "P w \<Longrightarrow> keeps P snd (shake w t p ssl)"
  unfolding shake_def handle_handshake_def
  by (assumption | rule keeps_rules keeps_struct P_intros | erule frames | simp)+

lemma keeps_accept [keeps_rules]:
  "P w \<Longrightarrow> keeps P snd (handle_accept_http w t p)"
  "P w \<Longrightarrow> keeps P snd (handle_accept_https w t p)"
  unfolding handle_accept_http_def handle_accept_https_def handle_accept_def by (assumption | rule keeps_rules keeps_struct P_intros | erule frames | simp)+

lemma keeps_client_read [keeps_rules]: "P w \<Longrightarrow> keeps P snd (handle_client_read w t p)"
  unfolding handle_client_read_def by (assumption | rule keeps_rules keeps_struct P_intros | erule frames | simp)+

lemma keeps_client_write [keeps_rules]: "P w \<Longrightarrow> keeps P snd (handle_client_write w t p)"
  unfolding handle_client_write_def
  by (assumption | rule keeps_rules keeps_struct P_intros | erule frames | simp)+
end

section \<open>Properties that do not look at the registry\<close>

locale registry_blind = script_blind +
  assumes P_registry: "P w \<Longrightarrow> P (w\<lparr>infos := x\<rparr>)" "P w \<Longrightarrow> P (w\<lparr>cnodes := y\<rparr>)" "P w \<Longrightarrow> P (w\<lparr>rena_clients := z\<rparr>)"
begin

lemma pure_add_ci [frames]: "clients_add_ci w fd = (a, w') \<Longrightarrow> P w \<Longrightarrow> P w'"
  by (auto simp: clients_add_ci_def Let_def split: prod.splits dest!: frames intro: P_registry)

lemma keeps_node_upd [keeps_rules]: "P w \<Longrightarrow> keeps P (\<lambda>w. w) (node_upd w q f)"
  by (auto simp: keeps_def node_upd_def bind_eq_Some_conv P_registry)

lemma blind_add: "P w \<Longrightarrow> keeps P (\<lambda>w. w) (clients_add w t fd)"
  unfolding clients_add_def Let_def by (assumption | rule keeps_rules keeps_struct P_intros P_registry | erule frames | simp)+

lemma blind_add_peer: "P w \<Longrightarrow> keeps P snd (clients_add_peer w p fd)"
  unfolding clients_add_peer_def Let_def by (assumption | rule keeps_rules keeps_struct P_intros P_registry | erule frames | simp)+

lemma blind_info_destroy [keeps_rules]: "P w \<Longrightarrow> keeps P snd (client_info_destroy w i b)"
  unfolding client_info_destroy_def Let_def
  by (auto simp: keeps_def bind_eq_Some_conv intro!: P_calls P_registry split: option.splits if_splits)

lemma blind_free_chain [keeps_rules]: "P w \<Longrightarrow> keeps P (\<lambda>w. w) (free_chain w a)"
proof -
  have "P w \<longrightarrow> P w'" if "free_chain w a = Some w'" for w'
  proof (rule free_chain.raw_induct [where P = "\<lambda>w a w'. P w \<longrightarrow> P w'", OF _ that], goal_cases)
    case (1 f w a w')
    have [keeps_rules]: "P v \<Longrightarrow> keeps P (\<lambda>w. w) (f v b)" for v b
      using 1(1) by (auto simp: keeps_def)
    show ?case by (rule impI, rule keepsD [OF _ 1(2), where g = "\<lambda>w. w"]) (simp only: Let_def, (assumption | rule keeps_rules keeps_struct P_intros P_registry | erule frames | simp)+)
  qed
  then show "P w \<Longrightarrow> keeps P (\<lambda>w. w) (free_chain w a)" by (auto simp: keeps_def)
qed

lemma blind_freeaddrinfo [keeps_rules]: "P w \<Longrightarrow> keeps P (\<lambda>w. w) (freeaddrinfo w a)"
  unfolding freeaddrinfo_def by (assumption | rule keeps_rules keeps_struct P_intros P_registry | erule frames | simp)+

lemma blind_del_parts [keeps_rules]:
  "P w \<Longrightarrow> keeps P (\<lambda>w. w) (del_requester w pos)"
  "P w \<Longrightarrow> keeps P (\<lambda>w. w) (del_victim w pos)"
  "P w \<Longrightarrow> keeps P (\<lambda>w. w) (del_node w cs pos n)"
  unfolding del_requester_def del_victim_def del_node_def Let_def by (assumption | rule keeps_rules keeps_struct P_intros P_registry | erule frames | simp)+

lemma blind_del_pair [keeps_rules]: "P w \<Longrightarrow> keeps P snd (del_pair w cs pos p)"
  unfolding del_pair_def by (assumption | rule keeps_rules keeps_struct P_intros P_registry | erule frames | simp)+

lemma blind_del: "P w \<Longrightarrow> keeps P (\<lambda>(_, _, w). w) (clients_del w p)"
  unfolding clients_del_def by (assumption | rule keeps_rules keeps_struct P_intros P_registry | erule frames | simp)+

end

sublocale registry_blind \<subseteq> world_invariant P
proof unfold_locales
  fix w w' :: world and t fd p r p' q k ci ci'
  show "P w \<Longrightarrow> P (w\<lparr>infos := (infos w)(k \<mapsto> ci')\<rparr>)" by (rule P_registry)
  show "P w \<Longrightarrow> clients_add w t fd = Some w' \<Longrightarrow> P w'" using blind_add by (force simp: keeps_def)
  show "P w \<Longrightarrow> clients_add_peer w p fd = Some (r, w') \<Longrightarrow> P w'" using blind_add_peer by (force simp: keeps_def)
  show "P w \<Longrightarrow> clients_del w p = Some (q, p', w') \<Longrightarrow> P w'" using blind_del by (force simp: keeps_def)
qed

section \<open>Whole tasks\<close>

text \<open>A whole task also reads signals, which can ask for the exit, and drops the queued tasks of a
  descriptor.\<close>

locale task_invariant = world_invariant +
  assumes P_signals: "P w \<Longrightarrow> P (w\<lparr>signals := l\<rparr>)"
    and P_exit: "P w \<Longrightarrow> P (w\<lparr>forced_exit := True\<rparr>)"
    and P_drop: "P w \<Longrightarrow> rena_tm w = Some m \<Longrightarrow> task_manager_task_drop_fd m fd = Some m' \<Longrightarrow>
      P (w\<lparr>rena_tm := Some m'\<rparr>)"
begin

lemma P_signal_loop: "P w \<Longrightarrow> P (signal_loop w fd)"
proof (induction w fd rule: signal_loop.induct)
  case (1 w fd)
  obtain s w1 where r: "proc_receive_signal w fd = (s, w1)" by fastforce
  then have "P w1" using 1 P_signals by (auto simp: proc_receive_signal_def split: list.splits)
  then have "P (note_signal s w1)" using P_exit by (auto simp: note_signal_def Let_def)
  with 1(1) [OF r [symmetric]] r \<open>P w1\<close> show ?case by (subst signal_loop.simps) auto
qed

lemma keeps_handler:
  assumes "fnc_read tt b = Some f \<or> fnc_write tt b = Some f" "P w"
  shows "keeps P snd (f w t p)"
  using assms keeps_accept keeps_client_read keeps_client_write P_signal_loop
  by (auto simp: fnc_read_def fnc_write_def handle_read_signal_def keeps_Some split: if_splits)

lemma keeps_call_handler:
  "P w \<Longrightarrow> keeps P (\<lambda>(_, _, w). w) (call_handler w t p (fnc_read tt b) (fnc_write tt b))"
  unfolding call_handler_def
  by (rule keeps_case_option keeps_Some keeps_bind_pair keeps_handler | assumption | auto split: if_splits)+

lemma keeps_wake_peer [keeps_rules]: "P w \<Longrightarrow> keeps P (\<lambda>w. w) (wake_peer w p)"
  unfolding wake_peer_def by (rule keeps_rules keeps_struct P_intros | assumption | simp)+

lemma keeps_drop [keeps_rules]:
  "P w \<Longrightarrow> keeps P snd (do { tm \<leftarrow> rena_tm w; tm \<leftarrow> task_manager_task_drop_fd tm fd; Some (c, w\<lparr>rena_tm := Some tm\<rparr>) })"
  using P_drop by (auto simp: keeps_def bind_eq_Some_conv)

lemma keeps_delete [keeps_rules]: "P w \<Longrightarrow> keeps P snd (task_delete_client w t p)"
  unfolding task_delete_client_def by (rule keeps_rules keeps_struct P_intros | assumption | simp)+

lemma keeps_rearm [keeps_rules]: "P w \<Longrightarrow> keeps P (\<lambda>(_, _, w). w) (rearm w t p m e)"
  unfolding rearm_def by (rule keeps_rules keeps_struct P_intros | assumption | simp)+

lemma keeps_ending [keeps_rules]:
  "P w \<Longrightarrow> keeps P (\<lambda>w. w) (notify_requester w t p)"
  "P w \<Longrightarrow> keeps P (\<lambda>w. w) (finish_client w p)"
  unfolding notify_requester_def finish_client_def by (rule keeps_rules keeps_struct P_intros | assumption | simp)+

lemma keeps_perform: "P w \<Longrightarrow> keeps P (\<lambda>w. w) (perform w t p (fnc_read tt b) (fnc_write tt b))"
  unfolding perform_def by (rule keeps_call_handler keeps_rules keeps_struct P_intros | assumption | simp)+

lemma keeps_client_task: "P w \<Longrightarrow> keeps P snd (client_task w t p)"
  unfolding client_task_def by (rule keeps_perform keeps_rules keeps_struct P_intros | assumption | simp)+

theorem keeps_task_handling: "P w \<Longrightarrow> keeps P snd (task_handling w task)"
  unfolding task_handling_def
  by (rule keeps_perform keeps_client_task keeps_struct P_intros | assumption | simp)+

end

text \<open>A task that is queued again is the one that was handled, and nothing else happened.\<close>

lemma task_handling_again:
  "task_handling w task = Some (Some t, w') \<Longrightarrow> task = Some t \<and> w' = w"
  by (auto simp: task_handling_def client_task_def bind_eq_Some_conv split: option.splits if_splits)

end
