(* ===== verification/Pool.thy ===== *)
theory Pool
  imports Frame
begin

text \<open>
  The pool of workers: the loop of \<^verbatim>\<open>task_runner\<close> in \<^verbatim>\<open>rena/src/task_runner.c\<close>, which every thread
  of the pool runs, as a step relation.  A worker is at one of the places of the loop; a step is
  the code between two places that is atomic, because it is under a lock or because nothing
  else looks at it: the first test of \<^verbatim>\<open>has_io\<close>, the second one under the lock, the wait for
  events, the push of one task, the release, the wait for a task, the handling of a task.
  The handling of one task is one step: the handlers work on the client they marked, under
  the locks of its protocol.

  A worker that has to wait has no step; the crash of one worker is the end of the process.
\<close>

section \<open>The loop of a worker\<close>

text \<open>The static variable of \<^verbatim>\<open>has_io\<close> and the result: the variable after the call twice.\<close>

definition has_io :: "int \<Rightarrow> int \<Rightarrow> int \<times> int" where
  "has_io var n = (let var = (if n \<noteq> 0 then n else var) in (var, var))"

datatype place =
    Looping
  | Asking
  | Electing
  | Dispatching
  | Pushing "(int \<times> nat) list"
  | Releasing
  | Taking
  | Handling "task option"
  | Requeueing task
  | Leaving nat
  | Gone

definition set_working :: "world \<Rightarrow> int \<Rightarrow> world" where
  "set_working w flag = w\<lparr>rena_tm := map_option (\<lambda>tm. task_manager_set_working tm flag) (rena_tm w)\<rparr>"

definition push_task :: "world \<Rightarrow> int \<Rightarrow> nat \<Rightarrow> world option" where
  "push_task w fd tt = do {
     tm \<leftarrow> rena_tm w;
     tm \<leftarrow> task_manager_task_push tm fd tt;
     Some (w\<lparr>rena_tm := Some tm\<rparr>) }"

datatype outcome = Blocked | Crashed | Moved world int place

text \<open>One step of a worker, given what \<^verbatim>\<open>epoll_wait\<close> reports if it is called.  After a forced exit
  a worker queues a null task for every worker, one in a step.\<close>

definition worker_step :: "(int \<times> nat) list option \<Rightarrow> world \<Rightarrow> int \<Rightarrow> place \<Rightarrow> outcome" where
  "worker_step evs w var p =
    (case p of
       Looping \<Rightarrow>
         if forced_exit w
         then (case rena_tm w of None \<Rightarrow> Crashed | Some tm \<Rightarrow> Moved w var (Leaving (number_of_tasks tm)))
         else Moved w var Asking
     | Asking \<Rightarrow>
         if snd (has_io var 0) < 0 then Moved w var Electing else Moved (set_working w 1) var Taking
     | Electing \<Rightarrow>
         if snd (has_io var 0) < 0 then Moved (set_working w 1) (fst (has_io var 1)) Dispatching
         else Moved (set_working w 1) var Taking
     | Dispatching \<Rightarrow>
         (case evs of
            None \<Rightarrow> Moved w var (Pushing [])
          | Some es \<Rightarrow> Moved (w\<lparr>interest := fold (\<lambda>(fd, _). reported fd) es (interest w)\<rparr>) var (Pushing es))
     | Pushing [] \<Rightarrow> Moved (set_working w 0) var Releasing
     | Pushing ((fd, events) # es) \<Rightarrow>
         (case rena_server w of
            None \<Rightarrow> Crashed
          | Some s \<Rightarrow>
              (case task_of_event s fd events of
                 None \<Rightarrow> Crashed
               | Some tt \<Rightarrow>
                   (case push_task w fd tt of None \<Rightarrow> Blocked | Some w \<Rightarrow> Moved w var (Pushing es))))
     | Releasing \<Rightarrow> Moved w (if snd (has_io var 0) \<noteq> 0 then fst (has_io var (- 1)) else var) Looping
     | Taking \<Rightarrow>
         (case rena_tm w of
            None \<Rightarrow> Crashed
          | Some tm \<Rightarrow>
              (case task_manager_task_consume tm of
                 None \<Rightarrow> Blocked
               | Some (t, tm) \<Rightarrow> Moved (w\<lparr>rena_tm := Some tm\<rparr>) var (Handling t)))
     | Handling t \<Rightarrow>
         (case task_handling w t of
            None \<Rightarrow> Crashed
          | Some (None, w) \<Rightarrow> Moved (set_working w 0) var Looping
          | Some (Some t, w) \<Rightarrow> Moved w var (Requeueing t))
     | Requeueing t \<Rightarrow>
         (case push_task w (t_fd t) (t_type t) of
            None \<Rightarrow> Blocked
          | Some w \<Rightarrow> Moved (set_working w 0) var Looping)
     | Leaving 0 \<Rightarrow> Moved (emit (Ev_raise 1) w) var Gone
     | Leaving (Suc k) \<Rightarrow>
         (case rena_tm w of
            None \<Rightarrow> Crashed
          | Some tm \<Rightarrow>
              (case queue_enqueue (tm_queue tm) None of
                 None \<Rightarrow> Blocked
               | Some q \<Rightarrow> Moved (w\<lparr>rena_tm := Some (tm\<lparr>tm_queue := q\<rparr>)\<rparr>) var (Leaving k)))
     | Gone \<Rightarrow> Blocked)"

section \<open>The pool\<close>

text \<open>The proxy is \<^const>\<open>None\<close> after the crash.\<close>

record pool =
  io_var :: int
  places :: "nat \<Rightarrow> place"
  proxy :: "world option"

definition start_pool :: "world \<Rightarrow> pool" where
  "start_pool w = \<lparr>io_var = - 1, places = (\<lambda>_. Looping), proxy = Some w\<rparr>"

inductive pool_step :: "nat \<Rightarrow> pool \<Rightarrow> pool \<Rightarrow> bool" for n where
  pool_moved: "i < n \<Longrightarrow> proxy s = Some w \<Longrightarrow> worker_step evs w (io_var s) (places s i) = Moved w' var p \<Longrightarrow>
     pool_step n s \<lparr>io_var = var, places = (places s)(i := p), proxy = Some w'\<rparr>"
| pool_crashed: "i < n \<Longrightarrow> proxy s = Some w \<Longrightarrow> worker_step evs w (io_var s) (places s i) = Crashed \<Longrightarrow>
     pool_step n s (s\<lparr>proxy := None\<rparr>)"

inductive_cases pool_stepE: "pool_step n s s'"

definition reaches :: "nat \<Rightarrow> world \<Rightarrow> pool \<Rightarrow> bool" where
  "reaches n w s = (pool_step n)\<^sup>*\<^sup>* (start_pool w) s"

definition dispatcher :: "place \<Rightarrow> bool" where
  "dispatcher p \<longleftrightarrow> p = Dispatching \<or> (\<exists>es. p = Pushing es) \<or> p = Releasing"

definition candidate_place :: "place \<Rightarrow> bool" where
  "candidate_place p \<longleftrightarrow> p = Looping \<or> p = Asking \<or> p = Electing"

section \<open>One step of a worker\<close>

text \<open>What the queued tasks are: a type of the enumeration, and the types of the listening sockets and
  of the signals only with their descriptors, unless the task was dropped.\<close>

definition task_ok :: "server \<Rightarrow> task \<Rightarrow> bool" where
  "task_ok s t \<longleftrightarrow> TT_READ \<le> t_type t \<and> t_type t \<le> TT_SIGNAL_WRITE \<and>
     (t_fd t \<noteq> - 1 \<longrightarrow>
       (t_type t \<in> {TT_NORMAL_READ, TT_NORMAL_WRITE} \<longrightarrow> t_fd t = normalfd s) \<and>
       (t_type t \<in> {TT_SECURE_READ, TT_SECURE_WRITE} \<longrightarrow> t_fd t = securefd s) \<and>
       (t_type t \<in> {TT_SIGNAL_READ, TT_SIGNAL_WRITE} \<longrightarrow> t_fd t = signalfd s))"

definition queue_ok :: "server \<Rightarrow> nat \<Rightarrow> task_manager \<Rightarrow> bool" where
  "queue_ok s n tm \<longleftrightarrow> queue_inv (tm_queue tm) \<and> number_of_tasks tm = n \<and>
     (\<forall>t. Some t \<in> set (contents (tm_queue tm)) \<longrightarrow> task_ok s t)"

definition world_ok :: "server \<Rightarrow> nat \<Rightarrow> world \<Rightarrow> bool" where
  "world_ok s n w \<longleftrightarrow> rena_server w = Some s \<and> (\<exists>tm. rena_tm w = Some tm \<and> queue_ok s n tm)"

definition place_ok :: "server \<Rightarrow> place \<Rightarrow> bool" where
  "place_ok s p \<longleftrightarrow> (\<forall>t. p = Handling (Some t) \<or> p = Requeueing t \<longrightarrow> task_ok s t)"

lemma place_ok_simps [simp]:
  "place_ok s (Handling (Some t)) = task_ok s t" "place_ok s (Requeueing t) = task_ok s t"
  "place_ok s (Handling None)" "place_ok s Looping" "place_ok s Asking" "place_ok s Electing"
  "place_ok s Dispatching" "place_ok s (Pushing es)" "place_ok s Releasing" "place_ok s Taking"
  "place_ok s (Leaving k)" "place_ok s Gone"
  by (auto simp: place_ok_def)

lemma task_of_event_ok: "task_of_event s fd e = Some tt \<Longrightarrow> task_ok s \<lparr>t_type = tt, t_fd = fd\<rparr>"
  by (auto simp: task_of_event_def task_ok_def task_types split: if_splits)

lemma drop_slot_ok:
  assumes "task_ok s t" "drop_slot fd (Some t) = Some t'"
  shows "task_ok s t'"
proof (cases "t_fd t = fd")
  case True
  then have "t' = t\<lparr>t_fd := - 1\<rparr>" using assms(2) by (simp add: drop_slot_def)
  with assms(1) show ?thesis by (simp add: task_ok_def)
next
  case False
  with assms show ?thesis by (simp add: drop_slot_def)
qed

lemma drop_queue_ok:
  assumes "queue_ok s n tm" "task_manager_task_drop_fd tm fd = Some tm'"
  shows "queue_ok s n tm'"
proof -
  have inv: "queue_inv (tm_queue tm)" using assms(1) by (simp add: queue_ok_def)
  note k = drop_fd_keeps [OF inv assms(2)]
  have "task_ok s t" if t: "Some t \<in> set (contents (tm_queue tm'))" for t
  proof -
    have "Some t \<in> set (contents (tm_queue tm)) \<or> (\<exists>u. u \<in> set (contents (tm_queue tm)) \<and> drop_slot fd u = Some t)"
      using subsetD [OF conjunct2 [OF conjunct2 [OF conjunct2 [OF conjunct2 [OF k]]]] t] by (auto simp: image_iff)
    then show ?thesis
    proof
      assume "\<exists>u. u \<in> set (contents (tm_queue tm)) \<and> drop_slot fd u = Some t"
      then obtain u where u: "u \<in> set (contents (tm_queue tm))" "drop_slot fd u = Some t" by blast
      then obtain v where "u = Some v" by (cases u) (auto simp: drop_slot_def)
      with u assms(1) drop_slot_ok show ?thesis by (auto simp: queue_ok_def)
    qed (use assms(1) in \<open>auto simp: queue_ok_def\<close>)
  qed
  with k assms(1) show ?thesis by (auto simp: queue_ok_def)
qed

lemma enqueue_queue_ok:
  assumes "queue_ok s n tm" "queue_enqueue (tm_queue tm) x = Some q" "\<forall>t. x = Some t \<longrightarrow> task_ok s t"
  shows "queue_ok s n (tm\<lparr>tm_queue := q\<rparr>)"
  using assms enqueue_contents [of "tm_queue tm" x q] by (auto simp: queue_ok_def)

lemma push_task_ok:
  "push_task w fd tt = Some w' \<Longrightarrow> world_ok s n w \<Longrightarrow> task_ok s \<lparr>t_type = tt, t_fd = fd\<rparr> \<Longrightarrow>
    world_ok s n w' \<and> forced_exit w' = forced_exit w"
  using enqueue_queue_ok
  by (auto simp: push_task_def task_manager_task_push_def bind_eq_Some_conv world_ok_def)

lemma set_working_ok [simp]:
  "world_ok s n (set_working w b) = world_ok s n w" "forced_exit (set_working w b) = forced_exit w"
  by (cases "rena_tm w"; cases "b = 0";
      simp add: world_ok_def set_working_def task_manager_set_working_def queue_ok_def)+

lemma world_ok_updates [simp]:
  "world_ok s n (w\<lparr>interest := i\<rparr>) = world_ok s n w" "world_ok s n (emit e w) = world_ok s n w"
  by (simp_all add: world_ok_def emit_def)

text \<open>No task spoils the queue or takes the wish to exit back.\<close>

definition still_ok :: "server \<Rightarrow> nat \<Rightarrow> bool \<Rightarrow> world \<Rightarrow> bool" where
  "still_ok s n b w \<longleftrightarrow> world_ok s n w \<and> (b \<longrightarrow> forced_exit w)"

interpretation still: registry_blind "still_ok s n b" for s n b
  by unfold_locales (simp_all add: still_ok_def world_ok_def)

interpretation still: task_invariant "still_ok s n b" for s n b
  by unfold_locales (auto simp: still_ok_def world_ok_def drop_queue_ok)

lemma task_eta [simp]: "\<lparr>t_type = t_type t, t_fd = t_fd t\<rparr> = (t :: task)"
  by simp

lemma worker_step_ok:
  assumes step: "worker_step evs w v p = Moved w' v' p'" and w: "world_ok s n w" and p: "place_ok s p"
  shows "world_ok s n w' \<and> place_ok s p' \<and> (forced_exit w \<longrightarrow> forced_exit w')"
proof (cases p)
  case (Pushing es)
  show ?thesis
  proof (cases es)
    case (Cons e es')
    with step Pushing w push_task_ok [OF _ w task_of_event_ok] show ?thesis
      by (auto simp: worker_step_def world_ok_def split: prod.splits option.splits)
  qed (use step w Pushing in \<open>auto simp: worker_step_def\<close>)
next
  case Taking
  obtain tm where tm: "rena_tm w = Some tm" "queue_ok s n tm" using w by (auto simp: world_ok_def)
  with step Taking obtain t tm' where c: "task_manager_task_consume tm = Some (t, tm')"
    "w' = w\<lparr>rena_tm := Some tm'\<rparr>" "p' = Handling t"
    by (auto simp: worker_step_def split: option.splits)
  then obtain q where q: "queue_dequeue (tm_queue tm) = Some (t, q)" "tm' = tm\<lparr>tm_queue := q\<rparr>"
    by (auto simp: task_manager_task_consume_def bind_eq_Some_conv)
  have "queue_inv q \<and> contents (tm_queue tm) = t # contents q"
    using dequeue_contents [OF _ q(1)] tm(2) by (simp add: queue_ok_def)
  then have "queue_ok s n tm'" "\<forall>u. t = Some u \<longrightarrow> task_ok s u" using tm(2) q(2) by (auto simp: queue_ok_def)
  with c w show ?thesis by (cases t) (auto simp: world_ok_def)
next
  case (Handling t)
  with step obtain again w1 where h: "task_handling w t = Some (again, w1)"
    by (auto simp: worker_step_def split: option.splits)
  have "still_ok s n (forced_exit w) w" using w by (simp add: still_ok_def)
  then have "still_ok s n (forced_exit w) w1"
    using still.keeps_task_handling [of s n "forced_exit w" w t] h by (simp add: keeps_def)
  then have "world_ok s n w1" "forced_exit w \<longrightarrow> forced_exit w1" by (simp_all add: still_ok_def)
  then show ?thesis
  proof (cases again)
    case (Some u)
    then have "t = Some u" using task_handling_again [of w t u w1] h by simp
    with Some h step Handling p \<open>world_ok s n w1\<close> show ?thesis
      using \<open>forced_exit w \<longrightarrow> forced_exit w1\<close> by (auto simp: worker_step_def)
  qed (use h step Handling in \<open>auto simp: worker_step_def\<close>)
next
  case (Requeueing t)
  have "task_ok s \<lparr>t_type = t_type t, t_fd = t_fd t\<rparr>" using p Requeueing by simp
  with step w Requeueing push_task_ok [of w "t_fd t" "t_type t" _ s n] show ?thesis
    by (auto simp: worker_step_def split: option.splits)
next
  case (Leaving k)
  show ?thesis
  proof (cases k)
    case 0
    with step Leaving w show ?thesis by (auto simp: worker_step_def world_ok_def emit_def)
  next
    case (Suc m)
    with step Leaving w enqueue_queue_ok [of s n _ None] show ?thesis
      by (auto simp: worker_step_def world_ok_def split: option.splits)
  qed
qed (use step w in \<open>auto simp: worker_step_def split: if_splits option.splits\<close>)

text \<open>The role of the dispatcher is taken by an election and given back at the release only.\<close>

lemma worker_step_role:
  assumes "worker_step evs w v p = Moved w' v' p'"
  shows "(dispatcher p' = dispatcher p \<and> v' = v) \<or>
    (p = Electing \<and> v < 0 \<and> p' = Dispatching \<and> v' = 1) \<or>
    (p = Releasing \<and> p' = Looping \<and> v' = (if v \<noteq> 0 then - 1 else v))"
  using assms
  by (cases p) (auto simp: worker_step_def dispatcher_def has_io_def Let_def
      split: if_splits option.splits list.splits nat.splits)

lemma worker_step_candidate:
  assumes "worker_step evs w v p = Moved w' v' p'" "candidate_place p" "\<not> forced_exit w" "v < 0"
  shows "candidate_place p' \<or> v' = 1"
  using assms
  by (cases p) (auto simp: worker_step_def candidate_place_def has_io_def Let_def split: if_splits)

section \<open>Reachable pools\<close>

definition elected :: "nat \<Rightarrow> pool \<Rightarrow> nat set" where
  "elected n s = {i. i < n \<and> dispatcher (places s i)}"

definition exiting :: "place \<Rightarrow> bool" where
  "exiting p \<longleftrightarrow> p = Gone \<or> (\<exists>k. p = Leaving k)"

lemma worker_step_exiting:
  "worker_step evs w v p = Moved w' v' p' \<Longrightarrow> exiting p' \<Longrightarrow> exiting p \<or> forced_exit w"
  by (cases p) (auto simp: worker_step_def exiting_def
      split: if_splits option.splits list.splits nat.splits)

definition pool_inv :: "server \<Rightarrow> nat \<Rightarrow> nat \<Rightarrow> pool \<Rightarrow> bool" where
  "pool_inv srv m n s \<longleftrightarrow>
     (io_var s = - 1 \<and> elected n s = {} \<or> io_var s = 1 \<and> (\<exists>i. elected n s = {i})) \<and>
     (\<forall>i < n. place_ok srv (places s i)) \<and>
     (\<forall>w. proxy s = Some w \<longrightarrow> world_ok srv m w \<and>
        (\<forall>i < n. exiting (places s i) \<longrightarrow> forced_exit w) \<and>
        (io_var s = - 1 \<longrightarrow> forced_exit w \<or> (\<exists>i < n. candidate_place (places s i))))"

lemma start_pool_inv: "world_ok srv m w \<Longrightarrow> 0 < n \<Longrightarrow> pool_inv srv m n (start_pool w)"
  by (auto simp: pool_inv_def start_pool_def elected_def dispatcher_def candidate_place_def exiting_def)

lemma elected_upd:
  "i < n \<Longrightarrow> elected n \<lparr>io_var = v, places = f(i := p), proxy = r\<rparr> =
     (if dispatcher p then insert i (elected n \<lparr>io_var = v', places = f, proxy = r'\<rparr>)
      else elected n \<lparr>io_var = v', places = f, proxy = r'\<rparr> - {i})"
  by (auto simp: elected_def)

lemma elected_places: "places s = places s' \<Longrightarrow> elected n s = elected n s'"
  by (simp add: elected_def)

lemma moved_inv:
  assumes inv: "pool_inv srv m n s" and i: "i < n" and w: "proxy s = Some w"
    and step: "worker_step evs w (io_var s) (places s i) = Moved w' var p"
  shows "pool_inv srv m n \<lparr>io_var = var, places = (places s)(i := p), proxy = Some w'\<rparr>"
proof -
  let ?s = "\<lparr>io_var = var, places = (places s)(i := p), proxy = Some w'\<rparr>"
  have ok: "world_ok srv m w" "place_ok srv (places s i)" using inv w i by (auto simp: pool_inv_def)
  note wk = worker_step_ok [OF step ok]
  have e: "elected n ?s = (if dispatcher p then insert i (elected n s) else elected n s - {i})"
    using i by (auto simp: elected_def)
  have mem: "dispatcher (places s i) \<longleftrightarrow> i \<in> elected n s" using i by (simp add: elected_def)
  have role: "var = - 1 \<and> elected n ?s = {} \<or> var = 1 \<and> (\<exists>i. elected n ?s = {i})"
    using worker_step_role [OF step]
  proof (elim disjE conjE)
    assume "dispatcher p = dispatcher (places s i)" "var = io_var s"
    then have "elected n ?s = elected n s" using e mem by auto
    with inv \<open>var = io_var s\<close> show ?thesis by (auto simp: pool_inv_def)
  next
    assume "places s i = Electing" "io_var s < 0" "p = Dispatching" "var = 1"
    then show ?thesis using inv e by (auto simp: pool_inv_def dispatcher_def)
  next
    assume a: "places s i = Releasing" "p = Looping" "var = (if io_var s \<noteq> 0 then - 1 else io_var s)"
    then have "i \<in> elected n s" using mem by (simp add: dispatcher_def)
    then show ?thesis using inv e a by (auto simp: pool_inv_def dispatcher_def)
  qed
  have cand: "forced_exit w' \<or> (\<exists>j < n. candidate_place (places ?s j))" if var: "var = - 1"
  proof (cases "forced_exit w \<or> candidate_place p")
    case True
    with wk i show ?thesis by auto
  next
    case False
    then have "\<not> (places s i = Releasing \<and> p = Looping)" by (auto simp: candidate_place_def)
    with worker_step_role [OF step] var have v: "io_var s = - 1" by auto
    with inv w False obtain j where j: "j < n" "candidate_place (places s j)" by (auto simp: pool_inv_def)
    have "j \<noteq> i" using worker_step_candidate [OF step] j False v var by auto
    with j show ?thesis by auto
  qed
  have "\<forall>j < n. exiting (places ?s j) \<longrightarrow> forced_exit w'"
    using inv w wk worker_step_exiting [OF step] i by (auto simp: pool_inv_def)
  with role cand wk inv show ?thesis by (auto simp: pool_inv_def)
qed

lemma pool_step_inv: "pool_step n s s' \<Longrightarrow> pool_inv srv m n s \<Longrightarrow> pool_inv srv m n s'"
proof (erule pool_stepE)
  fix i w evs w' var p
  assume "pool_inv srv m n s" "i < n" "proxy s = Some w"
    "worker_step evs w (io_var s) (places s i) = Moved w' var p"
    "s' = \<lparr>io_var = var, places = (places s)(i := p), proxy = Some w'\<rparr>"
  then show "pool_inv srv m n s'" using moved_inv by blast
next
  fix i w evs
  assume "pool_inv srv m n s" "s' = s\<lparr>proxy := None\<rparr>"
  then show "pool_inv srv m n s'" by (simp add: pool_inv_def elected_def)
qed

lemma reaches_inv:
  assumes "reaches n w s" "world_ok srv m w" "0 < n"
  shows "pool_inv srv m n s"
  using assms(1) unfolding reaches_def
  by (induction rule: rtranclp_induct) (use start_pool_inv [OF assms(2,3)] pool_step_inv in auto)

section \<open>Progress\<close>

text \<open>A worker that is not waiting has a step.\<close>

definition waiting :: "task_manager \<Rightarrow> place \<Rightarrow> bool" where
  "waiting tm p \<longleftrightarrow> p = Gone \<or> p = Taking \<and> q_size (tm_queue tm) = 0 \<or>
     q_size (tm_queue tm) = capacity (tm_queue tm) \<and>
       ((\<exists>e es. p = Pushing (e # es)) \<or> (\<exists>t. p = Requeueing t) \<or> (\<exists>k. p = Leaving (Suc k)))"

lemma push_task_room:
  "rena_tm w = Some tm \<Longrightarrow> push_task w fd tt = None \<longleftrightarrow> q_size (tm_queue tm) = capacity (tm_queue tm)"
  by (auto simp: push_task_def task_manager_task_push_def queue_enqueue_def)

lemma not_waiting_steps:
  assumes "rena_tm w = Some tm" "\<not> waiting tm p"
  shows "worker_step evs w v p \<noteq> Blocked"
  using assms push_task_room [OF assms(1)]
  by (cases p) (auto simp: worker_step_def waiting_def task_manager_task_consume_def queue_dequeue_def
      queue_enqueue_def split: option.splits list.splits nat.splits if_splits)

lemma step_of_outcome:
  assumes "i < n" "proxy s = Some w" "worker_step evs w (io_var s) (places s i) \<noteq> Blocked"
  shows "\<exists>s'. pool_step n s s'"
proof (cases "worker_step evs w (io_var s) (places s i)")
  case (Moved w' v p)
  with assms pool_moved show ?thesis by metis
qed (use assms pool_crashed in \<open>metis\<close>)+

lemma dispatcher_not_waiting:
  "dispatcher p \<Longrightarrow> q_size (tm_queue tm) \<noteq> capacity (tm_queue tm) \<Longrightarrow> \<not> waiting tm p"
  by (auto simp: dispatcher_def waiting_def)

lemma candidate_not_waiting: "candidate_place p \<Longrightarrow> \<not> waiting tm p"
  by (auto simp: candidate_place_def waiting_def)

lemma some_not_waiting:
  assumes "pool_inv srv m n s" "proxy s = Some w" "\<not> forced_exit w" "rena_tm w = Some tm"
    and "q_size (tm_queue tm) \<noteq> capacity (tm_queue tm)"
  shows "\<exists>i < n. \<not> waiting tm (places s i)"
proof (cases "io_var s = - 1")
  case True
  with assms candidate_not_waiting show ?thesis by (auto simp: pool_inv_def)
next
  case False
  then obtain i where "elected n s = {i}" using assms(1) by (auto simp: pool_inv_def)
  then have "i < n" "dispatcher (places s i)" by (auto simp: elected_def)
  with dispatcher_not_waiting assms(5) show ?thesis by blast
qed

lemma full_all_waiting:
  assumes "pool_inv srv m n s" "proxy s = Some w" "\<not> forced_exit w" "rena_tm w = Some tm"
    and "q_size (tm_queue tm) = capacity (tm_queue tm)" "\<forall>i < n. waiting tm (places s i)" "i < n"
  shows "(\<exists>e es. places s i = Pushing (e # es)) \<or> (\<exists>t. places s i = Requeueing t)"
proof -
  have "0 < q_size (tm_queue tm)" using assms(1,2,4,5) by (auto simp: pool_inv_def world_ok_def queue_ok_def queue_inv_def)
  moreover have "\<not> exiting (places s i)" using assms(1-3,7) by (auto simp: pool_inv_def)
  moreover have "waiting tm (places s i)" using assms(6,7) by blast
  ultimately show ?thesis by (auto simp: waiting_def exiting_def)
qed

text \<open>A dispatch that nothing interrupts is \<^const>\<open>server_dispatch\<close>.\<close>

lemma push_events_steps:
  assumes "push_events srv es tm = Some tm'" "rena_server w = Some srv" "rena_tm w = Some tm"
    and "proxy s = Some w" "places s i = Pushing es" "i < n"
  shows "(pool_step n)\<^sup>*\<^sup>* s (s\<lparr>places := (places s)(i := Pushing []), proxy := Some (w\<lparr>rena_tm := Some tm'\<rparr>)\<rparr>)"
  using assms
proof (induction es arbitrary: tm w s)
  case Nil
  then have "s\<lparr>places := (places s)(i := Pushing []), proxy := Some (w\<lparr>rena_tm := Some tm'\<rparr>)\<rparr> = s"
    by (cases s) (auto simp: fun_upd_idem)
  then show ?case by (simp only: rtranclp.rtrancl_refl)
next
  case (Cons e es)
  obtain fd evs where e: "e = (fd, evs)" by fastforce
  from Cons.prems(1) obtain tt tm1 where t: "task_of_event srv fd evs = Some tt"
    "task_manager_task_push tm fd tt = Some tm1" "push_events srv es tm1 = Some tm'"
    by (auto simp: e bind_eq_Some_conv)
  let ?w = "w\<lparr>rena_tm := Some tm1\<rparr>"
  let ?s = "\<lparr>io_var = io_var s, places = (places s)(i := Pushing es), proxy = Some ?w\<rparr>"
  have "worker_step None w (io_var s) (places s i) = Moved ?w (io_var s) (Pushing es)"
    using Cons.prems t by (simp add: e worker_step_def push_task_def)
  then have step: "pool_step n s ?s" by (rule pool_moved [OF Cons.prems(6,4)])
  have "(pool_step n)\<^sup>*\<^sup>* ?s (?s\<lparr>places := (places ?s)(i := Pushing []), proxy := Some (?w\<lparr>rena_tm := Some tm'\<rparr>)\<rparr>)"
    by (rule Cons.IH [OF t(3)]) (use Cons.prems in simp_all)
  with step show ?case by (cases s) (auto intro: converse_rtranclp_into_rtranclp simp del: fun_upd_apply)
qed

section \<open>Properties\<close>

text \<open>C9: however the workers interleave, at most one of them waits for events or distributes them,
  and the variable behind \<^verbatim>\<open>has_io\<close> is 1 exactly while there is one.\<close>

theorem one_dispatcher:
  assumes "reaches n w s" "world_ok srv m w" "0 < n"
  shows "card (elected n s) \<le> 1 \<and> (io_var s = 1 \<longleftrightarrow> elected n s \<noteq> {})"
  using reaches_inv [OF assms] by (auto simp: pool_inv_def)



section \<open>A small pool\<close>

text \<open>A schedule: which worker makes a step, and what is reported if it waits for events.\<close>

fun run :: "nat \<Rightarrow> (nat \<times> (int \<times> nat) list option) list \<Rightarrow> pool \<Rightarrow> pool option" where
  "run n [] s = Some s"
| "run n ((i, evs) # sched) s =
    (case proxy s of
       None \<Rightarrow> None
     | Some w \<Rightarrow>
         if n \<le> i then None
         else (case worker_step evs w (io_var s) (places s i) of
             Moved w' v p \<Rightarrow> run n sched \<lparr>io_var = v, places = (places s)(i := p), proxy = Some w'\<rparr>
           | _ \<Rightarrow> None))"

lemma run_steps: "run n sched s = Some s' \<Longrightarrow> (pool_step n)\<^sup>*\<^sup>* s s'"
proof (induction n sched s rule: run.induct)
  case (2 n i evs sched s)
  then obtain w w' v p where "proxy s = Some w" "i < n"
    "worker_step evs w (io_var s) (places s i) = Moved w' v p"
    "run n sched \<lparr>io_var = v, places = (places s)(i := p), proxy = Some w'\<rparr> = Some s'"
    by (auto split: option.splits if_splits outcome.splits)
  with 2(1) pool_moved show ?case by (metis (no_types, lifting) converse_rtranclp_into_rtranclp not_le)
qed simp

definition small_server :: server where
  "small_server = \<lparr>server_context = True, client_context = True, address_family = AF_INET6, normalfd = 4,
     securefd = 5, pollfd = 3, signalfd = 6\<rparr>"

definition small_world :: world where
  "small_world = init_world\<lparr>rena_tm := Some (small_tm [None, None] 0 0), rena_server := Some small_server\<rparr>"

lemma small_world_ok: "world_ok small_server 0 small_world"
  by (simp add: world_ok_def small_world_def small_tm_def queue_ok_def queue_inv_def contents_def init_world_def)

text \<open>The first worker becomes the dispatcher, a signal arrives, the second one takes its task.\<close>

definition small_schedule :: "(nat \<times> (int \<times> nat) list option) list" where
  "small_schedule =
     [(0, None), (0, None), (0, None), (1, None), (1, None), (0, Some [(6, EPOLLIN)]), (0, None), (1, None)]"

lemma small_run:
  "\<exists>s w. run 2 small_schedule (start_pool small_world) = Some s \<and> io_var s = 1 \<and> places s 0 = Pushing [] \<and>
    places s 1 = Handling (Some \<lparr>t_type = TT_SIGNAL_READ, t_fd = 6\<rparr>) \<and> proxy s = Some w \<and> \<not> forced_exit w"
  by (simp add: small_schedule_def start_pool_def small_world_def init_world_def small_tm_def small_server_def
      worker_step_def has_io_def Let_def set_working_def task_manager_set_working_def task_of_event_def
      epoll_masks task_types push_task_def task_manager_task_push_def queue_enqueue_def
      task_manager_task_consume_def queue_dequeue_def)

lemma small_reaches:
  "run 2 small_schedule (start_pool small_world) = Some s \<Longrightarrow> reaches 2 small_world s"
  unfolding reaches_def by (rule run_steps)

lemma one_dispatcher_witness:
  "\<exists>s. reaches 2 small_world s \<and> elected 2 s = {0} \<and> card (elected 2 s) \<le> 1"
proof -
  obtain s where s: "run 2 small_schedule (start_pool small_world) = Some s" "places s 0 = Pushing []"
    "places s 1 = Handling (Some \<lparr>t_type = TT_SIGNAL_READ, t_fd = 6\<rparr>)" using small_run by blast
  have "elected 2 s = {0}" using s by (auto simp: elected_def dispatcher_def less_2_cases_iff)
  with one_dispatcher [OF small_reaches [OF s(1)] small_world_ok] small_reaches [OF s(1)] show ?thesis by auto
qed



section \<open>The end of the pool\<close>

text \<open>Every worker that leaves queues a null task for every worker.  When the ring has no room for
  all of them, not all workers get out: with a ring of 4096 places this takes 65 workers.\<close>

definition owed :: "place \<Rightarrow> nat" where
  "owed p = (case p of Leaving k \<Rightarrow> k | _ \<Rightarrow> 0)"

definition debt :: "nat \<Rightarrow> pool \<Rightarrow> nat" where
  "debt n s = (\<Sum>i < n. owed (places s i))"

definition ending :: "nat \<Rightarrow> nat \<Rightarrow> nat \<Rightarrow> pool \<Rightarrow> bool" where
  "ending n load cap s \<longleftrightarrow> (\<forall>i < n. exiting (places s i)) \<and>
     (\<exists>w tm. proxy s = Some w \<and> rena_tm w = Some tm \<and> queue_inv (tm_queue tm) \<and>
        capacity (tm_queue tm) = cap \<and> q_size (tm_queue tm) + debt n s = load)"

lemma debt_upd:
  "i < n \<Longrightarrow> debt n \<lparr>io_var = v, places = (places s)(i := p), proxy = r\<rparr> + owed (places s i) = debt n s + owed p"
  by (simp add: debt_def sum.remove [of "{..<n}" i] sum.If_cases Diff_eq Compl_eq)

lemma ending_step: "pool_step n s s' \<Longrightarrow> ending n load cap s \<Longrightarrow> ending n load cap s'"
proof (erule pool_stepE)
  fix i w evs w' v p
  assume e: "ending n load cap s" and i: "i < n" and w: "proxy s = Some w"
    and step: "worker_step evs w (io_var s) (places s i) = Moved w' v p"
    and s': "s' = \<lparr>io_var = v, places = (places s)(i := p), proxy = Some w'\<rparr>"
  obtain tm where tm: "rena_tm w = Some tm" "queue_inv (tm_queue tm)" "capacity (tm_queue tm) = cap"
    "q_size (tm_queue tm) + debt n s = load" using e w by (auto simp: ending_def)
  obtain k where k: "places s i = Leaving k"
    using e i step by (auto simp: ending_def exiting_def worker_step_def)
  note d = debt_upd [OF i, of v s p "Some w'"]
  show "ending n load cap s'"
  proof (cases k)
    case 0
    then have "p = Gone" "w' = emit (Ev_raise 1) w" using step k by (simp_all add: worker_step_def)
    then show ?thesis using e tm d k 0 s' i
      by (auto simp: ending_def exiting_def owed_def emit_def)
  next
    case (Suc m)
    with step k tm(1) obtain q where q: "queue_enqueue (tm_queue tm) None = Some q" "p = Leaving m"
      "w' = w\<lparr>rena_tm := Some (tm\<lparr>tm_queue := q\<rparr>)\<rparr>"
      by (auto simp: worker_step_def split: option.splits)
    have "queue_inv q \<and> capacity q = cap" using enqueue_contents [OF tm(2) q(1)] tm(3) by simp
    moreover have "q_size q = Suc (q_size (tm_queue tm))"
      using q(1) by (auto simp: queue_enqueue_def split: if_splits)
    ultimately show ?thesis using e tm d k Suc s' i q(2,3)
      by (auto simp: ending_def exiting_def owed_def)
  qed
next
  fix i w evs
  assume "ending n load cap s" "i < n" "proxy s = Some w"
    "worker_step evs w (io_var s) (places s i) = Crashed"
  then have False
    by (auto simp: ending_def exiting_def worker_step_def split: nat.splits option.splits)
  then show "ending n load cap s'" ..
qed

lemma exit_blocks:
  assumes "ending n load cap s" "cap < load" "(pool_step n)\<^sup>*\<^sup>* s s'"
  shows "\<exists>i < n. places s' i \<noteq> Gone"
proof -
  have e: "ending n load cap s'"
    using assms(3,1) by (induction rule: rtranclp_induct) (auto dest: ending_step)
  show ?thesis
  proof (rule ccontr)
    assume "\<not> (\<exists>i < n. places s' i \<noteq> Gone)"
    then have "debt n s' = 0" by (simp add: debt_def owed_def)
    with e assms(2) show False by (auto simp: ending_def queue_inv_def)
  qed
qed

end
