(* ===== verification/Registry.thy ===== *)
theory Registry
  imports ClientsRing Pool
begin

text \<open>
  The registry of connections stays well formed whatever the workers do: every operation of
  \<^verbatim>\<open>clients.c\<close> keeps the ring, on every path, and so the interface of the invariants of a task is
  interpreted for it.
\<close>

section \<open>Changes of one pair\<close>

lemma distinct_concat_map:
  "distinct as \<Longrightarrow> distinct (concat (map f as)) \<longleftrightarrow>
     (\<forall>x \<in> set as. distinct (f x)) \<and> (\<forall>x \<in> set as. \<forall>y \<in> set as. x \<noteq> y \<longrightarrow> set (f x) \<inter> set (f y) = {})"
  by (induction as) fastforce+

lemma registry_owned:
  assumes "registry w as" "x \<in> set as"
  shows "owned w x \<noteq> [] \<and> distinct (owned w x) \<and> (\<forall>i \<in> set (owned w x). i < w_brk w \<and> infos w i \<noteq> None)"
proof -
  have "distinct as" "distinct (concat (map (owned w) as))" using assms(1) by (simp_all add: registry_def)
  then have "distinct (owned w x)" using assms(2) distinct_concat_map by blast
  with assms show ?thesis by (simp add: registry_def)
qed

lemma registry_disjoint:
  assumes "registry w as" "x \<in> set as" "y \<in> set as" "x \<noteq> y"
  shows "set (owned w x) \<inter> set (owned w y) = {}"
proof -
  have "distinct as" "distinct (concat (map (owned w) as))" using assms(1) by (simp_all add: registry_def)
  with assms(2-4) distinct_concat_map show ?thesis by blast
qed

lemma registry_change:
  assumes r: "registry w as" and cs: "rena_clients w' = rena_clients w" and brk: "w_brk w \<le> w_brk w'"
    and ptrs: "\<forall>x. map_option c_next (cnodes w' x) = map_option c_next (cnodes w x) \<and>
      map_option c_prev (cnodes w' x) = map_option c_prev (cnodes w x)"
    and own: "\<forall>x \<in> set as. owned w' x \<noteq> [] \<and> distinct (owned w' x) \<and>
      (\<forall>i \<in> set (owned w' x). i < w_brk w' \<and> infos w' i \<noteq> None \<and> (i \<in> set (owned w x) \<or> x = a \<and> w_brk w \<le> i))"
  shows "registry w' as"
proof -
  have d: "distinct as" and lt: "\<forall>x \<in> set as. x < w_brk w" "\<forall>x \<in> set as. \<forall>i \<in> set (owned w x). i < w_brk w"
    and dj: "\<forall>x \<in> set as. \<forall>y \<in> set as. x \<noteq> y \<longrightarrow> set (owned w x) \<inter> set (owned w y) = {}"
    using r distinct_concat_map [of as "owned w"] by (auto simp: registry_def)
  have "set (owned w' x) \<inter> set (owned w' y) = {}" if "x \<in> set as" "y \<in> set as" "x \<noteq> y" for x y
  proof -
    have "False" if i: "i \<in> set (owned w' x)" "i \<in> set (owned w' y)" for i
    proof -
      have "i \<in> set (owned w x) \<or> x = a \<and> w_brk w \<le> i" "i \<in> set (owned w y) \<or> y = a \<and> w_brk w \<le> i"
        using own i \<open>x \<in> set as\<close> \<open>y \<in> set as\<close> by blast+
      then show False using dj lt(2) \<open>x \<in> set as\<close> \<open>y \<in> set as\<close> \<open>x \<noteq> y\<close> by fastforce
    qed
    then show ?thesis by blast
  qed
  then have "distinct (concat (map (owned w') as))" using own distinct_concat_map [OF d] by blast
  moreover have "circle (cnodes w') as" using r linked_pointers [OF ptrs] by (simp add: registry_def)
  ultimately show ?thesis using r cs brk own lt(1) by (auto simp: registry_def)
qed

text \<open>Updates that the registry does not see.\<close>

lemma registry_frame:
  assumes "registry w as" "rena_clients w' = rena_clients w" "w_brk w \<le> w_brk w'" "cnodes w' = cnodes w"
    "\<And>i. infos w i \<noteq> None \<Longrightarrow> infos w' i \<noteq> None"
  shows "registry w' as"
proof (rule registry_change [OF assms(1,2,3), where a = 0])
  have "owned w' = owned w" using assms(4) by (auto simp: owned_def)
  moreover have "distinct as" using assms(1) by (simp add: registry_def)
  ultimately show "\<forall>x \<in> set as. owned w' x \<noteq> [] \<and> distinct (owned w' x) \<and>
      (\<forall>i \<in> set (owned w' x). i < w_brk w' \<and> infos w' i \<noteq> None \<and> (i \<in> set (owned w x) \<or> x = 0 \<and> w_brk w \<le> i))"
    using assms distinct_concat_map [of as "owned w"] by (fastforce simp: registry_def)
qed (use assms(4) in simp)

lemma add_peer_registry:
  assumes r: "registry w as" and s: "clients_add_peer w p fd = Some (q, w')"
  shows "registry w' as"
proof (cases "w' = w")
  case False
  let ?i = "w_brk w" and ?infos = "(infos w)(w_brk w \<mapsto> fresh_info w fd)"
  have add: "clients_add_ci w fd = (?i, w\<lparr>w_brk := ?i + 1, infos := ?infos\<rparr>)"
    by (simp add: clients_add_ci_def new_addr_def fresh_info_def)
  obtain a n where n: "p_pos p = Some a" "cnodes w a = Some n"
    using s False by (auto simp: clients_add_peer_def node_get_def bind_eq_Some_conv split: if_splits)
  have "\<exists>n'. w' = w\<lparr>w_brk := ?i + 1, infos := ?infos, cnodes := (cnodes w)(a \<mapsto> n')\<rparr> \<and>
    (n' = n\<lparr>victim := Some ?i\<rparr> \<and> victim n = None \<or> n' = n\<lparr>requester := Some ?i\<rparr> \<and> requester n = None)"
    using s False n by (auto simp: clients_add_peer_def add node_upd_simps node_get_def split: if_splits)
  with n(2) obtain n' where a: "cnodes w a = Some n"
    "w' = w\<lparr>w_brk := ?i + 1, infos := ?infos, cnodes := (cnodes w)(a \<mapsto> n')\<rparr>"
    "n' = n\<lparr>victim := Some ?i\<rparr> \<and> victim n = None \<or> n' = n\<lparr>requester := Some ?i\<rparr> \<and> requester n = None"
    by blast
  have other: "owned w' x = owned w x" if "x \<noteq> a" for x using that a(2) by (simp add: owned_def)
  have this_one: "owned w' a = ?i # owned w a \<or> owned w' a = owned w a @ [?i]"
    using a by (auto simp: owned_def)
  have old: "\<forall>x \<in> set as. owned w x \<noteq> [] \<and> distinct (owned w x) \<and> (\<forall>i \<in> set (owned w x). i < ?i \<and> infos w i \<noteq> None)"
    using r distinct_concat_map [of as "owned w"] by (fastforce simp: registry_def)
  have "owned w' x \<noteq> [] \<and> distinct (owned w' x) \<and> (\<forall>i \<in> set (owned w' x). i < w_brk w' \<and> infos w' i \<noteq> None \<and>
      (i \<in> set (owned w x) \<or> x = a \<and> ?i \<le> i))" if x: "x \<in> set as" for x
  proof (cases "x = a")
    case True
    with this_one old x a(2) show ?thesis by fastforce
  next
    case False
    with other old x a(2) show ?thesis by fastforce
  qed
  then show ?thesis by (intro registry_change [OF r, of w' a]) (use a in auto)
qed (use r in simp)

section \<open>Deleting, on every path\<close>

definition ring_part :: "world \<Rightarrow> clients option \<times> (addr \<Rightarrow> circle_client_info option) \<times> addr" where
  "ring_part w = (rena_clients w, cnodes w, w_brk w)"

lemma free_chain_ring: "free_chain w a = Some w' \<Longrightarrow> ring_part w' = ring_part w \<and> infos w' = infos w"
proof (rule free_chain.raw_induct [where P = "\<lambda>w a w'. ring_part w' = ring_part w \<and> infos w' = infos w"], goal_cases)
  case (1 f v b v')
  then show ?case by (fastforce simp: bind_eq_Some_conv Let_def ring_part_def split: option.splits)
qed

lemma info_destroy_ring:
  "client_info_destroy w i b = Some (g, w') \<Longrightarrow>
     g = b \<and> ring_part w' = ring_part w \<and> (b \<longrightarrow> infos w' = (infos w)(i := None)) \<and>
     (\<not> b \<longrightarrow> (\<forall>x. infos w x \<noteq> None \<longrightarrow> infos w' x \<noteq> None))"
  by (auto simp: client_info_destroy_def bind_eq_Some_conv Let_def ring_part_def emit_def proc_close_def
      split: option.splits if_splits)

lemma del_requester_ring:
  assumes "del_requester w a = Some w'"
  shows "\<exists>n i. cnodes w a = Some n \<and> requester n = Some i \<and>
    ring_part w' = (rena_clients w, (cnodes w)(a \<mapsto> n\<lparr>requester := None\<rparr>), w_brk w) \<and> infos w' = (infos w)(i := None)"
proof -
  obtain n i ci w1 g w2 where n: "cnodes w a = Some n" "requester n = Some i" "infos w i = Some ci"
    and f: "(case userdata ci of None \<Rightarrow> Some w | Some u \<Rightarrow> freeaddrinfo w u) = Some w1"
    and d: "client_info_destroy w1 i True = Some (g, w2)"
    and u: "node_upd w2 (Some a) (\<lambda>n. n\<lparr>requester := None\<rparr>) = Some w'"
    using assms by (auto simp: del_requester_def bind_eq_Some_conv)
  have "ring_part w1 = ring_part w \<and> infos w1 = infos w"
    using f free_chain_ring by (fastforce simp: freeaddrinfo_def bind_eq_Some_conv emit_def ring_part_def split: option.splits)
  moreover note info_destroy_ring [OF d]
  ultimately show ?thesis using n u by (auto simp: node_upd_def bind_eq_Some_conv ring_part_def)
qed

lemma del_victim_ring:
  assumes "del_victim w a = Some w'"
  shows "\<exists>n. cnodes w a = Some n \<and>
    (ring_part w' = ring_part w \<and> (\<forall>x. infos w x \<noteq> None \<longrightarrow> infos w' x \<noteq> None) \<and> (victim n = None \<longrightarrow> infos w' = infos w) \<or>
     (\<exists>j. victim n = Some j \<and> ring_part w' = (rena_clients w, (cnodes w)(a \<mapsto> n\<lparr>victim := None\<rparr>), w_brk w) \<and>
        infos w' = (infos w)(j := None)))"
proof -
  obtain n where n: "cnodes w a = Some n" using assms by (auto simp: del_victim_def bind_eq_Some_conv)
  show ?thesis
  proof (cases "victim n")
    case None
    with n assms show ?thesis by (auto simp: del_victim_def)
  next
    case (Some j)
    with n assms obtain b g w1 where d: "client_info_destroy w j b = Some (g, w1)"
      and u: "(if g then node_upd w1 (Some a) (\<lambda>n. n\<lparr>victim := None\<rparr>) else Some w1) = Some w'"
      by (auto simp: del_victim_def bind_eq_Some_conv)
    note r = info_destroy_ring [OF d]
    show ?thesis
    proof (cases b)
      case True
      then have "ring_part w' = (rena_clients w, (cnodes w)(a \<mapsto> n\<lparr>victim := None\<rparr>), w_brk w)" "infos w' = (infos w)(j := None)"
        using r u n by (auto simp: node_upd_def bind_eq_Some_conv ring_part_def)
      then show ?thesis using n Some by blast
    next
      case False
      then have "ring_part w' = ring_part w" "\<forall>x. infos w x \<noteq> None \<longrightarrow> infos w' x \<noteq> None" using r u by auto
      then show ?thesis using n Some by auto
    qed
  qed
qed

lemma pair_gone_registry:
  assumes r: "registry w as" and a: "a \<in> set as" and cs: "rena_clients w = Some cs"
    and w1: "rena_clients w1 = Some cs" "w_brk w1 = w_brk w" "cnodes w1 = (cnodes w)(a \<mapsto> n)"
    and n0: "cnodes w a = Some n0" "c_next n = c_next n0" "c_prev n = c_prev n0"
    and inf: "\<forall>x. infos w1 x = (if x \<in> set (owned w a) then None else infos w x)"
    and d: "del_node w1 cs a n = Some w'"
  shows "registry w' (remove1 a as)"
proof -
  have reg: "distinct as" "circle (cnodes w) as" "qty cs = int (length as)" "cci cs = (case as of [] \<Rightarrow> None | x # _ \<Rightarrow> Some x)"
    using r cs by (auto simp: registry_def)
  have "circle (cnodes w1) as" using reg(2) linked_pointers [of "cnodes w1" "cnodes w" as] w1(3) n0 by simp
  moreover have "cnodes w1 a = Some n" using w1(3) by simp
  ultimately obtain m where m: "del_node w1 cs a n = Some (w1\<lparr>cnodes := m,
        rena_clients := Some \<lparr>cci = (case remove1 a as of [] \<Rightarrow> None | x # _ \<Rightarrow> Some x), qty = qty cs - 1\<rparr>\<rparr>)"
      "circle m (remove1 a as)" "m a = None"
      "\<forall>x. x \<noteq> a \<longrightarrow> map_option (\<lambda>k. (requester k, victim k)) (m x) = map_option (\<lambda>k. (requester k, victim k)) (cnodes w1 x)"
    using del_node_list [OF _ reg(1) a _ reg(4), of w1 n] by blast
  have w': "w' = w1\<lparr>cnodes := m, rena_clients := Some \<lparr>cci = (case remove1 a as of [] \<Rightarrow> None | x # _ \<Rightarrow> Some x), qty = qty cs - 1\<rparr>\<rparr>"
    using d m(1) by simp
  show ?thesis
    by (rule registry_remove [OF r a, of w' "qty cs - 1"])
       (use m w' w1 reg(3) inf in \<open>auto simp: sides_def\<close>)
qed

text \<open>The two parts of a deletion, taken or not.\<close>

lemma requester_part:
  assumes "(if b then del_requester w a else Some w) = Some w1" "cnodes w1 a = Some n1"
  shows "\<exists>n0. cnodes w a = Some n0 \<and> ring_part w1 = (rena_clients w, (cnodes w)(a \<mapsto> n1), w_brk w) \<and>
    c_next n1 = c_next n0 \<and> c_prev n1 = c_prev n0 \<and> victim n1 = victim n0 \<and>
    (requester n1 = requester n0 \<and> infos w1 = infos w \<or>
     (\<exists>i. requester n0 = Some i \<and> requester n1 = None \<and> infos w1 = (infos w)(i := None)))"
proof (cases b)
  case True
  then show ?thesis using assms del_requester_ring [of w a w1] by (auto simp: ring_part_def)
next
  case False
  then show ?thesis using assms by (auto simp: ring_part_def fun_upd_idem)
qed

lemma victim_part:
  assumes "(if b then del_victim w a else Some w) = Some w2" "cnodes w a = Some n1" "cnodes w2 a = Some n2"
  shows "ring_part w2 = (rena_clients w, (cnodes w)(a \<mapsto> n2), w_brk w) \<and>
    c_next n2 = c_next n1 \<and> c_prev n2 = c_prev n1 \<and> requester n2 = requester n1 \<and>
    (victim n2 = victim n1 \<and> (\<forall>x. infos w x \<noteq> None \<longrightarrow> infos w2 x \<noteq> None) \<and> (victim n1 = None \<longrightarrow> infos w2 = infos w) \<or>
     (\<exists>j. victim n1 = Some j \<and> victim n2 = None \<and> infos w2 = (infos w)(j := None)))"
proof -
  have same: ?thesis if "ring_part w2 = ring_part w" "\<forall>x. infos w x \<noteq> None \<longrightarrow> infos w2 x \<noteq> None"
    "victim n1 = None \<longrightarrow> infos w2 = infos w"
    using that assms(2,3) by (auto simp: ring_part_def fun_upd_idem)
  show ?thesis
  proof (cases b)
    case True
    then obtain n where n: "cnodes w a = Some n" and c:
      "ring_part w2 = ring_part w \<and> (\<forall>x. infos w x \<noteq> None \<longrightarrow> infos w2 x \<noteq> None) \<and> (victim n = None \<longrightarrow> infos w2 = infos w) \<or>
       (\<exists>j. victim n = Some j \<and> ring_part w2 = (rena_clients w, (cnodes w)(a \<mapsto> n\<lparr>victim := None\<rparr>), w_brk w) \<and>
        infos w2 = (infos w)(j := None))"
      using assms(1) del_victim_ring [of w a w2] by auto
    from c show ?thesis
    proof
      assume "\<exists>j. victim n = Some j \<and> ring_part w2 = (rena_clients w, (cnodes w)(a \<mapsto> n\<lparr>victim := None\<rparr>), w_brk w) \<and>
        infos w2 = (infos w)(j := None)"
      then show ?thesis using n assms(2,3) by (auto simp: ring_part_def)
    qed (use n assms(2) same in auto)
  next
    case False
    then show ?thesis using assms same by auto
  qed
qed

lemma still_alive:
  assumes "rz = rx \<and> my = mx \<or> (\<exists>i. rx = Some i \<and> rz = None \<and> my = mx(i := None))"
    and "vz = vx \<and> (\<forall>x. my x \<noteq> None \<longrightarrow> mz x \<noteq> None) \<or> (\<exists>j. vx = Some j \<and> vz = None \<and> mz = my(j := None))"
    and "mx x \<noteq> None" "rx \<noteq> Some x \<and> vx \<noteq> Some x \<or> rz = Some x \<or> vz = Some x" "rx = None \<or> rx \<noteq> vx"
  shows "mz x \<noteq> None"
proof -
  have "my x \<noteq> None" using assms(1)
  proof
    assume "\<exists>i. rx = Some i \<and> rz = None \<and> my = mx(i := None)"
    then obtain i where i: "rx = Some i" "rz = None" "my = mx(i := None)" by blast
    then have "x \<noteq> i" using assms(2,4,5) by auto
    with i assms(3) show ?thesis by simp
  qed (use assms(3) in simp)
  from assms(2) show ?thesis
  proof
    assume "\<exists>j. vx = Some j \<and> vz = None \<and> mz = my(j := None)"
    then obtain j where j: "vx = Some j" "vz = None" "mz = my(j := None)" by blast
    then have "x \<noteq> j" using assms(1,4,5) by auto
    with j \<open>my x \<noteq> None\<close> show ?thesis by simp
  qed (use \<open>my x \<noteq> None\<close> in simp)
qed

lemma clients_del_keeps:
  assumes r: "registry w as" and s: "clients_del w p = Some (q, p', w')"
  shows "\<exists>as'. registry w' as'"
proof (cases "w' = w")
  case False
  obtain cs a v where cs: "rena_clients w = Some cs" and found: "clients_search_pointer_locked w cs a = Some True"
    and v: "del_pair w cs a p = Some (v, w')"
    using s False by (auto simp: clients_del_def bind_eq_Some_conv split: if_splits)
  obtain w1 where 1: "(if p_type p = REQUESTER_TYPE then del_requester w a else Some w) = Some w1"
    using v by (auto simp: del_pair_def bind_eq_Some_conv)
  obtain n1 where n1: "cnodes w1 a = Some n1" using v 1 by (auto simp: del_pair_def bind_eq_Some_conv)
  obtain w2 where 2: "(if p_type p = VICTIM_TYPE \<or> requester n1 = None then del_victim w1 a else Some w1) = Some w2"
    using v n1 unfolding del_pair_def 1 by (auto simp: bind_eq_Some_conv)
  obtain n2 where n2: "cnodes w2 a = Some n2"
    using v n1 unfolding del_pair_def 1 by (auto simp: bind_eq_Some_conv 2)
  have 3: "if requester n2 = None \<and> victim n2 = None then del_node w2 cs a n2 = Some w' else w' = w2"
    using v n1 n2 unfolding del_pair_def 1 by (auto simp: bind_eq_Some_conv 2 split: if_splits)
  have a: "a \<in> set as" using search_pointer_registry [OF r cs] found by simp
  obtain n0 where n0: "cnodes w a = Some n0" and s1: "ring_part w1 = (rena_clients w, (cnodes w)(a \<mapsto> n1), w_brk w)"
      "c_next n1 = c_next n0" "c_prev n1 = c_prev n0" "victim n1 = victim n0"
      "requester n1 = requester n0 \<and> infos w1 = infos w \<or>
       (\<exists>i. requester n0 = Some i \<and> requester n1 = None \<and> infos w1 = (infos w)(i := None))"
    using requester_part [OF 1 n1] by blast
  have s2: "ring_part w2 = (rena_clients w1, (cnodes w1)(a \<mapsto> n2), w_brk w1)"
      "c_next n2 = c_next n1" "c_prev n2 = c_prev n1" "requester n2 = requester n1"
      "victim n2 = victim n1 \<and> (\<forall>x. infos w1 x \<noteq> None \<longrightarrow> infos w2 x \<noteq> None) \<and> (victim n1 = None \<longrightarrow> infos w2 = infos w1) \<or>
       (\<exists>j. victim n1 = Some j \<and> victim n2 = None \<and> infos w2 = (infos w1)(j := None))"
    using victim_part [OF 2 n1 n2] by blast+
  have ring: "rena_clients w2 = rena_clients w" "cnodes w2 = (cnodes w)(a \<mapsto> n2)" "w_brk w2 = w_brk w"
      "c_next n2 = c_next n0" "c_prev n2 = c_prev n0"
    using s1(1-3) s2(1-3) by (simp_all add: ring_part_def)
  have own: "owned w a = (case requester n0 of None \<Rightarrow> [] | Some i \<Rightarrow> [i]) @ (case victim n0 of None \<Rightarrow> [] | Some i \<Rightarrow> [i])"
    using n0 by (simp add: owned_def)
  show ?thesis
  proof (cases "requester n2 = None \<and> victim n2 = None")
    case True
    then have "\<forall>x. infos w2 x = (if x \<in> set (owned w a) then None else infos w x)"
      using s1(4,5) s2(4,5) own by (auto split: option.splits)
    moreover have "del_node w2 cs a n2 = Some w'" using True 3 by simp
    ultimately show ?thesis using pair_gone_registry [OF r a cs _ ring(3,2) n0 ring(4,5)] ring(1) cs by auto
  next
    case False
    then have w': "w' = w2" using 3 by auto
    have own2: "owned w2 a = (case requester n2 of None \<Rightarrow> [] | Some i \<Rightarrow> [i]) @ (case victim n2 of None \<Rightarrow> [] | Some i \<Rightarrow> [i])"
      using n2 by (simp add: owned_def)
    have sub: "set (owned w2 a) \<subseteq> set (owned w a)" "owned w2 a \<noteq> []" "distinct (owned w a) \<Longrightarrow> distinct (owned w2 a)"
      using s1(4,5) s2(4,5) False unfolding own own2 by (auto split: option.splits)
    have alive: "infos w2 x \<noteq> None" if "infos w x \<noteq> None" "x \<notin> set (owned w a) \<or> x \<in> set (owned w2 a)" "distinct (owned w a)" for x
    proof (rule still_alive [where rx = "requester n0" and vx = "victim n0" and rz = "requester n2" and vz = "victim n2"
          and my = "infos w1" and mx = "infos w"])
      show "requester n0 \<noteq> Some x \<and> victim n0 \<noteq> Some x \<or> requester n2 = Some x \<or> victim n2 = Some x"
        using that(2) unfolding own own2 by (auto split: option.splits)
      show "requester n0 = None \<or> requester n0 \<noteq> victim n0"
        using that(3) unfolding own by (auto split: option.splits)
    qed (use s1(4,5) s2(4,5) that(1) in auto)
    have old: "\<forall>x \<in> set as. owned w x \<noteq> [] \<and> distinct (owned w x) \<and> (\<forall>i \<in> set (owned w x). i < w_brk w \<and> infos w i \<noteq> None)"
      using registry_owned [OF r] by blast
    have dj: "\<forall>x \<in> set as. x \<noteq> a \<longrightarrow> set (owned w x) \<inter> set (owned w a) = {}"
      using registry_disjoint [OF r _ a] by blast
    have other: "owned w2 x = owned w x" if "x \<noteq> a" for x using that ring(2) by (simp add: owned_def)
    have "registry w2 as"
    proof (rule registry_change [OF r ring(1), where a = a])
      show "\<forall>x \<in> set as. owned w2 x \<noteq> [] \<and> distinct (owned w2 x) \<and>
        (\<forall>i \<in> set (owned w2 x). i < w_brk w2 \<and> infos w2 i \<noteq> None \<and> (i \<in> set (owned w x) \<or> x = a \<and> w_brk w \<le> i))"
      proof
        fix x assume x: "x \<in> set as"
        show "owned w2 x \<noteq> [] \<and> distinct (owned w2 x) \<and>
          (\<forall>i \<in> set (owned w2 x). i < w_brk w2 \<and> infos w2 i \<noteq> None \<and> (i \<in> set (owned w x) \<or> x = a \<and> w_brk w \<le> i))"
        proof (cases "x = a")
          case True
          with old a sub alive ring(3) show ?thesis by auto
        next
          case False
          then have "\<forall>i \<in> set (owned w x). i \<notin> set (owned w a)" using dj x by auto
          with False old a x other alive ring(3) show ?thesis by auto
        qed
      qed
    qed (use ring n0 in auto)
    with w' show ?thesis by blast
  qed
qed (use r in auto)

section \<open>The invariant\<close>

definition ring_ok :: "world \<Rightarrow> bool" where
  "ring_ok w \<longleftrightarrow> (\<exists>as. registry w as)"

lemma registry_info:
  "registry w as \<Longrightarrow> infos w k = Some ci \<Longrightarrow> registry (w\<lparr>infos := (infos w)(k \<mapsto> ci')\<rparr>) as"
  by (rule registry_frame) auto

lemma add_registry: "registry w as \<Longrightarrow> clients_add w t fd = Some w' \<Longrightarrow> registry w' (w_brk w # as)"
  using clients_add_registry [of w as t fd] by auto

lemma ring_ok_frame:
  "ring_ok w \<Longrightarrow> rena_clients w' = rena_clients w \<Longrightarrow> w_brk w \<le> w_brk w' \<Longrightarrow> cnodes w' = cnodes w \<Longrightarrow>
    infos w' = infos w \<Longrightarrow> ring_ok w'"
  unfolding ring_ok_def using registry_frame [of w _ w'] by auto

interpretation ring_inv: task_invariant ring_ok
proof unfold_locales
  fix w w' :: world and t fd p r p' q m m' k ci ci'
  show "ring_ok w \<Longrightarrow> infos w k = Some ci \<Longrightarrow> ring_ok (w\<lparr>infos := (infos w)(k \<mapsto> ci')\<rparr>)"
    using registry_info unfolding ring_ok_def by blast
  show "ring_ok w \<Longrightarrow> clients_add w t fd = Some w' \<Longrightarrow> ring_ok w'"
    using add_registry unfolding ring_ok_def by blast
  show "ring_ok w \<Longrightarrow> clients_add_peer w p fd = Some (r, w') \<Longrightarrow> ring_ok w'"
    using add_peer_registry unfolding ring_ok_def by blast
  show "ring_ok w \<Longrightarrow> clients_del w p = Some (q, p', w') \<Longrightarrow> ring_ok w'"
    using clients_del_keeps unfolding ring_ok_def by blast
qed (erule ring_ok_frame; simp)+

lemma ring_ok_tm [simp]: "ring_ok (w\<lparr>rena_tm := x\<rparr>) = ring_ok w"
proof -
  have "owned (w\<lparr>rena_tm := x\<rparr>) = owned w" by (simp add: owned_def fun_eq_iff)
  then show ?thesis by (simp add: ring_ok_def registry_def)
qed

lemma worker_step_ring:
  assumes step: "worker_step evs w v p = Moved w' v' p'" and w: "ring_ok w"
  shows "ring_ok w'"
proof (cases p)
  case (Handling t)
  with step obtain again w1 where h: "task_handling w t = Some (again, w1)"
    by (auto simp: worker_step_def split: option.splits)
  then have "ring_ok w1" using ring_inv.keeps_task_handling [OF w, of t] by (simp add: keeps_def)
  with h step Handling show ?thesis
    by (cases again) (auto simp: worker_step_def set_working_def)
qed (use step w in \<open>auto simp: worker_step_def set_working_def push_task_def bind_eq_Some_conv
      intro: ring_inv.P_kernel ring_inv.P_calls
      split: if_splits option.splits list.splits prod.splits nat.splits\<close>)

lemma reaches_ring:
  assumes "reaches n w s" "ring_ok w" "proxy s = Some w'"
  shows "ring_ok w'"
proof -
  have "(pool_step n)\<^sup>*\<^sup>* (start_pool w) s" using assms(1) by (simp add: reaches_def)
  then have "\<forall>w'. proxy s = Some w' \<longrightarrow> ring_ok w'"
  proof (induction rule: rtranclp_induct)
    case (step s s')
    from step.hyps(2) show ?case
      by (rule pool_stepE) (use step.IH worker_step_ring in auto)
  qed (use assms(2) in \<open>simp add: start_pool_def\<close>)
  then show ?thesis using assms(3) by blast
qed

section \<open>Properties\<close>

text \<open>C8: whatever the network does and however the workers interleave, the registry is a well-linked
  ring in every reachable state: no node or client structure it points to is released, no structure
  is shared by two pairs, and so a search always returns.\<close>

theorem registry_always_sound:
  assumes "reaches n w s" "registry w as" "proxy s = Some w'"
  shows "\<exists>as'. registry w' as' \<and> clients_search w' fd = Some (first_some (position_in w' fd) as')"
  using reaches_ring [OF assms(1) _ assms(3)] assms(2) search_registry by (auto simp: ring_ok_def)

lemma registry_always_sound_witness:
  "\<exists>w s as'. clients_add start_world REQUESTER_TYPE 7 = Some w \<and> reaches 1 w s \<and> places s 0 = Asking \<and>
     proxy s = Some w \<and> registry w as' \<and> clients_search w 7 = Some (first_some (position_in w 7) as')"
proof -
  obtain w where w: "clients_add start_world REQUESTER_TYPE 7 = Some w" "registry w [w_brk start_world]" "registry_only start_world w"
    using clients_add_registry [of start_world "[]" REQUESTER_TYPE 7] by (auto simp: start_world_def registry_init)
  let ?s = "\<lparr>io_var = - 1, places = (\<lambda>_. Looping)(0 := Asking), proxy = Some w\<rparr>"
  have "forced_exit w = forced_exit start_world" 
    using arg_cong [OF w(3) [unfolded registry_only_def], of forced_exit] by simp
  then have "pool_step 1 (start_pool w) ?s"
    using pool_moved [of 0 1 "start_pool w" w None w "- 1" Asking]
    by (simp add: start_pool_def worker_step_def start_world_def init_world_def)
  then have r: "reaches 1 w ?s" by (simp add: reaches_def r_into_rtranclp)
  from registry_always_sound [OF r w(2), of w 7] obtain as' where
    "registry w as'" "clients_search w 7 = Some (first_some (position_in w 7) as')" by auto
  with w(1) r show ?thesis by (intro exI [of _ w] exI [of _ ?s] exI [of _ as']) simp
qed

end
