(* ===== verification/Relay.thy ===== *)
theory Relay
  imports HttpFlow
begin

text \<open>
  What \<^verbatim>\<open>http_pull\<close> and \<^verbatim>\<open>http_push\<close> do to the bytes.  Reading ends on every script of the
  operating system; the body of a message arrives in the buffer as the search for rules hands it
  on, whatever way the reads cut it; sending takes the bytes of the peer's buffer in order.
\<close>

section \<open>Reading ends\<close>

definition script_weight :: "reply list \<Rightarrow> nat" where
  "script_weight rs = (\<Sum>r \<leftarrow> rs. case r of Got s \<Rightarrow> Suc (length s) | _ \<Rightarrow> 1)"

lemma script_weight_simps [simp]:
  "script_weight [] = 0" "script_weight (Got s # rs) = Suc (length s) + script_weight rs"
  "script_weight (Took n # rs) = Suc (script_weight rs)" "script_weight (Failed n e # rs) = Suc (script_weight rs)"
  by (simp_all add: script_weight_def)

text \<open>What one round of the outer loop does with the bytes it got.\<close>

definition pull_round :: "world \<Rightarrow> client_position_t \<Rightarrow> int \<Rightarrow> string \<Rightarrow> world option" where
  "pull_round w client r bytes =
    (if r < 0 then None
     else do {
       (h, w) \<leftarrow> protocol_or_new w client;
       db \<leftarrow> rena_db w;
       peer \<leftarrow> peer_protocol w client;
       h \<leftarrow> pull_chars (rena_trees w) (suffix db) (p_type client = VICTIM_TYPE) peer h bytes;
       clients_set_protocol w client (Some (h\<lparr>buffer_recv := buffer_recv h + nat r\<rparr>)) })"

lemma pull_loop_round:
  "pull_loop w client cfd tls first =
    (case server_read_client w cfd tls MAX_STR False of (ret, r, bytes, retry, w) \<Rightarrow>
       if ret = 0 \<and> \<not> retry then do { w \<leftarrow> pull_round w client r bytes; pull_loop w client cfd tls False }
       else Some (ret, first, w))"
  by (subst pull_loop.simps) (simp add: pull_round_def bind_assoc case_prod_unfold cong: if_cong)

text \<open>The outer loop with at most \<open>n\<close> reads: \<^const>\<open>None\<close> when they are not enough.\<close>

fun pull_steps ::
  "nat \<Rightarrow> world \<Rightarrow> client_position_t \<Rightarrow> int \<Rightarrow> bool \<Rightarrow> bool \<Rightarrow> (int \<times> bool \<times> world) option option" where
  "pull_steps 0 w client cfd tls first = None"
| "pull_steps (Suc n) w client cfd tls first =
    (case server_read_client w cfd tls MAX_STR False of (ret, r, bytes, retry, w) \<Rightarrow>
       if ret = 0 \<and> \<not> retry then
         (case pull_round w client r bytes of
            None \<Rightarrow> Some None
          | Some w \<Rightarrow> pull_steps n w client cfd tls False)
       else Some (Some (ret, first, w)))"

lemma info_upd_reads: "info_upd w p f = Some w' \<Longrightarrow> reads w' = reads w"
  by (auto simp: info_upd_def bind_eq_Some_conv)

lemma pull_round_reads: "pull_round w client r bytes = Some w' \<Longrightarrow> reads w' = reads w"
  by (auto simp: pull_round_def protocol_or_new_def clients_set_protocol_def bind_eq_Some_conv Let_def
      split: if_splits option.splits dest!: info_upd_reads)

text \<open>A read that lets the loop go on takes something from the script.\<close>

lemma read_takes_weight:
  assumes "server_read_client w cfd tls MAX_STR False = (0, r, bytes, False, w')"
  shows "script_weight (reads w' cfd) < script_weight (reads w cfd)"
proof (cases "reads w cfd")
  case Nil
  then show ?thesis
    using assms by (cases tls) (simp_all add: server_read_client_def next_of_def ignore_error_def EAGAIN_def ssl_error_def task_types)
next
  case (Cons x xs)
  show ?thesis
  proof (cases x)
    case (Got s)
    have "length (drop MAX_STR s) < length s \<or> s = []" by (cases s) (simp_all add: MAX_STR_def)
    then show ?thesis
      using assms Cons Got by (auto simp: server_read_client_def next_of_def Let_def MAX_STR_def split: if_splits)
  qed (use assms Cons in \<open>auto simp: server_read_client_def next_of_def split: if_splits\<close>)
qed

lemma pull_steps_loop:
  "script_weight (reads w cfd) < n \<Longrightarrow>
    pull_steps n w client cfd tls first = Some (pull_loop w client cfd tls first)"
proof (induction n arbitrary: w first)
  case (Suc n)
  obtain ret r bytes retry v where rd: "server_read_client w cfd tls MAX_STR False = (ret, r, bytes, retry, v)"
    by (metis prod_cases5)
  show ?case
  proof (cases "ret = 0 \<and> \<not> retry")
    case True
    then have lt: "script_weight (reads v cfd) < n" using rd read_takes_weight Suc.prems by fastforce
    show ?thesis
    proof (cases "pull_round v client r bytes")
      case None
      then show ?thesis using rd True by (simp add: pull_loop_round [of w])
    next
      case (Some u)
      then have "script_weight (reads u cfd) < n" using lt pull_round_reads by metis
      then show ?thesis using rd True Some Suc.IH by (simp add: pull_loop_round [of w])
    qed
  next
    case False
    then show ?thesis using rd by (simp only: pull_loop_round [of w] pull_steps.simps prod.case if_False)
  qed
qed simp

section \<open>The body of a message\<close>

text \<open>The bytes that are in the buffer.\<close>

definition content :: "http \<Rightarrow> string" where
  "content h = take (buffer_used h) (hbuf h)"

text \<open>Each character makes the search hand on at most 2208 characters, what always fits.\<close>

fun small_pieces :: "tree_heap \<Rightarrow> database_object \<Rightarrow> string \<Rightarrow> bool" where
  "small_pieces trees d [] = True"
| "small_pieces trees d (c # cs) =
    (case dbo_feed trees d c of None \<Rightarrow> True | Some (d, out) \<Rightarrow> length out \<le> 2208 \<and> small_pieces trees d cs)"

lemma into_buffer_appends:
  assumes "block_ok h" "length s \<le> 2208"
  obtains g where "into_buffer h s = Some g" "block_ok g" "content g = content h @ s"
    "buffer_used g = buffer_used h + length s" "lookup_tree g = lookup_tree h" "payload g = payload h"
    "buffer_sent g = buffer_sent h" "buffer_recv g = buffer_recv h"
proof -
  obtain m g where f: "force_onto_buffer h s = Some (m, g)" "block_ok g" "buffer_used g = buffer_used h + length s"
      "take (buffer_used g) (hbuf g) = take (buffer_used h) (hbuf h) @ s"
    using force_appends [OF assms] by blast
  moreover have "lookup_tree g = lookup_tree h \<and> payload g = payload h \<and> buffer_sent g = buffer_sent h
      \<and> buffer_recv g = buffer_recv h"
    using f(1) by (auto simp: force_onto_buffer_def reallocation_protocol_def copy_internal_data_def hwrite_def
        Let_def bind_eq_Some_conv split: if_splits)
  ultimately show ?thesis using that [of g] by (simp add: into_buffer_def update_buffer_forced_def content_def)
qed

lemma maybe_into_buffer:
  assumes "block_ok h" "length s \<le> 2208"
  obtains g where "(if s \<noteq> [] then into_buffer h s else Some h) = Some g" "block_ok g"
    "content g = content h @ s" "lookup_tree g = lookup_tree h" "payload g = payload h"
    "buffer_sent g = buffer_sent h" "buffer_recv g = buffer_recv h"
  using into_buffer_appends [OF assms] assms(1) by (metis append_Nil2)

lemma block_ok_lookup [simp]: "block_ok (h\<lparr>lookup_tree := d\<rparr>) = block_ok h"
  by (simp add: block_ok_def)

lemma content_lookup [simp]: "content (h\<lparr>lookup_tree := d\<rparr>) = content h" "content (h\<lparr>buffer_recv := n\<rparr>) = content h"
  by (simp_all add: content_def)

lemma body_delimiter: "payload h \<noteq> None \<Longrightarrow> check_delimiter_header h c = (False, h)"
  by (simp add: check_delimiter_header_def)

text \<open>In the body, one character adds to the buffer what the search hands on.\<close>

definition adds :: "http \<Rightarrow> string \<Rightarrow> database_object \<Rightarrow> http \<Rightarrow> bool" where
  "adds h out d g \<longleftrightarrow> block_ok g \<and> content g = content h @ out \<and> lookup_tree g = d \<and>
     payload g = payload h \<and> buffer_sent g = buffer_sent h \<and> buffer_recv g = buffer_recv h"

lemma pull_char_body:
  assumes b: "payload h \<noteq> None" "block_ok h" and f: "dbo_feed trees (lookup_tree h) c = Some (d', out)"
    and small: "length out \<le> 2208"
  obtains g where "pull_char trees suff v peer h c = Some g" "adds h out d' g"
proof -
  obtain di tr d where lk: "database_instance_lookup trees (lookup_tree h) c = Some (di, tr, d)"
    using f by (auto simp: dbo_feed_def bind_eq_Some_conv)
  show ?thesis
  proof (cases "di = DBI_FEED_ME")
    case True
    then show ?thesis
      using f lk b that by (auto simp: dbo_feed_def pull_char_def bind_eq_Some_conv body_delimiter adds_def)
  next
    case hand: False
    show ?thesis
    proof (cases tr)
      case None
      obtain d1 where d1: "database_instance_add_input d c = Some d1"
        using f lk hand None by (auto simp: dbo_feed_def bind_eq_Some_conv)
      obtain holding d2 where "database_instance_get_holding d1 False = (holding, d2)" by fastforce
      with d1 have d: "database_instance_add_input d c = Some d1"
          "database_instance_get_holding d1 False = (holding, d2)" "d' = d2" "out = holding"
        using f lk hand None by (auto simp: dbo_feed_def)
      obtain g where "(if holding \<noteq> [] then into_buffer (h\<lparr>lookup_tree := d2\<rparr>) holding
            else Some (h\<lparr>lookup_tree := d2\<rparr>)) = Some g" "adds h out d' g"
        using maybe_into_buffer [of "h\<lparr>lookup_tree := d2\<rparr>" holding] b small d by (auto simp: adds_def)
      with hand None lk d b show ?thesis
        using that by (auto simp: pull_char_def adds_def body_delimiter)
    next
      case (Some t)
      obtain holding d1 where d: "database_instance_get_holding d True = (holding, d1)"
          "database_instance_add_input d1 c = Some d'" "out = holding @ t"
        using f lk hand Some by (auto simp: dbo_feed_def bind_eq_Some_conv split: prod.splits)
      have len: "length holding \<le> 2208" "length t \<le> 2208" using small d(3) by simp_all
      obtain g1 where g1: "(if holding \<noteq> [] then into_buffer (h\<lparr>lookup_tree := d1\<rparr>) holding
            else Some (h\<lparr>lookup_tree := d1\<rparr>)) = Some g1" "adds h holding d1 g1"
        using maybe_into_buffer [of "h\<lparr>lookup_tree := d1\<rparr>" holding] b len by (auto simp: adds_def)
      obtain g2 where g2: "into_buffer g1 t = Some g2" "adds h out d1 g2"
        using into_buffer_appends [of g1 t] g1(2) len d(3) by (auto simp: adds_def)
      have "adds h out d' (g2\<lparr>lookup_tree := d'\<rparr>)" using g2(2) by (simp add: adds_def)
      then show ?thesis
        using that g1 g2 hand Some lk d b by (auto simp: pull_char_def adds_def body_delimiter)
    qed
  qed
qed

lemma pull_chars_body:
  assumes "payload h \<noteq> None" "block_ok h" "dbo_feeds trees (lookup_tree h) cs = Some (d', out)"
    "small_pieces trees (lookup_tree h) cs"
  shows "\<exists>g. pull_chars trees suff v peer h cs = Some g \<and> adds h out d' g"
  using assms
proof (induction cs arbitrary: h out)
  case Nil
  then show ?case by (simp add: adds_def)
next
  case (Cons c cs)
  obtain d1 out1 out2 where f: "dbo_feed trees (lookup_tree h) c = Some (d1, out1)"
      "dbo_feeds trees d1 cs = Some (d', out2)" "out = out1 @ out2"
    using Cons.prems(3) by (auto simp: bind_eq_Some_conv)
  have small: "length out1 \<le> 2208" "small_pieces trees d1 cs" using Cons.prems(4) f(1) by auto
  obtain g1 where g1: "pull_char trees suff v peer h c = Some g1" "adds h out1 d1 g1"
    by (rule pull_char_body [OF Cons.prems(1,2) f(1) small(1)])
  then have "payload g1 \<noteq> None" "block_ok g1" "lookup_tree g1 = d1" using Cons.prems(1) by (auto simp: adds_def)
  then obtain g where "pull_chars trees suff v peer g1 cs = Some g" "adds g1 out2 d' g"
    using Cons.IH [of g1 out2] f small(2) by auto
  then have "pull_chars trees suff v peer h (c # cs) = Some g" "adds h out d' g"
    using g1 f(3) by (auto simp: adds_def)
  then show ?case by blast
qed

lemma dbo_feeds_append:
  "dbo_feeds h d (xs @ ys) = do {
     (d, out1) \<leftarrow> dbo_feeds h d xs;
     (d, out2) \<leftarrow> dbo_feeds h d ys;
     Some (d, out1 @ out2) }"
proof (induction xs arbitrary: d)
  case (Cons x xs)
  then show ?case by (cases "dbo_feed h d x") (auto split: bind_splits)
next
  case Nil
  then show ?case by (cases "dbo_feeds h d ys") auto
qed

lemma small_pieces_append:
  "dbo_feeds trees d xs = Some (d', out) \<Longrightarrow>
    small_pieces trees d (xs @ ys) \<longleftrightarrow> small_pieces trees d xs \<and> small_pieces trees d' ys"
  by (induction xs arbitrary: d out) (auto simp: bind_eq_Some_conv)

section \<open>Reading a body\<close>

text \<open>A client without TLS whose message is in its body.\<close>

definition in_body :: "world \<Rightarrow> client_position_t \<Rightarrow> addr \<Rightarrow> client_info \<Rightarrow> int \<Rightarrow> http \<Rightarrow> bool" where
  "in_body w client i ci fd h \<longleftrightarrow>
     p_info client = Some i \<and> infos w i = Some ci \<and> ci_fd ci = fd \<and> ci_ssl ci = None \<and>
     protocol ci = Some h \<and> payload h \<noteq> None \<and> block_ok h \<and>
     rena_db w \<noteq> None \<and> peer_protocol w client \<noteq> None"

definition after :: "world \<Rightarrow> addr \<Rightarrow> client_info \<Rightarrow> http \<Rightarrow> int \<Rightarrow> reply list \<Rightarrow> world" where
  "after w i ci g fd rest =
     w\<lparr>reads := (reads w)(fd := rest), infos := (infos w)(i := Some (ci\<lparr>protocol := Some g\<rparr>))\<rparr>"

lemma in_body_peer:
  assumes "peer_protocol w client \<noteq> None" "infos w i = Some ci"
  shows "peer_protocol (w\<lparr>reads := r, infos := (infos w)(i := Some ci')\<rparr>) client \<noteq> None"
proof -
  obtain out where out: "clients_get_peer w client = Some out"
    using assms(1) by (auto simp: peer_protocol_def bind_eq_Some_conv)
  moreover have "clients_get_peer (w\<lparr>reads := r, infos := (infos w)(i := Some ci')\<rparr>) client = clients_get_peer w client"
    by (simp add: clients_get_peer_def node_get_def)
  ultimately show ?thesis
    using assms by (cases out) (auto simp: peer_protocol_def clients_get_protocol_def info_of_def split: if_splits)
qed

lemma in_body_after:
  assumes "in_body w client i ci fd h" "payload g = payload h" "block_ok g"
  shows "in_body (after w i ci g fd rest) client i (ci\<lparr>protocol := Some g\<rparr>) fd g"
  using assms in_body_peer [of w client i ci] by (simp add: in_body_def after_def)

lemma after_after [simp]:
  "after (after w i ci g fd r) i (ci\<lparr>protocol := Some g\<rparr>) g' fd r' = after w i ci g' fd r'"
  by (simp add: after_def)

lemma after_same: "in_body w client i ci fd h \<Longrightarrow> reads w fd = rest \<Longrightarrow> after w i ci h fd rest = w"
  by (auto simp: after_def in_body_def fun_upd_idem)

text \<open>One round in the body.\<close>

lemma one_round:
  assumes b: "in_body w client i ci fd h" and rd: "reads w fd = Got s # rest" "s \<noteq> []"
    and f: "dbo_feeds trees (lookup_tree h) (take MAX_STR s) = Some (d', out)" "trees = rena_trees w"
    and small: "small_pieces trees (lookup_tree h) (take MAX_STR s)"
  obtains g where "adds (h\<lparr>buffer_recv := buffer_recv h + length (take MAX_STR s)\<rparr>) out d' g"
    "pull_loop w client fd False first =
       pull_loop (after w i ci g fd ((if drop MAX_STR s = [] then [] else [Got (drop MAX_STR s)]) @ rest))
         client fd False False"
proof -
  let ?t = "take MAX_STR s" and ?rest = "(if drop MAX_STR s = [] then [] else [Got (drop MAX_STR s)]) @ rest"
  let ?w = "w\<lparr>reads := (reads w)(fd := ?rest)\<rparr>"
  note b' = b [unfolded in_body_def]
  have t: "?t \<noteq> []" using rd(2) by (simp add: MAX_STR_def)
  have sr: "server_read_client w fd False MAX_STR False = (0, int (length ?t), ?t, False, ?w)"
    using rd t by (simp add: server_read_client_def next_of_def Let_def)
  obtain db peer where p: "rena_db ?w = Some db" "peer_protocol ?w client = Some peer"
    using b in_body_peer [where w = w and client = client and i = i and ci = ci and ci' = ci and r = "(reads w)(fd := ?rest)"]
    by (auto simp: in_body_def fun_upd_idem)
  obtain g where g: "pull_chars trees (suffix db) (p_type client = VICTIM_TYPE) peer h ?t = Some g" "adds h out d' g"
    using pull_chars_body [OF _ _ f(1) small] b' by blast
  let ?g = "g\<lparr>buffer_recv := buffer_recv g + length ?t\<rparr>"
  have "protocol_or_new ?w client = Some (h, ?w)"
    using b' by (simp add: protocol_or_new_def clients_get_protocol_def info_of_def)
  then have "pull_round ?w client (int (length ?t)) ?t = Some (after w i ci ?g fd ?rest)"
    using p g(1) f(2) b' by (simp add: pull_round_def clients_set_protocol_def info_upd_def after_def)
  then have "pull_loop w client fd False first = pull_loop (after w i ci ?g fd ?rest) client fd False False"
    by (subst pull_loop_round) (simp add: sr)
  moreover have "adds (h\<lparr>buffer_recv := buffer_recv h + length ?t\<rparr>) out d' ?g"
    using g(2) by (simp add: adds_def block_ok_def)
  ultimately show ?thesis using that by blast
qed

text \<open>All rounds: however the bytes are cut, the search sees them as one text.\<close>

lemma all_rounds:
  assumes "in_body w client i ci fd h" "reads w fd = map Got ss @ rest" "\<forall>s \<in> set ss. s \<noteq> []"
    "dbo_ok (rena_trees w) (lookup_tree h)" "small_pieces (rena_trees w) (lookup_tree h) (concat ss)"
  shows "\<exists>d' out g. dbo_feeds (rena_trees w) (lookup_tree h) (concat ss) = Some (d', out) \<and>
    adds (h\<lparr>buffer_recv := buffer_recv h + length (concat ss)\<rparr>) out d' g \<and>
    pull_loop w client fd False first = pull_loop (after w i ci g fd rest) client fd False (first \<and> ss = [])"
  using assms
proof (induction "length (concat ss)" arbitrary: w ci h ss first rule: less_induct)
  case less
  let ?tr = "rena_trees w"
  note b = less.prems(1)
  show ?case
  proof (cases ss)
    case Nil
    then show ?thesis using less.prems(2) after_same [OF b] b by (auto simp: adds_def in_body_def)
  next
    case (Cons s ss1)
    let ?t = "take MAX_STR s" and ?ss = "(if drop MAX_STR s = [] then [] else [drop MAX_STR s]) @ ss1"
    let ?rest = "(if drop MAX_STR s = [] then [] else [Got (drop MAX_STR s)]) @ map Got ss1 @ rest"
    have s: "s \<noteq> []" "concat ss = ?t @ concat ?ss" using less.prems(3) Cons by auto
    have rest: "?rest = map Got ?ss @ rest" by simp
    obtain d1 out1 where f1: "dbo_feeds ?tr (lookup_tree h) ?t = Some (d1, out1)" "dbo_ok ?tr d1"
      using feeds_ok [OF less.prems(4)] by blast
    have small: "small_pieces ?tr (lookup_tree h) ?t" "small_pieces ?tr d1 (concat ?ss)"
      using less.prems(5) small_pieces_append [OF f1(1)] s(2) by simp_all
    have rd: "reads w fd = Got s # (map Got ss1 @ rest)" using less.prems(2) Cons by simp
    obtain g1 where g1: "adds (h\<lparr>buffer_recv := buffer_recv h + length ?t\<rparr>) out1 d1 g1"
        "pull_loop w client fd False first = pull_loop (after w i ci g1 fd ?rest) client fd False False"
      by (rule one_round [OF b rd s(1) f1(1) refl small(1)])
    let ?w = "after w i ci g1 fd ?rest"
    have w: "in_body ?w client i (ci\<lparr>protocol := Some g1\<rparr>) fd g1" "rena_trees ?w = ?tr" "reads ?w fd = map Got ?ss @ rest"
      using in_body_after [OF b] g1(1) rest by (simp_all add: adds_def after_def del: map_append)
    have lt: "length (concat ?ss) < length (concat ss)" using s by (simp add: MAX_STR_def)
    have d1: "lookup_tree g1 = d1" using g1(1) by (simp add: adds_def)
    have ne: "\<forall>s \<in> set ?ss. s \<noteq> []" using less.prems(3) Cons by simp
    obtain d' out2 g where g: "dbo_feeds ?tr d1 (concat ?ss) = Some (d', out2)"
        "adds (g1\<lparr>buffer_recv := buffer_recv g1 + length (concat ?ss)\<rparr>) out2 d' g"
        "pull_loop ?w client fd False False = pull_loop (after w i ci g fd rest) client fd False False"
      using less.hyps [OF lt w(1) w(3) ne, unfolded w(2) d1, OF f1(2) small(2), where first = False]
      unfolding simp_thms after_after by blast
    have "adds (h\<lparr>buffer_recv := buffer_recv h + length (concat ss)\<rparr>) (out1 @ out2) d' g"
      using g1(1) g(2) unfolding s(2) by (simp add: adds_def)
    moreover have "dbo_feeds ?tr (lookup_tree h) (concat ss) = Some (d', out1 @ out2)"
      using f1(1) g(1) unfolding s(2) dbo_feeds_append by simp
    ultimately show ?thesis using g1(2) g(3) Cons by auto
  qed
qed

text \<open>The end of a round of reads: nothing more for now, or the end of the stream.\<close>

lemma pull_nothing_more:
  assumes "reads w fd = []"
  shows "pull_loop w client fd False first = Some (0, first, w)"
  by (subst pull_loop_round) (use assms in \<open>simp add: server_read_client_def next_of_def ignore_error_def EAGAIN_def\<close>)

lemma pull_end_of_stream:
  assumes "reads w fd = Failed 0 e # rest"
  shows "pull_loop w client fd False first = Some (- 1, first, w\<lparr>reads := (reads w)(fd := rest)\<rparr>)"
  by (subst pull_loop_round) (use assms in \<open>simp add: server_read_client_def next_of_def\<close>)


lemma want_protocol: "(ci :: client_info)\<lparr>want_ssl := n, protocol := x\<rparr> = ci\<lparr>protocol := x, want_ssl := n\<rparr>"
  by (cases ci) simp

text \<open>What \<^verbatim>\<open>http_pull\<close> makes of the state.\<close>

lemma pull_body:
  assumes b: "in_body w client i ci fd h" and rd: "reads w fd = map Got ss" "\<forall>s \<in> set ss. s \<noteq> []"
    and ok: "dbo_ok (rena_trees w) (lookup_tree h)"
    and small: "small_pieces (rena_trees w) (lookup_tree h) (concat ss)"
  obtains d' out g where "dbo_feeds (rena_trees w) (lookup_tree h) (concat ss) = Some (d', out)"
    "adds (h\<lparr>buffer_recv := buffer_recv h + length (concat ss)\<rparr>) out d' g"
    "http_pull w client fd = Some (0, after w i (ci\<lparr>want_ssl := 0\<rparr>) g fd [])"
proof -
  obtain d' out g where g: "dbo_feeds (rena_trees w) (lookup_tree h) (concat ss) = Some (d', out)"
      "adds (h\<lparr>buffer_recv := buffer_recv h + length (concat ss)\<rparr>) out d' g"
      "pull_loop w client fd False True = pull_loop (after w i ci g fd []) client fd False (True \<and> ss = [])"
    using all_rounds [OF b _ rd(2) ok small, of "[]" True] rd(1) by auto
  have "pull_loop w client fd False True = Some (0, ss = [], after w i ci g fd [])"
    using g(3) pull_nothing_more [of "after w i ci g fd []"] by (simp add: after_def)
  then have "http_pull w client fd = Some (0, after w i (ci\<lparr>want_ssl := 0\<rparr>) g fd [])"
    using b by (simp add: http_pull_def in_body_def clients_get_fd_def clients_get_ssl_def clients_clear_want_def
        info_of_def info_upd_def after_def want_protocol)
  with g(1,2) show ?thesis using that by blast
qed

section \<open>Writing\<close>

text \<open>What was sent on a descriptor, and what is still to be sent.\<close>

definition sent_text :: "int \<Rightarrow> event list \<Rightarrow> string" where
  "sent_text fd tr = concat (map (\<lambda>e. case e of Ev_sent f s \<Rightarrow> if f = fd then s else [] | _ \<Rightarrow> []) tr)"

definition unsent :: "http \<Rightarrow> string" where
  "unsent h = drop (buffer_sent h) (content h)"

lemma sent_text_simps [simp]:
  "sent_text fd [] = []" "sent_text fd (tr @ tr') = sent_text fd tr @ sent_text fd tr'"
  "sent_text fd [Ev_sent f s] = (if f = fd then s else [])" "sent_text fd [Ev_close k] = []"
  by (simp_all add: sent_text_def)

text \<open>\<^verbatim>\<open>SSL_get_error\<close> does not answer \<^verbatim>\<open>SSL_ERROR_NONE\<close> for a call that failed.\<close>

definition plausible :: "reply \<Rightarrow> bool" where
  "plausible r \<longleftrightarrow> (case r of Failed n e \<Rightarrow> e \<noteq> 0 | _ \<Rightarrow> True)"

lemma read_frame: "server_read_client w fd tls n b = (ret, r, s, b', w') \<Longrightarrow> w' = w\<lparr>reads := reads w'\<rparr>"
  by (auto simp: server_read_client_def Let_def split: prod.splits reply.splits if_splits)

definition same_but_scripts :: "world \<Rightarrow> world \<Rightarrow> bool" where
  "same_but_scripts w w' \<longleftrightarrow> w' = w\<lparr>reads := reads w', shutdowns := shutdowns w'\<rparr>"

lemma same_but_scripts_trans: "same_but_scripts a b \<Longrightarrow> same_but_scripts b c \<Longrightarrow> same_but_scripts a c"
  unfolding same_but_scripts_def by (cases a, cases b, cases c) simp

lemma shutdown_frame: "same_but_scripts w (shutdown_loop k fd w)"
proof (induction k arbitrary: w)
  case 0
  show ?case by (cases w) (simp add: same_but_scripts_def)
next
  case (Suc k)
  obtain ret pending ss where n: "next_of (1, 0) (shutdowns w) fd = ((ret, pending), ss)" by (metis surj_pair)
  obtain a b c d v where r: "server_read_client (w\<lparr>shutdowns := ss\<rparr>) fd True 4096 False = (a, b, c, d, v)"
    by (metis prod_cases5)
  have 1: "same_but_scripts w (w\<lparr>shutdowns := ss\<rparr>)" by (cases w) (simp add: same_but_scripts_def)
  have "same_but_scripts (w\<lparr>shutdowns := ss\<rparr>) v"
    using read_frame [OF r] by (cases v, cases w) (simp add: same_but_scripts_def)
  then have "same_but_scripts w v" using 1 same_but_scripts_trans by blast
  with 1 show ?case using n r Suc.IH same_but_scripts_trans by (auto simp: Let_def)
qed

text \<open>One call of \<^verbatim>\<open>server_write_client\<close>: a prefix is sent, or nothing.\<close>

lemma write_prefix:
  assumes "server_write_client w fd tls s False = (res, r, retry, w')" "\<forall>x \<in> set (writes w fd). plausible x"
  shows "(\<exists>k \<le> length s. 0 < k \<and> res = 0 \<and> r = int k \<and> \<not> retry \<and>
       w' = w\<lparr>writes := writes w', trace := trace w @ [Ev_sent fd (take k s)]\<rparr>) \<or>
     ((r = 0 \<or> res \<noteq> 0 \<or> retry) \<and> w' = w\<lparr>writes := writes w'\<rparr>)"
proof -
  obtain x ws where x: "next_of (Took (length s)) (writes w) fd = (x, ws)" by fastforce
  have pl: "plausible x"
    using x assms(2) by (auto simp: next_of_def plausible_def split: list.splits)
  show ?thesis
  proof (cases x)
    case (Failed n e)
    then show ?thesis
      using assms(1) x pl by (auto simp: server_write_client_def plausible_def ssl_error_def task_types split: if_splits)
  next
    case (Took k)
    then show ?thesis
      using assms(1) x by (cases "min k (length s) > 0")
        (auto simp: server_write_client_def Let_def emit_def intro!: exI [of _ "min k (length s)"])
  next
    case (Got t)
    then show ?thesis using assms(1) x by (auto simp: server_write_client_def Let_def)
  qed
qed


text \<open>A call that leaves the registry, the database and all clients but one alone.\<close>

definition touches :: "world \<Rightarrow> addr \<Rightarrow> world \<Rightarrow> bool" where
  "touches w i w' \<longleftrightarrow> cnodes w' = cnodes w \<and> rena_trees w' = rena_trees w \<and> rena_db w' = rena_db w \<and>
     infos w' i \<noteq> None \<and> (\<forall>j. j \<noteq> i \<longrightarrow> infos w' j = infos w j)"

lemma touches_trans: "touches a i b \<Longrightarrow> touches b i c \<Longrightarrow> touches a i c"
  by (simp add: touches_def)

lemma touches_info_upd: "p_info p = Some i \<Longrightarrow> infos w i \<noteq> None \<Longrightarrow>
    \<exists>v. info_upd w p f = Some v \<and> touches w i v \<and> trace v = trace w"
  by (auto simp: info_upd_def touches_def)

lemma same_but_scripts_fields:
  assumes "same_but_scripts w v"
  shows "cnodes v = cnodes w" "infos v = infos w" "rena_trees v = rena_trees w" "rena_db v = rena_db w" "trace v = trace w"
  by (subst assms [unfolded same_but_scripts_def], simp)+

lemma touches_close: "infos w i \<noteq> None \<Longrightarrow> touches w i (server_close_client fd tls r w)"
  by (simp add: server_close_client_def touches_def proc_close_def emit_def same_but_scripts_fields [OF shutdown_frame])

lemma sent_close: "sent_text k (trace (server_close_client fd tls r w)) = sent_text k (trace w)"
  by (simp add: server_close_client_def proc_close_def emit_def same_but_scripts_fields [OF shutdown_frame])

definition sendable :: "http \<Rightarrow> bool" where
  "sendable h \<longleftrightarrow> buffer_sent h \<le> buffer_used h \<and> buffer_used h \<le> length (hbuf h) \<and> buffer_used h < 2 ^ 64"

lemma unsent_take: "sendable pp \<Longrightarrow> take (buffer_used pp - buffer_sent pp) (drop (buffer_sent pp) (hbuf pp)) = unsent pp"
  by (simp add: unsent_def content_def drop_take)

lemma unsent_advance:
  assumes "sendable pp" "k \<le> length (unsent pp)"
  shows "sendable (pp\<lparr>buffer_sent := wrap64 (int (buffer_sent pp) + int k)\<rparr>)"
    "unsent (pp\<lparr>buffer_sent := wrap64 (int (buffer_sent pp) + int k)\<rparr>) = drop k (unsent pp)"
proof -
  have "wrap64 (int (buffer_sent pp) + int k) = buffer_sent pp + k"
    using assms by (auto simp: wrap64_def sendable_def unsent_def content_def)
  then show "sendable (pp\<lparr>buffer_sent := wrap64 (int (buffer_sent pp) + int k)\<rparr>)"
    "unsent (pp\<lparr>buffer_sent := wrap64 (int (buffer_sent pp) + int k)\<rparr>) = drop k (unsent pp)"
    using assms by (auto simp: sendable_def unsent_def content_def add.commute)
qed

definition pushed :: "world \<Rightarrow> http \<Rightarrow> int \<Rightarrow> addr \<Rightarrow> world \<Rightarrow> http \<Rightarrow> bool" where
  "pushed w pp fd i w' pp' \<longleftrightarrow> sendable pp' \<and> pp' = pp\<lparr>buffer_sent := buffer_sent pp'\<rparr> \<and>
     sent_text fd (trace w') @ unsent pp' = sent_text fd (trace w) @ unsent pp \<and> touches w i w'"

lemma push2_conserves:
  assumes pp: "sendable pp" and i: "p_info client = Some i" "infos w i = Some ci"
    and pl: "\<forall>x \<in> set (writes w cfd). plausible x"
  obtains ret pp' w' where "http_push2 w pp client cfd pfd = Some (ret, pp', w')" "pushed w pp cfd i w' pp'"
proof -
  have le: "\<not> buffer_sent pp > buffer_used pp" using pp by (simp add: sendable_def)
  have want: "clients_get_want w client = Some (want_ssl ci)" "clients_get_ssl w client = Some (ci_ssl ci)"
    using i by (simp_all add: clients_get_want_def clients_get_ssl_def info_of_def)
  have same: "pushed w pp cfd i w pp" using pp i by (simp add: pushed_def touches_def)
  show ?thesis
  proof (cases "want_ssl ci = 0 \<and> buffer_used pp - buffer_sent pp = 0")
    case True
    then show ?thesis using that [OF _ same] le want by (simp add: http_push2_def)
  next
    case False
    obtain res r retry v where wr: "server_write_client w cfd (ci_ssl ci \<noteq> None) (unsent pp) False = (res, r, retry, v)"
      by (metis prod_cases4)
    have push: "http_push2 w pp client cfd pfd =
        (if r = 0 then Some (if pfd < 0 then 0 else int TT_READ, pp, v)
         else if res < 0 then do {
           w \<leftarrow> clients_set_fd (server_close_client cfd (ci_ssl ci \<noteq> None) res v) client (- 1);
           Some (- 1, pp, w) }
         else if res > 0 then do {
           w \<leftarrow> clients_set_want v client 0 (if res = int TT_READ then 1 else 0);
           Some (res, pp, w) }
         else do {
           w \<leftarrow> clients_clear_want v client;
           let pp = (if retry then pp else pp\<lparr>buffer_sent := wrap64 (int (buffer_sent pp) + r)\<rparr>);
           if \<not> retry \<and> pfd < 0 \<and> buffer_sent pp \<ge> buffer_used pp then Some (0, pp, w)
           else Some (if buffer_sent pp < buffer_used pp then int TT_WRITE else int TT_READ, pp, w) })"
      by (simp only: http_push2_def if_not_P [OF le] if_not_P [OF False] Let_def want unsent_take [OF pp] wr
          bind.simps prod.case)
    from write_prefix [OF wr pl] show ?thesis
    proof
      assume "\<exists>k \<le> length (unsent pp). 0 < k \<and> res = 0 \<and> r = int k \<and> \<not> retry \<and>
       v = w\<lparr>writes := writes v, trace := trace w @ [Ev_sent cfd (take k (unsent pp))]\<rparr>"
      then obtain k where k: "k \<le> length (unsent pp)" "0 < k" "res = 0" "r = int k" "\<not> retry"
        "v = w\<lparr>writes := writes v, trace := trace w @ [Ev_sent cfd (take k (unsent pp))]\<rparr>" by blast
      let ?pp = "pp\<lparr>buffer_sent := wrap64 (int (buffer_sent pp) + int k)\<rparr>"
      have v: "touches w i v" "trace v = trace w @ [Ev_sent cfd (take k (unsent pp))]"
        using i by (subst k(6), simp add: touches_def)+
      then obtain u where u: "clients_clear_want v client = Some u" "touches v i u" "trace u = trace v"
        unfolding clients_clear_want_def using touches_info_upd [OF i(1)] by (metis touches_def)
      have "pushed w pp cfd i u ?pp"
        using unsent_advance [OF pp k(1)] v u touches_trans by (auto simp: pushed_def)
      moreover have "\<exists>ret. http_push2 w pp client cfd pfd = Some (ret, ?pp, u)"
        using push k u(1) by (simp add: Let_def)
      ultimately show ?thesis using that by blast
    next
      assume "(r = 0 \<or> res \<noteq> 0 \<or> retry) \<and> v = w\<lparr>writes := writes v\<rparr>"
      then have none: "r = 0 \<or> res \<noteq> 0 \<or> retry" and vw: "v = w\<lparr>writes := writes v\<rparr>" by blast+
      have v: "touches w i v" "trace v = trace w" using i by (subst vw, simp add: touches_def)+
      then have inf: "infos v i \<noteq> None" by (simp add: touches_def)
      have fin: "pushed w pp cfd i u pp" if "touches v i u" "sent_text cfd (trace u) = sent_text cfd (trace v)" for u
        using that v touches_trans same by (auto simp: pushed_def)
      have upd: "\<exists>u. info_upd x client f = Some u \<and> pushed w pp cfd i u pp"
        if "touches v i x" "sent_text cfd (trace x) = sent_text cfd (trace v)" for x f
        using touches_info_upd [OF i(1), of x f] that touches_trans [of v i x] by (metis fin touches_def)
      have "\<exists>ret u. http_push2 w pp client cfd pfd = Some (ret, pp, u) \<and> pushed w pp cfd i u pp"
      proof (cases "r = 0")
        case True
        then show ?thesis using push fin [of v] inf by (simp add: touches_def)
      next
        case r: False
        show ?thesis
        proof (cases "res < 0")
          case True
          obtain u where "clients_set_fd (server_close_client cfd (ci_ssl ci \<noteq> None) res v) client (- 1) = Some u"
              "pushed w pp cfd i u pp"
            using upd [OF touches_close [OF inf] sent_close] unfolding clients_set_fd_def by blast
          then show ?thesis using push r True by simp
        next
          case False
          have "touches v i v" using inf by (simp add: touches_def)
          then have u: "\<exists>u. info_upd v client f = Some u \<and> pushed w pp cfd i u pp" for f using upd by blast
          show ?thesis
          proof (cases "res > 0")
            case True
            obtain y where "clients_set_want v client 0 (if res = int TT_READ then 1 else 0) = Some y" "pushed w pp cfd i y pp"
              using u unfolding clients_set_want_def by blast
            then show ?thesis using push r \<open>\<not> res < 0\<close> True by (simp add: bind.bind_lunit)
          next
            case False
            obtain y where "clients_clear_want v client = Some y" "pushed w pp cfd i y pp"
              using u unfolding clients_clear_want_def by blast
            moreover have retry using none r False \<open>\<not> res < 0\<close> by simp
            ultimately show ?thesis using push r False \<open>\<not> res < 0\<close> by (simp add: Let_def)
          qed
        qed
      qed
      then show ?thesis using that by blast
    qed
  qed
qed


section \<open>Relaying\<close>

text \<open>A pair of clients in the middle of an answer without TLS on the side of the site: the node \<open>a\<close>, the
  structures of the browser and of the site, and the HTTP structure \<open>h\<close> that the answer goes through.\<close>

definition browser :: "addr \<Rightarrow> addr \<Rightarrow> client_position_t" where
  "browser a ri = \<lparr>p_info = Some ri, p_type = REQUESTER_TYPE, p_pos = Some a\<rparr>"

definition site :: "addr \<Rightarrow> addr \<Rightarrow> client_position_t" where
  "site a vi = \<lparr>p_info = Some vi, p_type = VICTIM_TYPE, p_pos = Some a\<rparr>"

definition paired :: "world \<Rightarrow> addr \<Rightarrow> addr \<Rightarrow> addr \<Rightarrow> bool" where
  "paired w a ri vi \<longleftrightarrow> ri \<noteq> vi \<and> infos w ri \<noteq> None \<and> rena_db w \<noteq> None \<and>
     (case cnodes w a of None \<Rightarrow> False | Some n \<Rightarrow> requester n = Some ri \<and> victim n = Some vi)"

definition answering :: "world \<Rightarrow> addr \<Rightarrow> client_info \<Rightarrow> int \<Rightarrow> http \<Rightarrow> bool" where
  "answering w vi vci vfd h \<longleftrightarrow> infos w vi = Some vci \<and> ci_fd vci = vfd \<and> ci_ssl vci = None \<and>
     protocol vci = Some h \<and> payload h \<noteq> None \<and> block_ok h \<and> sendable h \<and> dbo_ok (rena_trees w) (lookup_tree h)"

lemma paired_peer:
  assumes "paired w a ri vi"
  shows "clients_get_peer w (browser a ri) = Some (Some (site a vi))"
    "clients_get_peer w (site a vi) = Some (Some (browser a ri))"
  using assms by (auto simp: paired_def clients_get_peer_def node_get_def browser_def site_def split: option.splits)

lemma paired_in_body:
  assumes "paired w a ri vi" "answering w vi vci vfd h"
  shows "in_body w (site a vi) vi vci vfd h"
  using assms paired_peer [OF assms(1)]
  by (auto simp: in_body_def answering_def paired_def peer_protocol_def clients_get_protocol_def info_of_def
      site_def browser_def)

text \<open>The network delivers pieces of the answer to the proxy, or the system takes bytes towards the
  browser with some outcome.\<close>

datatype relay_event = Deliver "string list" | Take reply

definition relay_step :: "addr \<Rightarrow> addr \<Rightarrow> addr \<Rightarrow> int \<Rightarrow> int \<Rightarrow> world \<Rightarrow> relay_event \<Rightarrow> world option" where
  "relay_step a ri vi rfd vfd w e =
    map_option snd
      (case e of
         Deliver ss \<Rightarrow> http_pull (w\<lparr>reads := (reads w)(vfd := map Got ss)\<rparr>) (site a vi) vfd
       | Take r \<Rightarrow> http_push (w\<lparr>writes := (writes w)(rfd := [r])\<rparr>) (browser a ri) rfd)"

fun relay :: "addr \<Rightarrow> addr \<Rightarrow> addr \<Rightarrow> int \<Rightarrow> int \<Rightarrow> world \<Rightarrow> relay_event list \<Rightarrow> world option" where
  "relay a ri vi rfd vfd w [] = Some w"
| "relay a ri vi rfd vfd w (e # es) = do { w \<leftarrow> relay_step a ri vi rfd vfd w e; relay a ri vi rfd vfd w es }"

fun delivered :: "relay_event list \<Rightarrow> string" where
  "delivered [] = []"
| "delivered (Deliver ss # es) = concat ss @ delivered es"
| "delivered (Take r # es) = delivered es"

fun proper :: "relay_event \<Rightarrow> bool" where
  "proper (Deliver ss) = (\<forall>s \<in> set ss. s \<noteq> [])"
| "proper (Take r) = plausible r"

lemma deliver_step:
  assumes p: "paired w a ri vi" "answering w vi vci vfd h" and ss: "\<forall>s \<in> set ss. s \<noteq> []"
    and f: "dbo_feeds (rena_trees w) (lookup_tree h) (concat ss) = Some (d', out)"
    and small: "small_pieces (rena_trees w) (lookup_tree h) (concat ss)"
    and len: "length (content h) + length out < 2 ^ 64"
  obtains w' vci' g where "relay_step a ri vi rfd vfd w (Deliver ss) = Some w'"
    "paired w' a ri vi" "answering w' vi vci' vfd g" "rena_trees w' = rena_trees w" "trace w' = trace w"
    "lookup_tree g = d'" "content g = content h @ out" "unsent g = unsent h @ out"
proof -
  let ?w = "w\<lparr>reads := (reads w)(vfd := map Got ss)\<rparr>"
  have p': "paired ?w a ri vi" "answering ?w vi vci vfd h" using p by (simp_all add: paired_def answering_def)
  have ok: "dbo_ok (rena_trees ?w) (lookup_tree h)" using p(2) by (simp add: answering_def)
  obtain g where g: "adds (h\<lparr>buffer_recv := buffer_recv h + length (concat ss)\<rparr>) out d' g"
      "http_pull ?w (site a vi) vfd = Some (0, after ?w vi (vci\<lparr>want_ssl := 0\<rparr>) g vfd [])"
    by (rule pull_body [OF paired_in_body [OF p'], of ss]) (use ss ok small f in auto)
  let ?v = "after ?w vi (vci\<lparr>want_ssl := 0\<rparr>) g vfd []"
  have cg: "content g = content h @ out" "block_ok g" using g(1) by (simp_all add: adds_def)
  then have used: "buffer_used g = length (content h) + length out"
    by (metis block_ok_def content_def length_append length_take min.absorb2)
  have sent: "buffer_sent g = buffer_sent h" "buffer_sent h \<le> length (content h)"
    using g(1) p(2) by (auto simp: adds_def answering_def sendable_def content_def)
  have "answering ?v vi (vci\<lparr>want_ssl := 0, protocol := Some g\<rparr>) vfd g"
    using p(2) g(1) used len sent feeds_ok [of "rena_trees w" "lookup_tree h" "concat ss"] f
    by (auto simp: answering_def after_def adds_def sendable_def block_ok_def)
  moreover have "paired ?v a ri vi" using p(1) by (auto simp: paired_def after_def split: option.splits)
  moreover have "unsent g = unsent h @ out" using cg(1) sent by (simp add: unsent_def)
  ultimately show ?thesis
    using that [of ?v] g cg by (simp add: relay_step_def after_def adds_def)
qed

lemma take_step:
  assumes p: "paired w a ri vi" "answering w vi vci vfd h" and r: "plausible r"
  obtains w' vci' g where "relay_step a ri vi rfd vfd w (Take r) = Some w'"
    "paired w' a ri vi" "answering w' vi vci' vfd g" "rena_trees w' = rena_trees w"
    "lookup_tree g = lookup_tree h" "content g = content h"
    "sent_text rfd (trace w') @ unsent g = sent_text rfd (trace w) @ unsent h"
proof -
  let ?w = "w\<lparr>writes := (writes w)(rfd := [r])\<rparr>" and ?b = "browser a ri"
  obtain rci where rci: "infos w ri = Some rci" and ne: "ri \<noteq> vi" using p(1) by (auto simp: paired_def)
  show ?thesis
  proof (cases "ci_fd rci = rfd")
    case False
    then have "relay_step a ri vi rfd vfd w (Take r) = Some ?w"
      using rci by (simp add: relay_step_def http_push_def clients_get_fd_def info_of_def browser_def)
    moreover have "paired ?w a ri vi" "answering ?w vi vci vfd h" using p by (simp_all add: paired_def answering_def)
    ultimately show ?thesis using that [of ?w vci h] by simp
  next
    case True
    obtain h1 v where v: "protocol_or_new ?w ?b = Some (h1, v)" "touches w ri v" "trace v = trace w"
        "writes v rfd = [r]"
      using rci p(1) by (cases "protocol rci")
        (auto simp: protocol_or_new_def clients_get_protocol_def info_of_def browser_def paired_def
          clients_set_protocol_def info_upd_def touches_def Let_def)
    have pv: "paired v a ri vi" "infos v vi = Some vci" "infos v ri \<noteq> None"
      using p v(2) ne by (auto simp: paired_def touches_def answering_def)
    then obtain rci' where rci': "infos v ri = Some rci'" by blast
    have h: "protocol vci = Some h" "sendable h" using p(2) by (simp_all add: answering_def)
    obtain ret g u where u: "http_push2 v h ?b rfd (ci_fd vci) = Some (ret, g, u)" "pushed v h rfd ri u g"
      by (rule push2_conserves [OF h(2), where client = ?b and i = ri and w = v and cfd = rfd and pfd = "ci_fd vci"])
        (use rci' v(4) r in \<open>auto simp: browser_def\<close>)
    let ?w' = "u\<lparr>infos := (infos u)(vi \<mapsto> vci\<lparr>protocol := Some g\<rparr>)\<rparr>"
    have uv: "infos u vi = Some vci" "touches w ri u" "touches v ri u"
      using u(2) pv(2) ne v(2) touches_trans by (auto simp: pushed_def touches_def)
    have "http_push ?w ?b rfd = Some (ret, ?w')"
      using True rci v(1) paired_peer [OF pv(1)] pv(2) h(1) u(1) uv(1)
      by (simp add: http_push_def clients_get_fd_def info_of_def peer_protocol_def clients_get_protocol_def
          clients_set_protocol_def info_upd_def browser_def site_def)
    then have step: "relay_step a ri vi rfd vfd w (Take r) = Some ?w'" by (simp add: relay_step_def)
    have g: "g = h\<lparr>buffer_sent := buffer_sent g\<rparr>" "sendable g" using u(2) by (simp_all add: pushed_def)
    have gf: "payload g = payload h" "block_ok g = block_ok h" "lookup_tree g = lookup_tree h" "content g = content h"
      by (subst g(1), simp add: block_ok_def content_def)+
    have "answering ?w' vi (vci\<lparr>protocol := Some g\<rparr>) vfd g"
      using p(2) g(2) gf uv(2) by (simp add: answering_def touches_def)
    moreover have "paired ?w' a ri vi" using p(1) uv(2) ne by (auto simp: paired_def touches_def split: option.splits)
    moreover have "sent_text rfd (trace ?w') @ unsent g = sent_text rfd (trace w) @ unsent h"
      using u(2) v(3) by (simp add: pushed_def)
    ultimately show ?thesis using that step gf uv(2) by (simp add: touches_def)
  qed
qed

lemma relay_conserves:
  assumes "paired w a ri vi" "answering w vi vci vfd h" "\<forall>e \<in> set es. proper e"
    "dbo_feeds (rena_trees w) (lookup_tree h) (delivered es) = Some (d', out)"
    "small_pieces (rena_trees w) (lookup_tree h) (delivered es)" "length (content h) + length out < 2 ^ 64"
  shows "\<exists>w' vci' g. relay a ri vi rfd vfd w es = Some w' \<and> paired w' a ri vi \<and> answering w' vi vci' vfd g \<and>
    lookup_tree g = d' \<and> content g = content h @ out \<and>
    sent_text rfd (trace w') @ unsent g = sent_text rfd (trace w) @ unsent h @ out"
  using assms
proof (induction es arbitrary: w vci h out)
  case Nil
  then show ?case by (auto simp: answering_def)
next
  case (Cons e es)
  note p = Cons.prems(1,2)
  show ?case
  proof (cases e)
    case (Take r)
    have pr: "plausible r" using Cons.prems(3) Take by simp
    obtain w1 vci1 g1 where 1: "relay_step a ri vi rfd vfd w (Take r) = Some w1"
        "paired w1 a ri vi" "answering w1 vi vci1 vfd g1" "rena_trees w1 = rena_trees w"
        "lookup_tree g1 = lookup_tree h" "content g1 = content h"
        "sent_text rfd (trace w1) @ unsent g1 = sent_text rfd (trace w) @ unsent h"
      by (rule take_step [OF p pr])
    show ?thesis
      using Cons.IH [OF 1(2,3)] Cons.prems(3-6) Take 1 by (auto simp flip: append_assoc)
  next
    case (Deliver ss)
    obtain d1 out1 out2 where f: "dbo_feeds (rena_trees w) (lookup_tree h) (concat ss) = Some (d1, out1)"
        "dbo_feeds (rena_trees w) d1 (delivered es) = Some (d', out2)" "out = out1 @ out2"
      using Cons.prems(4) Deliver by (auto simp: dbo_feeds_append bind_eq_Some_conv)
    have s: "small_pieces (rena_trees w) (lookup_tree h) (concat ss)" "small_pieces (rena_trees w) d1 (delivered es)"
      using Cons.prems(5) Deliver small_pieces_append [OF f(1)] by simp_all
    have l: "length (content h) + length out1 < 2 ^ 64" using Cons.prems(6) f(3) by simp
    have ne: "\<forall>s \<in> set ss. s \<noteq> []" using Cons.prems(3) Deliver by simp
    obtain w1 vci1 g1 where 1: "relay_step a ri vi rfd vfd w (Deliver ss) = Some w1"
        "paired w1 a ri vi" "answering w1 vi vci1 vfd g1" "rena_trees w1 = rena_trees w" "trace w1 = trace w"
        "lookup_tree g1 = d1" "content g1 = content h @ out1" "unsent g1 = unsent h @ out1"
      by (rule deliver_step [OF p ne f(1) s(1) l])
    show ?thesis
      using Cons.IH [OF 1(2,3), of out2] Cons.prems(3,6) Deliver 1 f s by (auto simp: add.assoc)
  qed
qed

section \<open>Properties\<close>



text \<open>C6: when the stream ends, the characters that the search still holds are not lost: the
  buffer ends with them, the descriptor is closed and forgotten, and the result is 0, so that
  what has been read is still evaluated.\<close>

theorem pull_flushes_at_end:
  assumes b: "in_body w client i ci fd h" and rd: "reads w fd = map Got ss @ [Failed 0 e]" "\<forall>s \<in> set ss. s \<noteq> []"
    and ok: "dbo_ok (rena_trees w) (lookup_tree h)"
    and small: "small_pieces (rena_trees w) (lookup_tree h) (concat ss)"
    and f: "dbo_feeds (rena_trees w) (lookup_tree h) (concat ss) = Some (d', out)" "length (held d') \<le> 2208"
  shows "\<exists>g w'. http_pull w client fd = Some (0, w') \<and> clients_get_protocol w' client = Some (Some g) \<and>
    content g = content h @ out @ held d' \<and> clients_get_fd w' client = Some (- 1) \<and>
    \<not> open_fd w' fd \<and> trace w' = trace w @ [Ev_close fd]"
proof -
  obtain g where g: "adds (h\<lparr>buffer_recv := buffer_recv h + length (concat ss)\<rparr>) out d' g"
      "pull_loop w client fd False True = pull_loop (after w i ci g fd [Failed 0 e]) client fd False (True \<and> ss = [])"
    using all_rounds [OF b rd ok small, of True] f(1) by auto
  have l: "pull_loop w client fd False True = Some (- 1, ss = [], after w i ci g fd [])"
    using g(2) pull_end_of_stream [of "after w i ci g fd [Failed 0 e]" fd e "[]"] by (simp add: after_def)
  obtain d2 where hold: "database_instance_get_holding d' True = (held d', d2)"
    by (auto simp: database_instance_get_holding_def held_def)
  obtain m k where k: "force_onto_buffer (g\<lparr>lookup_tree := d2\<rparr>) (held d') = Some (m, k)" "content k = content g @ held d'"
    using force_appends [of "g\<lparr>lookup_tree := d2\<rparr>" "held d'"] g(1) f(2) by (auto simp: adds_def content_def)
  have "flush_pending_data_to_buffer g = Some (m, k)"
    using hold k(1) g(1) by (simp add: flush_pending_data_to_buffer_def update_buffer_forced_def adds_def)
  then have "\<exists>w'. http_pull w client fd = Some (0, w') \<and> clients_get_protocol w' client = Some (Some k) \<and>
      clients_get_fd w' client = Some (- 1) \<and> \<not> open_fd w' fd \<and> trace w' = trace w @ [Ev_close fd]"
    using b l by (simp add: http_pull_def in_body_def clients_get_fd_def clients_get_ssl_def clients_set_protocol_def
        clients_set_fd_def clients_get_protocol_def info_of_def info_upd_def after_def server_close_client_def
        proc_close_def emit_def)
  then show ?thesis using g(1) k(2) by (auto simp: adds_def)
qed


section \<open>Witnesses\<close>

text \<open>A browser on descriptor 5 and a site on 6, in the middle of an answer, with the rule \<^verbatim>\<open>ab\<close>.\<close>

definition sample_body :: http where
  "sample_body = (http_create \<lparr>dpath = [], suffix = [], no_proxy_rules = None, to_server_rules = None,
     from_server_rules = Some 0\<rparr> True)\<lparr>payload := Some 0\<rparr>"

definition sample_client :: "int \<Rightarrow> http option \<Rightarrow> client_info" where
  "sample_client fd p = \<lparr>ci_ip = [], tcp_connected = 1, ssl_connected = 0, handshake_done = 0, working = 1,
     ci_fd = fd, want_ssl = 0, ci_ssl = None, protocol = p, userdata = None\<rparr>"

definition sample_pair :: world where
  "sample_pair = init_world\<lparr>rena_trees := heap_ab,
     rena_db := Some \<lparr>dpath = [], suffix = [], no_proxy_rules = None, to_server_rules = None, from_server_rules = Some 0\<rparr>,
     cnodes := [0 \<mapsto> \<lparr>c_next = Some 0, c_prev = Some 0, requester = Some 1, victim = Some 2\<rparr>],
     infos := [1 \<mapsto> sample_client 5 None, 2 \<mapsto> sample_client 6 (Some sample_body)],
     open_fd := (\<lambda>fd. fd = 5 \<or> fd = 6)\<rparr>"

lemma sample_tree: "lookup_tree sample_body = fresh None (Some 0)"
  by (simp add: sample_body_def http_create_def fresh_create)

lemma sample_text:
  "map_option (\<lambda>(d, out). (held d, out)) (dbo_feeds heap_ab (fresh None (Some 0)) ''xaByab'') = Some (''yab'', ''xT'')"
  "small_pieces heap_ab (fresh None (Some 0)) ''xaByab''"
  by code_simp+

lemma sample_ok: "dbo_ok heap_ab (fresh None (Some 0))"
  using heap_ab_represents by (intro fresh_ok) (auto simp: is_tree_def)

lemma sample_paired: "paired sample_pair 0 1 2"
  by (simp add: paired_def sample_pair_def init_world_def)

lemma sample_answering: "answering sample_pair 2 (sample_client 6 (Some sample_body)) 6 sample_body"
  using sample_ok sample_tree
  by (simp add: answering_def sample_pair_def sample_client_def init_world_def block_ok_def sendable_def
      sample_body_def http_create_def SIZEOF_HTTP_def)


lemma sample_feeds:
  obtains d' where "dbo_feeds heap_ab (fresh None (Some 0)) ''xaByab'' = Some (d', ''xT'')" "held d' = ''yab''"
  using sample_text(1) by (auto simp: map_option_case split: option.splits prod.splits)

lemma sample_in_body: "in_body (sample_pair\<lparr>reads := (reads sample_pair)(6 := r)\<rparr>) (site 0 2) 2
    (sample_client 6 (Some sample_body)) 6 sample_body"
proof -
  have "paired (sample_pair\<lparr>reads := (reads sample_pair)(6 := r)\<rparr>) 0 1 2"
    using sample_paired by (simp add: paired_def)
  moreover have "answering (sample_pair\<lparr>reads := (reads sample_pair)(6 := r)\<rparr>) 2 (sample_client 6 (Some sample_body)) 6 sample_body"
    using sample_answering by (simp add: answering_def)
  ultimately show ?thesis by (rule paired_in_body)
qed

lemma sample_trees: "rena_trees (sample_pair\<lparr>reads := r\<rparr>) = heap_ab" "rena_trees sample_pair = heap_ab"
  by (simp_all add: sample_pair_def)


lemma pull_flushes_at_end_witness:
  "\<exists>g w'. http_pull (sample_pair\<lparr>reads := (reads sample_pair)(6 := map Got [''xa'', ''Byab''] @ [Failed 0 0])\<rparr>) (site 0 2) 6 = Some (0, w') \<and>
    clients_get_protocol w' (site 0 2) = Some (Some g) \<and> content g = ''xTyab'' \<and> trace w' = [Ev_close 6]"
proof -
  obtain d' where "dbo_feeds heap_ab (fresh None (Some 0)) ''xaByab'' = Some (d', ''xT'')" "held d' = ''yab''"
    by (rule sample_feeds)
  moreover have "content sample_body = []" "trace sample_pair = []"
    by (simp_all add: content_def sample_body_def http_create_def sample_pair_def init_world_def)
  ultimately show ?thesis
    using pull_flushes_at_end [OF sample_in_body, of "map Got [''xa'', ''Byab''] @ [Failed 0 0]" "[''xa'', ''Byab'']" 0 d' "''xT''"]
      sample_ok sample_text(2)
    by (auto simp: sample_trees sample_tree)
qed


end
