(* ===== verification/RuleFiles.thy ===== *)
theory RuleFiles
  imports Database
begin

text \<open>
  What the files of the rule directory mean: a file of directives, as an administrator writes
  them, is read directive by directive, and the rule trees afterwards hold the rules of
  all directives, of which the first one for a name wins.
\<close>

section \<open>Directives\<close>

datatype directive = Rename string string | Never string

fun print_directive :: "directive \<Rightarrow> string" where
  "print_directive (Rename a b) = ''proxy_domain_rename '' @ a @ SPACE # b @ [LF]"
| "print_directive (Never a) = ''no_proxy '' @ a @ [LF]"

definition word :: "string \<Rightarrow> bool" where
  "word a \<longleftrightarrow> a \<noteq> [] \<and> (\<forall>c \<in> set a. \<not> is_space c) \<and> lower a = a"

fun good_directive :: "string \<Rightarrow> directive \<Rightarrow> bool" where
  "good_directive suff (Rename a b) = (word a \<and> word b \<and> lower suff = suff \<and> length (b @ suff) < MAX_STR)"
| "good_directive suff (Never a) = word a"

text \<open>The rules of a file in the two directions.\<close>

fun to_server_of :: "string \<Rightarrow> directive \<Rightarrow> (string \<Rightarrow> string option) \<Rightarrow> string \<Rightarrow> string option" where
  "to_server_of suff (Rename a b) m = m(b @ suff := first_wins (m (b @ suff)) (Some a))"
| "to_server_of suff (Never a) m = m"

fun from_server_of :: "string \<Rightarrow> directive \<Rightarrow> (string \<Rightarrow> string option) \<Rightarrow> string \<Rightarrow> string option" where
  "from_server_of suff (Rename a b) m = m(a := first_wins (m a) (Some (b @ suff)))"
| "from_server_of suff (Never a) m = m"

section \<open>Reading one line\<close>

declare db_read_lines.simps [simp del]

lemma space_chars [simp]: "is_space SPACE" "is_space LF"
  by (simp_all add: is_space_def)

lemma word_spaces: "word a \<Longrightarrow> SPACE \<notin> set a \<and> LF \<notin> set a"
  using space_chars by (auto simp: word_def)

lemma scan_line_blank: "scan_line (LF # t) = scan_line t"
  by (simp add: scan_line_def)

lemma read_lines_blank: "db_read_lines h db (LF # t) = db_read_lines h db t"
  by (subst (1 2) db_read_lines.simps) (simp only: scan_line_blank)

lemma scan_line_words:
  assumes "word k" "word a" "LF \<notin> set r" "r \<noteq> [] \<longrightarrow> hd r = SPACE"
  shows "scan_line (k @ SPACE # a @ r @ LF # t) = (2, k, a @ r, LF # t)"
proof -
  obtain x k' where k: "k = x # k'" "\<not> is_space x" using assms(1) by (cases k) (auto simp: word_def)
  obtain y a' where a: "a = y # a'" "\<not> is_space y" using assms(2) by (cases a) (auto simp: word_def)
  have 1: "dropWhile is_space (k @ SPACE # a @ r @ LF # t) = k @ SPACE # a @ r @ LF # t" using k by simp
  have 2: "takeWhile (\<lambda>c. \<not> is_space c) (k @ SPACE # a @ r @ LF # t) = k"
      "dropWhile (\<lambda>c. \<not> is_space c) (k @ SPACE # a @ r @ LF # t) = SPACE # a @ r @ LF # t"
    using assms(1) by (auto simp: word_def takeWhile_append2 dropWhile_append2)
  have 3: "dropWhile is_space (SPACE # a @ r @ LF # t) = a @ r @ LF # t" using a by simp
  have "\<forall>c \<in> set (a @ r). c \<noteq> LF" using assms(2,3) word_spaces by auto
  then have 4: "takeWhile (\<lambda>c. c \<noteq> LF) ((a @ r) @ LF # t) = a @ r" "dropWhile (\<lambda>c. c \<noteq> LF) ((a @ r) @ LF # t) = LF # t"
    by (auto simp: takeWhile_append2 dropWhile_append2)
  show ?thesis
    using 1 2 3 4 a k by (simp add: scan_line_def Let_def)
qed

section \<open>Reading a file\<close>

definition trees_hold :: "tree_heap \<Rightarrow> database \<Rightarrow> (string \<Rightarrow> string option) \<Rightarrow> (string \<Rightarrow> string option) \<Rightarrow> bool" where
  "trees_hold h db tos frs \<longleftrightarrow> (\<exists>nts ts fs. db_trees h db nts ts fs \<and> rule_of ts = tos \<and> rule_of fs = frs)"

lemma rename_holds:
  assumes h: "trees_hold h db tos frs" and g: "good_directive (suffix db) (Rename a b)"
  shows "\<exists>h' db'. db_read_line h db ''proxy_domain_rename'' (a @ SPACE # b) = Some (h', db') \<and>
    trees_hold h' db' (to_server_of (suffix db) (Rename a b) tos) (from_server_of (suffix db) (Rename a b) frs) \<and>
    suffix db' = suffix db"
proof -
  obtain nts ts fs where t: "db_trees h db nts ts fs" "rule_of ts = tos" "rule_of fs = frs"
    using h by (auto simp: trees_hold_def)
  have w: "SPACE \<notin> set a" "SPACE \<notin> set b" "a \<noteq> []" "b \<noteq> []" "lower a = a" "lower (b @ suffix db) = b @ suffix db"
    using g word_spaces by (auto simp: word_def)
  obtain h' db' ts' fs' where r: "db_read_line h db ''proxy_domain_rename'' (a @ SPACE # b) = Some (h', db')"
    "db_trees h' db' nts ts' fs'"
    "\<forall>u. rule_of ts' u = (if u = b @ suffix db then first_wins (rule_of ts u) (Some a) else rule_of ts u)"
    "\<forall>u. rule_of fs' u = (if u = a then first_wins (rule_of fs u) (Some (b @ suffix db)) else rule_of fs u)"
    using rename_domain_rules [OF t(1) w] g by auto
  have "suffix db' = suffix db"
    using r(1) by (auto simp: db_read_line_def rename_domain_def Let_def bind_eq_Some_conv split: prod.splits)
  moreover have "rule_of ts' = to_server_of (suffix db) (Rename a b) tos"
    "rule_of fs' = from_server_of (suffix db) (Rename a b) frs"
    using r(3,4) t(2,3) by auto
  ultimately show ?thesis using r(1,2) unfolding trees_hold_def by blast
qed

lemma never_holds:
  assumes h: "trees_hold h db tos frs" and a: "word a"
  shows "\<exists>h' db'. db_read_line h db ''no_proxy'' a = Some (h', db') \<and> trees_hold h' db' tos frs \<and>
    suffix db' = suffix db"
proof -
  obtain nts ts fs where t: "db_trees h db nts ts fs" "rule_of ts = tos" "rule_of fs = frs"
    using h by (auto simp: trees_hold_def)
  have reps: "represents h (no_proxy_rules db) nts" "represents h (to_server_rules db) ts"
    "represents h (from_server_rules db) fs" and dist: "distinct (addrs nts @ addrs ts @ addrs fs)"
    using t(1) by (auto simp: db_trees_def)
  have w: "lower a = a" "a \<noteq> []" "split_space a = (a, None)"
    using a word_spaces split_space_one by (auto simp: word_def)
  obtain r h1 n1 where 1: "tree_insert h (no_proxy_rules db) a (length a) None = Some (r, h1)" "represents h1 r n1"
    "\<forall>(q, us) \<in> set [(to_server_rules db, ts), (from_server_rules db, fs)].
       represents h1 q us \<and> set (addrs us) \<inter> set (addrs n1) = {}"
    by (rule insert_keeps_other [OF reps(1) w(1,2), of "[(to_server_rules db, ts), (from_server_rules db, fs)]" None])
      (use reps dist in auto)
  have "db_trees h1 (db\<lparr>no_proxy_rules := r\<rparr>) n1 ts fs"
    using 1(2,3) dist by (auto simp: db_trees_def represents_def)
  moreover have "db_read_line h db ''no_proxy'' a = Some (h1, db\<lparr>no_proxy_rules := r\<rparr>)"
    using 1(1) w(3) by (simp add: db_read_line_def no_proxy_def)
  ultimately show ?thesis using t(2,3) unfolding trees_hold_def by fastforce
qed

lemma head_words: "word ''proxy_domain_rename''" "word ''no_proxy''"
  by (simp_all add: word_def c_tolower_def is_space_def)

lemma print_rest: "print_directive (Rename a b) @ t = ''proxy_domain_rename'' @ SPACE # a @ (SPACE # b) @ LF # t"
  "print_directive (Never a) @ t = ''no_proxy'' @ SPACE # a @ [] @ LF # t"
  by simp_all

text \<open>One directive.\<close>

lemma directive_holds:
  assumes h: "trees_hold h db tos frs" and g: "good_directive (suffix db) d"
  obtains h' db' where "db_read_lines h db (print_directive d @ t) = db_read_lines h' db' t"
    "trees_hold h' db' (to_server_of (suffix db) d tos) (from_server_of (suffix db) d frs)" "suffix db' = suffix db"
proof (cases d)
  case (Rename a b)
  have w: "word a" "LF \<notin> set (SPACE # b)" using g Rename word_spaces by auto
  obtain h' db' where r: "db_read_line h db ''proxy_domain_rename'' (a @ SPACE # b) = Some (h', db')"
    "trees_hold h' db' (to_server_of (suffix db) d tos) (from_server_of (suffix db) d frs)" "suffix db' = suffix db"
    using rename_holds [OF h] g Rename by blast
  have "db_read_lines h db (print_directive d @ t) = db_read_lines h' db' t"
    unfolding Rename print_rest
    by (subst db_read_lines.simps) (simp only: scan_line_words [OF head_words(1) w] prod.case r(1) bind.bind_lunit
        read_lines_blank simp_thms if_True list.sel)
  with r that show ?thesis by blast
next
  case (Never a)
  have w: "word a" "LF \<notin> set []" using g Never by auto
  obtain h' db' where r: "db_read_line h db ''no_proxy'' (a @ []) = Some (h', db')" "trees_hold h' db' tos frs" "suffix db' = suffix db"
    using never_holds [OF h w(1)] by auto
  have "db_read_lines h db (print_directive d @ t) = db_read_lines h' db' t"
    unfolding Never print_rest
    by (subst db_read_lines.simps) (simp only: scan_line_words [OF head_words(2) w] prod.case r(1) bind.bind_lunit
        read_lines_blank simp_thms if_True)
  with r that Never show ?thesis by auto
qed

lemma read_lines_nothing: "db_read_lines h db [] = Some (h, db)"
  by (subst db_read_lines.simps) (simp add: scan_line_def)

lemma directives_hold:
  assumes "trees_hold h db tos frs" "\<forall>d \<in> set ds. good_directive (suffix db) d"
  shows "\<exists>h' db'. db_read_lines h db (concat (map print_directive ds)) = Some (h', db') \<and>
    trees_hold h' db' (fold (to_server_of (suffix db)) ds tos) (fold (from_server_of (suffix db)) ds frs) \<and>
    suffix db' = suffix db"
  using assms
proof (induction ds arbitrary: h db tos frs)
  case Nil
  then show ?case by (simp add: read_lines_nothing del: db_read_lines.simps)
next
  case (Cons d ds)
  let ?t = "concat (map print_directive ds)"
  obtain h1 db1 where 1: "db_read_lines h db (print_directive d @ ?t) = db_read_lines h1 db1 ?t"
    "trees_hold h1 db1 (to_server_of (suffix db) d tos) (from_server_of (suffix db) d frs)" "suffix db1 = suffix db"
    by (rule directive_holds [OF Cons.prems(1)]) (use Cons.prems(2) in auto)
  have "\<forall>d \<in> set ds. good_directive (suffix db1) d" using Cons.prems(2) 1(3) by simp
  from Cons.IH [OF 1(2) this] show ?case using 1(1,3) by (simp del: print_directive.simps)
qed


text \<open>A directory of rule files.\<close>

definition rule_file :: "string \<times> directive list \<Rightarrow> dirent" where
  "rule_file f = (fst f, DT_REG, Some (concat (map print_directive (snd f))))"

definition good_file :: "string \<Rightarrow> string \<times> directive list \<Rightarrow> bool" where
  "good_file suff f \<longleftrightarrow> filename_valid (fst f) = Some 0 \<and> (\<forall>d \<in> set (snd f). good_directive suff d)"

lemma entries_hold:
  assumes "trees_hold h db tos frs" "\<forall>f \<in> set fs. good_file (suffix db) f"
  shows "\<exists>h' db'. database_reader_entries h db (map rule_file fs) = Some (h', db') \<and>
    trees_hold h' db' (fold (to_server_of (suffix db)) (concat (map snd fs)) tos)
      (fold (from_server_of (suffix db)) (concat (map snd fs)) frs) \<and> suffix db' = suffix db"
  using assms
proof (induction fs arbitrary: h db tos frs)
  case (Cons f fs)
  have v: "filename_valid (fst f) = Some 0" "\<forall>d \<in> set (snd f). good_directive (suffix db) d"
    using Cons.prems(2) by (simp_all add: good_file_def)
  have n: "fst f \<noteq> ''.''" "fst f \<noteq> ''..''" using v(1) by (auto simp: filename_valid_def split: if_splits)
  obtain h1 db1 where 1: "db_read_lines h db (concat (map print_directive (snd f))) = Some (h1, db1)"
    "trees_hold h1 db1 (fold (to_server_of (suffix db)) (snd f) tos) (fold (from_server_of (suffix db)) (snd f) frs)"
    "suffix db1 = suffix db"
    using directives_hold [OF Cons.prems(1) v(2)] by blast
  have "\<forall>f \<in> set fs. good_file (suffix db1) f" using Cons.prems(2) 1(3) by simp
  from Cons.IH [OF 1(2) this] show ?case
    using 1(1,3) n v(1) by (simp add: rule_file_def database_reader_file_def)
qed simp

lemma directory_loads:
  assumes "\<forall>f \<in> set fs. good_file suff f"
  shows "\<exists>h db nts tos frs. database_init empty_heap None path suff (Some (map rule_file fs)) 0 = Some (h, Some db) \<and>
    db_trees h db nts tos frs \<and> suffix db = suff \<and>
    rule_of tos = fold (to_server_of suff) (concat (map snd fs)) (\<lambda>_. None) \<and>
    rule_of frs = fold (from_server_of suff) (concat (map snd fs)) (\<lambda>_. None)"
proof -
  let ?db = "\<lparr>dpath = path, suffix = suff, no_proxy_rules = None, to_server_rules = None, from_server_rules = None\<rparr>"
  have "rule_of [] = (\<lambda>_. None)" by (rule ext, rename_tac u, case_tac u) simp_all
  moreover have "db_trees empty_heap ?db [] [] []" by (simp add: db_trees_def represents_empty)
  ultimately have "trees_hold empty_heap ?db (\<lambda>_. None) (\<lambda>_. None)" unfolding trees_hold_def by blast
  moreover have "\<forall>f \<in> set fs. good_file (suffix ?db) f" using assms by simp
  ultimately obtain h db where "database_reader_entries empty_heap ?db (map rule_file fs) = Some (h, db)"
    "trees_hold h db (fold (to_server_of (suffix ?db)) (concat (map snd fs)) (\<lambda>_. None))
      (fold (from_server_of (suffix ?db)) (concat (map snd fs)) (\<lambda>_. None))" "suffix db = suffix ?db"
    using entries_hold by blast
  then show ?thesis
    by (auto simp: database_init_def database_reader_def trees_hold_def)
qed

section \<open>Properties\<close>



end
