(* ===== verification/ClientsEnd.thy ===== *)
theory ClientsEnd
  imports Registry
begin

text \<open>
  The end of the registry: \<^verbatim>\<open>clients_destroy\<close> cuts the ring open in front of its first node and walks
  over it once, releasing the structures of both sides of every pair, their descriptors and
  the address lists of the requesters.
\<close>

section \<open>The ring cut open\<close>

fun walk :: "(addr \<Rightarrow> circle_client_info option) \<Rightarrow> ptr \<Rightarrow> addr list \<Rightarrow> bool" where
  "walk m p [] \<longleftrightarrow> p = None"
| "walk m p (a # as) \<longleftrightarrow> p = Some a \<and> (\<exists>n. m a = Some n \<and> walk m (c_next n) as)"

lemma walk_cong: "\<forall>a \<in> set as. m' a = m a \<Longrightarrow> walk m' p as = walk m p as"
  by (induction as arbitrary: p) auto

lemma walk_cut:
  assumes "link_path m x xs y" "distinct (x # xs)" "q = last (x # xs)" "m q = Some n"
  shows "walk (m(q \<mapsto> n\<lparr>c_next := None\<rparr>)) (Some x) (x # xs)"
  using assms
proof (induction xs arbitrary: x)
  case (Cons z zs)
  have w: "walk (m(q \<mapsto> n\<lparr>c_next := None\<rparr>)) (Some z) (z # zs)"
    using Cons.prems by (intro Cons.IH) auto
  have "q \<noteq> x" using Cons.prems(2,3) last_in_set [of "z # zs"] by (metis distinct.simps(2) last_ConsR list.discI)
  moreover obtain k where "m x = Some k" "c_next k = Some z" using Cons.prems(1) by (auto simp: linked_def)
  ultimately show ?case using w by (subst walk.simps(2)) (simp del: walk.simps)
qed simp

section \<open>One client\<close>

definition address_list :: "world \<Rightarrow> client_info \<Rightarrow> addr list \<Rightarrow> bool" where
  "address_list w ci us \<longleftrightarrow>
     (case userdata ci of None \<Rightarrow> us = [] | Some u \<Rightarrow> ai_chain (addrinfos w) (Some u) us) \<and> distinct us"

lemma ai_chain_cong: "\<forall>x \<in> set us. m' x = m x \<Longrightarrow> ai_chain m' p us = ai_chain m p us"
  by (induction us arbitrary: p) auto

lemma free_requester:
  assumes "infos w i = Some ci" "address_list w ci us"
  obtains v where "do { w \<leftarrow> (case userdata ci of None \<Rightarrow> Some w | Some u \<Rightarrow> freeaddrinfo w u);
      (_, w) \<leftarrow> client_info_destroy w i True; Some w } = Some v"
    "clients_only w v" "cnodes v = cnodes w" "rena_clients v = rena_clients w" "infos v = (infos w)(i := None)"
    "open_fd v = closed_fd (ci_fd ci) (open_fd w)"
    "\<forall>x. addrinfos v x = (if x \<in> set us then None else addrinfos w x)"
proof -
  obtain m t where f: "(case userdata ci of None \<Rightarrow> Some w | Some u \<Rightarrow> freeaddrinfo w u) =
      Some (w\<lparr>addrinfos := m, trace := t\<rparr>)" "\<forall>x. m x = (if x \<in> set us then None else addrinfos w x)"
  proof (cases "userdata ci")
    case None
    then show ?thesis using that [where m = "addrinfos w" and t = "trace w"] assms(2) by (simp add: address_list_def)
  next
    case (Some u)
    then have "ai_chain (addrinfos w) (Some u) us" "distinct us" using assms(2) by (simp_all add: address_list_def)
    from free_chain_frees [OF this] obtain m where c: "free_chain w u = Some (w\<lparr>addrinfos := m\<rparr>)"
      and m: "\<forall>x. m x = (if x \<in> set us then None else addrinfos w x)" by blast
    from c have "freeaddrinfo w u = Some (w\<lparr>addrinfos := m, trace := trace w @ [Ev_freeaddrinfo u]\<rparr>)"
      by (simp add: freeaddrinfo_def emit_def)
    then show ?thesis
      using that [OF _ m, of "trace w @ [Ev_freeaddrinfo u]"] Some by simp
  qed
  let ?w = "w\<lparr>addrinfos := m, trace := t\<rparr>"
  have "infos ?w i = Some ci" using assms(1) by simp
  from info_destroy_all [OF this] obtain v where v: "client_info_destroy ?w i True = Some (True, v)"
      "clients_only ?w v" "infos v = (infos ?w)(i := None)" "cnodes v = cnodes ?w" "addrinfos v = addrinfos ?w"
      "rena_clients v = rena_clients ?w" "open_fd v = closed_fd (ci_fd ci) (open_fd ?w)"
    by blast
  have "clients_only w v" using v(2) by (cases v) (auto simp: clients_only_def)
  then show ?thesis using that [of v] v f by simp
qed

lemma free_victim:
  assumes "infos w i = Some ci"
  obtains v where "do { (_, w) \<leftarrow> client_info_destroy w i True; Some w } = Some v"
    "clients_only w v" "cnodes v = cnodes w" "rena_clients v = rena_clients w" "infos v = (infos w)(i := None)"
    "open_fd v = closed_fd (ci_fd ci) (open_fd w)" "addrinfos v = addrinfos w"
  using info_destroy_all [OF assms] that by auto

section \<open>One pair\<close>

text \<open>The address lists that the nodes own: those of their requesters.\<close>

definition node_addresses :: "world \<Rightarrow> addr \<Rightarrow> addr list \<Rightarrow> bool" where
  "node_addresses w a us \<longleftrightarrow>
     (case cnodes w a of
        None \<Rightarrow> False
      | Some n \<Rightarrow> (case requester n of
          None \<Rightarrow> us = []
        | Some i \<Rightarrow> (case infos w i of None \<Rightarrow> False | Some ci \<Rightarrow> address_list w ci us)))"

definition fds_of :: "world \<Rightarrow> addr list \<Rightarrow> int set" where
  "fds_of w is = {ci_fd ci | i ci. i \<in> set is \<and> infos w i = Some ci \<and> 0 \<le> ci_fd ci}"

definition gone :: "world \<Rightarrow> addr list \<Rightarrow> addr list \<Rightarrow> addr list \<Rightarrow> world \<Rightarrow> bool" where
  "gone w as is us v \<longleftrightarrow> clients_only w v \<and> rena_clients v = rena_clients w \<and>
     (\<forall>x. cnodes v x = (if x \<in> set as then None else cnodes w x)) \<and>
     (\<forall>x. infos v x = (if x \<in> set is then None else infos w x)) \<and>
     (\<forall>x. addrinfos v x = (if x \<in> set us then None else addrinfos w x)) \<and>
     (\<forall>fd. open_fd v fd \<longleftrightarrow> open_fd w fd \<and> fd \<notin> fds_of w is)"

lemma gone_trans:
  assumes "gone w as is us v" "gone v bs js vs u" "set is \<inter> set js = {}"
  shows "gone w (as @ bs) (is @ js) (us @ vs) u"
proof -
  have "fds_of w (is @ js) = fds_of w is \<union> fds_of v js"
    using assms(1,3) by (auto simp: fds_of_def gone_def)
  then show ?thesis
    using assms(1,2) clients_only_trans unfolding gone_def by auto
qed

lemma destroy_pair:
  assumes n: "cnodes w a = Some n" and own: "distinct (owned w a)" "\<forall>i \<in> set (owned w a). infos w i \<noteq> None"
    and us: "node_addresses w a us"
  obtains v where "destroy_loop w (Some a) = destroy_loop v (c_next n)" "gone w [a] (owned w a) us v"
proof -
  obtain w1 where w1: "(case requester n of
             None \<Rightarrow> Some w
           | Some i \<Rightarrow> do {
               ci \<leftarrow> infos w i;
               w \<leftarrow> (case userdata ci of None \<Rightarrow> Some w | Some u \<Rightarrow> freeaddrinfo w u);
               (_, w) \<leftarrow> client_info_destroy w i True;
               Some w }) = Some w1"
      "gone w [] (case requester n of None \<Rightarrow> [] | Some i \<Rightarrow> [i]) us w1"
  proof (cases "requester n")
    case None
    then show ?thesis using that [of w] us n by (simp add: gone_def node_addresses_def fds_of_def)
  next
    case (Some i)
    obtain ci where ci: "infos w i = Some ci" "address_list w ci us"
      using us n Some by (auto simp: node_addresses_def split: option.splits)
    from free_requester [OF this] obtain v where v: "do { w \<leftarrow> (case userdata ci of None \<Rightarrow> Some w | Some u \<Rightarrow> freeaddrinfo w u);
      (_, w) \<leftarrow> client_info_destroy w i True; Some w } = Some v"
      "clients_only w v" "cnodes v = cnodes w" "rena_clients v = rena_clients w" "infos v = (infos w)(i := None)"
      "open_fd v = closed_fd (ci_fd ci) (open_fd w)"
      "\<forall>x. addrinfos v x = (if x \<in> set us then None else addrinfos w x)" .
    then have "gone w [] [i] us v"
      using ci(1) by (auto simp: gone_def fds_of_def closed_fd_def)
    then show ?thesis using that [of v] v(1) Some ci(1) by simp
  qed
  obtain w2 where w2: "(case victim n of
             None \<Rightarrow> Some w1
           | Some i \<Rightarrow> do { (_, w) \<leftarrow> client_info_destroy w1 i True; Some w }) = Some w2"
      "gone w1 [] (case victim n of None \<Rightarrow> [] | Some i \<Rightarrow> [i]) [] w2"
  proof (cases "victim n")
    case None
    then show ?thesis using that [of w1] by (simp add: gone_def fds_of_def)
  next
    case (Some i)
    have "i \<in> set (owned w a)" "requester n \<noteq> Some i" using own(1) n Some by (auto simp: owned_def)
    then obtain ci where ci: "infos w1 i = Some ci" using own(2) w1(2) by (auto simp: gone_def split: option.splits)
    from free_victim [OF this] obtain v where v: "do { (_, w) \<leftarrow> client_info_destroy w1 i True; Some w } = Some v"
      "clients_only w1 v" "cnodes v = cnodes w1" "rena_clients v = rena_clients w1" "infos v = (infos w1)(i := None)"
      "open_fd v = closed_fd (ci_fd ci) (open_fd w1)" "addrinfos v = addrinfos w1" .
    then have "gone w1 [] [i] [] v"
      using ci by (auto simp: gone_def fds_of_def closed_fd_def)
    then show ?thesis using that [of v] v(1) Some by simp
  qed
  let ?v = "w2\<lparr>cnodes := (cnodes w2)(a := None)\<rparr>"
  have "destroy_loop w (Some a) = destroy_loop ?v (c_next n)"
    using n w1(1) w2(1) by (subst destroy_loop.simps) simp
  moreover have "gone w [a] (owned w a) us ?v"
  proof -
    have "gone w2 [a] [] [] ?v" by (cases w2) (simp add: gone_def fds_of_def clients_only_def)
    moreover have "owned w a = (case requester n of None \<Rightarrow> [] | Some i \<Rightarrow> [i]) @ (case victim n of None \<Rightarrow> [] | Some i \<Rightarrow> [i])"
      using n by (simp add: owned_def)
    moreover from this have "set (case requester n of None \<Rightarrow> [] | Some i \<Rightarrow> [i]) \<inter>
        set (case victim n of None \<Rightarrow> [] | Some i \<Rightarrow> [i]) = {}" using own(1) by (auto split: option.splits)
    ultimately show ?thesis using gone_trans [OF gone_trans [OF w1(2) w2(2)]] by fastforce
  qed
  ultimately show ?thesis using that by blast
qed


section \<open>The whole ring\<close>

lemma gone_keeps:
  assumes g: "gone w [a] is us v" and x: "x \<noteq> a" "set (owned w x) \<inter> set is = {}" "node_addresses w x vs"
    "set vs \<inter> set us = {}" "\<forall>i \<in> set (owned w x). infos w i \<noteq> None"
  shows "owned v x = owned w x" "node_addresses v x vs" "\<forall>i \<in> set (owned w x). infos v i \<noteq> None"
proof -
  have c: "cnodes v x = cnodes w x" using g x(1) by (simp add: gone_def)
  then show o: "owned v x = owned w x" by (simp add: owned_def)
  have i: "infos v i = infos w i" if "i \<in> set (owned w x)" for i using g x(2) that by (auto simp: gone_def)
  then show "\<forall>i \<in> set (owned w x). infos v i \<noteq> None" using x(5) by simp
  have "ai_chain (addrinfos v) r vs = ai_chain (addrinfos w) r vs" for r
    using g x(4) by (intro ai_chain_cong) (auto simp: gone_def)
  then have a: "address_list v ci vs = address_list w ci vs" for ci by (simp add: address_list_def split: option.split)
  obtain n where n: "cnodes w x = Some n" using x(3) by (auto simp: node_addresses_def split: option.splits)
  show "node_addresses v x vs"
  proof (cases "requester n")
    case None
    then show ?thesis using x(3) c n by (simp add: node_addresses_def)
  next
    case (Some k)
    then have "infos v k = infos w k" using i [of k] n by (simp add: owned_def)
    then show ?thesis using x(3) c n Some a by (simp add: node_addresses_def split: option.splits)
  qed
qed

lemma destroy_walk:
  assumes "walk (cnodes w) p as" "distinct as" "distinct (concat (map (owned w) as))"
    "\<forall>a \<in> set as. \<forall>i \<in> set (owned w a). infos w i \<noteq> None"
    "\<forall>a \<in> set as. node_addresses w a (us a)" "distinct (concat (map us as))"
  shows "\<exists>v. destroy_loop w p = Some v \<and> gone w as (concat (map (owned w) as)) (concat (map us as)) v"
  using assms
proof (induction as arbitrary: w p)
  case Nil
  then show ?case by (subst destroy_loop.simps) (simp add: gone_def fds_of_def)
next
  case (Cons a as)
  obtain n where n: "p = Some a" "cnodes w a = Some n" "walk (cnodes w) (c_next n) as" using Cons.prems(1) by auto
  have own: "distinct (owned w a)" "\<forall>i \<in> set (owned w a). infos w i \<noteq> None" "node_addresses w a (us a)"
    using Cons.prems by simp_all
  obtain v where v: "destroy_loop w (Some a) = destroy_loop v (c_next n)" "gone w [a] (owned w a) (us a) v"
    by (rule destroy_pair [OF n(2) own])
  have keep: "owned v x = owned w x" "node_addresses v x (us x)" "\<forall>i \<in> set (owned w x). infos v i \<noteq> None"
    if x: "x \<in> set as" for x
  proof -
    have d: "x \<noteq> a" "set (owned w x) \<inter> set (owned w a) = {}" "set (us x) \<inter> set (us a) = {}"
      using x Cons.prems(2,3,6) by auto
    have "node_addresses w x (us x)" "\<forall>i \<in> set (owned w x). infos w i \<noteq> None" using x Cons.prems(4,5) by simp_all
    from gone_keeps [OF v(2) d(1,2) this(1) d(3) this(2)]
    show "owned v x = owned w x" "node_addresses v x (us x)" "\<forall>i \<in> set (owned w x). infos v i \<noteq> None" by blast+
  qed
  have o: "map (owned v) as = map (owned w) as" using keep(1) by simp
  have "walk (cnodes v) (c_next n) as"
    using n(3) v(2) Cons.prems(2) walk_cong [of as "cnodes v" "cnodes w"] by (auto simp: gone_def)
  then have "\<exists>u. destroy_loop v (c_next n) = Some u \<and> gone v as (concat (map (owned v) as)) (concat (map us as)) u"
  proof (rule Cons.IH)
    show "distinct (concat (map (owned v) as))" unfolding o using Cons.prems(3) by simp
    show "\<forall>x \<in> set as. \<forall>i \<in> set (owned v x). infos v i \<noteq> None" using keep(1,3) by simp
    show "\<forall>x \<in> set as. node_addresses v x (us x)" using keep(2) by simp
  qed (use \<open>walk (cnodes v) (c_next n) as\<close> Cons.prems(2,6) in auto)
  then obtain u where u: "destroy_loop v (c_next n) = Some u" "gone v as (concat (map (owned w) as)) (concat (map us as)) u"
    using o by auto
  have "set (owned w a) \<inter> set (concat (map (owned w) as)) = {}" using Cons.prems(3) by simp
  from gone_trans [OF v(2) u(2) this] show ?case using v(1) u(1) n(1) by simp
qed

lemma clients_destroy_walk:
  assumes r: "registry w as" and us: "\<forall>a \<in> set as. node_addresses w a (us a)" "distinct (concat (map us as))"
  obtains v where "clients_destroy w = Some (v\<lparr>rena_clients := None\<rparr>)"
    "\<exists>w1. gone w1 as (concat (map (owned w) as)) (concat (map us as)) v \<and> (\<exists>m. w1 = w\<lparr>cnodes := m\<rparr>) \<and>
       (\<forall>x. x \<notin> set as \<longrightarrow> cnodes w1 x = cnodes w x)"
proof (cases as)
  case Nil
  then have "clients_destroy w = Some (w\<lparr>rena_clients := None\<rparr>)"
    using r by (auto simp: registry_def clients_destroy_def destroy_loop.simps)
  moreover have "gone w as (concat (map (owned w) as)) (concat (map us as)) w" "w = w\<lparr>cnodes := cnodes w\<rparr>"
    using Nil by (simp_all add: gone_def fds_of_def)
  ultimately show ?thesis using that by blast
next
  case (Cons a bs)
  have c: "link_path (cnodes w) a bs a" and d: "distinct (a # bs)" using r Cons by (auto simp: registry_def)
  define z where "z = last (a # bs)"
  have "circle (cnodes w) (a # bs)" using c by simp
  then have "linked (cnodes w) z a" unfolding z_def by (rule circle_last) blast
  then obtain f q where f: "cnodes w a = Some f" "c_prev f = Some z" "cnodes w z = Some q"
    by (auto simp: linked_def)
  let ?w = "w\<lparr>cnodes := (cnodes w)(z \<mapsto> q\<lparr>c_next := None\<rparr>)\<rparr>"
  have own: "owned ?w x = owned w x" for x using f(3) by (simp add: owned_def)
  have adr: "node_addresses ?w x vs = node_addresses w x vs" for x vs
    using f(3) by (simp add: node_addresses_def address_list_def cong: option.case_cong)
  have o: "map (owned ?w) as = map (owned w) as" using own by simp
  have "\<exists>v. destroy_loop ?w (Some a) = Some v \<and> gone ?w as (concat (map (owned ?w) as)) (concat (map us as)) v"
  proof (rule destroy_walk)
    show "walk (cnodes ?w) (Some a) as" using walk_cut [OF c d z_def f(3)] Cons by (simp del: walk.simps)
    show "distinct (concat (map (owned ?w) as))" unfolding o using r by (simp add: registry_def)
    show "\<forall>a \<in> set as. \<forall>i \<in> set (owned ?w a). infos ?w i \<noteq> None" using r own by (simp add: registry_def)
    show "\<forall>a \<in> set as. node_addresses ?w a (us a)" using us(1) adr by simp
  qed (use us(2) d Cons in simp_all)
  then obtain v where v: "destroy_loop ?w (Some a) = Some v" "gone ?w as (concat (map (owned w) as)) (concat (map us as)) v"
    unfolding o by blast
  have "clients_destroy w = Some (v\<lparr>rena_clients := None\<rparr>)"
    using r Cons f v(1) by (auto simp: registry_def clients_destroy_def node_upd_def)
  moreover have "z \<in> set as" unfolding z_def Cons by (rule last_in_set) simp
  then have "\<forall>x. x \<notin> set as \<longrightarrow> cnodes ?w x = cnodes w x" by auto
  ultimately show ?thesis using that v(2) by blast
qed

section \<open>Properties\<close>

text \<open>C15: \<^verbatim>\<open>clients_destroy\<close> returns and releases everything of a well-formed registry, and nothing
  else: the node of every pair, the structures of both sides, every descriptor of a client, and
  the address list of every requester; other nodes, structures, lists and descriptors stay.\<close>

theorem clients_destroy_releases:
  assumes "registry w as" "\<forall>a \<in> set as. node_addresses w a (us a)" "distinct (concat (map us as))"
  shows "\<exists>w'. clients_destroy w = Some w' \<and> rena_clients w' = None \<and>
    (\<forall>x. cnodes w' x = (if x \<in> set as then None else cnodes w x)) \<and>
    (\<forall>x. infos w' x = (if \<exists>a \<in> set as. x \<in> set (owned w a) then None else infos w x)) \<and>
    (\<forall>x. addrinfos w' x = (if \<exists>a \<in> set as. x \<in> set (us a) then None else addrinfos w x)) \<and>
    (\<forall>fd. open_fd w' fd \<longleftrightarrow> open_fd w fd \<and> fd \<notin> fds_of w (concat (map (owned w) as)))"
proof -
  obtain v w1 m where v: "clients_destroy w = Some (v\<lparr>rena_clients := None\<rparr>)"
    "gone w1 as (concat (map (owned w) as)) (concat (map us as)) v" "w1 = w\<lparr>cnodes := m\<rparr>"
    "\<forall>x. x \<notin> set as \<longrightarrow> cnodes w1 x = cnodes w x"
    using clients_destroy_walk [OF assms] by metis
  have "fds_of w1 is = fds_of w is" for "is" using v(3) by (simp add: fds_of_def)
  then show ?thesis using v by (auto simp: gone_def)
qed

lemma one_client_registry:
  "\<exists>w. clients_add start_world REQUESTER_TYPE 7 = Some w \<and> registry w [1] \<and> owned w 1 = [2] \<and>
    node_addresses w 1 [] \<and> infos w 2 = Some (fresh_info start_world 7)"
proof -
  have r0: "registry start_world []" by (simp add: start_world_def registry_init)
  obtain w where w: "clients_add start_world REQUESTER_TYPE 7 = Some w" "registry w [1]"
      "sides w 1 = Some (Some 2, None)" "infos w 2 = Some (fresh_info start_world 7)"
    using clients_add_ring [OF r0, of REQUESTER_TYPE 7] clients_add_registry [OF r0, of REQUESTER_TYPE 7]
    by (auto simp: start_world_def init_world_def new_sides_def numeral_eq_Suc)
  moreover have "owned w 1 = [2]" using w(3) by (simp add: owned_sides)
  moreover have "node_addresses w 1 []"
    using w(3,4) by (auto simp: node_addresses_def sides_def address_list_def fresh_info_def split: option.splits)
  ultimately show ?thesis by blast
qed

lemma clients_destroy_releases_witness:
  "\<exists>w w'. clients_add start_world REQUESTER_TYPE 7 = Some w \<and> clients_destroy w = Some w' \<and> infos w' 2 = None \<and>
     \<not> open_fd w' 7"
proof -
  obtain w where w: "clients_add start_world REQUESTER_TYPE 7 = Some w" "registry w [1]" "owned w 1 = [2]"
    "node_addresses w 1 []" "infos w 2 = Some (fresh_info start_world 7)"
    using one_client_registry by blast
  have "7 \<in> fds_of w [2]" using w(5) by (auto simp: fds_of_def fresh_info_def)
  then show ?thesis
    using clients_destroy_releases [OF w(2), of "\<lambda>_. []"] w by fastforce
qed

end
