(* ===== verification/Startup.thy ===== *)
theory Startup
  imports Registry RuleFiles
begin

text \<open>
  The life of the process: \<^verbatim>\<open>rena/src/rena.c\<close>, \<^verbatim>\<open>main.c\<close>, \<^verbatim>\<open>logger.c\<close> and the part of \<^verbatim>\<open>proc.c\<close> about
  limits.  The command line, the files and the outcomes of the system are arguments; the modules
  are set up one after the other, and a failure releases what is there.
\<close>

section \<open>The listening server\<close>

text \<open>What the functions that make descriptors leave alone.\<close>

definition other_view ::
  "world \<Rightarrow> config_rena option \<times> task_manager option \<times> database option \<times> clients option \<times> tree_heap" where
  "other_view w = (rena_config w, rena_tm w, rena_db w, rena_clients w, rena_trees w)"

definition module_view where
  "module_view w = (rena_server w, other_view w)"

definition no_new_fds :: "world \<Rightarrow> world \<Rightarrow> bool" where
  "no_new_fds w w' \<longleftrightarrow> module_view w' = module_view w \<and> (\<forall>fd. open_fd w' fd \<longrightarrow> open_fd w fd)"

definition one_new_fd :: "int \<Rightarrow> world \<Rightarrow> world \<Rightarrow> bool" where
  "one_new_fd fd w w' \<longleftrightarrow> module_view w' = module_view w \<and> open_fd w' = (open_fd w)(fd := True) \<and>
     interest w' = interest w"

lemma next_ok_cases:
  obtains b v where "next_ok w = (b, v)" "module_view v = module_view w" "open_fd v = open_fd w" "interest v = interest w"
  by (cases "oks w") (auto simp: next_ok_def module_view_def other_view_def)

lemma next_fd_cases:
  obtains fd v where "next_fd w = (fd, v)" "fd < 0 \<and> no_new_fds w v \<or> 0 \<le> fd \<and> one_new_fd fd w v"
proof -
  obtain fd v where n: "next_fd w = (fd, v)" by fastforce
  then have "fd < 0 \<and> no_new_fds w v \<or> 0 \<le> fd \<and> one_new_fd fd w v"
    by (auto simp: next_fd_def no_new_fds_def one_new_fd_def module_view_def other_view_def split: list.splits sum.splits if_splits)
  with n show ?thesis using that by blast
qed

lemma close_no_new: "no_new_fds w (proc_close fd w)"
  by (simp add: no_new_fds_def proc_close_def emit_def module_view_def other_view_def)

lemma no_new_trans: "no_new_fds a b \<Longrightarrow> no_new_fds b c \<Longrightarrow> no_new_fds a c"
  by (simp add: no_new_fds_def)

lemma one_then_close: "one_new_fd fd a b \<Longrightarrow> no_new_fds a (proc_close fd b)"
  by (auto simp: no_new_fds_def one_new_fd_def proc_close_def emit_def module_view_def other_view_def)

lemma one_then_same:
  "one_new_fd fd a b \<Longrightarrow> module_view c = module_view b \<Longrightarrow> open_fd c = open_fd b \<Longrightarrow> interest c = interest b \<Longrightarrow>
    one_new_fd fd a c"
  by (simp add: one_new_fd_def)

lemma common_flags_cases:
  obtains v where "fd_set_common_flags fd w = (0, v)" "module_view v = module_view w" "open_fd v = open_fd w"
      "interest v = interest w"
  | v u where "fd_set_common_flags fd w = (- 1, proc_close fd v)" "module_view v = module_view w" "open_fd v = open_fd w"
      "interest v = interest w"
proof -
  obtain a v1 where 1: "next_ok w = (a, v1)" "module_view v1 = module_view w" "open_fd v1 = open_fd w" "interest v1 = interest w"
    by (rule next_ok_cases)
  obtain b v2 where 2: "next_ok v1 = (b, v2)" "module_view v2 = module_view v1" "open_fd v2 = open_fd v1" "interest v2 = interest v1"
    by (rule next_ok_cases)
  obtain c v3 where 3: "next_ok v2 = (c, v3)" "module_view v3 = module_view v2" "open_fd v3 = open_fd v2" "interest v3 = interest v2"
    by (rule next_ok_cases)
  show ?thesis
    using that(1) [of v3] that(2) [of v1] that(2) [of v2] that(2) [of v3] 1 2 3
    by (cases a; cases b; cases c) (auto simp: fd_set_common_flags_def)
qed

lemma create_socket_cases:
  obtains fd v where "create_socket family w = (fd, v)" "fd < 0 \<and> no_new_fds w v \<or> 0 \<le> fd \<and> one_new_fd fd w v"
proof (cases "family \<noteq> AF_INET \<and> family \<noteq> AF_INET6")
  case True
  then show ?thesis using that [of "- 1" w] by (simp add: create_socket_def no_new_fds_def)
next
  case False
  obtain fd v where n: "next_fd w = (fd, v)" "fd < 0 \<and> no_new_fds w v \<or> 0 \<le> fd \<and> one_new_fd fd w v"
    by (rule next_fd_cases)
  show ?thesis
  proof (cases "fd < 0")
    case True
    then show ?thesis using that [of "- 1" v] n False by (simp add: create_socket_def)
  next
    case fd: False
    then have one: "one_new_fd fd w v" using n(2) by simp
    show ?thesis
    proof (rule common_flags_cases [of fd v])
      fix u assume "fd_set_common_flags fd v = (0, u)" "module_view u = module_view v" "open_fd u = open_fd v"
        "interest u = interest v"
      then show ?thesis using that [of fd u] n False fd one_then_same [OF one] by (simp add: create_socket_def)
    next
      fix u assume "fd_set_common_flags fd v = (- 1, proc_close fd u)" "module_view u = module_view v" "open_fd u = open_fd v"
        "interest u = interest v"
      then show ?thesis
        using that [of "- 1" "proc_close fd u"] n False fd one_then_close [OF one_then_same [OF one]]
        by (simp add: create_socket_def)
    qed
  qed
qed

lemma server_create_socket_cases:
  obtains fd v where "server_create_socket family w = (fd, v)" "fd < 0 \<and> no_new_fds w v \<or> 0 \<le> fd \<and> one_new_fd fd w v"
proof -
  obtain fd v where n: "create_socket family w = (fd, v)" "fd < 0 \<and> no_new_fds w v \<or> 0 \<le> fd \<and> one_new_fd fd w v"
    by (rule create_socket_cases)
  obtain a v1 where 1: "next_ok v = (a, v1)" "module_view v1 = module_view v" "open_fd v1 = open_fd v" "interest v1 = interest v"
    by (rule next_ok_cases)
  obtain b v2 where 2: "next_ok v1 = (b, v2)" "module_view v2 = module_view v1" "open_fd v2 = open_fd v1" "interest v2 = interest v1"
    by (rule next_ok_cases)
  show ?thesis
  proof (cases "fd < 0")
    case True
    then show ?thesis using that [of "- 1" v] n by (simp add: server_create_socket_def)
  next
    case False
    then have one: "one_new_fd fd w v" using n(2) by simp
    show ?thesis
      using that [of "- 1" "proc_close fd v1"] that [of "- 1" "proc_close fd v2"] that [of fd v2] n(1) 1 2 False
        one_then_close [OF one_then_same [OF one], of v1] one_then_close [OF one_then_same [OF one], of v2]
        one_then_same [OF one, of v2]
      by (cases a; cases b) (auto simp: server_create_socket_def)
  qed
qed


text \<open>The two listening sockets.\<close>

lemma create_serving_cases:
  assumes "rena_server w = Some s" "rena_config w = Some c"
  obtains n t fam v where "create_serving w = Some v"
    "rena_server v = Some (s\<lparr>normalfd := n, securefd := t, address_family := fam\<rparr>)"
    "other_view v = other_view w"
    "\<forall>fd. open_fd v fd \<longrightarrow> open_fd w fd \<or> (0 \<le> fd \<and> (fd = n \<or> fd = t))"
    "0 \<le> n \<Longrightarrow> 0 \<le> t \<Longrightarrow> open_fd v n \<and> open_fd v t \<and> (\<forall>fd. open_fd w fd \<longrightarrow> open_fd v fd)"
proof (cases "config_get_server_port_http c < 0 \<or> config_get_server_port_http c > 65535 \<or>
    config_get_server_port_https c < 0 \<or> config_get_server_port_https c > 65535 \<or>
    \<not> valid_ip w (serving_ip (config_get_server_address c))")
  case True
  then have "create_serving w = Some (w\<lparr>rena_server := Some (s\<lparr>normalfd := - 1, securefd := - 1\<rparr>)\<rparr>)"
    using assms by (auto simp: create_serving_def Let_def)
  moreover have "s\<lparr>normalfd := - 1, securefd := - 1\<rparr> =
      s\<lparr>normalfd := - 1, securefd := - 1, address_family := address_family s\<rparr>" by (cases s) simp
  ultimately show ?thesis
    using that [where n = "- 1" and t = "- 1" and fam = "address_family s"] by (simp add: other_view_def)
next
  case False
  obtain n v1 where 1: "server_create_socket AF_INET6 w = (n, v1)" "n < 0 \<and> no_new_fds w v1 \<or> 0 \<le> n \<and> one_new_fd n w v1"
    by (rule server_create_socket_cases)
  obtain t v2 where 2: "server_create_socket AF_INET6 v1 = (t, v2)" "t < 0 \<and> no_new_fds v1 v2 \<or> 0 \<le> t \<and> one_new_fd t v1 v2"
    by (rule server_create_socket_cases)
  let ?v = "v2\<lparr>rena_server := Some (s\<lparr>normalfd := n, securefd := t, address_family := AF_INET6\<rparr>)\<rparr>"
  have "create_serving w = Some ?v" using assms 1(1) 2(1) False by (simp add: create_serving_def)
  moreover have "other_view ?v = other_view w"
    using 1(2) 2(2) by (auto simp: no_new_fds_def one_new_fd_def module_view_def other_view_def)
  moreover have "\<forall>fd. open_fd ?v fd \<longrightarrow> open_fd w fd \<or> (0 \<le> fd \<and> (fd = n \<or> fd = t))"
    using 1(2) 2(2) by (auto simp: no_new_fds_def one_new_fd_def split: if_splits)
  moreover have "open_fd ?v n \<and> open_fd ?v t \<and> (\<forall>fd. open_fd w fd \<longrightarrow> open_fd ?v fd)" if "0 \<le> n" "0 \<le> t"
    using 1(2) 2(2) that by (auto simp: one_new_fd_def)
  ultimately show ?thesis using that by simp
qed

lemma watch_open:
  assumes "rena_server w = Some s" "open_fd w (f s)"
  obtains v where "watch False w f = Some (False, v)" "interest v (f s) \<noteq> None"
    "\<forall>x. interest w x \<noteq> None \<longrightarrow> interest v x \<noteq> None" "open_fd v = open_fd w" "module_view v = module_view w"
  using assms that
  by (cases "interest w (f s)") (auto simp: watch_def server_notify2_def epoll_ctl_def Let_def module_view_def
      other_view_def EEXIST_def EBADF_def)

lemma watch_error [simp]: "watch True w f = Some (True, w)"
  by (simp add: watch_def)

lemma server_init_fail_closes:
  assumes "rena_server w = Some s"
  obtains v where "server_init_fail w = Some v" "rena_server v = None" "other_view v = other_view w"
    "\<forall>fd. open_fd v fd \<longleftrightarrow> open_fd w fd \<and> fd \<noteq> pollfd s \<and> fd \<noteq> normalfd s \<and> fd \<noteq> securefd s \<and> fd \<noteq> signalfd s"
  using assms by (auto simp: server_init_fail_def proc_close_def emit_def other_view_def)


text \<open>The end of \<^verbatim>\<open>server_init\<close>: the sockets are watched, the signals are blocked and read from a
  descriptor; an error closes everything.\<close>

definition ready :: "world \<Rightarrow> bool" where
  "ready w \<longleftrightarrow> (case rena_server w of
     None \<Rightarrow> False
   | Some s \<Rightarrow> open_fd w (pollfd s) \<and>
       (\<forall>fd \<in> {normalfd s, securefd s, signalfd s}. 0 \<le> fd \<and> open_fd w fd \<and> interest w fd \<noteq> None))"

definition nothing_left :: "world \<Rightarrow> world \<Rightarrow> bool" where
  "nothing_left w w' \<longleftrightarrow> rena_server w' = None \<and> (\<forall>fd. open_fd w' fd \<longrightarrow> open_fd w fd)"

definition init_tail :: "world \<Rightarrow> (bool \<times> world) option" where
  "init_tail w = do {
     s \<leftarrow> rena_server w;
     (err, w) \<leftarrow> watch (normalfd s < 0 \<or> securefd s < 0) w normalfd;
     (err, w) \<leftarrow> watch err w securefd;
     let (b, w) = (if err then (- 1, w) else proc_signal_block w);
     let err = (b < 0);
     s \<leftarrow> rena_server w;
     (err, w) \<leftarrow>
       (if err then Some (True, w)
        else (let (g, w) = proc_create_signalfd w;
                  w = w\<lparr>rena_server := Some (s\<lparr>signalfd := g\<rparr>)\<rparr>
              in if g < 0 then Some (True, w) else watch False w signalfd));
     if err then do { w \<leftarrow> server_init_fail w; Some (False, w) }
     else Some (True, w) }"

lemma init_tail_cases:
  assumes s: "rena_server w = Some s" and fds: "0 \<le> normalfd s \<Longrightarrow> 0 \<le> securefd s \<Longrightarrow>
      open_fd w (normalfd s) \<and> open_fd w (securefd s) \<and> open_fd w (pollfd s)"
  obtains v g where "init_tail w = Some (True, v)" "ready v" "other_view v = other_view w"
      "rena_server v = Some (s\<lparr>signalfd := g\<rparr>)" "\<forall>fd. open_fd v fd \<longrightarrow> open_fd w fd \<or> fd = g"
  | v where "init_tail w = Some (False, v)" "rena_server v = None" "other_view v = other_view w"
      "\<forall>fd. open_fd v fd \<longrightarrow> open_fd w fd \<and> fd \<noteq> pollfd s \<and> fd \<noteq> normalfd s \<and> fd \<noteq> securefd s"
proof (cases "normalfd s < 0 \<or> securefd s < 0")
  case True
  obtain v where "server_init_fail w = Some v" "rena_server v = None" "other_view v = other_view w"
    "\<forall>fd. open_fd v fd \<longleftrightarrow> open_fd w fd \<and> fd \<noteq> pollfd s \<and> fd \<noteq> normalfd s \<and> fd \<noteq> securefd s \<and> fd \<noteq> signalfd s"
    by (rule server_init_fail_closes [OF s])
  with True s show ?thesis using that(2) [of v] by (simp add: init_tail_def)
next
  case False
  obtain v1 where 1: "watch False w normalfd = Some (False, v1)" "interest v1 (normalfd s) \<noteq> None"
      "\<forall>x. interest w x \<noteq> None \<longrightarrow> interest v1 x \<noteq> None" "open_fd v1 = open_fd w" "module_view v1 = module_view w"
    by (rule watch_open [OF s, of normalfd]) (use fds False in auto)
  then have s1: "rena_server v1 = Some s" using s by (simp add: module_view_def)
  obtain v2 where 2: "watch False v1 securefd = Some (False, v2)" "interest v2 (securefd s) \<noteq> None"
      "\<forall>x. interest v1 x \<noteq> None \<longrightarrow> interest v2 x \<noteq> None" "open_fd v2 = open_fd v1" "module_view v2 = module_view v1"
    by (rule watch_open [OF s1, of securefd]) (use fds False 1(4) in auto)
  obtain b v3 where 3: "next_ok v2 = (b, v3)" "module_view v3 = module_view v2" "open_fd v3 = open_fd v2" "interest v3 = interest v2"
    by (rule next_ok_cases)
  have s3: "rena_server v3 = Some s" and o3: "other_view v3 = other_view w" "open_fd v3 = open_fd w"
    using s1 1 2 3 by (simp_all add: module_view_def)
  have tail: "init_tail w = (if \<not> b then do { w \<leftarrow> server_init_fail v3; Some (False, w) }
      else do {
        (err, w) \<leftarrow> (let (g, w) = proc_create_signalfd v3; w = w\<lparr>rena_server := Some (s\<lparr>signalfd := g\<rparr>)\<rparr>
              in if g < 0 then Some (True, w) else watch False w signalfd);
        if err then do { w \<leftarrow> server_init_fail w; Some (False, w) } else Some (True, w) })"
    using s False 1(1) 2(1) 3(1) s3 by (simp add: init_tail_def proc_signal_block_def)
  show ?thesis
  proof (cases b)
    case b: False
    obtain v where "server_init_fail v3 = Some v" "rena_server v = None" "other_view v = other_view v3"
      "\<forall>fd. open_fd v fd \<longleftrightarrow> open_fd v3 fd \<and> fd \<noteq> pollfd s \<and> fd \<noteq> normalfd s \<and> fd \<noteq> securefd s \<and> fd \<noteq> signalfd s"
      by (rule server_init_fail_closes [OF s3])
    with b tail o3 show ?thesis using that(2) [of v] by simp
  next
    case True
    obtain g v4 where 4: "next_fd v3 = (g, v4)" "g < 0 \<and> no_new_fds v3 v4 \<or> 0 \<le> g \<and> one_new_fd g v3 v4"
      by (rule next_fd_cases)
    show ?thesis
    proof (cases "g < 0")
      case g: True
      let ?v = "v4\<lparr>rena_server := Some (s\<lparr>signalfd := - 1\<rparr>)\<rparr>"
      have o4: "other_view ?v = other_view w" "\<forall>fd. open_fd ?v fd \<longrightarrow> open_fd w fd"
        using 4(2) g o3 by (auto simp: no_new_fds_def module_view_def other_view_def)
      obtain v where "server_init_fail ?v = Some v" "rena_server v = None" "other_view v = other_view ?v"
        "\<forall>fd. open_fd v fd \<longleftrightarrow> open_fd ?v fd \<and> fd \<noteq> pollfd (s\<lparr>signalfd := - 1\<rparr>) \<and> fd \<noteq> normalfd (s\<lparr>signalfd := - 1\<rparr>) \<and>
           fd \<noteq> securefd (s\<lparr>signalfd := - 1\<rparr>) \<and> fd \<noteq> signalfd (s\<lparr>signalfd := - 1\<rparr>)"
        by (rule server_init_fail_closes [of ?v "s\<lparr>signalfd := - 1\<rparr>"]) simp
      with \<open>b\<close> tail o4 4(1) g show ?thesis
        using that(2) [of v] by (simp add: proc_create_signalfd_def)
    next
      case g: False
      let ?s = "s\<lparr>signalfd := g\<rparr>" and ?v = "v4\<lparr>rena_server := Some (s\<lparr>signalfd := g\<rparr>)\<rparr>"
      have one: "one_new_fd g v3 v4" using 4(2) g by simp
      obtain v where v: "watch False ?v signalfd = Some (False, v)" "interest v (signalfd ?s) \<noteq> None"
          "\<forall>x. interest ?v x \<noteq> None \<longrightarrow> interest v x \<noteq> None" "open_fd v = open_fd ?v" "module_view v = module_view ?v"
        by (rule watch_open [of ?v ?s signalfd]) (use one in \<open>auto simp: one_new_fd_def\<close>)
      have "ready v"
        using v one o3(2) 1(2,3) 2(2,3) 3(4) g False fds
        by (simp add: ready_def one_new_fd_def module_view_def)
      moreover have "other_view v = other_view w"
        using v(5) one o3(1) by (simp add: one_new_fd_def module_view_def other_view_def)
      moreover have "rena_server v = Some ?s" "\<forall>fd. open_fd v fd \<longrightarrow> open_fd w fd \<or> fd = g"
        using v(4,5) one o3(2) by (simp_all add: one_new_fd_def module_view_def)
      ultimately show ?thesis
        using that(1) [of v g] tail \<open>b\<close> 4(1) g v(1) by (simp add: proc_create_signalfd_def)
    qed
  qed
qed

lemma server_init_tail:
  "server_init w =
    (let (p, w) = poll_init w;
         s = \<lparr>server_context = False, client_context = False, address_family = 0, normalfd = 0,
              securefd = 0, pollfd = p, signalfd = 0\<rparr>
     in if p < 0 then Some (False, (proc_close p w)\<lparr>rena_server := None\<rparr>)
        else do {
          (ctx, w) \<leftarrow> create_ssl_context_server (w\<lparr>rena_server := Some s\<rparr>);
          if \<not> ctx then Some (False, (proc_close p w)\<lparr>rena_server := None\<rparr>)
          else (let (cctx, w) = create_ssl_context_client w
                in if \<not> cctx then Some (False, (proc_close p (emit Ev_context_free w))\<lparr>rena_server := None\<rparr>)
                   else do {
                     w \<leftarrow> create_serving (w\<lparr>rena_server := Some (s\<lparr>server_context := True, client_context := True\<rparr>)\<rparr>);
                     init_tail w }) })"
  unfolding server_init_def init_tail_def ..


lemma context_server_cases:
  assumes "rena_config w = Some c"
  obtains b v where "create_ssl_context_server w = Some (b, v)" "module_view v = module_view w" "open_fd v = open_fd w"
proof -
  obtain a v1 where 1: "next_ok w = (a, v1)" "module_view v1 = module_view w" "open_fd v1 = open_fd w" "interest v1 = interest w"
    by (rule next_ok_cases)
  obtain b v2 where 2: "next_ok v1 = (b, v2)" "module_view v2 = module_view v1" "open_fd v2 = open_fd v1" "interest v2 = interest v1"
    by (rule next_ok_cases)
  obtain d v3 where 3: "next_ok v2 = (d, v3)" "module_view v3 = module_view v2" "open_fd v3 = open_fd v2" "interest v3 = interest v2"
    by (rule next_ok_cases)
  have "rena_config v1 = Some c" using 1(2) assms by (simp add: module_view_def other_view_def)
  moreover have e: "module_view (emit Ev_context_free x) = module_view x" "open_fd (emit Ev_context_free x) = open_fd x" for x
    by (simp_all add: emit_def module_view_def other_view_def)
  ultimately have cfg: "rena_config v1 = Some c" by simp
  define r where "r = (if \<not> a then (False, v1) else if \<not> b then (False, emit Ev_context_free v2)
      else if \<not> d then (False, emit Ev_context_free v3) else (True, v3))"
  have "create_ssl_context_server w = Some r"
    using cfg 1(1) 2(1) 3(1) by (cases a; cases b; cases d) (simp_all add: create_ssl_context_server_def r_def)
  moreover have "module_view (snd r) = module_view w \<and> open_fd (snd r) = open_fd w"
    by (cases a; cases b; cases d) (simp_all only: r_def e 1 2 3 simp_thms if_True if_False snd_conv)
  ultimately show ?thesis using that [of "fst r" "snd r"] by simp
qed

definition server_fds :: "world \<Rightarrow> int set" where
  "server_fds w = (case rena_server w of None \<Rightarrow> {} | Some s \<Rightarrow> {pollfd s, normalfd s, securefd s, signalfd s})"

text \<open>Either there is a server whose sockets are open and watched, or there is none and no
  descriptor is open that was not open before.\<close>

lemma server_init_cases:
  assumes c: "rena_config w = Some c"
  obtains v where "server_init w = Some (True, v)" "ready v" "other_view v = other_view w"
      "\<forall>fd. open_fd v fd \<longrightarrow> open_fd w fd \<or> fd \<in> server_fds v"
  | v where "server_init w = Some (False, v)" "nothing_left w v" "other_view v = other_view w"
proof -
  obtain q v0 where 0: "next_fd w = (q, v0)" "q < 0 \<and> no_new_fds w v0 \<or> 0 \<le> q \<and> one_new_fd q w v0"
    by (rule next_fd_cases)
  define s where "s = \<lparr>server_context = False, client_context = False, address_family = 0, normalfd = 0,
              securefd = 0, pollfd = q, signalfd = 0\<rparr>"
  define s2 where "s2 = s\<lparr>server_context := True, client_context := True\<rparr>"
  show ?thesis
  proof (cases "q < 0")
    case True
    then have "nothing_left w ((proc_close (- 1) v0)\<lparr>rena_server := None\<rparr>)" "other_view ((proc_close (- 1) v0)\<lparr>rena_server := None\<rparr>) = other_view w"
      using 0(2) by (auto simp: nothing_left_def no_new_fds_def proc_close_def emit_def other_view_def module_view_def)
    then show ?thesis using True 0(1) that(2) by (simp add: server_init_tail poll_init_def)
  next
    case False
    then have p: "0 \<le> q" "one_new_fd q w v0" using 0(2) by auto
    have gone: "nothing_left w ((proc_close q x)\<lparr>rena_server := None\<rparr>) \<and> other_view ((proc_close q x)\<lparr>rena_server := None\<rparr>) = other_view w"
      if "other_view x = other_view v0" "open_fd x = open_fd v0" for x
      using p that by (auto simp: nothing_left_def one_new_fd_def proc_close_def emit_def other_view_def module_view_def)
    have o0: "other_view v0 = other_view w" "open_fd v0 = (open_fd w)(q := True)"
      using p by (simp_all add: one_new_fd_def module_view_def)
    have "rena_config (v0\<lparr>rena_server := Some s\<rparr>) = Some c" using o0(1) c by (simp add: other_view_def)
    then obtain b v1 where 1: "create_ssl_context_server (v0\<lparr>rena_server := Some s\<rparr>) = Some (b, v1)"
        "module_view v1 = module_view (v0\<lparr>rena_server := Some s\<rparr>)" "open_fd v1 = open_fd (v0\<lparr>rena_server := Some s\<rparr>)"
      by (rule context_server_cases)
    obtain d v2 where 2: "next_ok v1 = (d, v2)" "module_view v2 = module_view v1" "open_fd v2 = open_fd v1" "interest v2 = interest v1"
      by (rule next_ok_cases)
    have o1: "other_view v1 = other_view v0" "open_fd v1 = open_fd v0" "other_view v2 = other_view v0" "open_fd v2 = open_fd v0"
      using 1(2,3) 2(2,3) by (auto simp: module_view_def other_view_def)
    have init: "server_init w = (if \<not> b then Some (False, (proc_close q v1)\<lparr>rena_server := None\<rparr>)
        else if \<not> d then Some (False, (proc_close q (emit Ev_context_free v2))\<lparr>rena_server := None\<rparr>)
        else do { w \<leftarrow> create_serving (v2\<lparr>rena_server := Some s2\<rparr>); init_tail w })"
      using 0(1) False 1(1) 2(1)
      by (simp add: server_init_tail poll_init_def create_ssl_context_client_def Let_def s_def [symmetric] s2_def)
    show ?thesis
    proof (cases "b \<and> d")
      case False
      have "other_view (emit Ev_context_free v2) = other_view v0" "open_fd (emit Ev_context_free v2) = open_fd v0"
        using o1 by (simp_all add: emit_def other_view_def)
      then show ?thesis using False init that(2) gone o1 by (cases b) auto
    next
      case True
      let ?x = "v2\<lparr>rena_server := Some s2\<rparr>"
      have cx: "rena_server ?x = Some s2" "rena_config ?x = Some c" using o1(3) o0(1) c by (simp_all add: other_view_def)
      obtain n t fam y where y: "create_serving ?x = Some y"
          "rena_server y = Some (s2\<lparr>normalfd := n, securefd := t, address_family := fam\<rparr>)"
          "other_view y = other_view ?x"
          "\<forall>fd. open_fd y fd \<longrightarrow> open_fd ?x fd \<or> (0 \<le> fd \<and> (fd = n \<or> fd = t))"
          "0 \<le> n \<Longrightarrow> 0 \<le> t \<Longrightarrow> open_fd y n \<and> open_fd y t \<and> (\<forall>fd. open_fd ?x fd \<longrightarrow> open_fd y fd)"
        by (rule create_serving_cases [OF cx]) blast
      have x: "open_fd ?x = (open_fd w)(q := True)" "other_view ?x = other_view w"
        using o0 o1 by (simp_all add: other_view_def)
      let ?s = "s2\<lparr>normalfd := n, securefd := t, address_family := fam\<rparr>"
      have pq: "pollfd ?s = q" by (simp add: s2_def s_def)
      have run: "server_init w = init_tail y" using init True y(1) by simp
      show ?thesis
      proof (rule init_tail_cases [OF y(2)])
        assume "0 \<le> normalfd ?s" "0 \<le> securefd ?s"
        then show "open_fd y (normalfd ?s) \<and> open_fd y (securefd ?s) \<and> open_fd y (pollfd ?s)"
          using y(5) x(1) pq by simp
      next
        fix v g assume v: "init_tail y = Some (True, v)" "ready v" "other_view v = other_view y"
          "rena_server v = Some (?s\<lparr>signalfd := g\<rparr>)" "\<forall>fd. open_fd v fd \<longrightarrow> open_fd y fd \<or> fd = g"
        have "open_fd w fd \<or> fd \<in> server_fds v" if "open_fd v fd" for fd
          using that v(4,5) y(4) x(1) pq by (auto simp: server_fds_def split: if_splits)
        then show ?thesis using that(1) run y(3) x(2) v by simp
      next
        fix v assume v: "init_tail y = Some (False, v)" "rena_server v = None" "other_view v = other_view y"
          "\<forall>fd. open_fd v fd \<longrightarrow> open_fd y fd \<and> fd \<noteq> pollfd ?s \<and> fd \<noteq> normalfd ?s \<and> fd \<noteq> securefd ?s"
        then have "nothing_left w v" using y(4) x(1) pq by (auto simp: nothing_left_def split: if_splits)
        then show ?thesis using that(2) run y(3) x(2) v by simp
      qed
    qed
  qed
qed

section \<open>The log\<close>

text \<open>What \<^verbatim>\<open>openlog\<close> and \<^verbatim>\<open>setlogmask\<close> set; the messages themselves are not modelled.\<close>

record syslog_state =
  log_level :: int
  log_options :: int
  log_facility :: int

definition logger_reset :: "int \<Rightarrow> int \<Rightarrow> int \<Rightarrow> syslog_state" where
  "logger_reset level options facility = \<lparr>log_level = level, log_options = options, log_facility = facility\<rparr>"

definition logger_reconfigure :: "config_rena option \<Rightarrow> syslog_state \<Rightarrow> syslog_state" where
  "logger_reconfigure c l =
    (case c of
       None \<Rightarrow> l
     | Some c \<Rightarrow> logger_reset (config_get_logging_minimum c) (config_get_logging_options c) (config_get_logging_facility c))"

section \<open>The command line\<close>

text \<open>\<^verbatim>\<open>getopt(3)\<close> with the options \<^verbatim>\<open>c:d\<close>, as the C library documents it: options may be
  clustered, the argument of \<^verbatim>\<open>-c\<close> is the rest of its cluster or the next word, operands may stand
  between the options, two dashes end the options.\<close>

datatype getopt_result = Opt_c string | Opt_d | Opt_unknown

fun getopt_cluster :: "string \<Rightarrow> string list \<Rightarrow> getopt_result list \<times> string list" where
  "getopt_cluster [] rest = ([], rest)"
| "getopt_cluster (x # xs) rest =
    (if x = CHR ''c'' then
       (if xs \<noteq> [] then ([Opt_c xs], rest)
        else (case rest of [] \<Rightarrow> ([Opt_unknown], []) | a # as \<Rightarrow> ([Opt_c a], as)))
     else (case getopt_cluster xs rest of (os, rest) \<Rightarrow> ((if x = CHR ''d'' then Opt_d else Opt_unknown) # os, rest)))"

lemma getopt_cluster_shorter: "(os, rest') = getopt_cluster xs rest \<Longrightarrow> length rest' \<le> length rest"
  by (induction xs rest arbitrary: os rest' rule: getopt_cluster.induct) (auto split: list.splits prod.splits if_splits)

function getopt_all :: "string list \<Rightarrow> getopt_result list \<times> string list" where
  "getopt_all [] = ([], [])"
| "getopt_all (a # as) =
    (if a = ''--'' then ([], as)
     else if 1 < length a \<and> hd a = CHR ''-'' then
       (case getopt_cluster (tl a) as of (os, rest) \<Rightarrow>
          (case getopt_all rest of (os', operands) \<Rightarrow> (os @ os', operands)))
     else (case getopt_all as of (os, operands) \<Rightarrow> (os, a # operands)))"
  by pat_completeness auto
termination
  by (relation "measure length") (auto simp: less_Suc_eq_le dest: getopt_cluster_shorter)

text \<open>What the process is started with: the words of the command line behind the program's name, the
  files, the rule directory, the limit of descriptors, the time, and whether it runs under
  \<^verbatim>\<open>valgrind\<close>.\<close>

record startup =
  argv :: "string list"
  readable :: "string \<Rightarrow> bool"
  files :: "string \<Rightarrow> string option"
  rules_dir :: "string \<Rightarrow> dirent list option"
  dir_closed :: int
  hard_limit :: "nat option"
  time_now :: int
  on_valgrind :: bool

text \<open>The loop over the options: an unknown one ends it.\<close>

fun apply_options :: "getopt_result list \<Rightarrow> string \<Rightarrow> bool \<Rightarrow> bool \<times> string \<times> bool" where
  "apply_options [] filename daemon = (True, filename, daemon)"
| "apply_options (Opt_c a # os) filename daemon = apply_options os (snprintf_to MAX_FILENAME a) daemon"
| "apply_options (Opt_d # os) filename daemon = apply_options os filename True"
| "apply_options (Opt_unknown # os) filename daemon = (False, filename, daemon)"

definition rena_process_args :: "startup \<Rightarrow> world \<Rightarrow> (int \<times> world) option" where
  "rena_process_args env w =
    (case getopt_all (argv env) of (os, operands) \<Rightarrow>
     case apply_options os ''/etc/rena/rena.ini'' (daemonize w) of (ok, filename, daemon) \<Rightarrow>
       let w = w\<lparr>daemonize := daemon\<rparr>
       in if \<not> ok then Some (- 1, w)
          else if operands \<noteq> [] then Some (- 2, w)
          else if \<not> readable env filename then Some (- 3, w)
          else do {
            (ret, c) \<leftarrow> config_load (rena_config w) (Some filename) (files env filename);
            Some (ret, w\<lparr>rena_config := c\<rparr>) })"

section \<open>Setting up and releasing\<close>

text \<open>\<^verbatim>\<open>proc_limit_fds\<close>: the limit that is asked for, and whether \<^verbatim>\<open>setrlimit\<close> fails;
  \<^verbatim>\<open>proc_get_maxfd\<close> reads the soft limit back.\<close>

definition proc_limit_fds :: "nat option \<Rightarrow> world \<Rightarrow> int \<times> nat \<times> world" where
  "proc_limit_fds hard w =
    (let limit = (case hard of None \<Rightarrow> 65536 | Some m \<Rightarrow> if m \<le> 65536 then 65536 else m);
         (ok, w) = next_ok w
     in (if ok then 0 else - 1, limit, w))"

definition proc_get_maxfd :: "nat option \<Rightarrow> int" where
  "proc_get_maxfd soft = (case soft of Some n \<Rightarrow> int n | None \<Rightarrow> - 1)"

definition task_manager_destroy :: "world \<Rightarrow> world option" where
  "task_manager_destroy w =
    (case rena_tm w of
       None \<Rightarrow> Some w
     | Some tm \<Rightarrow> do {
         _ \<leftarrow> joined_threads tm;
         w \<leftarrow> task_runner_destroy w;
         Some (w\<lparr>rena_tm := None\<rparr>) })"

definition rena_destroy :: "world \<Rightarrow> world option" where
  "rena_destroy w = do {
     w \<leftarrow> task_manager_destroy w;
     w \<leftarrow> clients_destroy (server_destroy w);
     h \<leftarrow> database_free (rena_trees w) (rena_db w);
     Some (w\<lparr>rena_trees := h, rena_db := None, rena_config := None\<rparr>) }"

text \<open>The zeroed structure.\<close>

definition calloc_rena :: "world \<Rightarrow> world" where
  "calloc_rena w = w\<lparr>rena_config := None, rena_tm := None, rena_server := None, rena_db := None,
     rena_clients := None, daemonize := False, forced_exit := False\<rparr>"

definition release :: "int \<Rightarrow> syslog_state \<Rightarrow> world \<Rightarrow> (int \<times> syslog_state \<times> world) option" where
  "release ret l w = do { w \<leftarrow> rena_destroy w; Some (ret, l, w) }"

text \<open>The modules, after the limits: the database, the clients, the server, the task manager.\<close>

definition setup_modules :: "startup \<Rightarrow> config_rena \<Rightarrow> syslog_state \<Rightarrow> world \<Rightarrow> (int \<times> syslog_state \<times> world) option" where
  "setup_modules env c l w = do {
     (h, db) \<leftarrow> database_init (rena_trees w) (rena_db w) (config_get_database_directory c)
        (config_get_database_suffix c) (rules_dir env (config_get_database_directory c)) (dir_closed env);
     let w = w\<lparr>rena_trees := h, rena_db := db\<rparr>;
     if db = None then release (- 6) l w
     else do {
       (ok, w) \<leftarrow> server_init (w\<lparr>rena_clients := Some clients_init\<rparr>);
       if \<not> ok then release (- 7) l w
       else (case task_manager_init (config_get_pool_minimum c) (config_get_pool_maximum c) (time_now env) of
               None \<Rightarrow> release (- 5) l (w\<lparr>rena_tm := None\<rparr>)
             | Some tm \<Rightarrow> Some (0, l, w\<lparr>rena_tm := Some tm\<rparr>)) } }"

definition rena_setup :: "startup \<Rightarrow> world \<Rightarrow> (int \<times> syslog_state \<times> world) option" where
  "rena_setup env w = do {
     let l = logger_reset 7 0x2b 182;
     (ret, w) \<leftarrow> rena_process_args env (calloc_rena w);
     if ret \<noteq> 0 then release ret l w
     else do {
       c \<leftarrow> rena_config w;
       let l = logger_reconfigure (Some c) l;
       let (failed, limit, w) = (if on_valgrind env then (0, 0, w) else proc_limit_fds (hard_limit env) w);
       if failed \<noteq> 0 then release (- 9) l w else setup_modules env c l w } }"


definition released :: "world \<Rightarrow> world \<Rightarrow> bool" where
  "released w w' \<longleftrightarrow> rena_config w' = None \<and> rena_tm w' = None \<and> rena_server w' = None \<and> rena_db w' = None \<and>
     rena_clients w' = None \<and> (\<forall>fd. open_fd w' fd \<longrightarrow> open_fd w fd)"

definition sound_db :: "world \<Rightarrow> bool" where
  "sound_db w \<longleftrightarrow> (\<forall>db. rena_db w = Some db \<longrightarrow> (\<exists>nts tos frs. db_trees (rena_trees w) db nts tos frs))"

lemma free_sound_db: "sound_db w \<Longrightarrow> \<exists>h. database_free (rena_trees w) (rena_db w) = Some h"
proof (cases "rena_db w")
  case (Some db)
  assume "sound_db w"
  with Some obtain nts tos frs where "db_trees (rena_trees w) db nts tos frs" by (auto simp: sound_db_def)
  from database_free_nodes [OF this] show ?thesis using Some by auto
qed (simp add: database_free_def)

lemma server_destroy_view:
  "rena_server (server_destroy w) = None" "other_view (server_destroy w) = other_view w"
  "open_fd (server_destroy w) fd \<Longrightarrow> open_fd w fd"
  "open_fd (server_destroy w) fd \<Longrightarrow> fd \<notin> server_fds w"
  by (cases "rena_server w"; simp add: server_destroy_def server_fds_def proc_close_def emit_def other_view_def split: if_splits)+

text \<open>Releasing a process whose workers were never started.\<close>

lemma rena_destroy_releases:
  assumes "rena_tm w = None" "rena_clients w = None \<or> rena_clients w = Some clients_init" "sound_db w"
  obtains v where "rena_destroy w = Some v" "released w v" "\<forall>fd. open_fd v fd \<longrightarrow> fd \<notin> server_fds w"
proof -
  let ?s = "server_destroy w"
  have o: "other_view ?s = other_view w" by (rule server_destroy_view)
  have d: "clients_destroy ?s = Some (?s\<lparr>rena_clients := None\<rparr>)"
  proof (cases "rena_clients ?s")
    case None
    then show ?thesis by (cases ?s) (simp add: clients_destroy_def)
  next
    case (Some cs)
    then have "cs = clients_init" using assms(2) o by (auto simp: other_view_def)
    then show ?thesis using Some by (simp add: clients_destroy_def clients_init_def destroy_loop.simps)
  qed
  obtain h where h: "database_free (rena_trees w) (rena_db w) = Some h" using free_sound_db [OF assms(3)] by blast
  have "rena_destroy w = Some (?s\<lparr>rena_clients := None, rena_trees := h, rena_db := None, rena_config := None\<rparr>)"
    using d h o assms(1) by (simp add: rena_destroy_def task_manager_destroy_def other_view_def)
  moreover have "released w (?s\<lparr>rena_clients := None, rena_trees := h, rena_db := None, rena_config := None\<rparr>)"
    using o assms(1) server_destroy_view by (auto simp: released_def other_view_def)
  ultimately show ?thesis using that server_destroy_view(4) [of w] by simp
qed

text \<open>A process that is set up.\<close>

definition set_up :: "world \<Rightarrow> bool" where
  "set_up w \<longleftrightarrow> rena_config w \<noteq> None \<and> rena_db w \<noteq> None \<and> rena_clients w = Some clients_init \<and> ready w \<and>
     (case rena_tm w of
        None \<Rightarrow> False
      | Some tm \<Rightarrow> queue_inv (tm_queue tm) \<and> contents (tm_queue tm) = [] \<and> 1 < min_tasks tm \<and> min_tasks tm \<le> max_tasks tm)"

definition settled_by :: "(int \<times> syslog_state \<times> world) option \<Rightarrow> world \<Rightarrow> bool" where
  "settled_by r w \<longleftrightarrow> (case r of
     None \<Rightarrow> False
   | Some (ret, l, w') \<Rightarrow> if ret = 0 then set_up w' else ret < 0 \<and> released w w')"

lemma release_settled:
  assumes "rena_tm w = None" "rena_clients w = None \<or> rena_clients w = Some clients_init" "sound_db w" "ret < 0"
    "\<forall>fd. open_fd w fd \<longrightarrow> open_fd w0 fd \<or> fd \<in> server_fds w"
  shows "settled_by (release ret l w) w0"
proof -
  obtain v where "rena_destroy w = Some v" "released w v" "\<forall>fd. open_fd v fd \<longrightarrow> fd \<notin> server_fds w" by (rule rena_destroy_releases [OF assms(1-3)])
  then show ?thesis using assms(4,5) by (auto simp: release_def settled_by_def released_def)
qed

definition rules_ready :: "startup \<Rightarrow> world \<Rightarrow> config_rena \<Rightarrow> bool" where
  "rules_ready env w c \<longleftrightarrow>
    (case database_init (rena_trees w) None (config_get_database_directory c) (config_get_database_suffix c)
        (rules_dir env (config_get_database_directory c)) (dir_closed env) of
       None \<Rightarrow> False
     | Some (h, db) \<Rightarrow> sound_db (w\<lparr>rena_trees := h, rena_db := db\<rparr>))"

lemma task_manager_init_sound:
  "task_manager_init a b now = Some tm \<Longrightarrow>
    queue_inv (tm_queue tm) \<and> contents (tm_queue tm) = [] \<and> 1 < min_tasks tm \<and> min_tasks tm \<le> max_tasks tm"
  using QUEUE_INITIALIZER_inv [of "replicate 4096 None"]
  by (auto simp: task_manager_init_def queue_init_def split: if_splits)

lemma setup_modules_settled:
  assumes c: "rena_config w = Some c" and none: "rena_tm w = None" "rena_clients w = None" "rena_db w = None"
    and rules: "rules_ready env w c" and fds: "\<forall>fd. open_fd w fd \<longrightarrow> open_fd w0 fd"
  shows "settled_by (setup_modules env c l w) w0"
proof -
  obtain h db where d: "database_init (rena_trees w) None (config_get_database_directory c)
        (config_get_database_suffix c) (rules_dir env (config_get_database_directory c)) (dir_closed env) = Some (h, db)"
      "sound_db (w\<lparr>rena_trees := h, rena_db := db\<rparr>)"
    using rules by (auto simp: rules_ready_def split: option.splits)
  let ?w = "w\<lparr>rena_trees := h, rena_db := db\<rparr>"
  show ?thesis
  proof (cases db)
    case None
    then have "setup_modules env c l w = release (- 6) l ?w" using d(1) none(3) by (simp add: setup_modules_def)
    then show ?thesis using release_settled [of ?w] none d(2) fds by simp
  next
    case (Some db')
    let ?x = "?w\<lparr>rena_clients := Some clients_init\<rparr>"
    have cx: "rena_config ?x = Some c" using c by simp
    have sound: "sound_db y" if "other_view y = other_view ?x" for y
      using d(2) that by (simp add: sound_db_def other_view_def)
    show ?thesis
    proof (rule server_init_cases [OF cx])
      fix v assume v: "server_init ?x = Some (False, v)" "nothing_left ?x v" "other_view v = other_view ?x"
      then have "setup_modules env c l w = release (- 7) l v" using d(1) none(3) Some by (simp add: setup_modules_def)
      then show ?thesis
        using release_settled [of v "- 7" w0 l] v sound [OF v(3)] none fds by (simp add: other_view_def nothing_left_def)
    next
      fix v assume v: "server_init ?x = Some (True, v)" "ready v" "other_view v = other_view ?x"
        "\<forall>fd. open_fd v fd \<longrightarrow> open_fd ?x fd \<or> fd \<in> server_fds v"
      show ?thesis
      proof (cases "task_manager_init (config_get_pool_minimum c) (config_get_pool_maximum c) (time_now env)")
        case None
        have "setup_modules env c l w = release (- 5) l (v\<lparr>rena_tm := None\<rparr>)"
          using v d(1) none(3) Some None by (simp add: setup_modules_def)
        moreover have "other_view (v\<lparr>rena_tm := None\<rparr>) = other_view ?x"
          using v(3) none(1) by (simp add: other_view_def)
        moreover have "\<forall>fd. open_fd (v\<lparr>rena_tm := None\<rparr>) fd \<longrightarrow> open_fd w0 fd \<or> fd \<in> server_fds (v\<lparr>rena_tm := None\<rparr>)"
          using v(4) fds by (auto simp: server_fds_def)
        ultimately show ?thesis
          using release_settled [of "v\<lparr>rena_tm := None\<rparr>" "- 5" w0 l] sound [of "v\<lparr>rena_tm := None\<rparr>"]
          by (simp add: other_view_def)
      next
        case tm: (Some tm)
        have "setup_modules env c l w = Some (0, l, v\<lparr>rena_tm := Some tm\<rparr>)"
          using v d(1) none(3) Some tm by (simp add: setup_modules_def)
        moreover have "ready (v\<lparr>rena_tm := Some tm\<rparr>)" using v(2) by (simp add: ready_def split: option.splits)
        ultimately show ?thesis
          using v(3) task_manager_init_sound [OF tm] c Some by (simp add: settled_by_def set_up_def other_view_def)
      qed
    qed
  qed
qed


section \<open>Running\<close>

text \<open>The start of \<^verbatim>\<open>rena_run\<close>: going to the background, and the workers; whether the creation of a
  worker failed, which ends the run before the first task.\<close>

definition begin_run :: "nat \<Rightarrow> nat option list \<Rightarrow> world \<Rightarrow> (bool \<times> world) option" where
  "begin_run self created w = do {
     let (_, w) = (if daemonize w then next_ok w else (True, w));
     tm \<leftarrow> rena_tm w;
     let (forced, tm) = task_manager_run (forced_exit w) tm self created;
     Some (forced, w\<lparr>rena_tm := Some tm, forced_exit := forced\<rparr>) }"

definition end_run :: "world \<Rightarrow> (int \<times> world) option" where
  "end_run w = do { w \<leftarrow> rena_destroy w; Some (0, w) }"

text \<open>\<^verbatim>\<open>rena_run\<close>: the first worker is the calling thread; when it and all the others have left,
  everything is released.  \<^const>\<open>None\<close> is the crash.\<close>

inductive rena_run :: "nat \<Rightarrow> nat option list \<Rightarrow> world \<Rightarrow> (int \<times> world) option \<Rightarrow> bool" for self created w where
  run_unmanaged: "begin_run self created w = None \<Longrightarrow> rena_run self created w None"
| run_refused: "begin_run self created w = Some (True, v) \<Longrightarrow> rena_run self created w (end_run v)"
| run_finished: "begin_run self created w = Some (False, v) \<Longrightarrow> rena_tm v = Some tm \<Longrightarrow>
    reaches (number_of_tasks tm) v s \<Longrightarrow> proxy s = Some u \<Longrightarrow> \<forall>i < number_of_tasks tm. places s i = Gone \<Longrightarrow>
    rena_run self created w (end_run u)"
| run_crashed: "begin_run self created w = Some (False, v) \<Longrightarrow> rena_tm v = Some tm \<Longrightarrow>
    reaches (number_of_tasks tm) v s \<Longrightarrow> proxy s = None \<Longrightarrow> rena_run self created w None"

inductive_cases rena_runE: "rena_run self created w r"

text \<open>\<^verbatim>\<open>main\<close>: the exit code and the final state.\<close>

inductive rena_main :: "startup \<Rightarrow> nat \<Rightarrow> nat option list \<Rightarrow> world \<Rightarrow> (int \<times> world) option \<Rightarrow> bool" for env self created w where
  main_broken: "rena_setup env w = None \<Longrightarrow> rena_main env self created w None"
| main_refused: "rena_setup env w = Some (ret, l, v) \<Longrightarrow> ret < 0 \<Longrightarrow> rena_main env self created w (Some (ret, v))"
| main_runs: "rena_setup env w = Some (ret, l, v) \<Longrightarrow> \<not> ret < 0 \<Longrightarrow> rena_run self created v r \<Longrightarrow>
    rena_main env self created w r"

inductive_cases rena_mainE: "rena_main env self created w r"

section \<open>Properties\<close>

lemma process_args_frame:
  assumes "rena_process_args env w = Some (ret, v)"
  shows "v = w\<lparr>daemonize := daemonize v, rena_config := rena_config v\<rparr>"
  using assms by (cases w) (auto simp: rena_process_args_def Let_def bind_eq_Some_conv split: prod.splits if_splits)

lemma config_load_code:
  assumes "config_load None f t = Some (ret, c)"
  shows "ret \<le> 0 \<and> (ret = 0 \<longrightarrow> c \<noteq> None)"
  using assms by (auto simp: config_load_def bind_eq_Some_conv split: if_splits option.splits)

lemma process_args_code:
  assumes "rena_process_args env w = Some (ret, v)" "rena_config w = None"
  shows "ret \<le> 0 \<and> (ret = 0 \<longrightarrow> rena_config v \<noteq> None)"
  using assms by (auto simp: rena_process_args_def Let_def bind_eq_Some_conv dest!: config_load_code
      split: prod.splits if_splits)

lemma setup_settled:
  assumes args: "rena_process_args env (calloc_rena w) = Some (r, v)"
    and rules: "\<And>c. rena_config v = Some c \<Longrightarrow> rules_ready env v c"
  shows "\<exists>ret l w'. rena_setup env w = Some (ret, l, w') \<and>
    (if ret = 0 then set_up w' else ret < 0 \<and> released w w')"
proof -
  let ?w = "calloc_rena w"
  have fr: "v = ?w\<lparr>daemonize := daemonize v, rena_config := rena_config v\<rparr>" by (rule process_args_frame [OF args])
  have none: "rena_tm v = None" "rena_clients v = None" "rena_db v = None" "open_fd v = open_fd w"
    by (subst fr, simp add: calloc_rena_def)+
  have code: "r \<le> 0" "r = 0 \<longrightarrow> rena_config v \<noteq> None"
    using process_args_code [OF args] by (simp_all add: calloc_rena_def)
  have refuse: "settled_by (release k l u) w"
    if "k < 0" "rena_tm u = None" "rena_clients u = None" "rena_db u = None" "open_fd u = open_fd w" for k l u
    using release_settled [of u k w l] that by (simp add: sound_db_def)
  have "settled_by (rena_setup env w) w"
  proof (cases "r = 0")
    case False
    then have "rena_setup env w = release r (logger_reset 7 0x2b 182) v"
      using args by (simp add: rena_setup_def Let_def)
    then show ?thesis using refuse [OF _ none] False code(1) by simp
  next
    case True
    then obtain c where c: "rena_config v = Some c" using code(2) by blast
    obtain b u where b: "next_ok v = (b, u)" by fastforce
    have u: "u = v\<lparr>oks := oks u\<rparr>" by (rule next_ok_frame [OF b])
    let ?u = "if on_valgrind env then v else u"
    have uv: "rena_tm ?u = None" "rena_clients ?u = None" "rena_db ?u = None" "open_fd ?u = open_fd w"
      "rena_trees ?u = rena_trees v" "rena_config ?u = Some c"
      using none c by (simp_all, (subst u, simp)+)
    let ?l = "logger_reconfigure (Some c) (logger_reset 7 0x2b 182)"
    have run: "rena_setup env w = (if \<not> on_valgrind env \<and> \<not> b then release (- 9) ?l u else setup_modules env c ?l ?u)"
      using args True c b by (simp add: rena_setup_def Let_def proc_limit_fds_def)
    have "rules_ready env ?u c"
      using rules [OF c] uv(5) by (auto simp: rules_ready_def sound_db_def split: option.splits)
    then have "settled_by (setup_modules env c l ?u) w" for l
      by (intro setup_modules_settled [OF uv(6,1,2,3)]) (simp_all add: uv(4))
    moreover have "settled_by (release (- 9) l u) w" if "\<not> on_valgrind env" for l
      using refuse [of "- 9" u] uv(1-4) that by simp
    ultimately show ?thesis using run by (auto split: if_splits)
  qed
  then show ?thesis
  proof (cases "rena_setup env w")
    case (Some x)
    then obtain ret l w' where "rena_setup env w = Some (ret, l, w')" by (metis prod_cases3)
    with \<open>settled_by (rena_setup env w) w\<close> show ?thesis by (simp add: settled_by_def)
  qed (simp add: settled_by_def)
qed

definition no_modules :: "world \<Rightarrow> bool" where
  "no_modules w \<longleftrightarrow> rena_config w = None \<and> rena_tm w = None \<and> rena_server w = None \<and> rena_db w = None \<and> rena_clients w = None"

lemma free_chain_view:
  assumes r: "free_chain w a = Some v"
  shows "module_view v = module_view w"
proof (rule free_chain.raw_induct [where P = "\<lambda>w a v. module_view v = module_view w", OF _ r], goal_cases)
  case (1 f w a v)
  then show ?case by (auto simp: bind_eq_Some_conv module_view_def other_view_def Let_def split: option.splits)
qed

lemma info_destroy_view: "client_info_destroy w i b = Some (g, v) \<Longrightarrow> module_view v = module_view w"
  by (auto simp: client_info_destroy_def bind_eq_Some_conv module_view_def other_view_def Let_def proc_close_def emit_def
      split: option.splits if_splits)

lemma freeaddrinfo_view: "freeaddrinfo w a = Some v \<Longrightarrow> module_view v = module_view w"
  by (auto simp: freeaddrinfo_def bind_eq_Some_conv emit_def module_view_def other_view_def dest!: free_chain_view)

lemma destroy_loop_view:
  assumes r: "destroy_loop w p = Some v"
  shows "module_view v = module_view w"
proof (rule destroy_loop.raw_induct [where P = "\<lambda>w p v. module_view v = module_view w", OF _ r], goal_cases)
  case (1 f w p v)
  have nodes: "module_view (x\<lparr>cnodes := m\<rparr>) = module_view x" for x m by (simp add: module_view_def other_view_def)
  from 1(2) show ?case
    by (auto simp: bind_eq_Some_conv nodes split: option.splits
        dest!: 1(1) info_destroy_view freeaddrinfo_view)
qed

lemma clients_destroy_view:
  assumes "clients_destroy w = Some v"
  shows "rena_clients v = None \<and> rena_tm v = rena_tm w \<and> rena_server v = rena_server w"
proof (cases "rena_clients w")
  case (Some cs)
  then obtain w1 w2 where 1: "(case cci cs of None \<Rightarrow> Some w
           | Some a \<Rightarrow> do { n \<leftarrow> cnodes w a; node_upd w (c_prev n) (\<lambda>x. x\<lparr>c_next := None\<rparr>) }) = Some w1"
      "destroy_loop w1 (cci cs) = Some w2" "v = w2\<lparr>rena_clients := None\<rparr>"
    using assms by (auto simp: clients_destroy_def bind_eq_Some_conv)
  have "module_view w1 = module_view w"
    using 1(1) by (auto simp: bind_eq_Some_conv node_upd_def module_view_def other_view_def split: option.splits)
  with 1 show ?thesis using destroy_loop_view [of w1 "cci cs" w2] by (simp add: module_view_def other_view_def)
qed (use assms in \<open>simp add: clients_destroy_def\<close>)

lemma rena_destroy_no_modules: "rena_destroy w = Some v \<Longrightarrow> no_modules v"
proof -
  assume r: "rena_destroy w = Some v"
  obtain w1 w2 where 1: "task_manager_destroy w = Some w1" "clients_destroy (server_destroy w1) = Some w2"
      "no_modules v \<longleftrightarrow> rena_tm w2 = None \<and> rena_server w2 = None \<and> rena_clients w2 = None"
    using r by (auto simp: rena_destroy_def bind_eq_Some_conv no_modules_def)
  have "rena_tm w1 = None"
    using 1(1) by (auto simp: task_manager_destroy_def bind_eq_Some_conv split: option.splits)
  moreover have "rena_tm (server_destroy w1) = rena_tm w1"
    using server_destroy_view(2) [of w1] by (simp add: other_view_def)
  ultimately show ?thesis
    using 1(3) clients_destroy_view [OF 1(2)] server_destroy_view(1) [of w1] by simp
qed

text \<open>C13: \<^verbatim>\<open>server_init\<close> either gives a server whose two listening sockets and whose descriptor of
  signals are open and in the interest list of an open epoll instance, or none, and then no
  descriptor is open that was not open before: every socket that one of its steps made is
  closed on every path of failure.\<close>

theorem server_init_all_or_nothing:
  assumes "rena_config w \<noteq> None"
  shows "\<exists>ok w'. server_init w = Some (ok, w') \<and> (if ok then ready w' else nothing_left w w')"
proof -
  obtain c where "rena_config w = Some c" using assms by blast
  then show ?thesis by (rule server_init_cases) auto
qed

text \<open>C12: setting up the process is all or nothing: if the command line can be read and the rule
  files give well-formed trees, \<^verbatim>\<open>rena_setup\<close> returns; with 0 every module is there, the
  server listens, the registry and the queue of tasks are empty and the bounds of the pool make
  sense; with a code different from 0, which is then negative, no module is left and no
  descriptor stays open, at whichever step the failure was.\<close>

theorem rena_setup_all_or_nothing:
  assumes args: "rena_process_args env (calloc_rena w) = Some (r, v)"
    and rules: "\<And>c. rena_config v = Some c \<Longrightarrow> rules_ready env v c"
  shows "\<exists>ret l w'. rena_setup env w = Some (ret, l, w') \<and>
    (if ret = 0 then set_up w' else ret < 0 \<and> released w w')"
  by (rule setup_settled [OF assms])



section \<open>Examples\<close>

definition small_ini :: string where
  "small_ini = ''[pool]'' @ [LF] @ ''minimum = 8'' @ [LF] @ ''#x'' @ [LF] @ ''[server]'' @ [LF] @ ''bind=::1'' @ [LF]"

definition small_start :: startup where
  "small_start = \<lparr>argv = [''-c'', ''f'', ''-d''], readable = (\<lambda>_. True), files = (\<lambda>_. Some small_ini),
     rules_dir = (\<lambda>_. Some (map rule_file [(''a.txt'', [Rename ''a.b'' ''c''])])), dir_closed = 0, hard_limit = None,
     time_now = 0, on_valgrind = False\<rparr>"

lemma small_args:
  "rena_process_args small_start (calloc_rena w) =
     Some (0, (calloc_rena w)\<lparr>daemonize := True, rena_config := Some (default_config\<lparr>pool_minimum := 8, server_bind := ''::1''\<rparr>)\<rparr>)"
proof -
  have g: "getopt_all [''-c'', ''f'', ''-d''] = ([Opt_c ''f'', Opt_d], [])" by code_simp
  have f: "apply_options [Opt_c ''f'', Opt_d] ''/etc/rena/rena.ini'' False = (True, ''f'', True)"
    by (simp add: snprintf_to_def MAX_FILENAME_def)
  have n: "snprintf_to MAX_FILENAME ''f'' = ''f''" by (simp add: snprintf_to_def MAX_FILENAME_def)
  show ?thesis
    using config_load_example by (simp add: rena_process_args_def small_start_def small_ini_def g f n calloc_rena_def)
qed

lemma rules_ready_directory:
  assumes "rena_trees w = empty_heap" "rules_dir env (config_get_database_directory c) = Some (map rule_file fs)"
    "dir_closed env = 0" "\<forall>f \<in> set fs. good_file (config_get_database_suffix c) f"
  shows "rules_ready env w c"
proof -
  obtain h db nts tos frs where "database_init empty_heap None (config_get_database_directory c) (config_get_database_suffix c)
      (Some (map rule_file fs)) 0 = Some (h, Some db)" "db_trees h db nts tos frs"
    using directory_loads [OF assms(4)] by blast
  then show ?thesis using assms(1-3) by (auto simp: rules_ready_def sound_db_def)
qed



definition small_os :: world where
  "small_os = init_world\<lparr>sockets := [Inr 3, Inr 4, Inr 5, Inr 6]\<rparr>"

lemma server_starts:
  assumes "sockets w = [Inr 3, Inr 4, Inr 5, Inr 6]" "oks w = []" "interest w = (\<lambda>_. None)" "valid_ip w = (\<lambda>_. True)"
    "rena_config w = Some (default_config\<lparr>pool_minimum := 8, server_bind := ''::1''\<rparr>)"
  shows "\<exists>w'. server_init w = Some (True, w')"
  using assms
  by (cases w) (simp add: server_init_def poll_init_def next_fd_def create_ssl_context_server_def next_ok_def
   create_ssl_context_client_def create_serving_def server_create_socket_def create_socket_def fd_set_common_flags_def
   config_get_server_port_http_def config_get_server_port_https_def default_config_def watch_def server_notify2_def epoll_ctl_def
   proc_signal_block_def proc_create_signalfd_def ready_def AF_INET_def AF_INET6_def Let_def
   DEFAULT_HTTP_PORT_def DEFAULT_HTTPS_PORT_def)

lemma small_good: "\<forall>f \<in> set [(''a.txt'', [Rename ''a.b'' ''c''])]. good_file ''.example.org'' f"
  by (simp add: good_file_def filename_valid_def word_def c_tolower_def is_space_def MAX_STR_def)

lemma small_setup: "\<exists>l w'. rena_setup small_start small_os = Some (0, l, w')"
proof -
  let ?c = "default_config\<lparr>pool_minimum := 8, server_bind := ''::1''\<rparr>"
  let ?w = "(calloc_rena small_os)\<lparr>daemonize := True, rena_config := Some ?c\<rparr>"
  let ?fs = "[(''a.txt'', [Rename ''a.b'' ''c''])]"
  obtain h db where db: "database_init empty_heap None (database_directory ?c) ''.example.org'' (Some (map rule_file ?fs)) 0 = Some (h, Some db)"
    using directory_loads [OF small_good] by blast
  obtain w' where w': "server_init (?w\<lparr>rena_trees := h, rena_db := Some db, rena_clients := Some clients_init\<rparr>) = Some (True, w')"
    using server_starts [of "?w\<lparr>rena_trees := h, rena_db := Some db, rena_clients := Some clients_init\<rparr>"]
    by (auto simp: calloc_rena_def small_os_def init_world_def)
  obtain tm where tm: "task_manager_init 8 16 0 = Some tm" by (auto simp: task_manager_init_def)
  have n: "next_ok ?w = (True, ?w)" by (simp add: next_ok_def calloc_rena_def small_os_def init_world_def)
  have f: "config_get_database_suffix ?c = ''.example.org''" "config_get_database_directory ?c = database_directory ?c"
    "config_get_pool_minimum ?c = 8" "config_get_pool_maximum ?c = 16"
    "rules_dir small_start (database_directory ?c) = Some (map rule_file ?fs)" "dir_closed small_start = 0" "time_now small_start = 0"
    "rena_trees ?w = empty_heap" "rena_db ?w = None" "rena_config ?w = Some ?c" "\<not> on_valgrind small_start"
    by (simp_all add: config_get_database_suffix_def config_get_database_directory_def config_get_pool_minimum_def
        config_get_pool_maximum_def default_config_def small_start_def calloc_rena_def small_os_def init_world_def)
  have "setup_modules small_start ?c l ?w = Some (0, l, w'\<lparr>rena_tm := Some tm\<rparr>)" for l
    using db w' tm by (simp only: setup_modules_def f bind.bind_lunit Let_def prod.case option.distinct if_False not_True_eq_False simp_thms option.case)
  then show ?thesis
    using n f by (simp only: rena_setup_def small_args [of small_os] bind.bind_lunit prod.case proc_limit_fds_def Let_def) simp
qed

lemma small_rules:
  assumes "rena_config ((calloc_rena w)\<lparr>daemonize := True, rena_config := Some (default_config\<lparr>pool_minimum := 8, server_bind := ''::1''\<rparr>)\<rparr>) = Some c"
    "rena_trees w = empty_heap"
  shows "rules_ready small_start ((calloc_rena w)\<lparr>daemonize := True, rena_config := Some (default_config\<lparr>pool_minimum := 8, server_bind := ''::1''\<rparr>)\<rparr>) c"
  using assms small_good
  by (intro rules_ready_directory [where fs = "[(''a.txt'', [Rename ''a.b'' ''c''])]"])
    (auto simp: small_start_def calloc_rena_def config_get_database_suffix_def default_config_def)

lemma server_init_all_or_nothing_witness:
  "\<exists>w'. server_init (small_os\<lparr>rena_config := Some (default_config\<lparr>pool_minimum := 8, server_bind := ''::1''\<rparr>)\<rparr>) = Some (True, w') \<and> ready w'"
proof -
  let ?w = "small_os\<lparr>rena_config := Some (default_config\<lparr>pool_minimum := 8, server_bind := ''::1''\<rparr>)\<rparr>"
  obtain w' where "server_init ?w = Some (True, w')" using server_starts [of ?w] by (auto simp: small_os_def init_world_def)
  then show ?thesis using server_init_all_or_nothing [of ?w] by auto
qed

lemma rena_setup_all_or_nothing_witness:
  "\<exists>l w'. rena_setup small_start small_os = Some (0, l, w') \<and> set_up w'"
proof -
  obtain l w' where r: "rena_setup small_start small_os = Some (0, l, w')" using small_setup by blast
  have "rena_trees small_os = empty_heap" by (simp add: small_os_def init_world_def)
  then show ?thesis
    using rena_setup_all_or_nothing [OF small_args small_rules, of small_os] r by auto
qed

text \<open>A start where the first descriptor is refused: the exit code is that of the failed server.\<close>

lemma no_sockets_setup: "\<exists>l w'. rena_setup small_start init_world = Some (- 7, l, w')"
proof -
  let ?c = "default_config\<lparr>pool_minimum := 8, server_bind := ''::1''\<rparr>"
  let ?w = "(calloc_rena init_world)\<lparr>daemonize := True, rena_config := Some ?c\<rparr>"
  let ?fs = "[(''a.txt'', [Rename ''a.b'' ''c''])]"
  let ?l = "logger_reconfigure (Some ?c) (logger_reset 7 0x2b 182)"
  obtain h db where db: "database_init empty_heap None (database_directory ?c) ''.example.org'' (Some (map rule_file ?fs)) 0 = Some (h, Some db)"
    using directory_loads [OF small_good] by blast
  obtain w' where w': "server_init (?w\<lparr>rena_trees := h, rena_db := Some db, rena_clients := Some clients_init\<rparr>) = Some (False, w')"
    by (simp add: server_init_def poll_init_def next_fd_def calloc_rena_def init_world_def)
  have f: "config_get_database_suffix ?c = ''.example.org''" "config_get_database_directory ?c = database_directory ?c"
    "rules_dir small_start (database_directory ?c) = Some (map rule_file ?fs)" "dir_closed small_start = 0"
    "rena_trees ?w = empty_heap" "rena_db ?w = None" "rena_config ?w = Some ?c" "\<not> on_valgrind small_start"
    "next_ok ?w = (True, ?w)"
    by (simp_all add: config_get_database_suffix_def config_get_database_directory_def default_config_def small_start_def
        calloc_rena_def init_world_def next_ok_def)
  have "setup_modules small_start ?c l ?w = release (- 7) l w'" for l
    using db w' by (simp only: setup_modules_def f bind.bind_lunit Let_def prod.case option.distinct if_False if_True
        not_False_eq_True simp_thms)
  then have "rena_setup small_start init_world = release (- 7) ?l w'"
    using f by (simp only: rena_setup_def small_args [of init_world] bind.bind_lunit prod.case proc_limit_fds_def Let_def) simp
  moreover have "rena_setup small_start init_world \<noteq> None"
    using setup_settled [OF small_args small_rules, of init_world] by (auto simp: init_world_def)
  ultimately show ?thesis by (cases "rena_destroy w'") (simp_all add: release_def)
qed


end
