(* ===== verification/FaTree.thy ===== *)
theory FaTree
  imports Tree
begin

text \<open>
  The rule tree of the first proxy, \<^verbatim>\<open>faproxy/src/tree.c\<close>.  Its nodes hold the replacement in an
  array and a flag; every operation is shown to do on its heap what the one of
  \<^verbatim>\<open>rena/src/tree.c\<close> does on the heap of theory \<open>Tree\<close>, so that what is known of that tree
  carries over.
\<close>

section \<open>Nodes and operations\<close>

record fa_node =
  fa_value :: char
  fa_adapted :: string
  fa_metadata :: int
  fa_child :: ptr
  fa_sibling :: ptr

record fa_heap =
  fa_nodes :: "addr \<rightharpoonup> fa_node"
  fa_brk :: addr

definition FA_MAX_STR :: nat where "FA_MAX_STR = 1024"

definition fa_empty :: fa_heap where
  "fa_empty = \<lparr>fa_nodes = Map.empty, fa_brk = 0\<rparr>"

definition fa_store :: "fa_heap \<Rightarrow> addr \<Rightarrow> (fa_node \<Rightarrow> fa_node) \<Rightarrow> fa_heap option" where
  "fa_store h p f =
     (case fa_nodes h p of None \<Rightarrow> None | Some n \<Rightarrow> Some (h\<lparr>fa_nodes := (fa_nodes h)(p \<mapsto> f n)\<rparr>))"

definition fa_tree_create_node :: "fa_heap \<Rightarrow> char \<Rightarrow> addr \<times> fa_heap" where
  "fa_tree_create_node h val =
     (fa_brk h, h\<lparr>fa_nodes := (fa_nodes h)(fa_brk h \<mapsto>
        \<lparr>fa_value = val, fa_adapted = [], fa_metadata = 0, fa_child = None, fa_sibling = None\<rparr>),
      fa_brk := Suc (fa_brk h)\<rparr>)"

text \<open>The loop of \<^verbatim>\<open>tree_add_sibling\<close>: \<^verbatim>\<open>prev\<close> and \<^verbatim>\<open>n\<close> where it ends.\<close>

partial_function (option) fa_sibling_loop :: "fa_heap \<Rightarrow> ptr \<Rightarrow> ptr \<Rightarrow> char \<Rightarrow> (ptr \<times> ptr) option" where [code]:
  "fa_sibling_loop h prev n val =
     (case n of
        None \<Rightarrow> Some (prev, None)
      | Some p \<Rightarrow> do {
          nd \<leftarrow> fa_nodes h p;
          if schar val > schar (fa_value nd) then fa_sibling_loop h (Some p) (fa_sibling nd) val
          else Some (prev, Some p) })"

text \<open>\<^verbatim>\<open>tree_add_sibling\<close>.  Without a previous node the new one is put behind the first, which would
  break the order; a caller that could reach this inserts in front of the list itself.\<close>

definition fa_tree_add_sibling :: "fa_heap \<Rightarrow> ptr \<Rightarrow> char \<Rightarrow> (ptr \<times> fa_heap) option" where
  "fa_tree_add_sibling h n val =
     (if n = None then Some (None, h)
      else do {
        (prev, n) \<leftarrow> fa_sibling_loop h None n val;
        same \<leftarrow> (case n of None \<Rightarrow> Some False | Some p \<Rightarrow> do { nd \<leftarrow> fa_nodes h p; Some (val = fa_value nd) });
        if same then Some (n, h)
        else
          (let (aux, h) = fa_tree_create_node h val in
           case prev of
             None \<Rightarrow> do {
               p \<leftarrow> n;
               nd \<leftarrow> fa_nodes h p;
               h \<leftarrow> fa_store h aux (\<lambda>x. x\<lparr>fa_sibling := fa_sibling nd\<rparr>);
               h \<leftarrow> fa_store h p (\<lambda>x. x\<lparr>fa_sibling := Some aux\<rparr>);
               Some (Some aux, h) }
           | Some q \<Rightarrow> do {
               h \<leftarrow> fa_store h aux (\<lambda>x. x\<lparr>fa_sibling := n\<rparr>);
               h \<leftarrow> fa_store h q (\<lambda>x. x\<lparr>fa_sibling := Some aux\<rparr>);
               Some (Some aux, h) }) })"

definition fa_tree_add_child :: "fa_heap \<Rightarrow> ptr \<Rightarrow> char \<Rightarrow> (ptr \<times> fa_heap) option" where
  "fa_tree_add_child h n val =
     (case n of
        None \<Rightarrow> Some (None, h)
      | Some p \<Rightarrow> do {
          nd \<leftarrow> fa_nodes h p;
          case fa_child nd of
            Some q \<Rightarrow> do {
              c \<leftarrow> fa_nodes h q;
              if schar val < schar (fa_value c) then
                (let (aux, h) = fa_tree_create_node h val in do {
                   h \<leftarrow> fa_store h aux (\<lambda>x. x\<lparr>fa_sibling := Some q\<rparr>);
                   h \<leftarrow> fa_store h p (\<lambda>x. x\<lparr>fa_child := Some aux\<rparr>);
                   Some (Some aux, h) })
              else fa_tree_add_sibling h (Some q) val }
          | None \<Rightarrow>
              (let (aux, h) = fa_tree_create_node h val in do {
                 h \<leftarrow> fa_store h p (\<lambda>x. x\<lparr>fa_child := Some aux\<rparr>);
                 Some (Some aux, h) }) })"

text \<open>The first step of \<^verbatim>\<open>tree_insert\<close>: the node for the first character and the root.\<close>

definition fa_insert_first :: "fa_heap \<Rightarrow> ptr \<Rightarrow> char \<Rightarrow> (ptr \<times> ptr \<times> fa_heap) option" where
  "fa_insert_first h root v_l =
     (case root of
        None \<Rightarrow> (let (aux, h) = fa_tree_create_node h v_l in Some (Some aux, Some aux, h))
      | Some r \<Rightarrow> do {
          nd \<leftarrow> fa_nodes h r;
          if schar v_l < schar (fa_value nd) then
            (let (aux, h) = fa_tree_create_node h v_l in do {
               h \<leftarrow> fa_store h aux (\<lambda>x. x\<lparr>fa_sibling := root\<rparr>);
               Some (Some aux, Some aux, h) })
          else do { (aux, h) \<leftarrow> fa_tree_add_sibling h root v_l; Some (root, aux, h) } })"

fun fa_insert_loop :: "fa_heap \<Rightarrow> ptr \<Rightarrow> string \<Rightarrow> (ptr \<times> fa_heap) option" where
  "fa_insert_loop h aux [] = Some (aux, h)"
| "fa_insert_loop h aux (c # cs) = do {
     (aux, h) \<leftarrow> fa_tree_add_child h aux (c_tolower c);
     fa_insert_loop h aux cs }"

definition fa_tree_insert ::
  "fa_heap \<Rightarrow> ptr \<Rightarrow> string \<Rightarrow> nat \<Rightarrow> string option \<Rightarrow> string \<Rightarrow> (ptr \<times> fa_heap) option" where
  "fa_tree_insert h root v len ad suff = do {
     (root, aux, h) \<leftarrow> fa_insert_first h root (c_tolower (case v of [] \<Rightarrow> NUL | c # _ \<Rightarrow> c));
     (aux, h) \<leftarrow> fa_insert_loop h aux (tl (take len v));
     p \<leftarrow> aux;
     h \<leftarrow> fa_store h p (\<lambda>x. x\<lparr>fa_metadata := 1\<rparr>);
     h \<leftarrow> (case ad of
             None \<Rightarrow> Some h
           | Some s \<Rightarrow> fa_store h p (\<lambda>x. x\<lparr>fa_adapted := snprintf_to FA_MAX_STR (s @ suff)\<rparr>));
     Some (root, h) }"

text \<open>The loop of \<^verbatim>\<open>tree_get_sibling\<close>.\<close>

partial_function (option) fa_get_sibling_loop :: "fa_heap \<Rightarrow> ptr \<Rightarrow> char \<Rightarrow> ptr option" where [code]:
  "fa_get_sibling_loop h n v =
     (case n of
        None \<Rightarrow> Some None
      | Some p \<Rightarrow> do {
          nd \<leftarrow> fa_nodes h p;
          if schar v < schar (fa_value nd) then Some None
          else if fa_value nd = v then Some n
          else fa_get_sibling_loop h (fa_sibling nd) v })"

definition fa_tree_get_sibling :: "fa_heap \<Rightarrow> ptr \<Rightarrow> char \<Rightarrow> ptr option" where
  "fa_tree_get_sibling h n val = fa_get_sibling_loop h n (c_tolower val)"

definition fa_tree_get_child :: "fa_heap \<Rightarrow> ptr \<Rightarrow> char \<Rightarrow> ptr option" where
  "fa_tree_get_child h n val =
     (case n of None \<Rightarrow> Some None | Some p \<Rightarrow> do { nd \<leftarrow> fa_nodes h p; fa_tree_get_sibling h (fa_child nd) val })"

text \<open>\<^verbatim>\<open>tree_dump\<close> over a phrase buffer, with the lines it logs (the phrase up to its NUL and the
  replacement); a store outside the buffer is the crash.\<close>

partial_function (option) fa_tree_dump ::
  "fa_heap \<Rightarrow> ptr \<Rightarrow> string \<Rightarrow> nat \<Rightarrow> (string \<times> (string \<times> string) list) option" where [code]:
  "fa_tree_dump h root phrase pos =
     (case root of
        None \<Rightarrow> Some (phrase, [])
      | Some p \<Rightarrow> do {
          nd \<leftarrow> fa_nodes h p;
          phrase \<leftarrow> buf_put phrase pos (fa_value nd);
          (phrase, below) \<leftarrow> (if fa_child nd \<noteq> None then fa_tree_dump h (fa_child nd) phrase (pos + 1) else Some (phrase, []));
          let here = (if fa_adapted nd \<noteq> [] \<or> fa_metadata nd \<noteq> 0 then [(cstr_of phrase, fa_adapted nd)] else []);
          (phrase, beside) \<leftarrow> (if fa_sibling nd \<noteq> None then fa_tree_dump h (fa_sibling nd) phrase pos else Some (phrase, []));
          phrase \<leftarrow> buf_put phrase pos NUL;
          Some (phrase, below @ here @ beside) })"

section \<open>The same tree\<close>

text \<open>A node and a heap as theory \<open>Tree\<close> has them.\<close>

definition strip_node :: "fa_node \<Rightarrow> tree_node" where
  "strip_node n = \<lparr>tn_value = fa_value n, next_child = fa_child n, next_sibling = fa_sibling n,
     adapted = (if fa_metadata n \<noteq> 0 then Some (fa_adapted n) else None)\<rparr>"

definition strip_heap :: "fa_heap \<Rightarrow> tree_heap" where
  "strip_heap h = \<lparr>nodes = (\<lambda>p. map_option strip_node (fa_nodes h p)), brk = fa_brk h\<rparr>"

lemma strip_simps [simp]:
  "tn_value (strip_node n) = fa_value n" "next_child (strip_node n) = fa_child n"
  "next_sibling (strip_node n) = fa_sibling n"
  "nodes (strip_heap h) p = map_option strip_node (fa_nodes h p)" "brk (strip_heap h) = fa_brk h"
  by (simp_all add: strip_node_def strip_heap_def)

lemma strip_deref [simp]: "tree_deref (strip_heap h) p = map_option strip_node (fa_nodes h p)"
  by (simp add: tree_deref_def)

lemma strip_store:
  "(\<And>n. strip_node (f n) = g (strip_node n)) \<Longrightarrow> map_option strip_heap (fa_store h p f) = tree_store (strip_heap h) p g"
  by (auto simp: fa_store_def tree_store_def strip_heap_def fun_eq_iff split: option.splits)

lemma strip_create: "fa_tree_create_node h c = (a, h') \<Longrightarrow> tree_create_node (strip_heap h) c = (a, strip_heap h')"
  by (auto simp: fa_tree_create_node_def tree_create_node_def strip_heap_def strip_node_def fun_eq_iff)


text \<open>One step of each loop.\<close>

lemma fa_sibling_steps:
  "fa_sibling_loop h prev None v = Some (prev, None)"
  "fa_nodes h p = Some nd \<Longrightarrow> fa_sibling_loop h prev (Some p) v =
     (if schar v > schar (fa_value nd) then fa_sibling_loop h (Some p) (fa_sibling nd) v else Some (prev, Some p))"
  by (subst fa_sibling_loop.simps, simp)+

lemma fa_get_sibling_steps:
  "fa_get_sibling_loop h None v = Some None"
  "fa_nodes h p = Some nd \<Longrightarrow> fa_get_sibling_loop h (Some p) v =
     (if schar v < schar (fa_value nd) then Some None else if fa_value nd = v then Some (Some p)
      else fa_get_sibling_loop h (fa_sibling nd) v)"
  by (subst fa_get_sibling_loop.simps, simp)+

lemma strip_loop_steps:
  "tree_get_sibling2_loop (strip_heap h) prev None v = Some (prev, None, False)"
  "fa_nodes h p = Some nd \<Longrightarrow> tree_get_sibling2_loop (strip_heap h) prev (Some p) v =
     (if schar v < schar (fa_value nd) then Some (prev, Some p, False)
      else if fa_value nd = v then Some (prev, Some p, True)
      else tree_get_sibling2_loop (strip_heap h) (Some p) (fa_sibling nd) v)"
  by (subst tree_get_sibling2_loop.simps, simp)+

lemmas loop_steps = fa_sibling_steps fa_get_sibling_steps strip_loop_steps

lemma char_trichotomy:
  obtains "schar v < schar c" | "v = c" | "schar c < schar v" "c \<noteq> v"
  by (metis linorder_cases schar_inject)

text \<open>The loops end at the same places.\<close>

lemma fa_sibling_to:
  assumes r: "fa_sibling_loop h prev n v = Some r"
  shows "\<exists>ex. tree_get_sibling2_loop (strip_heap h) prev n v = Some (fst r, snd r, ex) \<and>
    ex = (\<exists>p nd. snd r = Some p \<and> fa_nodes h p = Some nd \<and> v = fa_value nd)"
proof (rule fa_sibling_loop.raw_induct [where P = "\<lambda>h prev n v r. \<exists>ex. tree_get_sibling2_loop (strip_heap h) prev n v = Some (fst r, snd r, ex) \<and>
    ex = (\<exists>p nd. snd r = Some p \<and> fa_nodes h p = Some nd \<and> v = fa_value nd)", OF _ r], goal_cases)
  case (1 f h prev n v r)
  show ?case
  proof (cases n)
    case None
    then show ?thesis using 1(2) by (auto simp: loop_steps)
  next
    case (Some p)
    then obtain nd where nd: "fa_nodes h p = Some nd" using 1(2) by (auto simp: bind_eq_Some_conv)
    show ?thesis
    proof (cases "schar v > schar (fa_value nd)")
      case True
      then have "fa_value nd \<noteq> v" by auto
      then show ?thesis using 1 Some nd True by (auto simp: loop_steps)
    next
      case False
      then have "schar v < schar (fa_value nd) \<or> fa_value nd = v" by (metis linorder_cases schar_inject)
      then show ?thesis using 1(2) Some nd False by (auto simp: loop_steps)
    qed
  qed
qed

lemma fa_sibling_from:
  assumes r: "tree_get_sibling2_loop (strip_heap h) prev n v = Some r"
  shows "fa_sibling_loop h prev n v = Some (fst r, fst (snd r))"
proof -
  have "\<forall>h. H = strip_heap h \<longrightarrow> fa_sibling_loop h prev n v = Some (fst r, fst (snd r))"
    if t: "tree_get_sibling2_loop H prev n v = Some r" for H
  proof (rule tree_get_sibling2_loop.raw_induct [where P = "\<lambda>H prev n v r. \<forall>h. H = strip_heap h \<longrightarrow> fa_sibling_loop h prev n v = Some (fst r, fst (snd r))", OF _ t], goal_cases)
    case (1 f H prev n v r)
    show ?case
    proof (intro allI impI)
      fix h assume H: "H = strip_heap h"
      show "fa_sibling_loop h prev n v = Some (fst r, fst (snd r))"
      proof (cases n)
        case None
        then show ?thesis using 1(2) by (auto simp: loop_steps)
      next
        case (Some p)
        then obtain nd where nd: "fa_nodes h p = Some nd" using 1(2) H by (auto simp: bind_eq_Some_conv)
        show ?thesis
          by (rule char_trichotomy [of v "fa_value nd"]) (use 1 Some nd H in \<open>auto simp: loop_steps\<close>)
      qed
    qed
  qed
  with r show ?thesis by blast
qed

lemma fa_get_sibling_to:
  assumes r: "fa_get_sibling_loop h n v = Some r"
  shows "\<exists>pr m ex. tree_get_sibling2_loop (strip_heap h) prev n v = Some (pr, m, ex) \<and> r = (if ex then m else None)"
proof -
  have "\<forall>prev. \<exists>pr m ex. tree_get_sibling2_loop (strip_heap h) prev n v = Some (pr, m, ex) \<and> r = (if ex then m else None)"
  proof (rule fa_get_sibling_loop.raw_induct [where P = "\<lambda>h n v r. \<forall>prev. \<exists>pr m ex. tree_get_sibling2_loop (strip_heap h) prev n v = Some (pr, m, ex) \<and> r = (if ex then m else None)", OF _ r], goal_cases)
    case (1 f h n v r)
    show ?case
    proof (cases n)
      case None
      then show ?thesis using 1(2) by (auto simp: loop_steps)
    next
      case (Some p)
      then obtain nd where nd: "fa_nodes h p = Some nd" using 1(2) by (auto simp: bind_eq_Some_conv)
      show ?thesis
      proof (rule char_trichotomy [of v "fa_value nd"])
        assume 3: "schar (fa_value nd) < schar v" "fa_value nd \<noteq> v"
        then have "f h (fa_sibling nd) v = Some r" using 1(2) Some nd by simp
        from 1(1) [OF this] have "\<exists>pr m ex. tree_get_sibling2_loop (strip_heap h) (Some p) (fa_sibling nd) v = Some (pr, m, ex) \<and>
            r = (if ex then m else None)" by blast
        then show ?thesis using 3 Some nd by (simp add: loop_steps)
      qed (use 1(2) Some nd in \<open>fastforce simp: loop_steps\<close>)+
    qed
  qed
  then show ?thesis by blast
qed

lemma fa_get_sibling_from:
  assumes r: "tree_get_sibling2_loop (strip_heap h) prev n v = Some r"
  shows "fa_get_sibling_loop h n v = Some (if snd (snd r) then fst (snd r) else None)"
proof -
  have "\<forall>h. H = strip_heap h \<longrightarrow> fa_get_sibling_loop h n v = Some (if snd (snd r) then fst (snd r) else None)"
    if t: "tree_get_sibling2_loop H prev n v = Some r" for H
  proof (rule tree_get_sibling2_loop.raw_induct [where P = "\<lambda>H prev n v r. \<forall>h. H = strip_heap h \<longrightarrow> fa_get_sibling_loop h n v = Some (if snd (snd r) then fst (snd r) else None)", OF _ t], goal_cases)
    case (1 f H prev n v r)
    show ?case
    proof (intro allI impI)
      fix h assume H: "H = strip_heap h"
      show "fa_get_sibling_loop h n v = Some (if snd (snd r) then fst (snd r) else None)"
      proof (cases n)
        case None
        then show ?thesis using 1(2) by (auto simp: loop_steps)
      next
        case (Some p)
        then obtain nd where nd: "fa_nodes h p = Some nd" using 1(2) H by (auto simp: bind_eq_Some_conv)
        show ?thesis
          by (rule char_trichotomy [of v "fa_value nd"]) (use 1 Some nd H in \<open>auto simp: loop_steps\<close>)
      qed
    qed
  qed
  with r show ?thesis by blast
qed

lemma fa_get_sibling_same: "fa_tree_get_sibling h n c = tree_get_sibling (strip_heap h) n c"
proof (cases "tree_get_sibling2_loop (strip_heap h) None n (c_tolower c)")
  case None
  then have "fa_get_sibling_loop h n (c_tolower c) = None"
    using fa_get_sibling_to [of h n "c_tolower c"] by (metis option.exhaust option.distinct(1))
  with None show ?thesis by (simp add: fa_tree_get_sibling_def tree_get_sibling_def tree_get_sibling2_def)
next
  case (Some r)
  with fa_get_sibling_from [OF Some] show ?thesis
    by (cases r) (auto simp: fa_tree_get_sibling_def tree_get_sibling_def tree_get_sibling2_def)
qed

lemma fa_get_child_same: "fa_tree_get_child h n c = tree_get_child (strip_heap h) n c"
  by (cases n; cases "fa_nodes h (the n)")
    (simp_all add: fa_tree_get_child_def tree_get_child_def fa_get_sibling_same)

text \<open>The insertion, step by step.\<close>

lemma strip_stored:
  assumes "fa_store h p f = Some h'" "\<And>n. strip_node (f n) = g (strip_node n)"
  shows "tree_store (strip_heap h) p g = Some (strip_heap h')"
  using strip_store [of f g h p, OF assms(2)] assms(1) by simp

lemma strip_store_none:
  assumes "fa_store h p f = None"
  shows "tree_store (strip_heap h) p g = None"
  using assms by (auto simp: fa_store_def tree_store_def split: option.splits)

abbreviation strip_res :: "('a \<times> fa_heap) option \<Rightarrow> ('a \<times> tree_heap) option" where
  "strip_res \<equiv> map_option (map_prod id strip_heap)"

lemma strip_sibling [simp]: "strip_node (n\<lparr>fa_sibling := q\<rparr>) = (strip_node n)\<lparr>next_sibling := q\<rparr>"
  by (simp add: strip_node_def)

lemma strip_child [simp]: "strip_node (n\<lparr>fa_child := q\<rparr>) = (strip_node n)\<lparr>next_child := q\<rparr>"
  by (simp add: strip_node_def)

lemma store_sim:
  "tree_store (strip_heap h) p (\<lambda>x. x\<lparr>next_sibling := q\<rparr>) = map_option strip_heap (fa_store h p (\<lambda>x. x\<lparr>fa_sibling := q\<rparr>))"
  "tree_store (strip_heap h) p (\<lambda>x. x\<lparr>next_child := q\<rparr>) = map_option strip_heap (fa_store h p (\<lambda>x. x\<lparr>fa_child := q\<rparr>))"
  by (simp_all add: strip_store [symmetric])

lemma create_sim:
  "tree_create_node (strip_heap h) c = map_prod id strip_heap (fa_tree_create_node h c)"
  using strip_create [of h c "fst (fa_tree_create_node h c)" "snd (fa_tree_create_node h c)"]
  by (cases "fa_tree_create_node h c") simp

lemma create_keeps:
  "fa_tree_create_node h c = (a, h') \<Longrightarrow> fa_nodes h p = Some nd \<Longrightarrow> fa_brk h \<noteq> p \<Longrightarrow> fa_nodes h' p = Some nd"
  by (auto simp: fa_tree_create_node_def)

definition fa_fresh :: "fa_heap \<Rightarrow> bool" where
  "fa_fresh h \<longleftrightarrow> (\<forall>a. fa_brk h \<le> a \<longrightarrow> fa_nodes h a = None)"

lemma fa_freshD: "fa_fresh h \<Longrightarrow> fa_nodes h p = Some nd \<Longrightarrow> p < fa_brk h"
  unfolding fa_fresh_def by (metis not_le option.distinct(1))

lemma fa_fresh_create: "fa_fresh h \<Longrightarrow> fa_tree_create_node h c = (a, h') \<Longrightarrow> fa_fresh h'"
  by (auto simp: fa_fresh_def fa_tree_create_node_def)

lemma fa_fresh_store: "fa_fresh h \<Longrightarrow> fa_store h p f = Some h' \<Longrightarrow> fa_fresh h'"
  by (auto simp: fa_fresh_def fa_store_def split: option.splits)

lemma fa_fresh_add_sibling: "fa_fresh h \<Longrightarrow> fa_tree_add_sibling h n c = Some (r, h') \<Longrightarrow> fa_fresh h'"
  unfolding fa_tree_add_sibling_def Let_def
  by (auto simp: bind_eq_Some_conv split: if_splits prod.splits option.splits)
    (meson fa_fresh_create fa_fresh_store)+

lemma fa_fresh_add_child: "fa_fresh h \<Longrightarrow> fa_tree_add_child h n c = Some (r, h') \<Longrightarrow> fa_fresh h'"
  unfolding fa_tree_add_child_def Let_def
  by (auto simp: bind_eq_Some_conv split: if_splits prod.splits option.splits)
    (meson fa_fresh_create fa_fresh_store fa_fresh_add_sibling)+

text \<open>Where the loop of \<^verbatim>\<open>tree_add_sibling\<close> ends.\<close>

lemma fa_sibling_end:
  assumes r: "fa_sibling_loop h prev n v = Some r"
  shows "(\<forall>q. snd r = Some q \<longrightarrow> (\<exists>nd. fa_nodes h q = Some nd \<and> \<not> schar (fa_value nd) < schar v)) \<and>
    (r = (prev, n) \<or> (\<exists>q nd. fst r = Some q \<and> fa_nodes h q = Some nd \<and> fa_sibling nd = snd r))"
proof (rule fa_sibling_loop.raw_induct [where P = "\<lambda>h prev n v r.
    (\<forall>q. snd r = Some q \<longrightarrow> (\<exists>nd. fa_nodes h q = Some nd \<and> \<not> schar (fa_value nd) < schar v)) \<and>
    (r = (prev, n) \<or> (\<exists>q nd. fst r = Some q \<and> fa_nodes h q = Some nd \<and> fa_sibling nd = snd r))", OF _ r], goal_cases)
  case (1 f h prev n v r)
  show ?case
  proof (cases n)
    case None
    then show ?thesis using 1(2) by auto
  next
    case (Some p)
    then obtain nd where nd: "fa_nodes h p = Some nd" using 1(2) by (auto simp: bind_eq_Some_conv)
    show ?thesis
    proof (cases "schar v > schar (fa_value nd)")
      case True
      then have "f h (Some p) (fa_sibling nd) v = Some r" using 1(2) Some nd by simp
      from 1(1) [OF this] show ?thesis using nd by fastforce
    next
      case False
      then show ?thesis using 1(2) Some nd by auto
    qed
  qed
qed

text \<open>\<^verbatim>\<open>tree_add_sibling\<close> of the first proxy, where it is called: the list is not empty and the character
  is not in front of it.\<close>

lemma fa_add_sibling_same:
  assumes "fa_nodes h p = Some nd" "\<not> schar c < schar (fa_value nd)" "c_tolower c = c" "fa_fresh h"
  shows "strip_res (fa_tree_add_sibling h (Some p) c) = tree_add_sibling (strip_heap h) (Some p) c"
proof (cases "fa_sibling_loop h None (Some p) c")
  case None
  then have "tree_get_sibling2_loop (strip_heap h) None (Some p) c = None"
    using fa_sibling_from [of h None "Some p" c] by (metis option.exhaust option.distinct(1))
  with None assms(3) show ?thesis by (simp add: fa_tree_add_sibling_def tree_add_sibling_def tree_get_sibling2_def)
next
  case (Some r)
  obtain prev m where r: "r = (prev, m)" by fastforce
  obtain ex where ex: "tree_get_sibling2_loop (strip_heap h) None (Some p) c = Some (prev, m, ex)"
    "ex = (\<exists>q nd. m = Some q \<and> fa_nodes h q = Some nd \<and> c = fa_value nd)"
    using fa_sibling_to [OF Some] r by auto
  have e: "\<forall>q. m = Some q \<longrightarrow> (\<exists>nd. fa_nodes h q = Some nd \<and> \<not> schar (fa_value nd) < schar c)"
    "prev = None \<and> m = Some p \<or> (\<exists>q nd. prev = Some q \<and> fa_nodes h q = Some nd \<and> fa_sibling nd = m)"
    using fa_sibling_end [OF Some] r by auto
  have get: "tree_get_sibling2 (strip_heap h) (Some p) c 1 = Some (prev, ex)"
    using ex(1) assms(3) by (simp add: tree_get_sibling2_def)
  have same: "(case m of None \<Rightarrow> Some False | Some p \<Rightarrow> do { nd \<leftarrow> fa_nodes h p; Some (c = fa_value nd) }) = Some ex"
    using ex(2) e(1) by (cases m) auto
  show ?thesis
  proof (cases ex)
    case True
    then have "fa_tree_add_sibling h (Some p) c = Some (m, h)"
      using Some r same by (simp add: fa_tree_add_sibling_def)
    moreover have "tree_add_sibling (strip_heap h) (Some p) c = Some (m, strip_heap h)"
      using get True e(2) by (auto simp: tree_add_sibling_def)
    ultimately show ?thesis by simp
  next
    case False
    have "prev \<noteq> None"
    proof
      assume "prev = None"
      then have "m = Some p" using e(2) by auto
      with e(1) assms(1,2) have "schar c = schar (fa_value nd)" by auto
      then show False using False ex(2) assms(1) \<open>m = Some p\<close> by auto
    qed
    then obtain q nq where q: "prev = Some q" "fa_nodes h q = Some nq" "fa_sibling nq = m" using e(2) by auto
    obtain aux h' where a: "fa_tree_create_node h c = (aux, h')" by fastforce
    have nq: "fa_nodes h' q = Some nq" using create_keeps [OF a q(2)] fa_freshD [OF assms(4) q(2)] by simp
    show ?thesis
      using Some r same False get q nq a
      by (cases "fa_store h' aux (\<lambda>x. x\<lparr>fa_sibling := m\<rparr>)")
        (auto simp: fa_tree_add_sibling_def tree_add_sibling_def create_sim store_sim option.map_comp comp_def
          bind_map_option map_option_bind split: option.splits)
  qed
qed

lemma fa_add_child_same:
  assumes "c_tolower c = c" "fa_fresh h" "p \<noteq> None"
  shows "strip_res (fa_tree_add_child h p c) = tree_add_child (strip_heap h) p c"
proof -
  obtain a where p: "p = Some a" using assms(3) by blast
  show ?thesis
  proof (cases "fa_nodes h a")
    case None
    then show ?thesis by (simp add: p fa_tree_add_child_def tree_add_child_def)
  next
    case (Some nd)
    show ?thesis
    proof (cases "fa_child nd")
      case None
      then show ?thesis using Some
        by (simp add: p fa_tree_add_child_def tree_add_child_def create_sim store_sim bind_map_option map_option_bind comp_def
            split: prod.splits)
    next
      case q: (Some q)
      show ?thesis
      proof (cases "fa_nodes h q")
        case None
        then show ?thesis using Some q by (simp add: p fa_tree_add_child_def tree_add_child_def)
      next
        case c: (Some nc)
        show ?thesis
        proof (cases "schar c < schar (fa_value nc)")
          case True
          then show ?thesis using Some q c assms(1)
            by (simp add: p fa_tree_add_child_def tree_add_child_def create_sim store_sim bind_map_option map_option_bind
                comp_def split: prod.splits)
        next
          case False
          then show ?thesis using Some q c assms(1) fa_add_sibling_same [OF c False assms(1,2)]
            by (simp add: p fa_tree_add_child_def tree_add_child_def)
        qed
      qed
    qed
  qed
qed

lemma add_child_some:
  assumes "fa_tree_add_child h (Some a) c = Some (r, h')"
  shows "r \<noteq> None"
  using assms
  by (auto simp: fa_tree_add_child_def fa_tree_add_sibling_def Let_def bind_eq_Some_conv
      split: if_splits prod.splits option.splits)

lemma fa_insert_loop_same:
  "fa_fresh h \<Longrightarrow> p \<noteq> None \<Longrightarrow> strip_res (fa_insert_loop h p w) = tree_insert_loop (strip_heap h) p (lower w)"
proof (induction w arbitrary: h p)
  case (Cons c w)
  have step: "strip_res (fa_tree_add_child h p (c_tolower c)) = tree_add_child (strip_heap h) p (c_tolower c)"
    using fa_add_child_same [OF _ Cons.prems] by simp
  show ?case
  proof (cases "fa_tree_add_child h p (c_tolower c)")
    case None
    then show ?thesis using step by simp
  next
    case (Some r)
    obtain q h' where r: "r = (q, h')" by fastforce
    have "fa_fresh h'" "q \<noteq> None"
      using fa_fresh_add_child [OF Cons.prems(1)] add_child_some Cons.prems(2) Some r by auto
    from Cons.IH [OF this] show ?thesis using step Some r by (metis (no_types, lifting) bind.bind_lunit
        fa_insert_loop.simps(2) id_apply list.map(2) map_prod_simp option.map(2) prod.case tree_insert_loop.simps(2))
  qed
qed simp

text \<open>What a step keeps of the characters.\<close>

definition keeps_values :: "fa_heap \<Rightarrow> fa_heap \<Rightarrow> bool" where
  "keeps_values h h' \<longleftrightarrow> (\<forall>p nd. fa_nodes h p = Some nd \<longrightarrow> (\<exists>nd'. fa_nodes h' p = Some nd' \<and> fa_value nd' = fa_value nd))"

lemma keeps_values_trans: "keeps_values a b \<Longrightarrow> keeps_values b c \<Longrightarrow> keeps_values a c"
  unfolding keeps_values_def by metis

lemma keeps_values_refl [simp]: "keeps_values h h"
  by (simp add: keeps_values_def)

lemma keeps_values_create: "fa_fresh h \<Longrightarrow> fa_tree_create_node h c = (a, h') \<Longrightarrow> keeps_values h h'"
  by (auto simp: keeps_values_def fa_tree_create_node_def fa_fresh_def)

lemma keeps_values_store: "fa_store h p (\<lambda>x. x\<lparr>fa_sibling := q\<rparr>) = Some h' \<Longrightarrow> keeps_values h h'"
  by (auto simp: keeps_values_def fa_store_def split: option.splits)

lemma created_value: "fa_tree_create_node h c = (a, h') \<Longrightarrow> \<exists>nd. fa_nodes h' a = Some nd \<and> fa_value nd = c"
  by (auto simp: fa_tree_create_node_def)

lemma fa_add_sibling_value:
  assumes "fa_tree_add_sibling h (Some p) c = Some (r, h')" "fa_fresh h"
  shows "keeps_values h h' \<and> (\<exists>a nd. r = Some a \<and> fa_nodes h' a = Some nd \<and> fa_value nd = c)"
proof -
  obtain prev m where l: "fa_sibling_loop h None (Some p) c = Some (prev, m)"
    using assms(1) by (auto simp: fa_tree_add_sibling_def bind_eq_Some_conv)
  obtain same where same: "(case m of None \<Rightarrow> Some False | Some p \<Rightarrow> do { nd \<leftarrow> fa_nodes h p; Some (c = fa_value nd) }) = Some same"
    using assms(1) l by (auto simp: fa_tree_add_sibling_def bind_eq_Some_conv)
  show ?thesis
  proof (cases same)
    case True
    then show ?thesis using assms(1) l same
      by (auto simp: fa_tree_add_sibling_def bind_eq_Some_conv split: option.splits)
  next
    case False
    obtain aux h1 where a: "fa_tree_create_node h c = (aux, h1)" by fastforce
    obtain h2 q x y where 2: "fa_store h1 aux (\<lambda>x. x\<lparr>fa_sibling := q\<rparr>) = Some h2"
      "fa_store h2 x (\<lambda>x. x\<lparr>fa_sibling := y\<rparr>) = Some h'" "r = Some aux"
      using assms(1) l same False a
      by (auto simp: fa_tree_add_sibling_def bind_eq_Some_conv split: option.splits)
    have "keeps_values h1 h'" using keeps_values_store [OF 2(1)] keeps_values_store [OF 2(2)] keeps_values_trans by blast
    then show ?thesis
      using keeps_values_create [OF assms(2) a] created_value [OF a] 2(3) keeps_values_trans
      by (metis keeps_values_def)
  qed
qed

lemma fa_fresh_first: "fa_fresh h \<Longrightarrow> fa_insert_first h root c = Some (r, a, h') \<Longrightarrow> fa_fresh h' \<and> a \<noteq> None"
  unfolding fa_insert_first_def Let_def
  by (auto simp: bind_eq_Some_conv split: if_splits prod.splits option.splits
      dest: fa_fresh_create fa_add_sibling_value)
    (meson fa_fresh_create fa_fresh_store fa_fresh_add_sibling)+

definition first_node :: "tree_heap \<Rightarrow> ptr \<Rightarrow> char \<Rightarrow> (ptr \<times> ptr \<times> tree_heap) option" where
  "first_node h root c = do {
     (aux, h) \<leftarrow> tree_add_sibling h root c;
     p \<leftarrow> aux;
     nd \<leftarrow> tree_deref h p;
     root' \<leftarrow> (case root of
                None \<Rightarrow> Some aux
              | Some r \<Rightarrow> do {
                  rn \<leftarrow> tree_deref h r;
                  Some (if schar (tn_value nd) < schar (tn_value rn) then aux else root) });
     Some (root', aux, h) }"

lemma insert_with_first:
  "tree_insert_with f h root v len = do {
     (root', aux, h) \<leftarrow> first_node h root (case v of [] \<Rightarrow> NUL | c # _ \<Rightarrow> c);
     (aux, h) \<leftarrow> tree_insert_loop h aux (tl (take len v));
     h \<leftarrow> tree_set f h aux;
     Some (root', h) }"
  by (auto simp: tree_insert_with_def first_node_def Let_def bind_eq_Some_conv split_def intro!: option.expand
      split: option.splits) 

lemma fa_first_same:
  assumes "c_tolower c = c" "fa_fresh h"
  shows "map_option (map_prod id (map_prod id strip_heap)) (fa_insert_first h root c) = first_node (strip_heap h) root c"
proof (cases root)
  case None
  obtain a h1 where a: "fa_tree_create_node h c = (a, h1)" by fastforce
  have "fa_nodes h1 a = Some \<lparr>fa_value = c, fa_adapted = [], fa_metadata = 0, fa_child = None, fa_sibling = None\<rparr>"
    using a by (auto simp: fa_tree_create_node_def)
  moreover from this have "fa_store h1 a (\<lambda>x. x\<lparr>fa_sibling := None\<rparr>) = Some h1"
    by (simp add: fa_store_def fun_upd_idem)
  ultimately show ?thesis
    using None a
    by (simp add: fa_insert_first_def first_node_def tree_add_sibling_def tree_get_sibling2_def strip_loop_steps create_sim
        store_sim)
next
  case (Some r)
  show ?thesis
  proof (cases "fa_nodes h r")
    case None
    then show ?thesis using Some
      by (simp add: fa_insert_first_def first_node_def tree_add_sibling_def tree_get_sibling2_def tree_get_sibling2_loop.simps)
  next
    case n: (Some nd)
    show ?thesis
    proof (cases "schar c < schar (fa_value nd)")
      case True
      obtain a h1 where a: "fa_tree_create_node h c = (a, h1)" by fastforce
      have r1: "fa_nodes h1 r = Some nd" "r \<noteq> a"
        using create_keeps [OF a n] fa_freshD [OF assms(2) n] a by (auto simp: fa_tree_create_node_def)
      obtain na where na: "fa_nodes h1 a = Some na" "fa_value na = c" using created_value [OF a] by blast
      then have s: "fa_store h1 a (\<lambda>x. x\<lparr>fa_sibling := Some r\<rparr>) = Some (h1\<lparr>fa_nodes := (fa_nodes h1)(a \<mapsto> na\<lparr>fa_sibling := Some r\<rparr>)\<rparr>)"
        by (simp add: fa_store_def)
      show ?thesis
        using Some n True a assms(1) r1 na s
        by (simp add: fa_insert_first_def first_node_def tree_add_sibling_def tree_get_sibling2_def strip_loop_steps create_sim
            store_sim)
    next
      case False
      note same = fa_add_sibling_same [OF n False assms]
      show ?thesis
      proof (cases "fa_tree_add_sibling h (Some r) c")
        case None
        then show ?thesis using same Some n False by (simp add: fa_insert_first_def first_node_def)
      next
        case x: (Some x)
        obtain q h' where q: "x = (q, h')" by fastforce
        have v: "keeps_values h h'" "\<exists>a nd. q = Some a \<and> fa_nodes h' a = Some nd \<and> fa_value nd = c"
          using fa_add_sibling_value [of h r c q h'] x q assms(2) by auto
        obtain rn where "fa_nodes h' r = Some rn" "fa_value rn = fa_value nd" using v(1) n unfolding keeps_values_def by blast
        moreover obtain a na where "q = Some a" "fa_nodes h' a = Some na" "fa_value na = c" using v(2) by blast
        ultimately show ?thesis using same Some n False x q
          by (auto simp: fa_insert_first_def first_node_def dest!: sym [of _ "tree_add_sibling _ _ _"])
      qed
    qed
  qed
qed

text \<open>The end of \<^verbatim>\<open>tree_insert\<close>.\<close>

definition fa_set_rule :: "string \<Rightarrow> fa_heap \<Rightarrow> ptr \<Rightarrow> fa_heap option" where
  "fa_set_rule s h aux = do {
     p \<leftarrow> aux;
     h \<leftarrow> fa_store h p (\<lambda>x. x\<lparr>fa_metadata := 1\<rparr>);
     fa_store h p (\<lambda>x. x\<lparr>fa_adapted := s\<rparr>) }"

lemma fa_set_rule_same: "map_option strip_heap (fa_set_rule s h aux) = tree_set (\<lambda>_. Some s) (strip_heap h) aux"
proof (cases aux)
  case (Some p)
  have "strip_heap (h\<lparr>fa_nodes := (fa_nodes h)(p \<mapsto> nd\<lparr>fa_metadata := 1, fa_adapted := s\<rparr>)\<rparr>) =
      (strip_heap h)\<lparr>nodes := (nodes (strip_heap h))(p \<mapsto> (strip_node nd)\<lparr>adapted := Some s\<rparr>)\<rparr>" for nd
    by (auto simp: strip_heap_def strip_node_def fun_eq_iff)
  then show ?thesis using Some
    by (cases "fa_nodes h p") (simp_all add: fa_set_rule_def tree_set_def fa_store_def tree_store_def)
qed (simp add: fa_set_rule_def tree_set_def)

text \<open>The whole insertion: what \<^verbatim>\<open>rena/src/tree.c\<close> would do, where the new rule replaces the old one.\<close>

lemma fa_insert_same:
  assumes "fa_fresh h"
  shows "strip_res (fa_tree_insert h root v len (Some s) suff) =
    tree_insert_with (\<lambda>_. Some (snprintf_to FA_MAX_STR (s @ suff))) (strip_heap h) root (lower v) len"
proof -
  let ?c = "c_tolower (case v of [] \<Rightarrow> NUL | c # _ \<Rightarrow> c)"
  have c: "(case lower v of [] \<Rightarrow> NUL | c # _ \<Rightarrow> c) = ?c" by (cases v) simp_all
  have first: "map_option (map_prod id (map_prod id strip_heap)) (fa_insert_first h root ?c) = first_node (strip_heap h) root ?c"
    by (rule fa_first_same [OF _ assms]) simp
  show ?thesis
  proof (cases "fa_insert_first h root ?c")
    case None
    then show ?thesis using first c by (simp add: fa_tree_insert_def insert_with_first)
  next
    case (Some x)
    obtain r a h1 where x: "x = (r, a, h1)" by (metis prod_cases3)
    have f1: "fa_fresh h1" "a \<noteq> None" using fa_fresh_first [OF assms] Some x by auto
    have loop: "strip_res (fa_insert_loop h1 a (tl (take len v))) = tree_insert_loop (strip_heap h1) a (tl (take len (lower v)))"
      using fa_insert_loop_same [OF f1] by (simp add: take_map map_tl)
    show ?thesis
    proof (cases "fa_insert_loop h1 a (tl (take len v))")
      case None
      then show ?thesis using first c Some x loop by (auto simp: fa_tree_insert_def insert_with_first dest!: sym [of _ "first_node _ _ _"])
    next
      case y: (Some y)
      obtain b h2 where "y = (b, h2)" by fastforce
      then have "fa_tree_insert h root v len (Some s) suff = do { h \<leftarrow> fa_set_rule (snprintf_to FA_MAX_STR (s @ suff)) h2 b; Some (r, h) }"
        using Some x y by (simp add: fa_tree_insert_def fa_set_rule_def)
      moreover have "tree_insert_with f (strip_heap h) root (lower v) len = do { h \<leftarrow> tree_set f (strip_heap h2) b; Some (r, h) }" for f
        using first loop c Some x y \<open>y = (b, h2)\<close>
        by (auto simp: insert_with_first dest!: sym [of _ "first_node _ _ _"] sym [of _ "tree_insert_loop _ _ _"])
      ultimately show ?thesis by (simp add: fa_set_rule_same [symmetric] map_option_bind bind_map_option comp_def)
    qed
  qed
qed

section \<open>Property\<close>

lemma represents_fresh: "represents (strip_heap h) root ts \<Longrightarrow> fa_fresh h"
  by (auto simp: represents_def fa_fresh_def)

text \<open>An insertion into one of several trees of a heap; phrases are compared in lower case.\<close>

lemma fa_insert_tree:
  assumes "represents (strip_heap h) root ts" "v \<noteq> []"
  shows "\<exists>root' h' ts'. fa_tree_insert h root v (length v) (Some s) suff = Some (root', h') \<and>
    represents (strip_heap h') root' ts' \<and> fa_brk h \<le> fa_brk h' \<and>
    set (addrs ts') \<subseteq> set (addrs ts) \<union> {fa_brk h..<fa_brk h'} \<and>
    (\<forall>x. x \<notin> set (addrs ts) \<longrightarrow> x < fa_brk h \<longrightarrow> nodes (strip_heap h') x = nodes (strip_heap h) x) \<and>
    rule_of ts' = (rule_of ts)(lower v \<mapsto> snprintf_to FA_MAX_STR (s @ suff))"
proof -
  let ?r = "snprintf_to FA_MAX_STR (s @ suff)"
  have "lower v \<noteq> []" using assms(2) by simp
  from insert_with_represents [OF assms(1) _ this, of "\<lambda>_. Some ?r"]
  obtain root' H ts' where H: "tree_insert_with (\<lambda>_. Some ?r) (strip_heap h) root (lower v) (length v) = Some (root', H)"
    "represents H root' ts'" "fa_brk h \<le> brk H" "set (addrs ts') \<subseteq> set (addrs ts) \<union> {fa_brk h..<brk H}"
    "\<forall>x. x \<notin> set (addrs ts) \<longrightarrow> x < fa_brk h \<longrightarrow> nodes H x = nodes (strip_heap h) x"
    "\<forall>u. rule_of ts' u = (if u = lower v then Some ?r else rule_of ts u)"
    by auto
  have "strip_res (fa_tree_insert h root v (length v) (Some s) suff) = Some (root', H)"
    using fa_insert_same [OF represents_fresh [OF assms(1)]] H(1) by simp
  then obtain h' where "fa_tree_insert h root v (length v) (Some s) suff = Some (root', h')" "H = strip_heap h'"
    by (auto simp: map_prod_def)
  with H(2-6) show ?thesis by (intro exI [of _ root'] exI [of _ h'] exI [of _ ts']) (auto simp: fun_eq_iff)
qed

text \<open>C18: \<^verbatim>\<open>tree_insert\<close> of the first proxy does not crash on a well-formed tree, keeps it well formed
  (sorted siblings, no sharing, fresh nodes only) and is, on the rule map the tree represents, an
  update at the phrase in lower case: the last rule for a phrase wins, its replacement with the
  suffix is cut to the array of the node, and every other rule stays.\<close>

theorem fa_tree_insert_represents:
  assumes "represents (strip_heap h) root ts" "v \<noteq> []"
  shows "\<exists>root' h' ts'. fa_tree_insert h root v (length v) (Some s) suff = Some (root', h') \<and>
    represents (strip_heap h') root' ts' \<and>
    rule_of ts' = (rule_of ts)(lower v \<mapsto> snprintf_to FA_MAX_STR (s @ suff))"
  using fa_insert_tree [OF assms] by blast

lemma fa_empty_represents: "represents (strip_heap fa_empty) None []"
  by (simp add: represents_def fa_empty_def)

lemma fa_tree_insert_represents_witness:
  "\<exists>root' h' ts'. fa_tree_insert fa_empty None ''Ab'' 2 (Some ''x'') ''.y'' = Some (root', h') \<and>
     represents (strip_heap h') root' ts' \<and> rule_of ts' = [''ab'' \<mapsto> ''x.y'']"
proof -
  have e: "rule_of [] = Map.empty" by (rule ext) simp
  show ?thesis
    using fa_tree_insert_represents [OF fa_empty_represents, of "''Ab''" "''x''" "''.y''"]
    by (simp add: e FA_MAX_STR_def numeral_2_eq_2)
qed

end
