(* ===== verification/FaDatabase.thy ===== *)
theory FaDatabase
  imports FaTree
begin

text \<open>
  The rule database of the first proxy, \<^verbatim>\<open>faproxy/src/database.c\<close>, and the search object of
  \<^verbatim>\<open>faproxy/src/database_internal.c\<close>.  The three trees live in one heap.
\<close>

section \<open>The rule files\<close>

record fa_db =
  fa_trees :: fa_heap
  never_proxy :: ptr
  rename_from_server :: ptr
  rename_from_client :: ptr

definition fa_insert_never :: "string \<Rightarrow> fa_db \<Rightarrow> fa_db option" where
  "fa_insert_never domain db = do {
     (r, h) \<leftarrow> fa_tree_insert (fa_trees db) (never_proxy db) domain (length domain) (Some domain) [];
     Some (db\<lparr>fa_trees := h, never_proxy := r\<rparr>) }"

definition fa_insert_rewrite :: "string \<Rightarrow> string \<Rightarrow> string \<Rightarrow> fa_db \<Rightarrow> fa_db option" where
  "fa_insert_rewrite suff server client db =
    (let expanded_client = snprintf_to FA_MAX_STR (client @ suff) in do {
       (r, h) \<leftarrow> fa_tree_insert (fa_trees db) (rename_from_server db) server (length server) (Some client) suff;
       let db = db\<lparr>fa_trees := h, rename_from_server := r\<rparr>;
       (r, h) \<leftarrow> fa_tree_insert (fa_trees db) (rename_from_client db) expanded_client (length expanded_client) (Some server) [];
       Some (db\<lparr>fa_trees := h, rename_from_client := r\<rparr>) })"

text \<open>\<^verbatim>\<open>%s\<close> of \<^verbatim>\<open>sscanf\<close>: a word and what is behind it.\<close>

definition scan_word :: "string \<Rightarrow> (string \<times> string) option" where
  "scan_word s = (let t = dropWhile is_space s in
     if t = [] then None else Some (takeWhile (\<lambda>c. \<not> is_space c) t, dropWhile (\<lambda>c. \<not> is_space c) t))"

text \<open>The two formats.  A blank in a format matches any blanks, also none.\<close>

definition scan_after :: "string \<Rightarrow> string \<Rightarrow> string option" where
  "scan_after key s = (let t = dropWhile is_space s in
     if take (length key) t = key then Some (drop (length key) t) else None)"

definition scan_rename :: "string \<Rightarrow> (string \<times> string) option" where
  "scan_rename line = do {
     t \<leftarrow> scan_after ''proxy_domain_rename'' line;
     (left, t) \<leftarrow> scan_word t;
     (right, t) \<leftarrow> scan_word t;
     Some (left, right) }"

definition scan_never :: "string \<Rightarrow> string option" where
  "scan_never line = do { t \<leftarrow> scan_after ''no_proxy'' line; (left, t) \<leftarrow> scan_word t; Some left }"

definition fa_apply_line :: "string \<Rightarrow> string \<Rightarrow> fa_db \<Rightarrow> fa_db option" where
  "fa_apply_line suff line db =
    (case scan_rename line of
       Some (left, right) \<Rightarrow> fa_insert_rewrite suff left right db
     | None \<Rightarrow> (case scan_never line of
           Some left \<Rightarrow> fa_insert_never left db
         | None \<Rightarrow> Some db))"

text \<open>The loop over the lines; a line that does not fit into the buffer overruns it.\<close>

lemma dropWhile_le: "length (dropWhile P s) \<le> length s"
  by (induction s) auto

function fa_read_lines :: "string \<Rightarrow> string \<Rightarrow> fa_db \<Rightarrow> fa_db option" where
  "fa_read_lines suff text' db =
    (let t = dropWhile is_space text' in
     if t = [] then Some db
     else (let line = takeWhile (\<lambda>c. c \<noteq> LF) t; rest = dropWhile (\<lambda>c. c \<noteq> LF) t in
           if length line \<ge> FA_MAX_STR then None
           else (case fa_apply_line suff (cstr_of line) db of
                   None \<Rightarrow> None | Some db \<Rightarrow> fa_read_lines suff rest db)))"
  by pat_completeness auto
termination
proof (relation "measure (\<lambda>(suff, t, db). length t)")
  fix t text' rest :: string and suff line :: string and db db' :: fa_db
  assume t: "t = dropWhile is_space text'" "t \<noteq> []" "rest = dropWhile (\<lambda>c. c \<noteq> LF) t"
  obtain x xs where x: "t = x # xs" using t(2) by (cases t) auto
  have "\<not> is_space x" using t(1) x by (metis hd_dropWhile list.distinct(1) list.sel(1))
  then have "x \<noteq> LF" by (auto simp: is_space_def)
  then have "rest = dropWhile (\<lambda>c. c \<noteq> LF) xs" using t(3) x by simp
  then have "length rest < length t" using x dropWhile_le [of "\<lambda>c. c \<noteq> LF" xs] by simp
  moreover have "length t \<le> length text'" using t(1) dropWhile_le [of is_space text'] by simp
  ultimately show "((suff, rest, db'), suff, text', db) \<in> measure (\<lambda>(suff, t, db). length t)" by simp
qed simp

text \<open>What is behind a name of the directory: nothing that can be read, a file that cannot be opened
  after all (\<^verbatim>\<open>fopen\<close> returns NULL), or contents; a directory opens and has none.\<close>

datatype fa_file = Not_Readable | Not_Opened | Contents string

definition expand_database_from :: "string \<Rightarrow> fa_file \<Rightarrow> fa_db \<Rightarrow> fa_db option" where
  "expand_database_from suff f db =
    (case f of
       Not_Readable \<Rightarrow> Some db
     | Not_Opened \<Rightarrow> None
     | Contents t \<Rightarrow> fa_read_lines suff t db)"

text \<open>The loop of \<^verbatim>\<open>database_set_up\<close>: the test of the name is a disjunction that is always true, so
  every entry is read, hidden files and the two directories too.\<close>

fun expand_entries :: "string \<Rightarrow> (string \<times> fa_file) list \<Rightarrow> fa_db \<Rightarrow> fa_db option" where
  "expand_entries suff [] db = Some db"
| "expand_entries suff ((d_name, f) # es) db = do {
     let c = (case d_name of [] \<Rightarrow> NUL | c # _ \<Rightarrow> c);
     db \<leftarrow> (if c \<noteq> CHR ''.'' \<or> c \<noteq> CHR ''_'' then expand_database_from suff f db else Some db);
     expand_entries suff es db }"

definition fa_no_rules :: fa_db where
  "fa_no_rules = \<lparr>fa_trees = fa_empty, never_proxy = None, rename_from_server = None, rename_from_client = None\<rparr>"

text \<open>\<^verbatim>\<open>database_set_up\<close>, with the dumps that a build with debugging prints at its end.\<close>

definition fa_dump_into :: "fa_heap \<Rightarrow> ptr \<Rightarrow> (string \<times> string) list option" where
  "fa_dump_into h root = map_option snd (fa_tree_dump h root (replicate FA_MAX_STR NUL) 0)"

definition database_set_up :: "string \<Rightarrow> (string \<times> fa_file) list option \<Rightarrow> fa_db \<Rightarrow> fa_db option" where
  "database_set_up suff dir db = do {
     es \<leftarrow> dir;
     db \<leftarrow> expand_entries suff es db;
     _ \<leftarrow> fa_dump_into (fa_trees db) (never_proxy db);
     _ \<leftarrow> fa_dump_into (fa_trees db) (rename_from_server db);
     _ \<leftarrow> fa_dump_into (fa_trees db) (rename_from_client db);
     Some db }"

definition di_get_tree :: "fa_db \<Rightarrow> nat \<Rightarrow> ptr option" where
  "di_get_tree db pos =
    (if pos = 0 then Some (never_proxy db) else if pos = 1 then Some (rename_from_server db)
     else if pos = 2 then Some (rename_from_client db) else None)"

section \<open>The search object\<close>

record di_lookup =
  never_ref :: ptr
  other_ref :: ptr
  lookups :: "(addr \<times> nat) list"
  n_reserve :: nat

definition ALLOCATED_RESERVE :: nat where "ALLOCATED_RESERVE = 16"
definition FEED_ME_AND_HOLD :: int where "FEED_ME_AND_HOLD = 0"
definition TRANSFORM_OK :: int where "TRANSFORM_OK = 1"
definition NOT_HOLD :: int where "NOT_HOLD = 2"

text \<open>The position that \<^verbatim>\<open>array_insert_based_on_depth\<close> computes, and does not use.\<close>

fun array_position :: "fa_heap \<Rightarrow> (addr \<times> nat) list \<Rightarrow> nat \<Rightarrow> char \<Rightarrow> nat \<Rightarrow> nat option" where
  "array_position h [] depth value' u = Some u"
| "array_position h ((p, d) # es) depth value' u =
    (if d < depth then Some u
     else if d = depth then do {
       nd \<leftarrow> fa_nodes h p;
       if schar value' < schar (fa_value nd) then Some u else array_position h es depth value' (u + 1) }
     else array_position h es depth value' (u + 1))"

definition array_insert_based_on_depth ::
  "fa_heap \<Rightarrow> di_lookup \<Rightarrow> addr \<times> nat \<Rightarrow> di_lookup option" where
  "array_insert_based_on_depth h l e =
    (let n = length (lookups l);
         reserve = (if n_reserve l \<le> 1 + n then ALLOCATED_RESERVE + n else n_reserve l)
     in do {
       nd \<leftarrow> fa_nodes h (fst e);
       u \<leftarrow> array_position h (lookups l) (snd e) (fa_value nd) 0;
       if n < reserve then Some (l\<lparr>lookups := lookups l @ [e], n_reserve := reserve\<rparr>) else None })"

definition database_transform_handler :: "fa_db \<Rightarrow> int \<Rightarrow> di_lookup option option" where
  "database_transform_handler db side =
    (if side = 0 then Some None
     else do {
       never \<leftarrow> di_get_tree db 0;
       other \<leftarrow> (if side > 0 then di_get_tree db 1 else di_get_tree db 2);
       Some (Some \<lparr>never_ref = never, other_ref = other, lookups = [], n_reserve = 0\<rparr>) })"

text \<open>The loop over the candidates: those that cannot go on are removed, the first that reaches a
  replacement ends it.\<close>

fun advance_all :: "fa_heap \<Rightarrow> char \<Rightarrow> (addr \<times> nat) list \<Rightarrow> (addr \<times> nat) list \<Rightarrow>
    ((string \<times> nat) + (addr \<times> nat) list) option" where
  "advance_all h c kept [] = Some (Inr kept)"
| "advance_all h c kept ((p, d) # es) = do {
     aux \<leftarrow> fa_tree_get_child h (Some p) c;
     case aux of
       None \<Rightarrow> advance_all h c kept es
     | Some q \<Rightarrow> do {
         nd \<leftarrow> fa_nodes h q;
         if fa_adapted nd \<noteq> [] then Some (Inl (fa_adapted nd, d + 1))
         else advance_all h c (kept @ [(q, d + 1)]) es } }"

text \<open>A new candidate for a tree that has the character at its first level.\<close>

definition start_candidate :: "fa_heap \<Rightarrow> char \<Rightarrow> ptr \<Rightarrow> di_lookup \<Rightarrow> di_lookup option" where
  "start_candidate h c root l = do {
     n \<leftarrow> fa_tree_get_sibling h root c;
     case n of None \<Rightarrow> Some l | Some p \<Rightarrow> array_insert_based_on_depth h l (p, 1) }"

definition held_code :: "di_lookup \<Rightarrow> int" where
  "held_code l = (if lookups l = [] then NOT_HOLD else FEED_ME_AND_HOLD)"

text \<open>\<^verbatim>\<open>database_transform_lookup\<close>: the code, the replacement with the number of characters it
  stands for, the new state.  A missing object is dereferenced.\<close>

definition database_transform_lookup ::
  "fa_heap \<Rightarrow> di_lookup option \<Rightarrow> char \<Rightarrow> (int \<times> (string \<times> nat) option \<times> di_lookup) option" where
  "database_transform_lookup h handler c = do {
     l \<leftarrow> handler;
     r \<leftarrow> advance_all h c [] (lookups l);
     case r of
       Inl (phrase, consume) \<Rightarrow> Some (TRANSFORM_OK, Some (phrase, consume), l\<lparr>lookups := []\<rparr>)
     | Inr kept \<Rightarrow>
         (let l = l\<lparr>lookups := kept\<rparr> in
          if schar c \<le> 32 then Some (held_code l, None, l)
          else do {
            l \<leftarrow> start_candidate h c (never_ref l) l;
            l \<leftarrow> start_candidate h c (other_ref l) l;
            Some (held_code l, None, l) }) }"

definition database_transform_cleanup :: "di_lookup option \<Rightarrow> di_lookup option" where
  "database_transform_cleanup handler = None"

end
