(* ===== verification/FaHttp.thy ===== *)
theory FaHttp
  imports FaDatabase
begin

text \<open>
  The HTTP module of the first proxy, \<^verbatim>\<open>faproxy/src/http.c\<close>, up to the point where it hands the
  text to the other connection: its growing strings, the lines of the head, and the loop of
  \<^verbatim>\<open>http_payload_loader\<close> that feeds every character to the search.  A string is its block of
  memory with the number of bytes in use; what the allocator leaves in new bytes is the parameter
  \<open>junk\<close>, because the code reads behind the bytes in use.
\<close>

section \<open>Strings\<close>

record str_t =
  s_bytes :: string
  s_size :: nat

definition empty_str :: str_t where "empty_str = \<lparr>s_bytes = [], s_size = 0\<rparr>"

definition RESERVE_OFFSET :: nat where "RESERVE_OFFSET = 1024"

definition str_text :: "str_t \<Rightarrow> string" where
  "str_text s = take (s_size s) (s_bytes s)"

text \<open>\<^verbatim>\<open>str_resize\<close> grows the block once, whatever is asked for.\<close>

definition str_resize :: "(nat \<Rightarrow> char) \<Rightarrow> str_t \<Rightarrow> nat \<Rightarrow> str_t" where
  "str_resize junk s k =
    (if k + s_size s < length (s_bytes s) then s
     else s\<lparr>s_bytes := s_bytes s @ map junk [length (s_bytes s)..<length (s_bytes s) + RESERVE_OFFSET]\<rparr>)"

definition str_write :: "str_t \<Rightarrow> string \<Rightarrow> str_t option" where
  "str_write s v =
    (if length (s_bytes s) < s_size s + length v then None
     else Some (s\<lparr>s_bytes := take (s_size s) (s_bytes s) @ v @ drop (s_size s + length v) (s_bytes s),
                  s_size := s_size s + length v\<rparr>))"

definition str_append_char :: "(nat \<Rightarrow> char) \<Rightarrow> str_t \<Rightarrow> char \<Rightarrow> str_t option" where
  "str_append_char junk s c = str_write (str_resize junk s 1) [c]"

definition str_append_str :: "(nat \<Rightarrow> char) \<Rightarrow> str_t \<Rightarrow> string \<Rightarrow> str_t option" where
  "str_append_str junk s v = str_write (str_resize junk s (length v)) v"

text \<open>\<^verbatim>\<open>str_shift\<close>: in the slow mode the rest moves to the front, otherwise it is only cut off at the
  end.\<close>

definition str_shift :: "str_t \<Rightarrow> int \<Rightarrow> bool \<Rightarrow> str_t" where
  "str_shift s consume slow =
    (if consume > 0 then
       (let k = nat consume; rest = take (s_size s - k) (drop k (s_bytes s));
            s = (if slow then s\<lparr>s_bytes := rest @ drop (length rest) (s_bytes s)\<rparr> else s)
        in s\<lparr>s_size := s_size s - k\<rparr>)
     else s)"

section \<open>The module\<close>

definition HTML_INITIALIZATION :: nat where "HTML_INITIALIZATION = 0"
definition HTML_BODY :: nat where "HTML_BODY = 4"

record http_module =
  hm_host :: string
  hm_stage :: nat
  hm_output :: str_t
  hm_holding :: str_t
  hm_lines :: "str_t list"
  hm_db_lookup :: "di_lookup option"
  hm_lastCharAt :: nat
  hm_breaks :: nat
  hm_interesting :: nat

definition add_line :: "http_module \<Rightarrow> http_module" where
  "add_line h =
    (if hm_lines h \<noteq> [] \<and> s_size (last (hm_lines h)) = 0 then h
     else h\<lparr>hm_lines := hm_lines h @ [empty_str]\<rparr>)"

definition http_payload_init :: "fa_db \<Rightarrow> int \<Rightarrow> http_module option" where
  "http_payload_init db side = do {
     l \<leftarrow> database_transform_handler db side;
     Some (add_line \<lparr>hm_host = [], hm_stage = HTML_INITIALIZATION, hm_output = empty_str, hm_holding = empty_str,
       hm_lines = [], hm_db_lookup = l, hm_lastCharAt = 2 ^ 64 - 1 - 5, hm_breaks = 0, hm_interesting = 1\<rparr>) }"

text \<open>\<^verbatim>\<open>strcasestr\<close> on bytes without a closing NUL: reading behind the block is the crash.\<close>

fun raw_find :: "string \<Rightarrow> string \<Rightarrow> bool option" where
  "raw_find [] needle = None"
| "raw_find (x # xs) needle =
    (if lower (take (length needle) (x # xs)) = lower needle then Some True
     else if x = NUL then Some False else raw_find xs needle)"

text \<open>The loop over the blanks behind the name; \<^verbatim>\<open>strchr\<close> finds the closing NUL of its first argument.\<close>

fun skip_separators :: "string \<Rightarrow> string option" where
  "skip_separators [] = None"
| "skip_separators (x # xs) = (if strchr ('': '' @ [TAB]) x \<noteq> None then skip_separators xs else Some (x # xs))"

fun any_found :: "string \<Rightarrow> string list \<Rightarrow> bool option" where
  "any_found v [] = Some False"
| "any_found v (n # ns) = do { f \<leftarrow> raw_find v n; if f then Some True else any_found v ns }"

definition content_type_list :: "string list" where
  "content_type_list = [''text/'', ''javascript'', ''xml'', ''application/octet-stream'']"

definition check_content_type :: "http_module \<Rightarrow> nat option" where
  "check_content_type h =
    (let l = last (hm_lines h) in
     if s_bytes l = [] \<or> s_size l < 12 \<or> \<not> strncasecmp_eq (cstr_of (take 12 (s_bytes l))) ''Content-Type'' 12
     then Some (hm_interesting h)
     else do {
       v \<leftarrow> skip_separators (drop 12 (s_bytes l));
       if strchr ''tTjJxXaA'' (hd v) \<noteq> None then do {
         f \<leftarrow> any_found v content_type_list;
         Some (if f then 1 else 0) }
       else Some 0 })"

text \<open>The head: a separator ends a line, two in a row without a character between their lines end the
  head.\<close>

definition head_char :: "(nat \<Rightarrow> char) \<Rightarrow> nat \<Rightarrow> char \<Rightarrow> http_module \<Rightarrow> http_module option" where
  "head_char junk u c h =
    (if hm_stage h < HTML_BODY then
       (if strchr [CR, LF] c \<noteq> None then
          (if (hm_lastCharAt h + 1) mod 2 ^ 64 \<noteq> u then do {
             i \<leftarrow> check_content_type h;
             let h = add_line (h\<lparr>hm_interesting := i\<rparr>);
             let h = h\<lparr>hm_lastCharAt := u, hm_breaks := hm_breaks h + 1\<rparr>;
             Some (if hm_breaks h > 1 then h\<lparr>hm_stage := HTML_BODY\<rparr> else h) }
           else Some h)
        else do {
          l \<leftarrow> str_append_char junk (last (hm_lines h)) c;
          Some (h\<lparr>hm_lines := butlast (hm_lines h) @ [l], hm_breaks := 0\<rparr>) })
     else Some h)"

text \<open>The search, or not: the code, the replacement and the new object.\<close>

definition search_char :: "fa_heap \<Rightarrow> char \<Rightarrow> http_module \<Rightarrow> (int \<times> (string \<times> nat) option \<times> http_module) option" where
  "search_char trees c h =
    (if hm_interesting h = 0 then Some (NOT_HOLD, None, h)
     else do {
       (res, e, l) \<leftarrow> database_transform_lookup trees (hm_db_lookup h) c;
       Some (res, e, h\<lparr>hm_db_lookup := Some l\<rparr>) })"

definition text_char :: "fa_heap \<Rightarrow> (nat \<Rightarrow> char) \<Rightarrow> char \<Rightarrow> http_module \<times> int \<Rightarrow> (http_module \<times> int) option" where
  "text_char trees junk c = (\<lambda>(h, ret). do {
     (res, expanded, h) \<leftarrow> search_char trees c h;
     if res = NOT_HOLD then do {
       let out = str_resize junk (hm_output h) (s_size (hm_holding h) + 1);
       out \<leftarrow> (if s_size (hm_holding h) > 0 then str_append_str junk out (str_text (hm_holding h)) else Some out);
       out \<leftarrow> str_append_char junk out c;
       Some (h\<lparr>hm_output := out, hm_holding := (hm_holding h)\<lparr>s_size := 0\<rparr>\<rparr>, 0) }
     else if res = FEED_ME_AND_HOLD then do {
       s \<leftarrow> str_append_char junk (hm_holding h) c;
       Some (h\<lparr>hm_holding := s\<rparr>, if ret < 0 then 1 else ret) }
     else do {
       (phrase, consumed) \<leftarrow> expanded;
       let out = str_resize junk (hm_output h) (s_size (hm_holding h) + length phrase);
       (out, s) \<leftarrow>
         (if s_size (hm_holding h) > 0 then
            (if s_size (hm_holding h) < consumed - 1 then None
             else do {
               let s = (hm_holding h)\<lparr>s_size := s_size (hm_holding h) - (consumed - 1)\<rparr>;
               out \<leftarrow> str_append_str junk out (str_text s);
               Some (out, s\<lparr>s_size := 0\<rparr>) })
          else Some (out, hm_holding h));
       out \<leftarrow> (if length phrase > 0 then str_append_str junk out phrase else Some out);
       Some (h\<lparr>hm_output := out, hm_holding := s\<rparr>, 0) } })"

text \<open>One character: the first line is passed on as it is.\<close>

definition loader_char ::
  "fa_heap \<Rightarrow> (nat \<Rightarrow> char) \<Rightarrow> nat \<Rightarrow> char \<Rightarrow> http_module \<times> int \<Rightarrow> (http_module \<times> int) option" where
  "loader_char trees junk u c = (\<lambda>(h, ret). do {
     h \<leftarrow> head_char junk u c h;
     if length (hm_lines h) > 1 then text_char trees junk c (h, ret)
     else do {
       out \<leftarrow> str_append_char junk (hm_output h) c;
       Some (h\<lparr>hm_output := out\<rparr>, ret) } })"

fun loader_chars ::
  "fa_heap \<Rightarrow> (nat \<Rightarrow> char) \<Rightarrow> nat \<Rightarrow> string \<Rightarrow> http_module \<times> int \<Rightarrow> (http_module \<times> int) option" where
  "loader_chars trees junk u [] s = Some s"
| "loader_chars trees junk u (c # cs) s = do {
     s \<leftarrow> loader_char trees junk u c s;
     loader_chars trees junk (u + 1) cs s }"

section \<open>Reading the lines\<close>

text \<open>\<^verbatim>\<open>strncmp\<close> of the block of a line with a name; a line without a block is the crash.\<close>

fun raw_starts :: "string \<Rightarrow> string \<Rightarrow> bool option" where
  "raw_starts b [] = Some True"
| "raw_starts [] (n # ns) = None"
| "raw_starts (x # xs) (n # ns) = (if x \<noteq> n then Some False else raw_starts xs ns)"

definition http_payload_get_first_line :: "http_module \<Rightarrow> nat \<Rightarrow> int \<times> string" where
  "http_payload_get_first_line h value_sz =
    (let t = cstr_of (str_text (hm_lines h ! 0)) in (if length t > 0 then 1 else 0, snprintf_to value_sz t))"

text \<open>\<^verbatim>\<open>http_payload_get_header\<close> looks for the line of the header and then gives the first line of
  the head.\<close>

fun header_line :: "str_t list \<Rightarrow> string \<Rightarrow> bool option" where
  "header_line [] name = Some False"
| "header_line (l # ls) name = do {
     f \<leftarrow> (if s_bytes l = [] then None else raw_starts (s_bytes l) name);
     if f then Some True else header_line ls name }"

definition http_payload_get_header :: "http_module \<Rightarrow> string \<Rightarrow> nat \<Rightarrow> (int \<times> string option) option" where
  "http_payload_get_header h name value_sz = do {
     f \<leftarrow> header_line (tl (hm_lines h)) name;
     Some (if f then (case http_payload_get_first_line h value_sz of (ret, t) \<Rightarrow> (ret, Some t)) else (0, None)) }"

text \<open>\<^verbatim>\<open>http_payload_split_first_line\<close>: up to three words of a block that must hold a NUL.\<close>

definition split_words :: "string \<Rightarrow> int \<times> string option \<times> string option \<times> string option" where
  "split_words s =
    (case scan_word s of
       None \<Rightarrow> (0, None, None, None)
     | Some (a, s) \<Rightarrow> (case scan_word s of
           None \<Rightarrow> (1, Some a, None, None)
         | Some (b, s) \<Rightarrow> (case scan_word s of
               None \<Rightarrow> (1, Some a, Some b, None)
             | Some (c, s) \<Rightarrow> (1, Some a, Some b, Some c))))"

definition http_payload_split_first_line ::
  "http_module \<Rightarrow> (int \<times> string option \<times> string option \<times> string option) option" where
  "http_payload_split_first_line h =
    (let b = s_bytes (hm_lines h ! 0) in if NUL \<in> set b then Some (split_words (cstr_of b)) else None)"

definition http_payload_release :: "http_module \<Rightarrow> http_module" where
  "http_payload_release h = h\<lparr>hm_db_lookup := database_transform_cleanup (hm_db_lookup h),
     hm_output := empty_str, hm_holding := empty_str\<rparr>"

end
