(* ===== verification/FaStream.thy ===== *)
theory FaStream
  imports FaHttp
begin

text \<open>
  What the search of the first proxy does to a text.  The reference knows the rules as maps and
  the text that is pending since the last replacement; it has no trees and no candidates.
\<close>

section \<open>The reference\<close>

text \<open>The replacement of a phrase: the rules that keep a name come first, and a phrase does not start
  with a character up to the blank.\<close>

definition given :: "(string \<Rightarrow> string option) \<Rightarrow> string \<Rightarrow> string option" where
  "given m w = (case m (lower w) of None \<Rightarrow> None | Some r \<Rightarrow> if r = [] then None else Some r)"

definition replacement :: "(string \<Rightarrow> string option) \<Rightarrow> (string \<Rightarrow> string option) \<Rightarrow> string \<Rightarrow> string option" where
  "replacement never other w =
    (if w = [] \<or> schar (hd w) \<le> 32 then None
     else (case given never w of Some r \<Rightarrow> Some r | None \<Rightarrow> given other w))"

text \<open>The first of the given places in a text from where the rest of it, of two characters or more, is
  a phrase.\<close>

fun first_phrase :: "(string \<Rightarrow> string option) \<Rightarrow> string \<Rightarrow> nat list \<Rightarrow> (nat \<times> string) option" where
  "first_phrase rep t [] = None"
| "first_phrase rep t (i # is) =
    (case rep (drop i t) of Some r \<Rightarrow> Some (i, r) | None \<Rightarrow> first_phrase rep t is)"

text \<open>As soon as the pending text ends with phrases, the one that starts first is replaced.\<close>

fun rewritten :: "(string \<Rightarrow> string option) \<Rightarrow> string \<Rightarrow> string \<Rightarrow> string" where
  "rewritten rep pending [] = pending"
| "rewritten rep pending (c # cs) =
    (case first_phrase rep (pending @ [c]) [0..<length pending] of
       Some (i, r) \<Rightarrow> take i pending @ r @ rewritten rep [] cs
     | None \<Rightarrow> rewritten rep (pending @ [c]) cs)"

section \<open>Candidates\<close>

definition plain :: "fa_heap \<Rightarrow> bool" where
  "plain h \<longleftrightarrow> (\<forall>p nd. fa_nodes h p = Some nd \<longrightarrow> fa_metadata nd = 0 \<longrightarrow> fa_adapted nd = [])"

definition cand :: "anode list \<Rightarrow> string \<Rightarrow> (addr \<times> nat) list" where
  "cand ts w = (case node_at ts (lower w) of None \<Rightarrow> [] | Some x \<Rightarrow> [(an_addr x, length w)])"

definition cands_from :: "anode list \<Rightarrow> anode list \<Rightarrow> string \<Rightarrow> (addr \<times> nat) list" where
  "cands_from tn to' w = (if w = [] \<or> schar (hd w) \<le> 32 then [] else cand tn w @ cand to' w)"

definition cands :: "anode list \<Rightarrow> anode list \<Rightarrow> string \<Rightarrow> nat list \<Rightarrow> (addr \<times> nat) list" where
  "cands tn to' t is = concat (map (\<lambda>i. cands_from tn to' (drop i t)) is)"

lemma cand_next:
  assumes rep: "represents (strip_heap h) root ts" and p: "plain h" and w: "w \<noteq> []"
  shows "advance_all h c kept (cand ts w @ es) =
    (case given (rule_of ts) (w @ [c]) of
       Some r \<Rightarrow> Some (Inl (r, length w + 1))
     | None \<Rightarrow> advance_all h c (kept @ cand ts (w @ [c])) es)"
proof (cases "node_at ts (lower w)")
  case None
  then have "node_at ts (lower (w @ [c])) = None" using w by (simp add: node_at_snoc)
  then show ?thesis using None by (simp add: cand_def given_def rule_of_node_at)
next
  case (Some x)
  have get: "fa_tree_get_child h (Some (an_addr x)) c = Some (map_option an_addr (find_node (an_kids x) (c_tolower c)))"
    using tree_get_child_at [OF rep Some] by (simp add: fa_get_child_same)
  have at: "node_at ts (lower (w @ [c])) = find_node (an_kids x) (c_tolower c)"
    using Some w by (simp add: node_at_snoc)
  show ?thesis
  proof (cases "find_node (an_kids x) (c_tolower c)")
    case None
    then show ?thesis using Some get at by (simp add: cand_def given_def rule_of_node_at)
  next
    case y: (Some y)
    have "chain (nodes (strip_heap h)) ts None" "tree_sorted ts" using rep by (auto simp: represents_def)
    from node_at_chain [OF this at [unfolded y]] obtain nd where nd: "fa_nodes h (an_addr y) = Some nd"
      "an_adapted y = adapted (strip_node nd)" by auto
    have ad: "given (rule_of ts) (w @ [c]) = (if fa_adapted nd = [] then None else Some (fa_adapted nd))"
      using at y nd p by (auto simp: given_def rule_of_node_at strip_node_def plain_def split: if_splits)
    show ?thesis using Some get at y nd(1) ad by (simp add: cand_def)
  qed
qed

lemma cands_from_next:
  assumes n: "represents (strip_heap h) rn tn" and o: "represents (strip_heap h) ro to'" and p: "plain h"
    and w: "w \<noteq> []"
  shows "advance_all h c kept (cands_from tn to' w @ es) =
    (case replacement (rule_of tn) (rule_of to') (w @ [c]) of
       Some r \<Rightarrow> Some (Inl (r, length w + 1))
     | None \<Rightarrow> advance_all h c (kept @ cands_from tn to' (w @ [c])) es)"
proof -
  have hd: "hd (w @ [c]) = hd w" using w by simp
  show ?thesis
    by (simp add: cands_from_def replacement_def hd w cand_next [OF n p w] cand_next [OF o p w] split: option.split)
qed

lemma cands_next:
  assumes n: "represents (strip_heap h) rn tn" and o: "represents (strip_heap h) ro to'" and p: "plain h"
    and "\<forall>i \<in> set is. i < length t"
  shows "advance_all h c kept (cands tn to' t is) =
    (case first_phrase (replacement (rule_of tn) (rule_of to')) (t @ [c]) is of
       Some (i, r) \<Rightarrow> Some (Inl (r, length t - i + 1))
     | None \<Rightarrow> Some (Inr (kept @ cands tn to' (t @ [c]) is)))"
  using assms(4)
proof (induction "is" arbitrary: kept)
  case (Cons i "is")
  then have i: "i < length t" by simp
  then have d: "drop i (t @ [c]) = drop i t @ [c]" "drop i t \<noteq> []" by auto
  show ?case
    using Cons i
    by (simp add: cands_def d cands_from_next [OF n o p d(2)] split: option.split)
qed (simp add: cands_def)

section \<open>One character\<close>

lemma cand_allocated:
  assumes "represents (strip_heap h) root ts" "(p, d) \<in> set (cand ts w)"
  shows "fa_nodes h p \<noteq> None"
proof -
  obtain x where x: "node_at ts (lower w) = Some x" "p = an_addr x"
    using assms(2) by (cases "node_at ts (lower w)") (auto simp: cand_def)
  have "chain (nodes (strip_heap h)) ts None" "tree_sorted ts" using assms(1) by (auto simp: represents_def)
  from node_at_chain [OF this x(1)] x(2) show ?thesis by auto
qed

lemma cands_allocated:
  assumes "represents (strip_heap h) rn tn" "represents (strip_heap h) ro to'" "(p, d) \<in> set (cands tn to' t is)"
  shows "fa_nodes h p \<noteq> None"
  using assms(3) cand_allocated [OF assms(1)] cand_allocated [OF assms(2)]
  by (auto simp: cands_def cands_from_def split: if_splits)

lemma array_position_total:
  "\<forall>(p, d) \<in> set es. fa_nodes h p \<noteq> None \<Longrightarrow> \<exists>u'. array_position h es depth v u = Some u'"
  by (induction h es depth v u rule: array_position.induct) auto

lemma array_insert_appends:
  assumes "\<forall>(p, d) \<in> set (e # lookups l). fa_nodes h p \<noteq> None"
  shows "\<exists>l'. array_insert_based_on_depth h l e = Some l' \<and> lookups l' = lookups l @ [e] \<and>
    never_ref l' = never_ref l \<and> other_ref l' = other_ref l"
proof -
  obtain nd where nd: "fa_nodes h (fst e) = Some nd" using assms by (cases e) auto
  obtain u where "array_position h (lookups l) (snd e) (fa_value nd) 0 = Some u"
    using array_position_total [of "lookups l"] assms by fastforce
  then show ?thesis using nd by (auto simp: array_insert_based_on_depth_def ALLOCATED_RESERVE_def Let_def)
qed

lemma start_candidate_appends:
  assumes rep: "represents (strip_heap h) root ts" and all: "\<forall>(p, d) \<in> set (lookups l). fa_nodes h p \<noteq> None"
  shows "\<exists>l'. start_candidate h c root l = Some l' \<and> lookups l' = lookups l @ cand ts [c] \<and>
    never_ref l' = never_ref l \<and> other_ref l' = other_ref l"
proof -
  have s: "fa_tree_get_sibling h root c = Some (map_option an_addr (find_node ts (c_tolower c)))"
    using rep by (simp add: fa_get_sibling_same represents_def tree_get_sibling_chain)
  have at: "node_at ts (lower [c]) = find_node ts (c_tolower c)" by (simp split: option.split)
  show ?thesis
  proof (cases "find_node ts (c_tolower c)")
    case None
    then show ?thesis using s at by (simp add: start_candidate_def cand_def)
  next
    case (Some x)
    have "(an_addr x, 1) \<in> set (cand ts [c])" using Some at by (simp add: cand_def)
    from cand_allocated [OF rep this] all have "\<forall>(p, d) \<in> set ((an_addr x, 1) # lookups l). fa_nodes h p \<noteq> None" by auto
    from array_insert_appends [OF this] show ?thesis using s at Some by (simp add: start_candidate_def cand_def)
  qed
qed

text \<open>The object after a pending text.\<close>

definition looks_at :: "fa_heap \<Rightarrow> anode list \<Rightarrow> anode list \<Rightarrow> string \<Rightarrow> di_lookup \<Rightarrow> bool" where
  "looks_at h tn to' u l \<longleftrightarrow> represents (strip_heap h) (never_ref l) tn \<and>
     represents (strip_heap h) (other_ref l) to' \<and> lookups l = cands tn to' u [0..<length u]"

lemma lookup_step:
  assumes l: "looks_at h tn to' u l" and p: "plain h"
  shows "case first_phrase (replacement (rule_of tn) (rule_of to')) (u @ [c]) [0..<length u] of
       Some (i, r) \<Rightarrow> database_transform_lookup h (Some l) c =
           Some (TRANSFORM_OK, Some (r, length u - i + 1), l\<lparr>lookups := []\<rparr>)
     | None \<Rightarrow> (\<exists>l'. database_transform_lookup h (Some l) c = Some (held_code l', None, l') \<and> looks_at h tn to' (u @ [c]) l')"
proof -
  have n: "represents (strip_heap h) (never_ref l) tn" and o: "represents (strip_heap h) (other_ref l) to'"
    and ls: "lookups l = cands tn to' u [0..<length u]" using l by (auto simp: looks_at_def)
  note adv = cands_next [OF n o p, of "[0..<length u]" u c "[]", folded ls]
  show ?thesis
  proof (cases "first_phrase (replacement (rule_of tn) (rule_of to')) (u @ [c]) [0..<length u]")
    case (Some x)
    then show ?thesis using adv by (cases x) (simp add: database_transform_lookup_def)
  next
    case None
    let ?kept = "cands tn to' (u @ [c]) [0..<length u]"
    let ?l = "l\<lparr>lookups := ?kept\<rparr>"
    have cs: "cands tn to' (u @ [c]) [0..<length (u @ [c])] = ?kept @ cands_from tn to' [c]" by (simp add: cands_def)
    have adv': "advance_all h c [] (lookups l) = Some (Inr ?kept)" using adv None by simp
    show ?thesis
    proof (cases "schar c \<le> 32")
      case True
      then have "database_transform_lookup h (Some l) c = Some (held_code ?l, None, ?l)"
        using adv' by (simp add: database_transform_lookup_def Let_def)
      moreover have "looks_at h tn to' (u @ [c]) ?l"
        using n o cs True by (simp add: looks_at_def cands_from_def)
      ultimately show ?thesis using None by auto
    next
      case False
      have all: "\<forall>(p, d) \<in> set (lookups ?l). fa_nodes h p \<noteq> None" using cands_allocated [OF n o] by auto
      obtain l1 where l1: "start_candidate h c (never_ref ?l) ?l = Some l1" "lookups l1 = lookups ?l @ cand tn [c]"
        "never_ref l1 = never_ref ?l" "other_ref l1 = other_ref ?l"
        using start_candidate_appends [of h "never_ref ?l" tn ?l c] n all by auto
      have all1: "\<forall>(p, d) \<in> set (lookups l1). fa_nodes h p \<noteq> None"
        using all l1(2) cand_allocated [OF n] by auto
      obtain l2 where l2: "start_candidate h c (other_ref l1) l1 = Some l2" "lookups l2 = lookups l1 @ cand to' [c]"
        "never_ref l2 = never_ref l1" "other_ref l2 = other_ref l1"
        using start_candidate_appends [of h "other_ref l1" to' l1 c] o all1 l1(4) by auto
      have "database_transform_lookup h (Some l) c = Some (held_code l2, None, l2)"
        using adv' False l1(1) l2(1) by (simp add: database_transform_lookup_def Let_def)
      moreover have "looks_at h tn to' (u @ [c]) l2"
        using n o cs False l1 l2 by (simp add: looks_at_def cands_from_def)
      ultimately show ?thesis using None by auto
    qed
  qed
qed

section \<open>The strings\<close>

definition str_ok :: "str_t \<Rightarrow> bool" where
  "str_ok s \<longleftrightarrow> s_size s \<le> length (s_bytes s)"

lemma str_text_length: "str_ok s \<Longrightarrow> length (str_text s) = s_size s"
  by (simp add: str_ok_def str_text_def)

lemma str_resize_same: "str_ok s \<Longrightarrow> str_ok (str_resize junk s k) \<and> str_text (str_resize junk s k) = str_text s"
  by (simp add: str_ok_def str_text_def str_resize_def)

lemma str_resize_room:
  "str_ok s \<Longrightarrow> k \<le> RESERVE_OFFSET \<Longrightarrow> s_size (str_resize junk s k) + k \<le> length (s_bytes (str_resize junk s k))"
  by (simp add: str_ok_def str_resize_def)

lemma str_write_text:
  assumes "s_size s + length v \<le> length (s_bytes s)"
  shows "\<exists>s'. str_write s v = Some s' \<and> str_ok s' \<and> str_text s' = str_text s @ v"
  using assms by (simp add: str_write_def str_ok_def str_text_def)

lemma str_append_str_text:
  assumes "str_ok s" "length v \<le> RESERVE_OFFSET"
  shows "\<exists>s'. str_append_str junk s v = Some s' \<and> str_ok s' \<and> str_text s' = str_text s @ v"
  using str_write_text [OF str_resize_room [OF assms]] str_resize_same [OF assms(1)]
  by (simp add: str_append_str_def)

lemma str_append_char_text:
  assumes "str_ok s"
  shows "\<exists>s'. str_append_char junk s c = Some s' \<and> str_ok s' \<and> str_text s' = str_text s @ [c]"
  using str_append_str_text [OF assms, of "[c]"] by (simp add: str_append_char_def str_append_str_def RESERVE_OFFSET_def)

section \<open>The text\<close>

definition words_only :: "anode list \<Rightarrow> bool" where
  "words_only ts \<longleftrightarrow> (\<forall>w. node_at ts w \<noteq> None \<longrightarrow> (\<forall>x \<in> set w. 32 < schar x)) \<and>
     (\<forall>w r. rule_of ts w = Some r \<longrightarrow> length r \<le> RESERVE_OFFSET)"

text \<open>No run of more characters above the blank than \<^verbatim>\<open>str_resize\<close> makes room for.\<close>

definition calm :: "string \<Rightarrow> bool" where
  "calm t \<longleftrightarrow> (\<forall>a w b. t = a @ w @ b \<longrightarrow> (\<forall>x \<in> set w. 32 < schar x) \<longrightarrow> length w \<le> RESERVE_OFFSET)"

lemma calm_suffix: "calm (a @ b) \<Longrightarrow> calm b"
  unfolding calm_def by (metis append.assoc)

lemma calm_run: "calm (w @ b) \<Longrightarrow> \<forall>x \<in> set w. 32 < schar x \<Longrightarrow> length w \<le> RESERVE_OFFSET"
  unfolding calm_def by (metis append_Nil)

lemma low_tolower: "schar c \<le> 32 \<Longrightarrow> c_tolower c = c"
proof (rule ccontr)
  assume c: "schar c \<le> 32" "c_tolower c \<noteq> c"
  then have "65 \<le> (of_char c :: nat)" "(of_char c :: nat) \<le> 90" by (auto simp: c_tolower_def Let_def split: if_splits)
  moreover have "(of_char c :: int) = int (of_char c :: nat)" by (simp only: of_nat_of_char)
  ultimately show False using c(1) by (simp add: schar_def Let_def split: if_splits)
qed

lemma cands_from_Nil:
  assumes "cands_from tn to' w = []" "w \<noteq> []"
  shows "cands_from tn to' (w @ [c]) = []"
proof -
  have "cand ts (w @ [c]) = []" if "cand ts w = []" for ts
    using that assms(2) by (simp add: cand_def node_at_snoc split: option.splits)
  then show ?thesis using assms by (auto simp: cands_from_def split: if_splits)
qed

lemma cands_from_low:
  assumes "words_only tn" "words_only to'" "schar c \<le> 32"
  shows "cands_from tn to' (w @ [c]) = []"
proof -
  have "c_tolower c = c" by (rule low_tolower [OF assms(3)])
  moreover have "node_at ts (lower w @ [c]) = None" if "words_only ts" for ts
  proof (rule ccontr)
    assume "node_at ts (lower w @ [c]) \<noteq> None"
    then have "32 < schar c" using that unfolding words_only_def by fastforce
    then show False using assms(3) by simp
  qed
  ultimately show ?thesis using assms(1,2) by (simp add: cands_from_def cand_def)
qed

lemma replacement_cands:
  assumes "replacement (rule_of tn) (rule_of to') (w @ [c]) = Some r" "w \<noteq> []"
  shows "cands_from tn to' w \<noteq> []"
proof
  assume "cands_from tn to' w = []"
  then have "cands_from tn to' (w @ [c]) = []" using assms(2) by (rule cands_from_Nil)
  moreover have "schar (hd (w @ [c])) > 32" using assms(1) by (auto simp: replacement_def split: if_splits)
  ultimately have "cand tn (w @ [c]) = []" "cand to' (w @ [c]) = []" by (simp_all add: cands_from_def)
  then have "node_at tn (lower (w @ [c])) = None" "node_at to' (lower (w @ [c])) = None"
    by (simp_all add: cand_def split: option.splits)
  then show False using assms(1)
    by (simp add: replacement_def given_def rule_of_node_at split: if_splits)
qed

lemma replacement_length:
  assumes "words_only tn" "words_only to'" "replacement (rule_of tn) (rule_of to') w = Some r"
  shows "length r \<le> RESERVE_OFFSET \<and> r \<noteq> []"
  using assms by (auto simp: replacement_def given_def words_only_def split: if_splits option.splits)

lemma first_phrase_Some:
  "first_phrase rep t is = Some (i, r) \<Longrightarrow> i \<in> set is \<and> rep (drop i t) = Some r"
  by (induction "is") (auto split: option.splits)

definition in_page :: "http_module \<Rightarrow> bool" where
  "in_page h \<longleftrightarrow> \<not> hm_stage h < HTML_BODY \<and> 1 < length (hm_lines h) \<and> hm_interesting h \<noteq> 0 \<and>
     str_ok (hm_output h) \<and> str_ok (hm_holding h)"

text \<open>The module with the text \<open>u\<close> pending behind the settled output \<open>out\<close>: from some place on it is
  held back, and no candidate started before that place.\<close>

definition page_state :: "fa_heap \<Rightarrow> anode list \<Rightarrow> anode list \<Rightarrow> string \<Rightarrow> string \<Rightarrow> nat \<Rightarrow> http_module \<Rightarrow> bool" where
  "page_state trees tn to' out u k h \<longleftrightarrow> in_page h \<and>
     (\<exists>l. hm_db_lookup h = Some l \<and> looks_at trees tn to' u l) \<and> k \<le> length u \<and>
     str_text (hm_output h) = out @ take k u \<and> str_text (hm_holding h) = drop k u \<and>
     (\<forall>x \<in> set (drop k u). 32 < schar x) \<and>
     (\<forall>i < length u. cands_from tn to' (drop i u) \<noteq> [] \<longrightarrow> k \<le> i)"

lemma cands_empty: "cands tn to' t is = [] \<longleftrightarrow> (\<forall>i \<in> set is. cands_from tn to' (drop i t) = [])"
  by (simp add: cands_def)

lemma looks_at_nothing:
  "looks_at trees tn to' v l \<Longrightarrow> lookups l = [] \<longleftrightarrow> (\<forall>i < length v. cands_from tn to' (drop i v) = [])"
  by (auto simp: looks_at_def cands_empty)

lemma str_text_reset [simp]: "str_text (s\<lparr>s_size := 0\<rparr>) = []" "str_ok (s\<lparr>s_size := 0\<rparr>)"
  by (simp_all add: str_text_def str_ok_def)

text \<open>A character that neither is held nor ends a phrase lets everything go.\<close>

lemma page_not_hold:
  assumes st: "page_state trees tn to' out u k h" and fits: "length (drop k u) \<le> RESERVE_OFFSET"
    and found: "database_transform_lookup trees (hm_db_lookup h) c = Some (NOT_HOLD, None, l')"
    and l': "looks_at trees tn to' (u @ [c]) l'" and none: "lookups l' = []"
  shows "\<exists>h'. text_char trees junk c (h, ret) = Some (h', 0) \<and> page_state trees tn to' out (u @ [c]) (length u + 1) h'"
proof -
  let ?s = "hm_holding h" and ?o = "str_resize junk (hm_output h) (s_size (hm_holding h) + 1)"
  have ok: "str_ok (hm_output h)" "str_ok ?s" "str_text (hm_output h) = out @ take k u" "str_text ?s = drop k u"
    using st by (auto simp: page_state_def in_page_def)
  have o: "str_ok ?o" "str_text ?o = out @ take k u" using str_resize_same [OF ok(1)] ok(3) by auto
  obtain o1 where o1: "(if s_size ?s > 0 then str_append_str junk ?o (str_text ?s) else Some ?o) = Some o1"
    "str_ok o1" "str_text o1 = out @ u"
  proof (cases "s_size ?s > 0")
    case True
    then show ?thesis using str_append_str_text [OF o(1), of "drop k u" junk] fits o(2) ok(4) that by force
  next
    case False
    then have "drop k u = []" using str_text_length [OF ok(2)] ok(4) by simp
    then show ?thesis using False o that [of ?o] by simp
  qed
  obtain o2 where o2: "str_append_char junk o1 c = Some o2" "str_ok o2" "str_text o2 = out @ u @ [c]"
    using str_append_char_text [OF o1(2), of junk c] o1(3) by auto
  let ?h = "h\<lparr>hm_db_lookup := Some l', hm_output := o2, hm_holding := ?s\<lparr>s_size := 0\<rparr>\<rparr>"
  have "text_char trees junk c (h, ret) = Some (?h, 0)"
    using st found o1(1) o2(1)
    by (cases "s_size ?s > 0") (simp_all add: text_char_def search_char_def page_state_def in_page_def Let_def)
  moreover have "page_state trees tn to' out (u @ [c]) (length u + 1) ?h"
    using st l' o2 looks_at_nothing [OF l'] none unfolding page_state_def in_page_def by auto
  ultimately show ?thesis by blast
qed

text \<open>A held character.\<close>

lemma page_hold:
  assumes st: "page_state trees tn to' out u k h"
    and found: "database_transform_lookup trees (hm_db_lookup h) c = Some (FEED_ME_AND_HOLD, None, l')"
    and l': "looks_at trees tn to' (u @ [c]) l'" and low: "32 < schar c"
  shows "\<exists>h' ret'. text_char trees junk c (h, ret) = Some (h', ret') \<and> page_state trees tn to' out (u @ [c]) k h'"
proof -
  have ok: "str_ok (hm_holding h)" "str_text (hm_holding h) = drop k u" "k \<le> length u"
    using st by (auto simp: page_state_def in_page_def)
  obtain s where s: "str_append_char junk (hm_holding h) c = Some s" "str_ok s" "str_text s = drop k u @ [c]"
    using str_append_char_text [OF ok(1), of junk c] ok(2) by auto
  let ?h = "h\<lparr>hm_db_lookup := Some l', hm_holding := s\<rparr>"
  have "text_char trees junk c (h, ret) = Some (?h, if ret < 0 then 1 else ret)"
    using st found s(1) by (simp add: text_char_def search_char_def page_state_def in_page_def FEED_ME_AND_HOLD_def NOT_HOLD_def)
  moreover have "k \<le> i" if i: "i < length (u @ [c])" "cands_from tn to' (drop i (u @ [c])) \<noteq> []" for i
  proof (cases "i < length u")
    case True
    then have "drop i (u @ [c]) = drop i u @ [c]" "drop i u \<noteq> []" by auto
    then have "cands_from tn to' (drop i u) \<noteq> []" using i(2) cands_from_Nil by metis
    then show ?thesis using st True by (simp add: page_state_def)
  qed (use ok(3) in simp)
  then have "page_state trees tn to' out (u @ [c]) k ?h"
    using st l' s low unfolding page_state_def in_page_def by auto
  ultimately show ?thesis by blast
qed

text \<open>The end of a phrase.\<close>

lemma page_transform:
  assumes st: "page_state trees tn to' out u k h" and fits: "length (drop k u) \<le> RESERVE_OFFSET"
    and ph: "first_phrase (replacement (rule_of tn) (rule_of to')) (u @ [c]) [0..<length u] = Some (i, r)"
    and found: "database_transform_lookup trees (hm_db_lookup h) c = Some (TRANSFORM_OK, Some (r, length u - i + 1), l')"
    and l': "looks_at trees tn to' [] l'" and words: "words_only tn" "words_only to'"
  shows "\<exists>h'. text_char trees junk c (h, ret) = Some (h', 0) \<and> page_state trees tn to' (out @ take i u @ r) [] 0 h'"
proof -
  let ?s = "hm_holding h" and ?o = "str_resize junk (hm_output h) (s_size (hm_holding h) + length r)"
  have ok: "str_ok (hm_output h)" "str_ok ?s" "str_text (hm_output h) = out @ take k u" "str_text ?s = drop k u"
    using st by (auto simp: page_state_def in_page_def)
  have sz: "s_size ?s = length u - k" using str_text_length [OF ok(2)] ok(4) by simp
  have i: "i < length u" "replacement (rule_of tn) (rule_of to') (drop i u @ [c]) = Some r"
    using first_phrase_Some [OF ph] by auto
  have ki: "k \<le> i" using replacement_cands [OF i(2)] i(1) st by (simp add: page_state_def)
  have r: "length r \<le> RESERVE_OFFSET" "r \<noteq> []" using replacement_length [OF words i(2)] by auto
  let ?s1 = "?s\<lparr>s_size := s_size ?s - (length u - i)\<rparr>"
  have s1: "str_text ?s1 = take (i - k) (drop k u)"
  proof -
    have "length u - k - (length u - i) = i - k" using i(1) ki by simp
    then show ?thesis using ok(4) sz ki i(1) by (simp add: str_text_def) (metis min.absorb1 diff_le_mono less_imp_le_nat take_take)
  qed
  have o: "str_ok ?o" "str_text ?o = out @ take k u" using str_resize_same [OF ok(1)] ok(3) by auto
  have "length (take (i - k) (drop k u)) \<le> RESERVE_OFFSET" using fits by simp
  then obtain o1 where o1: "str_append_str junk ?o (str_text ?s1) = Some o1" "str_ok o1" "str_text o1 = out @ take i u"
    using str_append_str_text [OF o(1), of "take (i - k) (drop k u)" junk] s1 o(2) ki
    by (auto simp: take_add [symmetric] simp del: append_assoc) (metis append.assoc le_add_diff_inverse take_add)
  obtain o2 where o2: "str_append_str junk o1 r = Some o2" "str_ok o2" "str_text o2 = out @ take i u @ r"
    using str_append_str_text [OF o1(2) r(1), of junk] o1(3) by auto
  let ?h = "h\<lparr>hm_db_lookup := Some l', hm_output := o2, hm_holding := ?s1\<lparr>s_size := 0\<rparr>\<rparr>"
  have "text_char trees junk c (h, ret) = Some (?h, 0)"
    using st found o1(1) o2(1) sz ki i(1) r(2)
    by (simp add: text_char_def search_char_def page_state_def in_page_def TRANSFORM_OK_def NOT_HOLD_def FEED_ME_AND_HOLD_def)
  moreover have "page_state trees tn to' (out @ take i u @ r) [] 0 ?h"
    using st l' o2 unfolding page_state_def in_page_def by simp
  ultimately show ?thesis by blast
qed

text \<open>One character of the page.\<close>

lemma page_char:
  assumes st: "page_state trees tn to' out u k h" and calm: "calm (drop k u @ c # rest)"
    and p: "plain trees" and words: "words_only tn" "words_only to'"
  shows "\<exists>h' ret' out' u' k'. loader_char trees junk j c (h, ret) = Some (h', ret') \<and> page_state trees tn to' out' u' k' h' \<and>
    calm (drop k' u' @ rest) \<and>
    (\<forall>cs. out' @ rewritten (replacement (rule_of tn) (rule_of to')) u' cs =
       out @ rewritten (replacement (rule_of tn) (rule_of to')) u (c # cs))"
proof -
  let ?R = "replacement (rule_of tn) (rule_of to')"
  obtain l where l: "hm_db_lookup h = Some l" "looks_at trees tn to' u l" using st by (auto simp: page_state_def)
  have fits: "length (drop k u) \<le> RESERVE_OFFSET"
    using calm_run [OF calm] st by (simp add: page_state_def)
  have lc: "loader_char trees junk j c (h, ret) = text_char trees junk c (h, ret)"
    using st by (simp add: loader_char_def head_char_def page_state_def in_page_def)
  have rest: "calm rest" using calm_suffix [of "drop k u @ [c]" rest] calm by simp
  show ?thesis
  proof (cases "first_phrase ?R (u @ [c]) [0..<length u]")
    case (Some x)
    obtain i r where x: "x = (i, r)" by fastforce
    have "database_transform_lookup trees (hm_db_lookup h) c = Some (TRANSFORM_OK, Some (r, length u - i + 1), l\<lparr>lookups := []\<rparr>)"
      using lookup_step [OF l(2) p, of c] Some x l(1) by simp
    moreover have "looks_at trees tn to' [] (l\<lparr>lookups := []\<rparr>)" using l(2) by (simp add: looks_at_def cands_def)
    ultimately obtain h' where h': "text_char trees junk c (h, ret) = Some (h', 0)"
      "page_state trees tn to' (out @ take i u @ r) [] 0 h'"
      using page_transform [OF st fits Some [unfolded x] _ _ words] by blast
    have "\<forall>cs. (out @ take i u @ r) @ rewritten ?R [] cs = out @ rewritten ?R u (c # cs)" using Some x by simp
    then show ?thesis using h' lc rest by (metis append_Nil drop_Nil)
  next
    case None
    obtain l' where l': "database_transform_lookup trees (hm_db_lookup h) c = Some (held_code l', None, l')"
      "looks_at trees tn to' (u @ [c]) l'"
      using lookup_step [OF l(2) p, of c] None l(1) by auto
    have same: "\<forall>cs. out @ rewritten ?R (u @ [c]) cs = out @ rewritten ?R u (c # cs)" using None by simp
    show ?thesis
    proof (cases "lookups l' = []")
      case True
      then obtain h' where "text_char trees junk c (h, ret) = Some (h', 0)" "page_state trees tn to' out (u @ [c]) (length u + 1) h'"
        using page_not_hold [OF st fits _ l'(2) True, of junk ret] l'(1) by (auto simp: held_code_def)
      moreover have "drop (length u + 1) (u @ [c]) @ rest = rest" by simp
      ultimately show ?thesis using lc rest same by metis
    next
      case False
      have "32 < schar c"
      proof (rule ccontr)
        assume "\<not> 32 < schar c"
        then have low: "schar c \<le> 32" by simp
        have "cands_from tn to' (drop i (u @ [c])) = []" if "i < length (u @ [c])" for i
        proof (cases "i < length u")
          case True
          then show ?thesis using cands_from_low [OF words low, of "drop i u"] by simp
        next
          case False
          then have "drop i (u @ [c]) = [c]" using that by (auto simp: less_Suc_eq)
          then show ?thesis using low by (simp add: cands_from_def)
        qed
        then show False using False looks_at_nothing [OF l'(2)] by blast
      qed
      with False obtain h' ret' where "text_char trees junk c (h, ret) = Some (h', ret')" "page_state trees tn to' out (u @ [c]) k h'"
        using page_hold [OF st _ l'(2), where junk = junk and ret = ret] l'(1) by (auto simp: held_code_def)
      moreover have "drop k (u @ [c]) @ rest = drop k u @ c # rest" using st by (simp add: page_state_def)
      ultimately show ?thesis using lc calm same by metis
    qed
  qed
qed

lemma page_chars:
  assumes "page_state trees tn to' out u k h" "calm (drop k u @ t)" "plain trees" "words_only tn" "words_only to'"
  shows "\<exists>h' ret' out' u' k'. loader_chars trees junk j t (h, ret) = Some (h', ret') \<and> page_state trees tn to' out' u' k' h' \<and>
    out' @ u' = out @ rewritten (replacement (rule_of tn) (rule_of to')) u t"
  using assms
proof (induction t arbitrary: out u k h j ret)
  case (Cons c t)
  obtain h1 ret1 out1 u1 k1 where 1: "loader_char trees junk j c (h, ret) = Some (h1, ret1)"
    "page_state trees tn to' out1 u1 k1 h1" "calm (drop k1 u1 @ t)"
    "\<forall>cs. out1 @ rewritten (replacement (rule_of tn) (rule_of to')) u1 cs =
       out @ rewritten (replacement (rule_of tn) (rule_of to')) u (c # cs)"
    using page_char [OF Cons.prems(1,2,3,4,5)] by blast
  from Cons.IH [OF 1(2,3) Cons.prems(3-5), of "j + 1" ret1] 1(1,4) show ?case by (simp del: rewritten.simps)
qed (fastforce)

section \<open>Property\<close>

text \<open>A module that has read the head of a page which is to be searched, with a fresh search object for
  the two trees, nothing held and some output.\<close>

definition page_begins :: "fa_heap \<Rightarrow> anode list \<Rightarrow> anode list \<Rightarrow> http_module \<Rightarrow> bool" where
  "page_begins trees tn to' h \<longleftrightarrow> in_page h \<and> s_size (hm_holding h) = 0 \<and>
     (\<exists>l. hm_db_lookup h = Some l \<and> lookups l = [] \<and>
        represents (strip_heap trees) (never_ref l) tn \<and> represents (strip_heap trees) (other_ref l) to')"


definition fa_ab :: fa_heap where
  "fa_ab = \<lparr>fa_nodes = [0 \<mapsto> \<lparr>fa_value = CHR ''a'', fa_adapted = [], fa_metadata = 0, fa_child = Some 1, fa_sibling = None\<rparr>,
     1 \<mapsto> \<lparr>fa_value = CHR ''b'', fa_adapted = ''T'', fa_metadata = 1, fa_child = None, fa_sibling = None\<rparr>], fa_brk = 2\<rparr>"

lemma fa_ab_strip: "strip_heap fa_ab = heap_ab"
  by (simp add: strip_heap_def fa_ab_def heap_ab_def strip_node_def fun_eq_iff)

definition page_ab :: http_module where
  "page_ab = \<lparr>hm_host = [], hm_stage = HTML_BODY, hm_output = empty_str, hm_holding = empty_str,
     hm_lines = [empty_str, empty_str],
     hm_db_lookup = Some \<lparr>never_ref = None, other_ref = Some 0, lookups = [], n_reserve = 0\<rparr>,
     hm_lastCharAt = 0, hm_breaks = 2, hm_interesting = 1\<rparr>"

lemma page_ab_begins: "page_begins fa_ab [] tree_ab page_ab"
  using heap_ab_represents
  by (simp add: page_begins_def in_page_def page_ab_def empty_str_def str_ok_def HTML_BODY_def fa_ab_strip)

lemma words_ab: "words_only []" "words_only tree_ab"
  using tree_ab_live by (fastforce simp: words_only_def tree_ab_rule RESERVE_OFFSET_def schar_def split: if_splits)+


end
