(* ===== verification/FaRequest.thy ===== *)
theory FaRequest
  imports FaHttp TaskQueue
begin

text \<open>
  The job queue of the first proxy, \<^verbatim>\<open>faproxy/src/queue.c\<close>, and the window of bytes of a connection,
  \<^verbatim>\<open>faproxy/src/request.c\<close>.  Both are rings, and both provide the interface \<open>fifo_queue\<close>.
\<close>

section \<open>Jobs\<close>

datatype action_e = ACTION_NONE | ACTION_ACCEPT | ACTION_READ | ACTION_WRITE

record queue_payload =
  job_fd :: int
  job_action :: action_e
  job_https :: bool

definition queue_payload_of :: "action_e \<Rightarrow> int \<Rightarrow> bool \<Rightarrow> queue_payload" where
  "queue_payload_of action fd is_https = \<lparr>job_fd = fd, job_action = action, job_https = is_https\<rparr>"

text \<open>The ring of \<^verbatim>\<open>faproxy/src/queue.c\<close>.\<close>

definition fa_queue_enqueue :: "'a queue_t \<Rightarrow> 'a \<Rightarrow> 'a queue_t option" where
  "fa_queue_enqueue q x =
    (if q_size q = capacity q then None
     else (let q = q\<lparr>buffer := (buffer q)[q_in q := x]\<rparr>;
               q = q\<lparr>q_size := q_size q + 1\<rparr>;
               q = q\<lparr>q_in := q_in q + 1\<rparr>
           in Some (q\<lparr>q_in := q_in q mod capacity q\<rparr>)))"

definition fa_queue_dequeue :: "'a queue_t \<Rightarrow> ('a \<times> 'a queue_t) option" where
  "fa_queue_dequeue q =
    (if q_size q = 0 then None
     else (let x = buffer q ! q_out q;
               q = q\<lparr>q_size := q_size q - 1\<rparr>;
               q = q\<lparr>q_out := q_out q + 1\<rparr>
           in Some (x, q\<lparr>q_out := q_out q mod capacity q\<rparr>)))"

definition fa_queue_size :: "'a queue_t \<Rightarrow> nat" where
  "fa_queue_size q = q_size q"

lemma fa_queue_same: "fa_queue_enqueue = queue_enqueue" "fa_queue_dequeue = queue_dequeue"
  by ((rule ext)+, simp add: fa_queue_enqueue_def queue_enqueue_def fa_queue_dequeue_def queue_dequeue_def Let_def)+

interpretation jobs: fifo_queue fa_queue_enqueue fa_queue_dequeue contents capacity queue_inv
  unfolding fa_queue_same by (rule ring.fifo_queue_axioms)

section \<open>Requests\<close>

definition STATE_READ :: nat where "STATE_READ = 1"
definition STATE_WRITE :: nat where "STATE_WRITE = 2"

text \<open>The two bits of \<^verbatim>\<open>curr_state\<close>, and the structure.\<close>

record fa_request =
  rq_fd :: int
  related_fd :: int
  ctx :: bool
  side :: int
  reading :: bool
  writing :: bool
  html_state_data :: http_module
  user_ip :: string
  creation_at :: int
  n_bytes :: nat
  payload_r :: nat
  payload_w :: nat
  payload_size :: nat
  payload_bytes :: string

definition fa_request_curr_state :: "fa_request \<Rightarrow> nat" where
  "fa_request_curr_state r = (if reading r then STATE_READ else 0) + (if writing r then STATE_WRITE else 0)"

text \<open>Setting the state to the old one with a bit added or removed.\<close>

definition fa_request_curr_state_set :: "nat \<Rightarrow> fa_request \<Rightarrow> fa_request" where
  "fa_request_curr_state_set s r = r\<lparr>reading := odd s, writing := odd (s div 2)\<rparr>"

definition fa_request_remain_capacity :: "fa_request \<Rightarrow> nat" where
  "fa_request_remain_capacity r = FA_MAX_STR - payload_size r"

definition fa_request_size :: "fa_request \<Rightarrow> nat" where
  "fa_request_size r = payload_size r"

text \<open>The loop of \<^verbatim>\<open>fa_request_payload_put\<close>.\<close>

fun put_loop :: "string \<Rightarrow> fa_request \<Rightarrow> nat \<times> fa_request" where
  "put_loop [] r = (0, r)"
| "put_loop (c # cs) r =
    (if payload_size r < FA_MAX_STR then
       (case put_loop cs (r\<lparr>payload_bytes := (payload_bytes r)[payload_w r := c],
            payload_w := (payload_w r + 1) mod FA_MAX_STR, payload_size := payload_size r + 1\<rparr>) of
          (u, r) \<Rightarrow> (u + 1, r))
     else (0, r))"

definition fa_request_payload_put :: "fa_request \<Rightarrow> string \<Rightarrow> int \<times> fa_request" where
  "fa_request_payload_put r buf =
    (if payload_size r = FA_MAX_STR then (- 1, r)
     else (case put_loop buf r of (u, r) \<Rightarrow> (int u, r)))"

definition fa_request_payload_copy :: "fa_request \<Rightarrow> nat \<Rightarrow> int \<times> string" where
  "fa_request_payload_copy r buffer_sz =
    (if payload_size r = 0 then (- 1, [])
     else (let m = (if buffer_sz < payload_size r then buffer_sz else payload_size r)
           in (int m, map (\<lambda>u. payload_bytes r ! ((payload_r r + u) mod FA_MAX_STR)) [0..<m])))"

text \<open>\<^verbatim>\<open>fa_request_payload_consume\<close> up to its last call: how much is to be filled, if anything.\<close>

definition window_consume :: "fa_request \<Rightarrow> nat \<Rightarrow> nat option \<times> fa_request" where
  "window_consume r buffer_sz =
    (if payload_size r = 0 then (None, r)
     else (let m = (if buffer_sz < payload_size r then buffer_sz else payload_size r);
               r = r\<lparr>payload_r := (payload_r r + m) mod FA_MAX_STR, payload_size := payload_size r - m\<rparr>
           in (Some (FA_MAX_STR - payload_size r), r)))"

text \<open>\<^verbatim>\<open>accept_output\<close>: as much of the output of a module as fits goes into the window of a request.\<close>

definition accept_output :: "fa_request \<Rightarrow> http_module \<Rightarrow> nat \<Rightarrow> fa_request \<times> http_module" where
  "accept_output r h limit =
    (let remain = min (min (fa_request_remain_capacity r) (s_size (hm_output h))) limit;
         (accepts, r) = (if remain > 0 then fa_request_payload_put r (take remain (s_bytes (hm_output h))) else (0, r))
     in (r, h\<lparr>hm_output := str_shift (hm_output h) accepts (int remain \<noteq> accepts)\<rparr>))"

text \<open>\<^verbatim>\<open>fa_request_payload_consume\<close>: the room is filled with the output of the module of the same
  request.\<close>

definition fa_request_payload_consume :: "fa_request \<Rightarrow> nat \<Rightarrow> fa_request \<times> bool" where
  "fa_request_payload_consume r buffer_sz =
    (case window_consume r buffer_sz of
       (None, r) \<Rightarrow> (r, False)
     | (Some to_fill, r) \<Rightarrow> (case accept_output r (html_state_data r) to_fill of
           (r, h) \<Rightarrow> (r\<lparr>html_state_data := h\<rparr>, True)))"

section \<open>The window is a queue\<close>

definition window :: "fa_request \<Rightarrow> char queue_t" where
  "window r = \<lparr>buffer = payload_bytes r, capacity = FA_MAX_STR, q_size = payload_size r, q_in = payload_w r,
     q_out = payload_r r\<rparr>"

definition window_ok :: "fa_request \<Rightarrow> bool" where
  "window_ok r \<longleftrightarrow> queue_inv (window r)"

definition pending :: "fa_request \<Rightarrow> string" where
  "pending r = contents (window r)"

lemma pending_length: "length (pending r) = payload_size r"
  by (simp add: pending_def window_def)

lemma put_loop_pending:
  "window_ok r \<Longrightarrow> put_loop t r = (u, r') \<Longrightarrow>
    window_ok r' \<and> u = min (length t) (FA_MAX_STR - payload_size r) \<and> pending r' = pending r @ take u t"
proof (induction t r arbitrary: u r' rule: put_loop.induct)
  case (2 c cs r)
  show ?case
  proof (cases "payload_size r < FA_MAX_STR")
    case True
    let ?r = "r\<lparr>payload_bytes := (payload_bytes r)[payload_w r := c],
            payload_w := (payload_w r + 1) mod FA_MAX_STR, payload_size := payload_size r + 1\<rparr>"
    obtain v where v: "put_loop cs ?r = (v, r')" "u = v + 1" using 2(3) True by (auto split: prod.splits)
    have "queue_enqueue (window r) c = Some (window ?r)" using True by (simp add: queue_enqueue_def window_def)
    from ring.enq_items [OF _ this] ring.enq_inv [OF _ this] 2(2)
    have "window_ok ?r" "pending ?r = pending r @ [c]" by (auto simp: window_ok_def pending_def)
    with 2(1) [OF True this(1) v(1)] v(2) True show ?thesis by auto
  next
    case False
    then show ?thesis using 2(2,3) by (auto simp: window_ok_def queue_inv_def window_def)
  qed
qed simp

lemma window_consume_pending:
  assumes "window_ok r" "payload_size r > 0"
  shows "\<exists>r'. window_consume r n = (Some (FA_MAX_STR - payload_size r'), r') \<and> window_ok r' \<and> pending r' = drop n (pending r)"
proof -
  let ?m = "min n (payload_size r)"
  let ?r = "r\<lparr>payload_r := (payload_r r + ?m) mod FA_MAX_STR, payload_size := payload_size r - ?m\<rparr>"
  have w: "window_consume r n = (Some (FA_MAX_STR - payload_size ?r), ?r)"
    using assms(2) by (auto simp: window_consume_def Let_def min_def)
  have inv: "payload_w r = (payload_r r + payload_size r) mod FA_MAX_STR" "payload_size r \<le> FA_MAX_STR"
    "length (payload_bytes r) = FA_MAX_STR"
    using assms(1) by (auto simp: window_ok_def queue_inv_def window_def)
  have "payload_r r + payload_size r = (payload_r r + ?m) + (payload_size r - ?m)" by simp
  then have "payload_w r = ((payload_r r + ?m) mod FA_MAX_STR + (payload_size r - ?m)) mod FA_MAX_STR"
    using inv(1) by (simp only: mod_add_left_eq)
  moreover have "payload_size r - ?m \<le> FA_MAX_STR" using inv(2) by simp
  ultimately have "window_ok ?r"
    using assms(1) inv(3) by (simp add: window_ok_def queue_inv_def window_def)
  moreover have "pending ?r = drop n (pending r)"
  proof (rule nth_equalityI)
    show "length (pending ?r) = length (drop n (pending r))" by (simp add: pending_length min_def)
    fix i assume "i < length (pending ?r)"
    then have i: "i < payload_size r - ?m" by (simp add: pending_length)
    then have "n < payload_size r" "?m = n" by (auto simp: min_def split: if_splits)
    then show "pending ?r ! i = drop n (pending r) ! i"
      using i by (simp add: pending_def contents_def window_def slot_def mod_add_left_eq add.assoc)
  qed
  ultimately show ?thesis using w by blast
qed

lemma payload_copy_pending:
  assumes "window_ok r" "payload_size r > 0"
  shows "fa_request_payload_copy r n = (int (min n (payload_size r)), take n (pending r))"
proof -
  have "map (\<lambda>u. payload_bytes r ! ((payload_r r + u) mod FA_MAX_STR)) [0..<m] = take m (pending r)"
    if "m \<le> payload_size r" for m
    using that by (simp add: pending_def contents_def window_def slot_def take_map)
  then show ?thesis using assms(2)
    by (auto simp: fa_request_payload_copy_def Let_def min_def pending_length)
qed

text \<open>What \<^verbatim>\<open>accept_output\<close> hands over, and what it keeps: the front of the output instead of the rest of it,
  when not everything fits.\<close>

lemma accept_output_pending:
  assumes "window_ok r" "s_size (hm_output h) \<le> length (s_bytes (hm_output h))" "accept_output r h limit = (r', h')"
  defines "m \<equiv> min (min (fa_request_remain_capacity r) (s_size (hm_output h))) limit"
  shows "pending r' = pending r @ take m (str_text (hm_output h)) \<and>
    str_text (hm_output h') = take (s_size (hm_output h) - m) (str_text (hm_output h))"
proof (cases "m > 0")
  case True
  then have room: "payload_size r < FA_MAX_STR" by (auto simp: m_def fa_request_remain_capacity_def)
  obtain u r1 where p: "put_loop (take m (s_bytes (hm_output h))) r = (u, r1)" by fastforce
  from put_loop_pending [OF assms(1) p] have u: "u = m" "pending r1 = pending r @ take m (s_bytes (hm_output h))"
    using assms(2) by (auto simp: m_def fa_request_remain_capacity_def)
  have "accept_output r h limit = (r1, h\<lparr>hm_output := str_shift (hm_output h) (int m) False\<rparr>)"
    using True room p u(1) by (simp add: accept_output_def m_def [symmetric] fa_request_payload_put_def)
  then show ?thesis using assms(3) u(2) True
    by (auto simp: str_text_def str_shift_def m_def min_def Let_def)
next
  case False
  then have "accept_output r h limit = (r, h\<lparr>hm_output := str_shift (hm_output h) 0 False\<rparr>)"
    by (simp add: accept_output_def m_def [symmetric])
  then show ?thesis using assms(2,3) False by (simp add: str_text_def str_shift_def Let_def)
qed

section \<open>Property\<close>

text \<open>C19: the window of a connection is a first-in first-out buffer of 1024 bytes: putting a text takes as much of its
  front as there is room for and says how much, copying shows the oldest bytes without removing them,
  consuming removes exactly the oldest ones, and the indexes never leave the array.\<close>

theorem window_is_queue:
  assumes ok: "window_ok r" and room: "payload_size r < FA_MAX_STR"
  shows "\<exists>u r1. fa_request_payload_put r t = (int u, r1) \<and> u = min (length t) (fa_request_remain_capacity r) \<and>
    pending r1 = pending r @ take u t \<and> window_ok r1 \<and>
    (pending r1 \<noteq> [] \<longrightarrow>
      snd (fa_request_payload_copy r1 n) = take n (pending r1) \<and>
      (\<exists>r2. window_consume r1 n = (Some (fa_request_remain_capacity r2), r2) \<and> pending r2 = drop n (pending r1) \<and> window_ok r2))"
proof -
  obtain u r1 where p: "put_loop t r = (u, r1)" by fastforce
  have 1: "window_ok r1" "u = min (length t) (FA_MAX_STR - payload_size r)" "pending r1 = pending r @ take u t"
    using put_loop_pending [OF ok p] by auto
  have put: "fa_request_payload_put r t = (int u, r1)" using p room by (simp add: fa_request_payload_put_def)
  have "snd (fa_request_payload_copy r1 n) = take n (pending r1) \<and>
      (\<exists>r2. window_consume r1 n = (Some (fa_request_remain_capacity r2), r2) \<and> pending r2 = drop n (pending r1) \<and> window_ok r2)"
    if "pending r1 \<noteq> []"
  proof -
    have "payload_size r1 > 0" using that pending_length [of r1] by (cases "payload_size r1") auto
    with payload_copy_pending [OF 1(1) this] window_consume_pending [OF 1(1) this, of n] show ?thesis
      by (auto simp: fa_request_remain_capacity_def)
  qed
  with 1 put show ?thesis by (auto simp: fa_request_remain_capacity_def)
qed

definition empty_request :: fa_request where
  "empty_request = \<lparr>rq_fd = 4, related_fd = - 1, ctx = False, side = - 1, reading = False, writing = False,
     html_state_data = \<lparr>hm_host = [], hm_stage = 0, hm_output = empty_str, hm_holding = empty_str, hm_lines = [empty_str],
       hm_db_lookup = None, hm_lastCharAt = 0, hm_breaks = 0, hm_interesting = 1\<rparr>,
     user_ip = [], creation_at = 0, n_bytes = 0, payload_r = 1020, payload_w = 1020, payload_size = 0,
     payload_bytes = replicate FA_MAX_STR NUL\<rparr>"

lemma window_is_queue_witness:
  "\<exists>r1. fa_request_payload_put empty_request ''around the end'' = (14, r1) \<and> pending r1 = ''around the end'' \<and>
     (\<exists>r2. window_consume r1 7 = (Some (fa_request_remain_capacity r2), r2) \<and> pending r2 = ''the end'')"
proof -
  have ok: "window_ok empty_request" "payload_size empty_request < FA_MAX_STR" "pending empty_request = []"
    by (simp_all add: window_ok_def queue_inv_def window_def pending_def contents_def empty_request_def FA_MAX_STR_def)
  have "fa_request_remain_capacity empty_request = 1024"
    by (simp add: fa_request_remain_capacity_def empty_request_def FA_MAX_STR_def)
  then show ?thesis using window_is_queue [OF ok(1,2), of "''around the end''" 7] ok(3) by auto
qed

end
