(* ===== verification/FaService.thy ===== *)
theory FaService
  imports FaRequest
begin

text \<open>
  The workers of the first proxy: \<^verbatim>\<open>faproxy/src/service_thread.c\<close>, the parts of \<^verbatim>\<open>request.c\<close>,
  \<^verbatim>\<open>http.c\<close>, \<^verbatim>\<open>globals.c\<close> and \<^verbatim>\<open>ssl.c\<close> they call, and the event callbacks that give them their jobs.
  One job is one step.  The outcomes of the system are scripts, as in theory \<open>World\<close>; an exhausted
  script would block, or succeeds.
\<close>

section \<open>The process\<close>

datatype fa_reply = Arrived string | Would_Block | Broken

datatype fa_peer = No_Peer | Inet string | Other_Family

record fa_world =
  requests :: "int \<Rightarrow> fa_request option"
  fw_db :: fa_db
  jobs_queue :: "queue_payload option queue_t"
  reads_on :: "int \<Rightarrow> bool"
  writes_on :: "int \<Rightarrow> bool"
  http_on :: bool
  https_on :: bool
  fw_open :: "int \<Rightarrow> bool"
  fw_recv :: "int \<Rightarrow> fa_reply list"
  fw_send :: "int \<Rightarrow> (nat + bool) list"
  fw_accept :: "int \<Rightarrow> (int + bool) list"
  fw_ssl_accept :: "(int \<times> bool) list"
  fw_sockets :: "(int \<times> bool) list"
  fw_connect :: "bool list"
  fw_dns :: "string \<Rightarrow> nat option"
  fw_peer :: "int \<Rightarrow> fa_peer"
  fw_stack :: string
  fw_junk :: "nat \<Rightarrow> char"
  fw_time :: int

definition SIZE_MAX :: nat where "SIZE_MAX = 2 ^ 64 - 1"
definition FA_MAX_FDS :: int where "FA_MAX_FDS = 1024"
definition HTTP_PORT :: int where "HTTP_PORT = 80"
definition HTTPS_PORT :: int where "HTTPS_PORT = 443"

text \<open>\<^verbatim>\<open>requests[fd]\<close>; an index outside of the array is the crash.\<close>

definition get_request :: "fa_world \<Rightarrow> int \<Rightarrow> fa_request option option" where
  "get_request w fd = (if 0 \<le> fd \<and> fd < FA_MAX_FDS then Some (requests w fd) else None)"

definition put_request :: "fa_request \<Rightarrow> fa_world \<Rightarrow> fa_world" where
  "put_request r w = w\<lparr>requests := (requests w)(rq_fd r := Some r)\<rparr>"

definition restart_read :: "int \<Rightarrow> fa_world \<Rightarrow> fa_world" where
  "restart_read fd w = w\<lparr>reads_on := (reads_on w)(fd := True)\<rparr>"

definition restart_write :: "int \<Rightarrow> fa_world \<Rightarrow> fa_world" where
  "restart_write fd w = w\<lparr>writes_on := (writes_on w)(fd := True)\<rparr>"

definition fa_close :: "int \<Rightarrow> fa_world \<Rightarrow> fa_world" where
  "fa_close fd w = w\<lparr>fw_open := (fw_open w)(fd := False)\<rparr>"

definition fa_request_close_socket :: "int \<Rightarrow> fa_world \<Rightarrow> fa_world" where
  "fa_request_close_socket fd w = fa_close fd w"

section \<open>New connections\<close>

text \<open>\<^verbatim>\<open>get_ip_str\<close>; an IPv6 address would be read behind the structure, and cannot occur: the
  sockets are made for IPv4.\<close>

definition get_ip_str :: "fa_world \<Rightarrow> int \<Rightarrow> int \<times> string" where
  "get_ip_str w fd =
    (case fw_peer w fd of
       No_Peer \<Rightarrow> (- 1, ''getpeername failed'')
     | Inet s \<Rightarrow> (0, snprintf_to FA_MAX_STR s)
     | Other_Family \<Rightarrow> (- 1, ''Unknown AF''))"

definition fa_request_create :: "fa_world \<Rightarrow> int \<Rightarrow> bool \<Rightarrow> int \<Rightarrow> fa_request option" where
  "fa_request_create w client ssl s = do {
     h \<leftarrow> http_payload_init (fw_db w) s;
     Some \<lparr>rq_fd = client, related_fd = - 1, ctx = ssl, side = s, reading = False, writing = False,
       html_state_data = h, user_ip = (if s > 0 then snd (get_ip_str w client) else []), creation_at = fw_time w,
       n_bytes = 0, payload_r = 0, payload_w = 0, payload_size = 0, payload_bytes = replicate FA_MAX_STR NUL\<rparr> }"

text \<open>\<^verbatim>\<open>accept_ssl_conn\<close>: \<^verbatim>\<open>SSL_accept\<close>, once more when it wants to read or write.\<close>

definition next_ssl :: "fa_world \<Rightarrow> (int \<times> bool) \<times> fa_world" where
  "next_ssl w = (case fw_ssl_accept w of [] \<Rightarrow> ((1, False), w) | x # xs \<Rightarrow> (x, w\<lparr>fw_ssl_accept := xs\<rparr>))"

definition accept_ssl_conn :: "fa_world \<Rightarrow> int \<times> fa_world" where
  "accept_ssl_conn w =
    (case next_ssl w of ((ret, wants), w) \<Rightarrow>
       if ret < 0 \<and> wants then (case next_ssl w of ((ret, _), w) \<Rightarrow> (ret, w)) else (ret, w))"

definition destroy_ssl_conn :: "int \<Rightarrow> fa_world \<Rightarrow> fa_world" where
  "destroy_ssl_conn fd w = fa_close fd w"

text \<open>\<^verbatim>\<open>accept_action_internal\<close>: the new request, or none if the handshake failed; a slot that is
  taken aborts.\<close>

definition accept_action_internal :: "bool \<Rightarrow> int \<Rightarrow> int \<Rightarrow> fa_world \<Rightarrow> (bool \<times> fa_world) option" where
  "accept_action_internal is_ssl client s w =
    (let (ok, w) = (if is_ssl then
                      (case accept_ssl_conn w of (ret, w) \<Rightarrow> if ret < 0 then (False, destroy_ssl_conn client w) else (True, w))
                    else (True, w))
     in if \<not> ok then Some (False, w)
        else do {
          r \<leftarrow> fa_request_create w client is_ssl s;
          old \<leftarrow> get_request w client;
          if old \<noteq> None then None else Some (True, put_request r w) })"

text \<open>\<^verbatim>\<open>accept_action\<close>: every waiting connection; an error other than that there is none aborts.\<close>

fun accept_connections :: "bool \<Rightarrow> (int + bool) list \<Rightarrow> fa_world \<Rightarrow> (bool \<times> (int + bool) list \<times> fa_world) option" where
  "accept_connections is_https [] w = Some (True, [], w)"
| "accept_connections is_https (Inr again # as) w = Some (again, as, w)"
| "accept_connections is_https (Inl client # as) w =
    (if client < 0 then None
     else do {
       (made, w) \<leftarrow> accept_action_internal is_https client (- 1) (w\<lparr>fw_open := (fw_open w)(client := True)\<rparr>);
       accept_connections is_https as (if made then restart_read client w else w) })"

definition accept_action :: "queue_payload \<Rightarrow> fa_world \<Rightarrow> fa_world option" where
  "accept_action work w = do {
     (again, rest, w) \<leftarrow> accept_connections (job_https work) (fw_accept w (job_fd work)) w;
     let w = w\<lparr>fw_accept := (fw_accept w)(job_fd work := rest)\<rparr>;
     if \<not> again then None
     else Some (if job_https work then w\<lparr>https_on := True\<rparr> else w\<lparr>http_on := True\<rparr>) }"

section \<open>Connecting to the site\<close>

text \<open>\<^verbatim>\<open>prepare_socket\<close>: a socket that cannot be bound stays open.\<close>

definition prepare_socket :: "fa_world \<Rightarrow> int \<times> fa_world" where
  "prepare_socket w =
    (case fw_sockets w of
       [] \<Rightarrow> (- 1, w)
     | (sd, bound) # ss \<Rightarrow>
         (let w = w\<lparr>fw_sockets := ss\<rparr>;
              w = (if 0 \<le> sd then w\<lparr>fw_open := (fw_open w)(sd := True)\<rparr> else w)
          in if 0 \<le> sd \<and> bound then (sd, w) else (- 1, w)))"

fun connect_loop :: "nat \<Rightarrow> int \<Rightarrow> fa_world \<Rightarrow> int \<times> fa_world" where
  "connect_loop 0 sfd w = (sfd, w)"
| "connect_loop (Suc n) sfd w =
    (case prepare_socket w of (sfd, w) \<Rightarrow>
       if sfd < 0 then connect_loop n sfd w
       else (case fw_connect w of
               [] \<Rightarrow> (sfd, w)
             | ok # cs \<Rightarrow>
                 (let w = w\<lparr>fw_connect := cs\<rparr>
                  in if ok then (sfd, w) else connect_loop n (- 1) (fa_close sfd w))))"

text \<open>The name that is looked up: \<^verbatim>\<open>strncpy\<close> of exactly the characters of the name does not close it,
  so it goes on with what the stack holds.\<close>

definition looked_up :: "fa_world \<Rightarrow> string \<Rightarrow> string" where
  "looked_up w host =
    (let n = (case strchr host CHR '':'' of None \<Rightarrow> length host | Some k \<Rightarrow> k)
     in cstr_of (take (FA_MAX_STR - 1) (take n host @ drop n (fw_stack w))))"

definition connect_to_server :: "fa_world \<Rightarrow> string \<Rightarrow> int \<Rightarrow> int \<times> int \<times> fa_world" where
  "connect_to_server w host port =
    (let port = (case strchr host CHR '':'' of None \<Rightarrow> port | Some k \<Rightarrow> fst (atoi (drop (k + 1) host)))
     in case fw_dns w (looked_up w host) of
          None \<Rightarrow> (- 1, port, w)
        | Some n \<Rightarrow> (case connect_loop n (- 1) w of (sfd, w) \<Rightarrow> (sfd, port, w)))"

section \<open>Handing on\<close>

text \<open>\<^verbatim>\<open>strstr\<close> and \<^verbatim>\<open>strchr\<close> on the block of the output: a miss is dereferenced, a block without NUL
  is read behind its end.\<close>

fun raw_strstr :: "string \<Rightarrow> string \<Rightarrow> string option" where
  "raw_strstr [] needle = None"
| "raw_strstr (x # xs) needle =
    (if take (length needle) (x # xs) = needle then Some (x # xs)
     else if x = NUL then None else raw_strstr xs needle)"

fun raw_strchr :: "string \<Rightarrow> char \<Rightarrow> nat option" where
  "raw_strchr [] c = None"
| "raw_strchr (x # xs) c = (if x = c then Some 0 else if x = NUL then None else map_option Suc (raw_strchr xs c))"

definition host_of_output :: "http_module \<Rightarrow> string option" where
  "host_of_output h = do {
     hst \<leftarrow> raw_strstr (s_bytes (hm_output h)) ''Host: '';
     r \<leftarrow> raw_strchr hst CR;
     n \<leftarrow> raw_strchr hst LF;
     Some (snprintf_to FA_MAX_STR (take (min r n - 6) (drop 6 hst))) }"

text \<open>The output of a module goes to a request of the table.\<close>

definition output_to :: "int \<Rightarrow> http_module \<Rightarrow> fa_world \<Rightarrow> (http_module \<times> fa_world) option" where
  "output_to fd h w = do {
     r \<leftarrow> get_request w fd;
     r \<leftarrow> r;
     let (r, h) = accept_output r h (SIZE_MAX - 1);
     Some (h, restart_write (rq_fd r) (put_request r w)) }"

text \<open>\<^verbatim>\<open>http_payload_loader\<close> for the request in a slot of the table.\<close>

definition http_payload_loader :: "int \<Rightarrow> string \<Rightarrow> fa_world \<Rightarrow> (int \<times> fa_world) option" where
  "http_payload_loader fd buf w = do {
     req \<leftarrow> requests w fd;
     (h, ret) \<leftarrow> loader_chars (fa_trees (fw_db w)) (fw_junk w) 0 buf (html_state_data req, - 1);
     if related_fd req \<ge> 0 then do {
       (h, w) \<leftarrow> output_to (related_fd req) h (put_request (req\<lparr>html_state_data := h\<rparr>) w);
       req \<leftarrow> requests w fd;
       Some (ret, put_request (req\<lparr>html_state_data := h\<rparr>) w) }
     else do {
       host \<leftarrow> host_of_output h;
       let h = h\<lparr>hm_host := host\<rparr>;
       let (sfd, port, w) = connect_to_server w host (if ctx req then HTTPS_PORT else HTTP_PORT);
       if sfd < 0 then
         Some (- 1, put_request (req\<lparr>related_fd := sfd, html_state_data := h\<lparr>hm_host := []\<rparr>\<rparr>) w)
       else do {
         let w = put_request (req\<lparr>related_fd := sfd, html_state_data := h\<rparr>) w;
         (made, w) \<leftarrow> accept_action_internal (ctx req) sfd 1 w;
         if \<not> made then
           Some (- 1, put_request (req\<lparr>related_fd := - 1, html_state_data := h\<rparr>) (fa_request_close_socket sfd w))
         else do {
           (h, w) \<leftarrow> output_to sfd h w;
           related \<leftarrow> requests w sfd;
           Some (ret, put_request (req\<lparr>related_fd := sfd, html_state_data := h\<rparr>)
             (put_request (related\<lparr>related_fd := rq_fd req\<rparr>) w)) } } } }"

text \<open>\<^verbatim>\<open>http_payload_holding_loader\<close>, which \<^verbatim>\<open>fa_request_push_holding\<close> calls: whether something is
  still held.\<close>

definition fa_request_push_holding :: "int \<Rightarrow> fa_world \<Rightarrow> (bool \<times> fa_world) option" where
  "fa_request_push_holding fd w = do {
     req \<leftarrow> requests w fd;
     related \<leftarrow> get_request w (related_fd req);
     case related of
       None \<Rightarrow> Some (False, w)
     | Some related \<Rightarrow>
         (let h = html_state_data req;
              remain = min (fa_request_remain_capacity related) (s_size (hm_holding h));
              (accepts, related) = (if remain > 0 then fa_request_payload_put related (take remain (s_bytes (hm_holding h))) else (0, related));
              s = str_shift (hm_holding h) accepts (int remain \<noteq> accepts);
              w = put_request (req\<lparr>html_state_data := h\<lparr>hm_holding := s\<rparr>\<rparr>) (put_request related w)
          in Some (s_size s \<noteq> 0, restart_write (rq_fd related) w)) }"

text \<open>\<^verbatim>\<open>fa_request_delete\<close>: only a request in no state is deleted.\<close>

definition fa_request_delete :: "int \<Rightarrow> fa_world \<Rightarrow> (int \<times> fa_world) option" where
  "fa_request_delete fd w = do {
     fa \<leftarrow> requests w fd;
     if reading fa \<or> writing fa then Some (- 1, w)
     else do {
       let w = w\<lparr>reads_on := (reads_on w)(fd := False), writes_on := (writes_on w)(fd := False)\<rparr>;
       w \<leftarrow> (if \<not> related_fd fa < 0 then do {
               related \<leftarrow> get_request w (related_fd fa);
               case related of
                 None \<Rightarrow> Some w
               | Some r \<Rightarrow> Some (put_request (r\<lparr>related_fd := - 1\<rparr>) w) }
             else Some w);
       let w = fa_request_close_socket (rq_fd fa) w;
       Some (0, w\<lparr>requests := (requests w)(rq_fd fa := None)\<rparr>) } }"

section \<open>Reading and writing\<close>

text \<open>One \<^verbatim>\<open>recv\<close> or \<^verbatim>\<open>SSL_read\<close> of up to \<open>n\<close> bytes: the bytes, or \<^const>\<open>Inr\<close> with whether it would
  block.  What does not fit stays.\<close>

definition fa_receive :: "int \<Rightarrow> nat \<Rightarrow> fa_world \<Rightarrow> (string + bool) \<times> fa_world" where
  "fa_receive fd n w =
    (case fw_recv w fd of
       [] \<Rightarrow> (Inr True, w)
     | Would_Block # rs \<Rightarrow> (Inr True, w\<lparr>fw_recv := (fw_recv w)(fd := rs)\<rparr>)
     | Broken # rs \<Rightarrow> (Inr False, w\<lparr>fw_recv := (fw_recv w)(fd := rs)\<rparr>)
     | Arrived s # rs \<Rightarrow> (Inl (take n s),
         w\<lparr>fw_recv := (fw_recv w)(fd := if length s \<le> n then rs else Arrived (drop n s) # rs)\<rparr>))"

fun fa_receive_again :: "nat \<Rightarrow> int \<Rightarrow> nat \<Rightarrow> fa_world \<Rightarrow> (string + bool) \<times> fa_world" where
  "fa_receive_again 0 fd n w = fa_receive fd n w"
| "fa_receive_again (Suc k) fd n w =
    (case fa_receive fd n w of
       (Inr True, w) \<Rightarrow> fa_receive_again k fd n w
     | r \<Rightarrow> r)"

text \<open>One \<^verbatim>\<open>write\<close> or \<^verbatim>\<open>SSL_write\<close>: how many bytes went, or whether it would block; an exhausted
  script takes everything.\<close>

definition fa_send :: "int \<Rightarrow> nat \<Rightarrow> fa_world \<Rightarrow> (nat + bool) \<times> fa_world" where
  "fa_send fd n w =
    (case fw_send w fd of
       [] \<Rightarrow> (Inl n, w)
     | Inl k # rs \<Rightarrow> (Inl (min k n), w\<lparr>fw_send := (fw_send w)(fd := rs)\<rparr>)
     | Inr b # rs \<Rightarrow> (Inr b, w\<lparr>fw_send := (fw_send w)(fd := rs)\<rparr>))"

definition at_request :: "int \<Rightarrow> (fa_request \<Rightarrow> fa_request) \<Rightarrow> fa_world \<Rightarrow> fa_world option" where
  "at_request fd f w = do { r \<leftarrow> requests w fd; Some (put_request (f r) w) }"

definition the_related :: "fa_request \<Rightarrow> fa_world \<Rightarrow> fa_request option option" where
  "the_related r w = (if related_fd r \<ge> 0 then get_request w (related_fd r) else Some None)"

text \<open>The end of \<^verbatim>\<open>read_action\<close>: which watcher goes on.\<close>

definition after_read :: "int \<Rightarrow> fa_world \<Rightarrow> fa_world option" where
  "after_read fd w = do {
     req \<leftarrow> requests w fd;
     related \<leftarrow> the_related req w;
     case related of
       Some r \<Rightarrow>
         if fa_request_size r > 0 then Some (restart_write (rq_fd r) w)
         else if fa_request_remain_capacity req > 0 \<and> fa_request_remain_capacity r > 0 then Some (restart_read (rq_fd req) w)
         else Some w
     | None \<Rightarrow> if fa_request_remain_capacity req > 0 then Some (restart_read (rq_fd req) w) else Some w }"

text \<open>The connection is closed, or its text could not be handed on.\<close>

definition read_ends :: "int \<Rightarrow> fa_world \<Rightarrow> fa_world option" where
  "read_ends fd w = do {
     (still, w) \<leftarrow> fa_request_push_holding fd w;
     if still then Some w
     else do {
       w \<leftarrow> at_request fd (\<lambda>r. r\<lparr>reading := False\<rparr>) w;
       (_, w) \<leftarrow> fa_request_delete fd w;
       Some w } }"

definition read_action :: "queue_payload \<Rightarrow> fa_world \<Rightarrow> fa_world option" where
  "read_action work w = do {
     req \<leftarrow> get_request w (job_fd work);
     case req of
       None \<Rightarrow> Some w
     | Some req \<Rightarrow>
         (let remain = fa_request_remain_capacity req in
          if remain = 0 then Some w
          else do {
            w \<leftarrow> at_request (job_fd work) (\<lambda>r. r\<lparr>reading := True\<rparr>) w;
            let (got, w) = (if ctx req then fa_receive (rq_fd req) remain w else fa_receive_again 3 (rq_fd req) remain w);
            case got of
              Inr _ \<Rightarrow> after_read (job_fd work) w
            | Inl buf \<Rightarrow>
                if buf = [] then read_ends (job_fd work) w
                else do {
                  w \<leftarrow> at_request (job_fd work) (\<lambda>r. r\<lparr>n_bytes := n_bytes r + length buf\<rparr>) w;
                  (ret, w) \<leftarrow> http_payload_loader (job_fd work) buf w;
                  if ret < 0 then read_ends (job_fd work) w else after_read (job_fd work) w } }) }"

definition wake_reader :: "fa_request option \<Rightarrow> fa_world \<Rightarrow> fa_world" where
  "wake_reader related w = (case related of None \<Rightarrow> w | Some r \<Rightarrow> restart_read (rq_fd r) w)"

text \<open>\<^verbatim>\<open>write_action\<close>.\<close>

definition write_action :: "queue_payload \<Rightarrow> fa_world \<Rightarrow> fa_world option" where
  "write_action work w = do {
     req \<leftarrow> get_request w (job_fd work);
     case req of
       None \<Rightarrow> Some w
     | Some req \<Rightarrow> do {
         related \<leftarrow> the_related req w;
         if fa_request_size req = 0 then do {
           w \<leftarrow> at_request (job_fd work) (\<lambda>r. r\<lparr>writing := False\<rparr>) w;
           Some (restart_read (rq_fd req) (wake_reader related w)) }
         else do {
           w \<leftarrow> at_request (job_fd work) (\<lambda>r. r\<lparr>writing := True\<rparr>) w;
           let (sz, buf) = fa_request_payload_copy req (fa_request_size req);
           let (sent, w) = fa_send (rq_fd req) (length buf) w;
           let (sent, w) = (if sent = Inr True \<and> \<not> ctx req then fa_send (rq_fd req) (length buf) w else (sent, w));
           w \<leftarrow> (case sent of
                   Inr _ \<Rightarrow> Some w
                 | Inl k \<Rightarrow>
                     if k = 0 then at_request (job_fd work) (\<lambda>r. r\<lparr>writing := False\<rparr>) w
                     else do {
                       r \<leftarrow> requests w (job_fd work);
                       let (r, filled) = fa_request_payload_consume r k;
                       Some ((if filled then restart_write (rq_fd r) else id) (put_request r w)) });
           r \<leftarrow> requests w (job_fd work);
           if fa_request_size r > 0 then Some (restart_write (rq_fd r) w)
           else (case related of
                   None \<Rightarrow> Some w
                 | Some r' \<Rightarrow> Some (restart_write (rq_fd r') (restart_read (rq_fd r') w))) } } }"

section \<open>The workers and the events\<close>

text \<open>One job of \<^verbatim>\<open>worker_thread\<close>; the job NULL ends the thread.\<close>

definition do_job :: "queue_payload \<Rightarrow> fa_world \<Rightarrow> fa_world option" where
  "do_job work w =
    (case job_action work of
       ACTION_READ \<Rightarrow> read_action work w
     | ACTION_WRITE \<Rightarrow> write_action work w
     | ACTION_ACCEPT \<Rightarrow> accept_action work w
     | ACTION_NONE \<Rightarrow> Some w)"

definition worker_thread :: "fa_world \<Rightarrow> (bool \<times> fa_world) option option" where
  "worker_thread w =
    (case fa_queue_dequeue (jobs_queue w) of
       None \<Rightarrow> None
     | Some (None, q) \<Rightarrow> Some (Some (False, w\<lparr>jobs_queue := q\<rparr>))
     | Some (Some work, q) \<Rightarrow> Some (map_option (Pair True) (do_job work (w\<lparr>jobs_queue := q\<rparr>))))"

text \<open>An event callback: the watcher stops and a job is queued; \<^const>\<open>None\<close> while the queue is full.\<close>

definition read_socket_f :: "int \<Rightarrow> fa_world \<Rightarrow> fa_world option" where
  "read_socket_f fd w = do {
     q \<leftarrow> fa_queue_enqueue (jobs_queue w) (Some (queue_payload_of ACTION_READ fd False));
     Some (w\<lparr>reads_on := (reads_on w)(fd := False), jobs_queue := q\<rparr>) }"

definition write_socket_f :: "int \<Rightarrow> fa_world \<Rightarrow> fa_world option" where
  "write_socket_f fd w = do {
     q \<leftarrow> fa_queue_enqueue (jobs_queue w) (Some (queue_payload_of ACTION_WRITE fd False));
     Some (w\<lparr>writes_on := (writes_on w)(fd := False), jobs_queue := q\<rparr>) }"

definition accept_http_f :: "int \<Rightarrow> fa_world \<Rightarrow> fa_world option" where
  "accept_http_f fd w = do {
     q \<leftarrow> fa_queue_enqueue (jobs_queue w) (Some (queue_payload_of ACTION_ACCEPT fd False));
     Some (w\<lparr>http_on := False, jobs_queue := q\<rparr>) }"

definition accept_secure_f :: "int \<Rightarrow> fa_world \<Rightarrow> fa_world option" where
  "accept_secure_f fd w = do {
     q \<leftarrow> fa_queue_enqueue (jobs_queue w) (Some (queue_payload_of ACTION_ACCEPT fd True));
     Some (w\<lparr>https_on := False, jobs_queue := q\<rparr>) }"

text \<open>The steps of the process: events come for watchers that are on, workers take jobs.\<close>

inductive fa_step :: "int \<Rightarrow> int \<Rightarrow> fa_world \<Rightarrow> fa_world option \<Rightarrow> bool" for http_fd https_fd where
  step_read: "reads_on w fd \<Longrightarrow> read_socket_f fd w = Some w' \<Longrightarrow> fa_step http_fd https_fd w (Some w')"
| step_write: "writes_on w fd \<Longrightarrow> write_socket_f fd w = Some w' \<Longrightarrow> fa_step http_fd https_fd w (Some w')"
| step_accept: "http_on w \<Longrightarrow> accept_http_f http_fd w = Some w' \<Longrightarrow> fa_step http_fd https_fd w (Some w')"
| step_secure: "https_on w \<Longrightarrow> accept_secure_f https_fd w = Some w' \<Longrightarrow> fa_step http_fd https_fd w (Some w')"
| step_job: "worker_thread w = Some (Some (go, w')) \<Longrightarrow> fa_step http_fd https_fd w (Some w')"
| step_crash: "worker_thread w = Some None \<Longrightarrow> fa_step http_fd https_fd w None"

inductive fa_reaches :: "int \<Rightarrow> int \<Rightarrow> fa_world \<Rightarrow> fa_world option \<Rightarrow> bool" for http_fd https_fd w where
  reaches_start: "fa_reaches http_fd https_fd w (Some w)"
| reaches_more: "fa_reaches http_fd https_fd w (Some v) \<Longrightarrow> fa_step http_fd https_fd v u \<Longrightarrow> fa_reaches http_fd https_fd w u"

inductive_cases fa_stepE: "fa_step http_fd https_fd w u"

end
