(* ===== verification/FaTable.thy ===== *)
theory FaTable
  imports FaService
begin

text \<open>
  The table of connections of the first proxy: in every state that events and workers can reach, the
  two ends of a relayed connection name each other, and every window is a well-formed ring.
\<close>

section \<open>The invariant\<close>

text \<open>The other ends, as a partial map from descriptors to descriptors.\<close>

definition ends :: "(int \<Rightarrow> fa_request option) \<Rightarrow> int \<Rightarrow> int option" where
  "ends t fd = map_option related_fd (t fd)"

definition symmetric_ends :: "(int \<Rightarrow> int option) \<Rightarrow> bool" where
  "symmetric_ends m \<longleftrightarrow> (\<forall>a b. m a = Some b \<longrightarrow> 0 \<le> a \<and> (0 \<le> b \<longrightarrow> m b = Some a))"

definition slots_ok :: "(int \<Rightarrow> fa_request option) \<Rightarrow> bool" where
  "slots_ok t \<longleftrightarrow> (\<forall>fd r. t fd = Some r \<longrightarrow> rq_fd r = fd \<and> window_ok r)"

definition table_ok :: "(int \<Rightarrow> fa_request option) \<Rightarrow> bool" where
  "table_ok t \<longleftrightarrow> slots_ok t \<and> symmetric_ends (ends t)"

lemma table_okD: "table_ok t \<Longrightarrow> t fd = Some r \<Longrightarrow> rq_fd r = fd \<and> window_ok r"
  by (auto simp: table_ok_def slots_ok_def)

lemma ends_upd [simp]: "ends (t(fd := Some r)) = (ends t)(fd := Some (related_fd r))"
  by (auto simp: ends_def)

lemma ends_del [simp]: "ends (t(fd := None)) = (ends t)(fd := None)"
  by (auto simp: ends_def)

lemma ends_Some: "t fd = Some r \<Longrightarrow> ends t fd = Some (related_fd r)"
  by (simp add: ends_def)

lemma slots_ok_upd: "slots_ok t \<Longrightarrow> rq_fd r = fd \<Longrightarrow> window_ok r \<Longrightarrow> slots_ok (t(fd := Some r))"
  by (simp add: slots_ok_def)

text \<open>A request that keeps its ends.\<close>

lemma table_ok_update:
  assumes "table_ok t" "t (rq_fd r') = Some r" "related_fd r' = related_fd r" "window_ok r'"
  shows "table_ok (t(rq_fd r' := Some r'))"
proof -
  have "(ends t)(rq_fd r' := Some (related_fd r')) = ends t"
    using assms(2,3) by (simp add: ends_def fun_upd_idem)
  then show ?thesis using assms slots_ok_upd by (simp add: table_ok_def)
qed

lemma put_request_requests [simp]: "requests (put_request r w) = (requests w)(rq_fd r := Some r)"
  by (simp add: put_request_def)

lemma restart_requests [simp]: "requests (restart_read fd w) = requests w" "requests (restart_write fd w) = requests w"
  "requests (fa_close fd w) = requests w" "requests (fa_request_close_socket fd w) = requests w"
  "requests (destroy_ssl_conn fd w) = requests w" "requests (wake_reader x w) = requests w"
  by (simp_all add: restart_read_def restart_write_def fa_close_def fa_request_close_socket_def destroy_ssl_conn_def
      wake_reader_def split: option.split)

lemma get_request_Some: "get_request w fd = Some x \<Longrightarrow> requests w fd = x"
  by (simp add: get_request_def split: if_splits)

section \<open>The operations\<close>

lemma put_loop_fields:
  "rq_fd (snd (put_loop t r)) = rq_fd r \<and> related_fd (snd (put_loop t r)) = related_fd r"
  by (induction t r rule: put_loop.induct) (simp_all add: split_def)

lemma payload_put_ok:
  assumes "window_ok r" "fa_request_payload_put r t = (u, r')"
  shows "window_ok r' \<and> rq_fd r' = rq_fd r \<and> related_fd r' = related_fd r"
proof (cases "payload_size r = FA_MAX_STR")
  case True
  then show ?thesis using assms by (simp add: fa_request_payload_put_def)
next
  case False
  obtain x y where p: "put_loop t r = (x, y)" by fastforce
  then have "r' = y" using False assms(2) by (simp add: fa_request_payload_put_def)
  then show ?thesis using put_loop_pending [OF assms(1) p] put_loop_fields [of t r] p by simp
qed

lemma accept_output_ok:
  assumes "window_ok r" "accept_output r h n = (r', h')"
  shows "window_ok r' \<and> rq_fd r' = rq_fd r \<and> related_fd r' = related_fd r"
  using assms payload_put_ok [OF assms(1)]
  by (auto simp: accept_output_def Let_def split: if_splits prod.splits)

lemma window_ok_fields [simp]:
  "window_ok (r\<lparr>html_state_data := h\<rparr>) = window_ok r" "window_ok (r\<lparr>related_fd := f\<rparr>) = window_ok r"
  "window_ok (r\<lparr>reading := b\<rparr>) = window_ok r" "window_ok (r\<lparr>writing := b\<rparr>) = window_ok r"
  "window_ok (r\<lparr>n_bytes := n\<rparr>) = window_ok r"
  by (simp_all add: window_ok_def window_def)

lemma payload_consume_ok:
  assumes "window_ok r" "fa_request_payload_consume r n = (r', b)"
  shows "window_ok r' \<and> rq_fd r' = rq_fd r \<and> related_fd r' = related_fd r"
proof (cases "payload_size r > 0")
  case True
  obtain r1 where 1: "window_consume r n = (Some (FA_MAX_STR - payload_size r1), r1)" "window_ok r1"
    using window_consume_pending [OF assms(1) True] by blast
  have "rq_fd r1 = rq_fd r" "related_fd r1 = related_fd r"
    using 1(1) by (auto simp: window_consume_def Let_def split: if_splits)
  then show ?thesis using assms(2) 1 accept_output_ok [OF 1(2)]
    by (auto simp: fa_request_payload_consume_def split: prod.splits)
next
  case False
  then show ?thesis using assms by (simp add: fa_request_payload_consume_def window_consume_def)
qed

lemma at_request_ok:
  assumes "table_ok (requests w)" "at_request fd f w = Some w'"
    "\<And>r. window_ok r \<Longrightarrow> window_ok (f r) \<and> rq_fd (f r) = rq_fd r \<and> related_fd (f r) = related_fd r"
  shows "table_ok (requests w')"
proof -
  obtain r where r: "requests w fd = Some r" "w' = put_request (f r) w"
    using assms(2) by (auto simp: at_request_def bind_eq_Some_conv)
  have o: "rq_fd r = fd" "window_ok r" using table_okD [OF assms(1) r(1)] by auto
  show ?thesis
    using table_ok_update [OF assms(1), of "f r" r] assms(3) [OF o(2)] o r by simp
qed

lemma slots_okD: "slots_ok t \<Longrightarrow> t fd = Some r \<Longrightarrow> rq_fd r = fd \<and> window_ok r"
  by (auto simp: slots_ok_def)

lemma output_to_shape:
  assumes "slots_ok (requests w)" "output_to fd h w = Some (h', w')"
  shows "\<exists>r r'. requests w fd = Some r \<and> rq_fd r' = fd \<and> window_ok r' \<and> related_fd r' = related_fd r \<and>
    requests w' = (requests w)(fd := Some r')"
proof -
  obtain r where g: "get_request w fd = Some (Some r)"
    using assms(2) by (auto simp: output_to_def bind_eq_Some_conv)
  have r: "requests w fd = Some r" using get_request_Some [OF g] .
  obtain r' h1 where a1: "accept_output r h (SIZE_MAX - 1) = (r', h1)" by fastforce
  then have a: "accept_output r h (SIZE_MAX - 1) = (r', h')" "w' = restart_write (rq_fd r') (put_request r' w)"
    using assms(2) g by (simp_all add: output_to_def)
  have o: "rq_fd r = fd" "window_ok r" using slots_okD [OF assms(1) r] by auto
  have "window_ok r'" "rq_fd r' = fd" "related_fd r' = related_fd r" using accept_output_ok [OF o(2) a(1)] o by auto
  then show ?thesis using r a(2) by auto
qed

lemma output_to_ok:
  assumes "table_ok (requests w)" "output_to fd h w = Some (h', w')"
  shows "table_ok (requests w')"
proof -
  obtain r r' where "requests w fd = Some r" "rq_fd r' = fd" "window_ok r'" "related_fd r' = related_fd r"
    "requests w' = (requests w)(fd := Some r')"
    using output_to_shape [OF _ assms(2)] assms(1) by (auto simp: table_ok_def)
  then show ?thesis using table_ok_update [OF assms(1), of r' r] by simp
qed

text \<open>A new connection.\<close>

lemma request_create_ok:
  assumes "fa_request_create w client ssl s = Some r"
  shows "rq_fd r = client \<and> related_fd r = - 1 \<and> window_ok r"
  using assms
  by (auto simp: fa_request_create_def bind_eq_Some_conv window_ok_def window_def queue_inv_def FA_MAX_STR_def)

lemma next_ssl_requests: "next_ssl w = (x, v) \<Longrightarrow> requests v = requests w"
  by (auto simp: next_ssl_def split: list.splits)

lemma accept_ssl_requests: "accept_ssl_conn w = (x, v) \<Longrightarrow> requests v = requests w"
  by (auto simp: accept_ssl_conn_def split: prod.splits if_splits dest!: next_ssl_requests)

lemma accept_internal_cases:
  assumes "accept_action_internal is_ssl client s w = Some (made, w')"
  shows "if made then requests w client = None \<and> 0 \<le> client \<and>
      (\<exists>r. rq_fd r = client \<and> related_fd r = - 1 \<and> window_ok r \<and> requests w' = (requests w)(client := Some r))
    else requests w' = requests w"
proof -
  obtain ok v where v: "(if is_ssl then
                      (case accept_ssl_conn w of (ret, w) \<Rightarrow> if ret < 0 then (False, destroy_ssl_conn client w) else (True, w))
                    else (True, w)) = (ok, v)" by fastforce
  have same: "requests v = requests w" using v by (auto split: if_splits prod.splits dest: accept_ssl_requests)
  show ?thesis
  proof (cases ok)
    case False
    then show ?thesis using assms v same by (simp add: accept_action_internal_def)
  next
    case True
    obtain r where r: "fa_request_create v client is_ssl s = Some r"
      using assms v True by (auto simp: accept_action_internal_def bind_eq_Some_conv)
    have "get_request v client = Some None" "made" "w' = put_request r v"
      using assms v True r by (auto simp: accept_action_internal_def bind_eq_Some_conv split: if_splits)
    then show ?thesis using request_create_ok [OF r] same get_request_Some [of v client None]
      by (auto simp: get_request_def split: if_splits)
  qed
qed

text \<open>A free slot is no one's other end.\<close>

lemma symmetricD: "symmetric_ends m \<Longrightarrow> m a = Some b \<Longrightarrow> 0 \<le> a \<and> (0 \<le> b \<longrightarrow> m b = Some a)"
  unfolding symmetric_ends_def by blast

lemma symmetricI: "(\<And>a b. m a = Some b \<Longrightarrow> 0 \<le> a \<and> (0 \<le> b \<longrightarrow> m b = Some a)) \<Longrightarrow> symmetric_ends m"
  unfolding symmetric_ends_def by blast

text \<open>A slot without another end, old or new.\<close>

definition alone :: "(int \<Rightarrow> int option) \<Rightarrow> int \<Rightarrow> bool" where
  "alone m fd \<longleftrightarrow> (case m fd of None \<Rightarrow> True | Some c \<Rightarrow> c < 0)"

lemma alone_end: "symmetric_ends m \<Longrightarrow> alone m fd \<Longrightarrow> 0 \<le> fd \<Longrightarrow> m a \<noteq> Some fd"
  using symmetricD [of m a fd] symmetricD [of m fd a] by (auto simp: alone_def)

lemma symmetric_alone:
  assumes "symmetric_ends m" "alone m fd" "0 \<le> fd" "d < 0"
  shows "symmetric_ends (m(fd := Some d))"
proof (rule symmetricI)
  fix a b assume ab: "(m(fd := Some d)) a = Some b"
  show "0 \<le> a \<and> (0 \<le> b \<longrightarrow> (m(fd := Some d)) b = Some a)"
  proof (cases "a = fd")
    case True
    then show ?thesis using ab assms(3,4) by simp
  next
    case False
    then have m: "m a = Some b" using ab by simp
    then have "b \<noteq> fd" using alone_end [OF assms(1-3)] by auto
    then show ?thesis using symmetricD [OF assms(1) m] by simp
  qed
qed

lemma symmetric_link:
  assumes "symmetric_ends m" "alone m a" "alone m b" "0 \<le> a" "0 \<le> b" "a \<noteq> b"
  shows "symmetric_ends (m(a := Some b, b := Some a))"
proof (rule symmetricI)
  fix x y assume xy: "(m(a := Some b, b := Some a)) x = Some y"
  show "0 \<le> x \<and> (0 \<le> y \<longrightarrow> (m(a := Some b, b := Some a)) y = Some x)"
  proof (cases "x = a \<or> x = b")
    case True
    then show ?thesis using xy assms(4-6) by (auto split: if_splits)
  next
    case False
    then have m: "m x = Some y" using xy by simp
    then have "y \<noteq> a" "y \<noteq> b" using alone_end [OF assms(1,2,4)] alone_end [OF assms(1,3,5)] by auto
    then show ?thesis using symmetricD [OF assms(1) m] by simp
  qed
qed

lemma symmetric_remove:
  assumes "symmetric_ends m" "alone m fd" "0 \<le> fd"
  shows "symmetric_ends (m(fd := None))"
proof (rule symmetricI)
  fix a b assume "(m(fd := None)) a = Some b"
  then have m: "m a = Some b" "a \<noteq> fd" by (auto split: if_splits)
  then have "b \<noteq> fd" using alone_end [OF assms] by auto
  then show "0 \<le> a \<and> (0 \<le> b \<longrightarrow> (m(fd := None)) b = Some a)" using symmetricD [OF assms(1) m(1)] by simp
qed

lemma table_ok_new:
  assumes "table_ok t" "t fd = None" "0 \<le> fd" "rq_fd r = fd" "related_fd r = - 1" "window_ok r"
  shows "table_ok (t(fd := Some r))"
  using assms symmetric_alone [of "ends t" fd "- 1"] slots_ok_upd [of t r fd] by (simp add: table_ok_def ends_def alone_def)

lemma accept_internal_ok:
  assumes "table_ok (requests w)" "accept_action_internal is_ssl client s w = Some (made, w')"
  shows "table_ok (requests w')"
  using accept_internal_cases [OF assms(2)] assms(1) table_ok_new by (auto split: if_splits)

lemma accept_connections_ok:
  "accept_connections is_https as w = Some (again, rest, w') \<Longrightarrow> table_ok (requests w) \<Longrightarrow> table_ok (requests w')"
proof (induction is_https as w rule: accept_connections.induct)
  case (3 is_https client as w)
  obtain made v where v: "accept_action_internal is_https client (- 1) (w\<lparr>fw_open := (fw_open w)(client := True)\<rparr>) = Some (made, v)"
    "\<not> client < 0" "accept_connections is_https as (if made then restart_read client v else v) = Some (again, rest, w')"
    using 3(2) by (auto simp: bind_eq_Some_conv split: if_splits)
  have "table_ok (requests v)" using accept_internal_ok [OF _ v(1)] 3(3) by simp
  then show ?case using 3(1) [OF v(2) _ _ v(3), of "(made, v)"] v(1) by (simp split: if_splits)
qed auto

lemma accept_action_ok:
  assumes "accept_action work w = Some w'" "table_ok (requests w)"
  shows "table_ok (requests w')"
  using assms accept_connections_ok
  by (fastforce simp: accept_action_def bind_eq_Some_conv Let_def split: if_splits)

section \<open>The loader\<close>

lemma prepare_socket_requests: "prepare_socket w = (x, v) \<Longrightarrow> requests v = requests w"
  by (auto simp: prepare_socket_def Let_def split: list.splits if_splits)

lemma connect_loop_requests: "connect_loop n sfd w = (x, v) \<Longrightarrow> requests v = requests w"
proof (induction n arbitrary: sfd w x v)
  case (Suc n)
  obtain s u where p: "prepare_socket w = (s, u)" by fastforce
  show ?case
  proof (cases "s < 0")
    case True
    then show ?thesis using Suc.IH [of s u x v] Suc.prems p prepare_socket_requests [OF p] by simp
  next
    case s: False
    show ?thesis
    proof (cases "fw_connect u")
      case Nil
      then show ?thesis using Suc.prems p s prepare_socket_requests [OF p] by simp
    next
      case (Cons ok cs)
      then show ?thesis
        using Suc.IH [of "- 1" "fa_close s (u\<lparr>fw_connect := cs\<rparr>)" x v] Suc.prems p s prepare_socket_requests [OF p]
        by (cases ok) auto
    qed
  qed
qed simp

lemma connect_requests: "connect_to_server w host port = (x, p, v) \<Longrightarrow> requests v = requests w"
  by (auto simp: connect_to_server_def Let_def split: option.splits prod.splits dest: connect_loop_requests)

lemma table_ok_put:
  assumes "table_ok (requests w)" "requests w fd = Some r" "rq_fd r' = fd" "related_fd r' = related_fd r" "window_ok r'"
  shows "table_ok (requests (put_request r' w))"
  using table_ok_update [of "requests w" r' r] assms by simp

lemma loader_related_ok:
  assumes ok: "table_ok (requests w)" and req: "requests w fd = Some req"
    and o: "output_to (related_fd req) h (put_request (req\<lparr>html_state_data := h\<rparr>) w) = Some (h2, w2)"
    and req2: "requests w2 fd = Some req2"
  shows "table_ok (requests (put_request (req2\<lparr>html_state_data := h3\<rparr>) w2))"
proof -
  have "rq_fd req = fd" "window_ok req" using table_okD [OF ok req] by auto
  then have "table_ok (requests (put_request (req\<lparr>html_state_data := h\<rparr>) w))"
    by (intro table_ok_put [OF ok req]) simp_all
  from output_to_ok [OF this o] have ok2: "table_ok (requests w2)" .
  have "rq_fd req2 = fd" "window_ok req2" using table_okD [OF ok2 req2] by auto
  then show ?thesis by (intro table_ok_put [OF ok2 req2]) simp_all
qed

text \<open>The request is linked with a new one.\<close>

lemma loader_linked_ok:
  assumes ok: "table_ok (requests w)" and req: "requests w fd = Some req" and alone: "related_fd req < 0" and fd: "0 \<le> fd"
    and made: "accept_action_internal ssl sfd 1 (put_request (req\<lparr>related_fd := sfd, html_state_data := h\<rparr>) w) = Some (True, w1)"
    and out: "output_to sfd h w1 = Some (h2, w2)" and related: "requests w2 sfd = Some related"
  shows "table_ok (requests (put_request (req\<lparr>related_fd := sfd, html_state_data := h3\<rparr>)
      (put_request (related\<lparr>related_fd := rq_fd req\<rparr>) w2)))"
proof -
  have o: "rq_fd req = fd" "window_ok req" using table_okD [OF ok req] by auto
  let ?r = "req\<lparr>related_fd := sfd, html_state_data := h\<rparr>"
  obtain new where new: "((requests w)(fd := Some ?r)) sfd = None" "0 \<le> sfd"
    "rq_fd new = sfd" "window_ok new" "requests w1 = (requests w)(fd := Some ?r, sfd := Some new)"
    using accept_internal_cases [OF made] o by auto
  have ne: "sfd \<noteq> fd" "requests w sfd = None" using new(1) by (auto split: if_splits)
  have s1: "slots_ok (requests w1)"
    using ok o new(3-5) by (simp add: table_ok_def slots_ok_upd)
  obtain r2 where r2: "rq_fd r2 = sfd" "window_ok r2" "requests w2 = (requests w1)(sfd := Some r2)"
    using output_to_shape [OF s1 out] by auto
  have rel: "related = r2" using related r2(3) by simp
  let ?t = "requests (put_request (req\<lparr>related_fd := sfd, html_state_data := h3\<rparr>)
      (put_request (related\<lparr>related_fd := rq_fd req\<rparr>) w2))"
  have t: "?t = (requests w)(sfd := Some (r2\<lparr>related_fd := fd\<rparr>), fd := Some (req\<lparr>related_fd := sfd, html_state_data := h3\<rparr>))"
    using r2 rel new(5) o ne by (auto simp: fun_eq_iff)
  have "slots_ok ?t"
    unfolding t using ok o r2 by (intro slots_ok_upd) (simp_all add: table_ok_def)
  moreover have "symmetric_ends ((ends (requests w))(sfd := Some fd, fd := Some sfd))"
    using ok req alone ne new(2) fd by (intro symmetric_link) (auto simp: table_ok_def alone_def ends_def)
  ultimately show ?thesis unfolding table_ok_def t by simp
qed

lemma table_nonneg: "table_ok t \<Longrightarrow> t fd = Some r \<Longrightarrow> 0 \<le> fd"
  using symmetricD [of "ends t" fd "related_fd r"] by (simp add: table_ok_def ends_Some)

lemma loader_unlinked_ok:
  assumes ok: "table_ok (requests w)" and req: "requests w fd = Some req" and alone: "related_fd req < 0" and d: "d < 0"
    and w2: "requests w2 = (requests w)(fd := x)"
  shows "table_ok (requests (put_request (req\<lparr>related_fd := d, html_state_data := h\<rparr>) w2))"
proof -
  have o: "rq_fd req = fd" "window_ok req" "0 \<le> fd" using table_okD [OF ok req] table_nonneg [OF ok req] by auto
  have t: "requests (put_request (req\<lparr>related_fd := d, html_state_data := h\<rparr>) w2) =
      (requests w)(fd := Some (req\<lparr>related_fd := d, html_state_data := h\<rparr>))"
    using w2 o by (simp add: fun_eq_iff)
  have "alone (ends (requests w)) fd" using alone req by (simp add: alone_def ends_Some)
  from symmetric_alone [OF _ this o(3) d] show ?thesis
    unfolding t using ok o by (simp add: table_ok_def slots_ok_upd)
qed

lemma loader_ok:
  assumes ok: "table_ok (requests w)" and l: "http_payload_loader fd buf w = Some (ret, w')"
  shows "table_ok (requests w')"
proof -
  obtain req where req: "requests w fd = Some req" using l by (auto simp: http_payload_loader_def bind_eq_Some_conv Let_def)
  obtain h ret1 where h: "loader_chars (fa_trees (fw_db w)) (fw_junk w) 0 buf (html_state_data req, - 1) = Some (h, ret1)"
    using l req by (auto simp: http_payload_loader_def bind_eq_Some_conv Let_def)
  have o: "rq_fd req = fd" "0 \<le> fd" using table_okD [OF ok req] table_nonneg [OF ok req] by auto
  show ?thesis
  proof (cases "related_fd req \<ge> 0")
    case True
    then obtain h2 w2 req2 where "output_to (related_fd req) h (put_request (req\<lparr>html_state_data := h\<rparr>) w) = Some (h2, w2)"
      "requests w2 fd = Some req2" "w' = put_request (req2\<lparr>html_state_data := h2\<rparr>) w2"
      using l req h by (auto simp: http_payload_loader_def bind_eq_Some_conv Let_def)
    then show ?thesis using loader_related_ok [OF ok req] by blast
  next
    case False
    obtain host where host: "host_of_output h = Some host"
      using l req h False by (auto simp: http_payload_loader_def bind_eq_Some_conv Let_def)
    obtain sfd port w1 where c: "connect_to_server w host (if ctx req then HTTPS_PORT else HTTP_PORT) = (sfd, port, w1)"
      by (metis prod_cases3)
    have r1: "requests w1 = requests w" by (rule connect_requests [OF c])
    then have ok1: "table_ok (requests w1)" "requests w1 fd = Some req" using ok req by simp_all
    let ?h = "h\<lparr>hm_host := host\<rparr>" and ?r = "req\<lparr>related_fd := sfd, html_state_data := h\<lparr>hm_host := host\<rparr>\<rparr>"
    show ?thesis
    proof (cases "sfd < 0")
      case True
      then have "w' = put_request (req\<lparr>related_fd := sfd, html_state_data := ?h\<lparr>hm_host := []\<rparr>\<rparr>) w1"
        using l req h host c False by (simp add: http_payload_loader_def)
      then show ?thesis
        using loader_unlinked_ok [OF ok1 _ True, of w1 "Some req"] ok1(2) False by (simp add: fun_upd_idem)
    next
      case sfd: False
      obtain made w2 where m: "accept_action_internal (ctx req) sfd 1 (put_request ?r w1) = Some (made, w2)"
        using l req h host c False sfd by (auto simp: http_payload_loader_def bind_eq_Some_conv Let_def)
      show ?thesis
      proof (cases made)
        case made: False
        then have "w' = put_request (req\<lparr>related_fd := - 1, html_state_data := ?h\<rparr>) (fa_request_close_socket sfd w2)"
          using l req h host c False sfd m by (auto simp: http_payload_loader_def Let_def)
        moreover have "requests w2 = (requests w1)(fd := Some ?r)"
          using accept_internal_cases [OF m] made o by simp
        ultimately show ?thesis
          using loader_unlinked_ok [OF ok1, of "- 1" "fa_request_close_socket sfd w2" "Some ?r"] False by simp
      next
        case True
        then obtain h3 w3 related where "output_to sfd ?h w2 = Some (h3, w3)" "requests w3 sfd = Some related"
          "w' = put_request (req\<lparr>related_fd := sfd, html_state_data := h3\<rparr>) (put_request (related\<lparr>related_fd := rq_fd req\<rparr>) w3)"
          using l req h host c False sfd m by (auto simp: http_payload_loader_def bind_eq_Some_conv Let_def)
        then show ?thesis using loader_linked_ok [OF ok1 _ o(2)] False True m by auto
      qed
    qed
  qed
qed

section \<open>The handlers\<close>

lemma push_holding_ok:
  assumes ok: "table_ok (requests w)" and p: "fa_request_push_holding fd w = Some (still, w')"
  shows "table_ok (requests w')"
proof -
  obtain req where req: "requests w fd = Some req" using p by (auto simp: fa_request_push_holding_def bind_eq_Some_conv)
  have o: "rq_fd req = fd" "window_ok req" using table_okD [OF ok req] by auto
  obtain rel where rel: "get_request w (related_fd req) = Some rel"
    using p req by (auto simp: fa_request_push_holding_def bind_eq_Some_conv)
  show ?thesis
  proof (cases rel)
    case None
    then show ?thesis using p req rel ok by (simp add: fa_request_push_holding_def)
  next
    case (Some r)
    have r: "requests w (related_fd req) = Some r" using get_request_Some [OF rel] Some by simp
    let ?h = "html_state_data req"
    let ?n = "min (fa_request_remain_capacity r) (s_size (hm_holding ?h))"
    obtain a r1 where a: "(if ?n > 0 then fa_request_payload_put r (take ?n (s_bytes (hm_holding ?h))) else (0, r)) = (a, r1)"
      by fastforce
    have r1: "window_ok r1" "rq_fd r1 = related_fd req" "related_fd r1 = related_fd r"
      using a payload_put_ok [of r] table_okD [OF ok r] by (auto split: if_splits)
    let ?q = "req\<lparr>html_state_data := ?h\<lparr>hm_holding := str_shift (hm_holding ?h) a (int ?n \<noteq> a)\<rparr>\<rparr>"
    have w': "w' = restart_write (rq_fd r1) (put_request ?q (put_request r1 w))"
      using p req rel Some a by (auto simp: fa_request_push_holding_def Let_def split: prod.splits)
    have ok1: "table_ok (requests (put_request r1 w))" using table_ok_put [OF ok r r1(2,3,1)] .
    show ?thesis
    proof (cases "related_fd req = fd")
      case False
      then have "requests (put_request r1 w) fd = Some req" using req r1(2) by simp
      from table_ok_put [OF ok1 this, of ?q] o show ?thesis unfolding w' by simp
    next
      case True
      then have "r = req" using r req by simp
      then have "requests (put_request r1 w) fd = Some r1" "related_fd r1 = related_fd ?q" using True r1 by simp_all
      from table_ok_put [OF ok1 this(1), of ?q] this(2) o show ?thesis unfolding w' by simp
    qed
  qed
qed

lemma delete_ok:
  assumes ok: "table_ok (requests w)" and d: "fa_request_delete fd w = Some (ret, w')"
  shows "table_ok (requests w')"
proof -
  obtain fa where fa: "requests w fd = Some fa" using d by (auto simp: fa_request_delete_def bind_eq_Some_conv)
  have o: "rq_fd fa = fd" "0 \<le> fd" using table_okD [OF ok fa] table_nonneg [OF ok fa] by auto
  have sym: "symmetric_ends (ends (requests w))" and slots: "slots_ok (requests w)" using ok by (auto simp: table_ok_def)
  show ?thesis
  proof (cases "reading fa \<or> writing fa")
    case True
    then show ?thesis using d fa ok by (auto simp: fa_request_delete_def)
  next
    case busy: False
    have gone: "table_ok (t(fd := None))" if "slots_ok t" "symmetric_ends ((ends t)(fd := None))" for t
      using that by (auto simp: table_ok_def slots_ok_def)
    show ?thesis
    proof (cases "related_fd fa < 0")
      case True
      then have w': "requests w' = (requests w)(fd := None)" using d fa busy o by (auto simp: fa_request_delete_def Let_def)
      have "alone (ends (requests w)) fd" using True fa by (simp add: alone_def ends_Some)
      from symmetric_remove [OF sym this o(2)] show ?thesis unfolding w' using gone [OF slots] by simp
    next
      case False
      have m: "ends (requests w) (related_fd fa) = Some fd"
        using symmetricD [OF sym ends_Some [of "requests w" fd fa, OF fa]] False by simp
      then obtain r where r: "requests w (related_fd fa) = Some r" "related_fd r = fd" by (auto simp: ends_def)
      obtain x where x: "get_request (w\<lparr>reads_on := (reads_on w)(fd := False), writes_on := (writes_on w)(fd := False)\<rparr>) (related_fd fa) = Some x"
        using d fa busy False by (auto simp: fa_request_delete_def Let_def bind_eq_Some_conv)
      then have xr: "x = Some r" using get_request_Some [OF x] r(1) by simp
      have or: "rq_fd r = related_fd fa" "window_ok r" using table_okD [OF ok r(1)] by auto
      have w': "requests w' = (requests w)(related_fd fa := Some (r\<lparr>related_fd := - 1\<rparr>), fd := None)"
        using d fa busy False x xr o or by (auto simp: fa_request_delete_def Let_def)
      have s: "slots_ok ((requests w)(related_fd fa := Some (r\<lparr>related_fd := - 1\<rparr>)))"
        using slots or by (intro slots_ok_upd) simp_all
      have "symmetric_ends ((ends (requests w))(related_fd fa := Some (- 1), fd := None))"
      proof (rule symmetricI)
        fix a b assume ab: "((ends (requests w))(related_fd fa := Some (- 1), fd := None)) a = Some b"
        then have a: "a \<noteq> fd" by (auto split: if_splits)
        show "0 \<le> a \<and> (0 \<le> b \<longrightarrow> ((ends (requests w))(related_fd fa := Some (- 1), fd := None)) b = Some a)"
        proof (cases "a = related_fd fa")
          case True
          then show ?thesis using ab a False by simp
        next
          case na: False
          then have mab: "ends (requests w) a = Some b" using ab a by simp
          note both = symmetricD [OF sym mab]
          have "b \<noteq> fd" using both o(2) fa na by (auto simp: ends_def)
          moreover have "b \<noteq> related_fd fa" using both m False a by auto
          ultimately show ?thesis using both by simp
        qed
      qed
      then show ?thesis unfolding w' using gone [OF s] by simp
    qed
  qed
qed

lemma receive_requests: "fa_receive fd n w = (x, v) \<Longrightarrow> requests v = requests w"
  by (auto simp: fa_receive_def split: list.splits fa_reply.splits)

lemma receive_again_requests: "fa_receive_again k fd n w = (x, v) \<Longrightarrow> requests v = requests w"
proof (induction k arbitrary: w)
  case (Suc k)
  obtain y u where y: "fa_receive fd n w = (y, u)" by fastforce
  show ?case
    using Suc y receive_requests [OF y] by (cases "y = Inr True") (auto split: sum.splits bool.splits)
qed (simp add: receive_requests)

lemma send_requests: "fa_send fd n w = (x, v) \<Longrightarrow> requests v = requests w"
  by (auto simp: fa_send_def split: list.splits sum.splits)

lemma after_read_ok: "after_read fd w = Some w' \<Longrightarrow> table_ok (requests w) \<Longrightarrow> table_ok (requests w')"
  by (auto simp: after_read_def bind_eq_Some_conv split: option.splits if_splits)

lemma read_ends_ok:
  assumes "read_ends fd w = Some w'" "table_ok (requests w)"
  shows "table_ok (requests w')"
proof -
  obtain still w1 where 1: "fa_request_push_holding fd w = Some (still, w1)" using assms(1) by (auto simp: read_ends_def bind_eq_Some_conv)
  have ok1: "table_ok (requests w1)" by (rule push_holding_ok [OF assms(2) 1])
  show ?thesis
  proof (cases still)
    case False
    then obtain w2 ret where 2: "at_request fd (\<lambda>r. r\<lparr>reading := False\<rparr>) w1 = Some w2" "fa_request_delete fd w2 = Some (ret, w')"
      using assms(1) 1 by (auto simp: read_ends_def bind_eq_Some_conv)
    have "table_ok (requests w2)" by (rule at_request_ok [OF ok1 2(1)]) simp
    from delete_ok [OF this 2(2)] show ?thesis .
  qed (use assms(1) 1 ok1 in \<open>simp add: read_ends_def\<close>)
qed

lemma read_action_ok:
  assumes r: "read_action work w = Some w'" and ok: "table_ok (requests w)"
  shows "table_ok (requests w')"
proof -
  let ?fd = "job_fd work"
  obtain x where x: "get_request w ?fd = Some x" using r by (auto simp: read_action_def bind_eq_Some_conv)
  show ?thesis
  proof (cases x)
    case None
    then show ?thesis using r x ok by (simp add: read_action_def)
  next
    case (Some req)
    show ?thesis
    proof (cases "fa_request_remain_capacity req = 0")
      case True
      then show ?thesis using r x Some ok by (simp add: read_action_def Let_def)
    next
      case room: False
      obtain w1 where w1: "at_request ?fd (\<lambda>r. r\<lparr>reading := True\<rparr>) w = Some w1"
        using r x Some room by (auto simp: read_action_def Let_def bind_eq_Some_conv)
      have ok1: "table_ok (requests w1)" by (rule at_request_ok [OF ok w1]) simp
      obtain got w2 where g: "(if ctx req then fa_receive (rq_fd req) (fa_request_remain_capacity req) w1
          else fa_receive_again 3 (rq_fd req) (fa_request_remain_capacity req) w1) = (got, w2)" by fastforce
      have "requests w2 = requests w1" using g receive_requests receive_again_requests by (auto split: if_splits)
      then have ok2: "table_ok (requests w2)" using ok1 by simp
      have run: "(case got of
              Inr _ \<Rightarrow> after_read ?fd w2
            | Inl buf \<Rightarrow>
                if buf = [] then read_ends ?fd w2
                else do {
                  w \<leftarrow> at_request ?fd (\<lambda>r. r\<lparr>n_bytes := n_bytes r + length buf\<rparr>) w2;
                  (ret, w) \<leftarrow> http_payload_loader ?fd buf w;
                  if ret < 0 then read_ends ?fd w else after_read ?fd w }) = Some w'"
        using r x Some room w1 g by (simp add: read_action_def Let_def)
      show ?thesis
      proof (cases got)
        case (Inr b)
        then show ?thesis using run after_read_ok ok2 by simp
      next
        case (Inl buf)
        show ?thesis
        proof (cases "buf = []")
          case True
          then show ?thesis using run Inl read_ends_ok ok2 by simp
        next
          case False
          then obtain w3 ret w4 where 3: "at_request ?fd (\<lambda>r. r\<lparr>n_bytes := n_bytes r + length buf\<rparr>) w2 = Some w3"
            "http_payload_loader ?fd buf w3 = Some (ret, w4)" "(if ret < 0 then read_ends ?fd w4 else after_read ?fd w4) = Some w'"
            using run Inl by (auto simp: bind_eq_Some_conv)
          have "table_ok (requests w3)" by (rule at_request_ok [OF ok2 3(1)]) simp
          then have "table_ok (requests w4)" using loader_ok 3(2) by blast
          then show ?thesis using 3(3) read_ends_ok after_read_ok by (cases "ret < 0") auto
        qed
      qed
    qed
  qed
qed

text \<open>What was sent is consumed.\<close>

definition write_sent :: "int \<Rightarrow> nat + bool \<Rightarrow> fa_world \<Rightarrow> fa_world option" where
  "write_sent fd sent w =
    (case sent of
       Inr _ \<Rightarrow> Some w
     | Inl k \<Rightarrow>
         if k = 0 then at_request fd (\<lambda>r. r\<lparr>writing := False\<rparr>) w
         else do {
           r \<leftarrow> requests w fd;
           let (r, filled) = fa_request_payload_consume r k;
           Some ((if filled then restart_write (rq_fd r) else id) (put_request r w)) })"

lemma write_sent_ok:
  assumes "write_sent fd sent w = Some w'" "table_ok (requests w)"
  shows "table_ok (requests w')"
proof (cases sent)
  case (Inl k)
  show ?thesis
  proof (cases "k = 0")
    case True
    then have "at_request fd (\<lambda>r. r\<lparr>writing := False\<rparr>) w = Some w'" using assms(1) Inl by (simp add: write_sent_def)
    then show ?thesis by (rule at_request_ok [OF assms(2)]) simp
  next
    case False
    then obtain r where r: "requests w fd = Some r" using assms(1) Inl by (auto simp: write_sent_def bind_eq_Some_conv)
    obtain r' b where c: "fa_request_payload_consume r k = (r', b)" by fastforce
    have o: "rq_fd r = fd" "window_ok r" using table_okD [OF assms(2) r] by auto
    have k: "window_ok r'" "rq_fd r' = fd" "related_fd r' = related_fd r" using payload_consume_ok [OF o(2) c] o by auto
    have "requests w' = requests (put_request r' w)" using assms(1) Inl False r c by (auto simp: write_sent_def)
    then show ?thesis using table_ok_put [OF assms(2) r k(2,3,1)] by simp
  qed
qed (use assms in \<open>simp add: write_sent_def\<close>)

lemma write_action_ok:
  assumes r: "write_action work w = Some w'" and ok: "table_ok (requests w)"
  shows "table_ok (requests w')"
proof -
  let ?fd = "job_fd work"
  obtain x where x: "get_request w ?fd = Some x" using r by (auto simp: write_action_def bind_eq_Some_conv)
  show ?thesis
  proof (cases x)
    case None
    then show ?thesis using r x ok by (simp add: write_action_def)
  next
    case (Some req)
    obtain related where rel: "the_related req w = Some related" using r x Some by (auto simp: write_action_def bind_eq_Some_conv)
    show ?thesis
    proof (cases "fa_request_size req = 0")
      case True
      then obtain w1 where "at_request ?fd (\<lambda>r. r\<lparr>writing := False\<rparr>) w = Some w1" "requests w' = requests w1"
        using r x Some rel by (auto simp: write_action_def bind_eq_Some_conv)
      then show ?thesis using at_request_ok [OF ok] by fastforce
    next
      case False
      obtain w1 where w1: "at_request ?fd (\<lambda>r. r\<lparr>writing := True\<rparr>) w = Some w1"
        using r x Some rel False by (auto simp: write_action_def bind_eq_Some_conv)
      have ok1: "table_ok (requests w1)" by (rule at_request_ok [OF ok w1]) simp
      let ?buf = "snd (fa_request_payload_copy req (fa_request_size req))"
      obtain s2 w2 where s2: "fa_send (rq_fd req) (length ?buf) w1 = (s2, w2)" by fastforce
      obtain s3 w3 where s3: "(if s2 = Inr True \<and> \<not> ctx req then fa_send (rq_fd req) (length ?buf) w2 else (s2, w2)) = (s3, w3)"
        by fastforce
      have "requests w3 = requests w1" using s2 s3 send_requests by (metis prod.inject)
      then have ok3: "table_ok (requests w3)" using ok1 by simp
      obtain w4 where w4: "write_sent ?fd s3 w3 = Some w4" "requests w' = requests w4"
        using r x Some rel False w1 s2 s3
        by (auto simp: write_action_def write_sent_def [symmetric] Let_def split_def bind_eq_Some_conv split: option.splits if_splits)
      show ?thesis using write_sent_ok [OF w4(1) ok3] w4(2) by simp
    qed
  qed
qed

lemma do_job_ok: "do_job work w = Some w' \<Longrightarrow> table_ok (requests w) \<Longrightarrow> table_ok (requests w')"
  by (auto simp: do_job_def dest: read_action_ok write_action_ok accept_action_ok split: action_e.splits)

lemma step_ok: "fa_step hf sf w (Some w') \<Longrightarrow> table_ok (requests w) \<Longrightarrow> table_ok (requests w')"
proof (erule fa_stepE)
  fix v go
  assume "table_ok (requests w)" "worker_thread w = Some (Some (go, v))" "Some w' = Some v"
  then show "table_ok (requests w')"
    by (auto simp: worker_thread_def split: option.splits prod.splits dest: do_job_ok)
qed (auto simp: read_socket_f_def write_socket_f_def accept_http_f_def accept_secure_f_def bind_eq_Some_conv)

section \<open>Property\<close>

text \<open>C17: in every state that the first proxy reaches, in any order of events and jobs and whatever the
  network does, a slot of the table holds a request with its descriptor and a well-formed window,
  and a request that names another end is named by a living request at that end: closing a
  connection never leaves the other one with the descriptor of a request that is gone or of a
  later one.\<close>

theorem connections_stay_paired:
  assumes "fa_reaches http_fd https_fd w (Some v)" "table_ok (requests w)"
  shows "table_ok (requests v)"
proof -
  have "\<forall>x. u = Some x \<longrightarrow> table_ok (requests x)" if "fa_reaches http_fd https_fd w u" for u
    using that assms(2) by induction (auto dest: step_ok)
  with assms(1) show ?thesis by blast
qed

text \<open>A process in which one client waits to be accepted.\<close>

definition one_waits :: fa_world where
  "one_waits = \<lparr>requests = (\<lambda>_. None), fw_db = fa_no_rules, jobs_queue = QUEUE_INITIALIZER (replicate 256 None),
     reads_on = (\<lambda>_. False), writes_on = (\<lambda>_. False), http_on = True, https_on = True, fw_open = (\<lambda>_. False),
     fw_recv = (\<lambda>_. []), fw_send = (\<lambda>_. []), fw_accept = (\<lambda>fd. if fd = 5 then [Inl 7] else []), fw_ssl_accept = [],
     fw_sockets = [], fw_connect = [], fw_dns = (\<lambda>_. None), fw_peer = (\<lambda>_. No_Peer), fw_stack = [],
     fw_junk = (\<lambda>_. NUL), fw_time = 0\<rparr>"

lemma one_accepted: "\<exists>v r. fa_reaches 5 6 one_waits (Some v) \<and> requests v 7 = Some r"
proof -
  let ?job = "queue_payload_of ACTION_ACCEPT 5 False"
  obtain q where q: "fa_queue_enqueue (jobs_queue one_waits) (Some ?job) = Some q" "queue_inv q" "contents q = [Some ?job]"
  proof -
    have "replicate 256 None \<noteq> ([] :: queue_payload option list)" by simp
    from QUEUE_INITIALIZER_inv [OF this] have i: "queue_inv (jobs_queue one_waits)" "contents (jobs_queue one_waits) = []"
      by (simp_all add: one_waits_def)
    have "fa_queue_enqueue (jobs_queue one_waits) (Some ?job) \<noteq> None"
      by (simp add: one_waits_def QUEUE_INITIALIZER_def fa_queue_enqueue_def)
    then obtain q where "fa_queue_enqueue (jobs_queue one_waits) (Some ?job) = Some q" by blast
    then show ?thesis using that jobs.enq_items [OF i(1)] jobs.enq_inv [OF i(1)] i(2) by fastforce
  qed
  let ?w1 = "one_waits\<lparr>http_on := False, jobs_queue := q\<rparr>"
  have 1: "fa_step 5 6 one_waits (Some ?w1)"
    by (rule step_accept) (use q in \<open>simp_all add: one_waits_def accept_http_f_def\<close>)
  have "fa_queue_dequeue q \<noteq> None" by (simp only: jobs.deq_enabled [OF q(2)] q(3)) simp
  then obtain x q2 where d: "fa_queue_dequeue q = Some (x, q2)" by (cases "fa_queue_dequeue q") auto
  then have x: "x = Some ?job" using jobs.deq_items [OF q(2) d] q(3) by simp
  have h: "http_payload_init fa_no_rules (- 1) \<noteq> None"
    by (simp add: http_payload_init_def database_transform_handler_def di_get_tree_def)
  obtain w2 r where 2: "do_job ?job (?w1\<lparr>jobs_queue := q2\<rparr>) = Some w2" "requests w2 7 = Some r"
    using h by (auto simp: do_job_def queue_payload_of_def accept_action_def one_waits_def accept_action_internal_def
        fa_request_create_def get_request_def FA_MAX_FDS_def put_request_def restart_read_def Let_def)
  have "worker_thread ?w1 = Some (Some (True, w2))" using d x 2(1) by (simp add: worker_thread_def)
  from step_job [OF this] 1 have "fa_reaches 5 6 one_waits (Some w2)"
    by (meson reaches_start reaches_more)
  then show ?thesis using 2(2) by blast
qed

lemma connections_stay_paired_witness:
  "\<exists>v r. fa_reaches 5 6 one_waits (Some v) \<and> requests v 7 = Some r \<and> table_ok (requests v)"
proof -
  obtain v r where v: "fa_reaches 5 6 one_waits (Some v)" "requests v 7 = Some r" using one_accepted by blast
  have "table_ok (requests one_waits)"
    by (simp add: one_waits_def table_ok_def slots_ok_def symmetric_ends_def ends_def)
  from connections_stay_paired [OF v(1) this] v show ?thesis by blast
qed

end
