(* ===== verification/FaMain.thy ===== *)
theory FaMain
  imports FaService
begin

text \<open>
  The process of the first proxy: \<^verbatim>\<open>faproxy/src/main.c\<close> with the set-up of TLS in
  \<^verbatim>\<open>ssl.c\<close>.  The command line, the set-up in its order with every early return, and the end, in
  which the main thread gives each worker an empty job and joins it.
\<close>

section \<open>The command line\<close>

text \<open>\<^verbatim>\<open>getopt(3)\<close> with the options \<^verbatim>\<open>b:c:k:d:t:s:h\<close>: the letters with their arguments,
  a question mark for an unknown option or a missing argument.\<close>

fun fa_getopt_cluster :: "string \<Rightarrow> string list \<Rightarrow> (char \<times> string) list \<times> string list" where
  "fa_getopt_cluster [] rest = ([], rest)"
| "fa_getopt_cluster (x # xs) rest =
    (if x \<in> set ''bckdts'' then
       (if xs \<noteq> [] then ([(x, xs)], rest)
        else (case rest of [] \<Rightarrow> ([(CHR ''?'', [])], []) | a # as \<Rightarrow> ([(x, a)], as)))
     else (case fa_getopt_cluster xs rest of (os, rest) \<Rightarrow> ((if x = CHR ''h'' then x else CHR ''?'', []) # os, rest)))"

lemma fa_getopt_cluster_shorter: "(os, rest') = fa_getopt_cluster xs rest \<Longrightarrow> length rest' \<le> length rest"
  by (induction xs rest arbitrary: os rest' rule: fa_getopt_cluster.induct) (auto split: list.splits prod.splits if_splits)

function fa_getopt :: "string list \<Rightarrow> (char \<times> string) list" where
  "fa_getopt [] = []"
| "fa_getopt (a # as) =
    (if a = ''--'' then []
     else if 1 < length a \<and> hd a = CHR ''-'' then
       (case fa_getopt_cluster (tl a) as of (os, rest) \<Rightarrow> os @ fa_getopt rest)
     else fa_getopt as)"
  by pat_completeness auto
termination
  by (relation "measure length") (auto simp: less_Suc_eq_le dest: fa_getopt_cluster_shorter)

text \<open>\<^verbatim>\<open>sscanf\<close> with \<^verbatim>\<open>%zu\<close>: the value of \<^verbatim>\<open>strtoul\<close>, nothing without a digit.\<close>

definition scan_zu :: "string \<Rightarrow> nat option" where
  "scan_zu s =
    (let t = dropWhile is_space s;
         neg = (t \<noteq> [] \<and> hd t = CHR ''-'');
         t = (if t \<noteq> [] \<and> (hd t = CHR ''-'' \<or> hd t = CHR ''+'') then tl t else t);
         n = nat (read_digits 0 t)
     in if t = [] \<or> \<not> is_digit (hd t) then None
        else Some (if n > SIZE_MAX then SIZE_MAX else if neg \<and> n \<noteq> 0 then SIZE_MAX + 1 - n else n))"

record fa_options =
  bind_address :: string
  cert_file :: string
  key_file :: string
  dbs_file :: string
  server_suffix :: string
  n_threads :: nat

definition fa_defaults :: fa_options where
  "fa_defaults = \<lparr>bind_address = ''127.0.0.1'', cert_file = ''certs.pem'', key_file = ''keys.pem'', dbs_file = ''/etc/fAproxy/dbs'',
     server_suffix = [], n_threads = 4\<rparr>"

text \<open>The loop over the options; the help and an unknown option end the process.\<close>

fun fa_parse :: "(char \<times> string) list \<Rightarrow> fa_options \<Rightarrow> fa_options option" where
  "fa_parse [] o' = Some o'"
| "fa_parse ((c, optarg) # os) o' =
    (if c = CHR ''b'' then fa_parse os (o'\<lparr>bind_address := snprintf_to FA_MAX_STR optarg\<rparr>)
     else if c = CHR ''c'' then fa_parse os (o'\<lparr>cert_file := snprintf_to FA_MAX_STR optarg\<rparr>)
     else if c = CHR ''k'' then fa_parse os (o'\<lparr>key_file := snprintf_to FA_MAX_STR optarg\<rparr>)
     else if c = CHR ''d'' then fa_parse os (o'\<lparr>dbs_file := snprintf_to FA_MAX_STR optarg\<rparr>)
     else if c = CHR ''s'' then fa_parse os (o'\<lparr>server_suffix := snprintf_to FA_MAX_STR optarg\<rparr>)
     else if c = CHR ''t'' then fa_parse os (case scan_zu optarg of None \<Rightarrow> o' | Some n \<Rightarrow> o'\<lparr>n_threads := n\<rparr>)
     else None)"

section \<open>The set-up\<close>

text \<open>What the system answers: the directories, whether an address converts and a socket listens, whether
  libev makes its loop and takes a descriptor, the steps of OpenSSL, and which threads are created.\<close>

record fa_env =
  env_dirs :: "string \<Rightarrow> (string \<times> fa_file) list option"
  inet_pton :: "string \<Rightarrow> bool"
  ev_loop_new :: bool
  ev_takes :: "int \<Rightarrow> bool"
  env_listen :: "int \<Rightarrow> bool"
  TLS_server_method :: bool
  SSL_CTX_new :: bool
  use_certificate :: "string \<Rightarrow> bool"
  use_PrivateKey :: "string \<Rightarrow> bool"
  check_private_key :: bool
  env_create :: "nat \<Rightarrow> bool"

text \<open>The number of TLS contexts that exist is kept beside the result.\<close>

definition init_server_ctx :: "fa_env \<Rightarrow> nat \<Rightarrow> bool \<times> nat" where
  "init_server_ctx env n =
    (if \<not> TLS_server_method env then (False, n)
     else if \<not> SSL_CTX_new env then (False, n)
     else (True, n + 1))"

definition init_ssl :: "fa_env \<Rightarrow> string \<Rightarrow> string \<Rightarrow> nat \<Rightarrow> bool \<times> nat" where
  "init_ssl env cert key n =
    (case init_server_ctx env n of (made, n) \<Rightarrow>
       if \<not> made then (False, n)
       else if \<not> use_certificate env cert then (False, n - 1)
       else if \<not> use_PrivateKey env key then (False, n - 1)
       else if \<not> check_private_key env then (False, n - 1)
       else (True, n))"

definition create_listener :: "fa_env \<Rightarrow> fa_world \<Rightarrow> int \<times> fa_world" where
  "create_listener env w =
    (case prepare_socket w of (sd, w) \<Rightarrow>
       if sd < 0 \<or> \<not> env_listen env sd then (- 1, if 0 \<le> sd then fa_close sd w else w)
       else (sd, w))"

text \<open>\<^verbatim>\<open>signal_f\<close>: whether the loop of the events ends.\<close>

definition signal_f :: "int \<Rightarrow> bool" where
  "signal_f signum = (if signum = 2 then True else if signum = 15 then True else False)"

datatype fa_thread = Not_Created | Running | Ended

record fa_process =
  fp_world :: fa_world
  fp_http :: int
  fp_https :: int
  fp_contexts :: nat
  fp_threads :: "fa_thread list"

datatype fa_start = Fa_Exits int "fa_process" | Fa_Aborts | Fa_Runs fa_process

definition fa_set_up :: "fa_env \<Rightarrow> string list \<Rightarrow> fa_world \<Rightarrow> fa_start" where
  "fa_set_up env argv w =
    (let p = \<lparr>fp_world = w, fp_http = 0, fp_https = 0, fp_contexts = 0, fp_threads = []\<rparr> in
     case fa_parse (fa_getopt argv) fa_defaults of
       None \<Rightarrow> Fa_Exits (- 1) p
     | Some o' \<Rightarrow>
    (case database_set_up (server_suffix o') (env_dirs env (dbs_file o')) (fw_db w) of
       None \<Rightarrow> Fa_Aborts
     | Some db \<Rightarrow>
       (let p = p\<lparr>fp_world := w\<lparr>fw_db := db\<rparr>\<rparr> in
        if \<not> inet_pton env (bind_address o') then Fa_Exits 1 p
        else if server_suffix o' = [] \<or> hd (server_suffix o') \<noteq> CHR ''.'' then Fa_Exits 1 p
        else if \<not> ev_loop_new env then Fa_Exits 1 p
        else (case create_listener env (w\<lparr>fw_db := db, jobs_queue := QUEUE_INITIALIZER (replicate 256 None)\<rparr>) of (hfd, w) \<Rightarrow>
          if \<not> ev_takes env hfd then Fa_Aborts
          else (case create_listener env (w\<lparr>http_on := True\<rparr>) of (sfd, w) \<Rightarrow>
            (case init_ssl env (cert_file o') (key_file o') 0 of (made, n) \<Rightarrow>
               (let p = \<lparr>fp_world = w, fp_http = hfd, fp_https = sfd, fp_contexts = n, fp_threads = []\<rparr> in
                if \<not> made then Fa_Exits 1 p
                else if \<not> ev_takes env sfd then Fa_Aborts
                else Fa_Runs (p\<lparr>fp_world := w\<lparr>https_on := True, requests := (\<lambda>_. None)\<rparr>,
                  fp_threads := map (\<lambda>i. if env_create env i then Running else Not_Created) [0..<n_threads o']\<rparr>))))))))"

section \<open>The end\<close>

text \<open>After the loop of the events the main thread puts one empty job per worker and then joins the threads in
  their order, while the workers go on; a thread that was never created cannot be joined.\<close>

record fa_ending =
  fe_world :: fa_world
  fe_nulls :: nat
  fe_threads :: "fa_thread list"
  fe_joined :: nat

inductive ending_step :: "fa_ending \<Rightarrow> fa_ending option \<Rightarrow> bool" where
  end_put: "fe_nulls e > 0 \<Longrightarrow> fa_queue_enqueue (jobs_queue (fe_world e)) None = Some q \<Longrightarrow>
    ending_step e (Some (e\<lparr>fe_world := (fe_world e)\<lparr>jobs_queue := q\<rparr>, fe_nulls := fe_nulls e - 1\<rparr>))"
| end_work: "i < length (fe_threads e) \<Longrightarrow> fe_threads e ! i = Running \<Longrightarrow> worker_thread (fe_world e) = Some (Some (goes_on, w)) \<Longrightarrow>
    ending_step e (Some (e\<lparr>fe_world := w, fe_threads := (if goes_on then fe_threads e else (fe_threads e)[i := Ended])\<rparr>))"
| end_crash: "Running \<in> set (fe_threads e) \<Longrightarrow> worker_thread (fe_world e) = Some None \<Longrightarrow> ending_step e None"
| end_join: "fe_nulls e = 0 \<Longrightarrow> fe_joined e < length (fe_threads e) \<Longrightarrow> fe_threads e ! fe_joined e = Ended \<Longrightarrow>
    ending_step e (Some (e\<lparr>fe_joined := fe_joined e + 1\<rparr>))"
| end_join_none: "fe_nulls e = 0 \<Longrightarrow> fe_joined e < length (fe_threads e) \<Longrightarrow> fe_threads e ! fe_joined e = Not_Created \<Longrightarrow>
    ending_step e None"

inductive_cases ending_stepE: "ending_step e z"

text \<open>The state in which the loop of the events ended.\<close>

definition ending_of :: "fa_process \<Rightarrow> fa_world \<Rightarrow> fa_ending" where
  "ending_of p w = \<lparr>fe_world = w, fe_nulls = length (fp_threads p), fe_threads = fp_threads p, fe_joined = 0\<rparr>"

inductive ends_in :: "fa_ending \<Rightarrow> nat \<Rightarrow> fa_ending \<Rightarrow> bool" for e where
  ends_here: "ends_in e 0 e"
| ends_more: "ends_in e n y \<Longrightarrow> ending_step y (Some z) \<Longrightarrow> ends_in e (Suc n) z"

text \<open>Then the sockets that listen are closed.\<close>

definition fa_close_all :: "fa_process \<Rightarrow> fa_world \<Rightarrow> fa_world" where
  "fa_close_all p w =
    (let w = (if fp_http p \<ge> 0 then fa_close (fp_http p) w else w) in if fp_https p \<ge> 0 then fa_close (fp_https p) w else w)"

section \<open>A job does not touch the queue\<close>

lemma queue_same [simp]:
  "jobs_queue (put_request r w) = jobs_queue w" "jobs_queue (restart_read fd w) = jobs_queue w"
  "jobs_queue (restart_write fd w) = jobs_queue w" "jobs_queue (fa_close fd w) = jobs_queue w"
  "jobs_queue (fa_request_close_socket fd w) = jobs_queue w" "jobs_queue (destroy_ssl_conn fd w) = jobs_queue w"
  "jobs_queue (wake_reader related w) = jobs_queue w"
  by (simp_all add: put_request_def restart_read_def restart_write_def fa_close_def fa_request_close_socket_def
      destroy_ssl_conn_def wake_reader_def split: option.split)

lemma at_request_queue: "at_request fd f w = Some w' \<Longrightarrow> jobs_queue w' = jobs_queue w"
  by (auto simp: at_request_def split: bind_splits)

lemma next_ssl_queue: "next_ssl w = (r, w') \<Longrightarrow> jobs_queue w' = jobs_queue w"
  by (auto simp: next_ssl_def split: list.splits)

lemma accept_ssl_queue: "accept_ssl_conn w = (ret, w') \<Longrightarrow> jobs_queue w' = jobs_queue w"
  by (auto simp: accept_ssl_conn_def split: prod.splits if_splits dest!: next_ssl_queue)

lemma accept_internal_queue: "accept_action_internal ssl c s w = Some (made, w') \<Longrightarrow> jobs_queue w' = jobs_queue w"
  by (auto simp: accept_action_internal_def split: prod.splits if_splits bind_splits dest!: accept_ssl_queue)

lemma accept_connections_queue:
  "accept_connections https as w = Some (again, rest, w') \<Longrightarrow> jobs_queue w' = jobs_queue w"
proof (induction https as w rule: accept_connections.induct)
  case (3 is_https client as w)
  then obtain made u where u: "accept_action_internal is_https client (- 1) (w\<lparr>fw_open := (fw_open w)(client := True)\<rparr>) = Some (made, u)"
    "accept_connections is_https as (if made then restart_read client u else u) = Some (again, rest, w')" "\<not> client < 0"
    by (auto split: if_splits bind_splits)
  from 3(1) [OF u(3,1) refl u(2)] accept_internal_queue [OF u(1)] show ?case by simp
qed auto

lemma accept_action_queue: "accept_action work w = Some w' \<Longrightarrow> jobs_queue w' = jobs_queue w"
  by (auto simp: accept_action_def Let_def split: bind_splits if_splits dest!: accept_connections_queue)

lemma prepare_socket_queue: "prepare_socket w = (sd, w') \<Longrightarrow> jobs_queue w' = jobs_queue w"
  by (auto simp: prepare_socket_def Let_def split: list.splits if_splits)

lemma connect_loop_queue: "connect_loop n sfd w = (r, w') \<Longrightarrow> jobs_queue w' = jobs_queue w"
proof (induction n sfd w rule: connect_loop.induct)
  case (2 n sfd w)
  obtain sd u where u: "prepare_socket w = (sd, u)" by fastforce
  show ?case
  proof (cases "sd < 0")
    case True
    then show ?thesis using 2(1) [OF u [symmetric]] 2(3) prepare_socket_queue [OF u] by (simp add: u)
  next
    case False
    show ?thesis
    proof (cases "fw_connect u")
      case Nil
      then show ?thesis using 2(3) False prepare_socket_queue [OF u] by (simp add: u)
    next
      case (Cons ok cs)
      then show ?thesis using 2(2) [OF u [symmetric] False Cons refl] 2(3) False prepare_socket_queue [OF u]
        by (auto simp: u Let_def split: if_splits)
    qed
  qed
qed simp

lemma connect_queue: "connect_to_server w host port = (sfd, port', w') \<Longrightarrow> jobs_queue w' = jobs_queue w"
  by (auto simp: connect_to_server_def Let_def split: option.splits prod.splits dest!: connect_loop_queue)

lemma output_to_queue: "output_to fd h w = Some (h', w') \<Longrightarrow> jobs_queue w' = jobs_queue w"
  by (auto simp: output_to_def split: bind_splits prod.splits)

lemma loader_queue: "http_payload_loader fd buf w = Some (ret, w') \<Longrightarrow> jobs_queue w' = jobs_queue w"
  by (auto simp: http_payload_loader_def Let_def split: bind_splits prod.splits if_splits
      dest!: output_to_queue connect_queue accept_internal_queue)

lemma push_holding_queue: "fa_request_push_holding fd w = Some (still, w') \<Longrightarrow> jobs_queue w' = jobs_queue w"
  by (auto simp: fa_request_push_holding_def Let_def split: bind_splits option.splits prod.splits if_splits)

lemma delete_queue: "fa_request_delete fd w = Some (r, w') \<Longrightarrow> jobs_queue w' = jobs_queue w"
  by (auto simp: fa_request_delete_def Let_def split: bind_splits option.splits if_splits)

lemma receive_queue: "fa_receive fd n w = (r, w') \<Longrightarrow> jobs_queue w' = jobs_queue w"
  by (auto simp: fa_receive_def split: list.splits fa_reply.splits)

lemma receive_again_queue: "fa_receive_again k fd n w = (r, w') \<Longrightarrow> jobs_queue w' = jobs_queue w"
proof (induction k fd n w rule: fa_receive_again.induct)
  case (2 k fd n w)
  obtain r0 u where u: "fa_receive fd n w = (r0, u)" by fastforce
  then show ?case using 2 receive_queue [OF u] by (auto split: sum.splits bool.splits)
qed (simp add: receive_queue)

lemma send_queue: "fa_send fd n w = (r, w') \<Longrightarrow> jobs_queue w' = jobs_queue w"
  by (auto simp: fa_send_def split: list.splits sum.splits)

lemma after_read_queue: "after_read fd w = Some w' \<Longrightarrow> jobs_queue w' = jobs_queue w"
  by (auto simp: after_read_def split: bind_splits option.splits if_splits)

lemma read_ends_queue: "read_ends fd w = Some w' \<Longrightarrow> jobs_queue w' = jobs_queue w"
  by (auto simp: read_ends_def split: bind_splits if_splits dest!: push_holding_queue at_request_queue delete_queue)

lemma read_action_queue: "read_action work w = Some w' \<Longrightarrow> jobs_queue w' = jobs_queue w"
  by (auto simp: read_action_def Let_def split: bind_splits option.splits if_splits prod.splits sum.splits
      dest!: at_request_queue receive_queue receive_again_queue loader_queue read_ends_queue after_read_queue)

lemma write_action_queue: "write_action work w = Some w' \<Longrightarrow> jobs_queue w' = jobs_queue w"
  by (auto simp: write_action_def Let_def split: bind_splits option.splits if_splits prod.splits sum.splits
      dest!: at_request_queue send_queue)

lemma do_job_queue: "do_job work w = Some w' \<Longrightarrow> jobs_queue w' = jobs_queue w"
  by (auto simp: do_job_def split: action_e.splits dest: read_action_queue write_action_queue accept_action_queue)

section \<open>The end is reached\<close>

definition ending_inv :: "nat \<Rightarrow> fa_ending \<Rightarrow> bool" where
  "ending_inv n e \<longleftrightarrow> (\<exists>js k. queue_inv (jobs_queue (fe_world e)) \<and>
     contents (jobs_queue (fe_world e)) = map Some js @ replicate k None \<and> length (fe_threads e) = n \<and>
     set (fe_threads e) \<subseteq> {Running, Ended} \<and> count_list (fe_threads e) Running = k + fe_nulls e \<and>
     (js \<noteq> [] \<longrightarrow> k + fe_nulls e = n) \<and> fe_joined e \<le> n \<and> (\<forall>i < fe_joined e. fe_threads e ! i = Ended))"

definition ending_weight :: "nat \<Rightarrow> fa_ending \<Rightarrow> nat" where
  "ending_weight n e = 2 * fe_nulls e + length (contents (jobs_queue (fe_world e))) + (n - fe_joined e)"

lemma count_list_ended: "i < length ts \<Longrightarrow> ts ! i = Running \<Longrightarrow> count_list (ts[i := Ended]) Running = count_list ts Running - 1"
proof (induction ts arbitrary: i)
  case (Cons t ts)
  then show ?case
    by (cases i) (auto simp: count_list_0_iff intro!: Suc_pred, metis count_list_0_iff gr0I nth_mem)
qed simp

lemma count_list_all: "set ts \<subseteq> {x} \<Longrightarrow> count_list ts x = length ts"
  by (induction ts) auto

lemma worker_cases:
  assumes "queue_inv (jobs_queue w)" "worker_thread w = Some (Some (goes_on, w'))"
  shows "queue_inv (jobs_queue w') \<and> (\<exists>x. contents (jobs_queue w) = x # contents (jobs_queue w') \<and> (goes_on \<longleftrightarrow> x \<noteq> None))"
proof -
  obtain x q where d: "fa_queue_dequeue (jobs_queue w) = Some (x, q)"
    using assms(2) by (auto simp: worker_thread_def split: option.splits)
  have q: "queue_inv q" "contents (jobs_queue w) = x # contents q"
    using jobs.deq_inv [OF assms(1) d] jobs.deq_items [OF assms(1) d] by simp_all
  have "jobs_queue w' = q \<and> (goes_on \<longleftrightarrow> x \<noteq> None)"
    using assms(2) d by (auto simp: worker_thread_def split: option.splits dest!: do_job_queue)
  with q show ?thesis by auto
qed

lemma ending_inv_step:
  assumes "ending_inv n e" "ending_step e (Some z)"
  shows "ending_inv n z \<and> Suc (ending_weight n z) \<le> ending_weight n e"
proof -
  obtain js k where i: "queue_inv (jobs_queue (fe_world e))"
    "contents (jobs_queue (fe_world e)) = map Some js @ replicate k None" "length (fe_threads e) = n"
    "set (fe_threads e) \<subseteq> {Running, Ended}" "count_list (fe_threads e) Running = k + fe_nulls e"
    "js \<noteq> [] \<Longrightarrow> k + fe_nulls e = n" "fe_joined e \<le> n" "\<forall>i < fe_joined e. fe_threads e ! i = Ended"
    using assms(1) by (auto simp: ending_inv_def)
  from assms(2) show ?thesis
  proof (cases rule: ending_step.cases)
    case (end_put q)
    have q: "queue_inv q" "contents q = map Some js @ replicate (Suc k) None"
      using jobs.enq_inv [OF i(1) end_put(3)] jobs.enq_items [OF i(1) end_put(3)] i(2) by (simp_all add: replicate_append_same)
    have "ending_inv n z"
      unfolding ending_inv_def
      by (rule exI [of _ js], rule exI [of _ "Suc k"]) (use q i end_put in auto)
    then show ?thesis using end_put q(2) i(2) by (simp add: ending_weight_def)
  next
    case (end_work j goes_on w)
    obtain x where w: "queue_inv (jobs_queue w)" "contents (jobs_queue (fe_world e)) = x # contents (jobs_queue w)" "goes_on \<longleftrightarrow> x \<noteq> None"
      using worker_cases [OF i(1) end_work(4)] by blast
    have "ending_inv n z"
    proof (cases js)
      case Nil
      then obtain k' where k: "k = Suc k'" "x = None" "contents (jobs_queue w) = replicate k' None"
        using w(2) i(2) by (cases k) auto
      have "set ((fe_threads e)[j := Ended]) \<subseteq> {Running, Ended}" using i(4) set_update_subset_insert [of "fe_threads e" j Ended] by blast
      then show ?thesis
        unfolding ending_inv_def
        by (intro exI [of _ "[]"] exI [of _ k']) (use w k i end_work count_list_ended in \<open>auto simp: nth_list_update\<close>)
    next
      case (Cons y js')
      then have "x = Some y" "contents (jobs_queue w) = map Some js' @ replicate k None" using w(2) i(2) by auto
      then show ?thesis
        unfolding ending_inv_def
        by (intro exI [of _ js'] exI [of _ k]) (use w i end_work Cons in auto)
    qed
    then show ?thesis using end_work w(2) by (simp add: ending_weight_def)
  next
    case end_join
    have "ending_inv n z"
      unfolding ending_inv_def
      by (rule exI [of _ js], rule exI [of _ k]) (use i end_join in \<open>auto simp: less_Suc_eq\<close>)
    then show ?thesis using end_join i(3) by (simp add: ending_weight_def)
  qed
qed

lemma ending_goes_on:
  assumes "ending_inv n e"
  shows "(fe_joined e = n \<and> fe_nulls e = 0) \<or> (\<exists>z. ending_step e z)"
proof (rule ccontr)
  assume stuck: "\<not> ?thesis"
  obtain js k where i: "queue_inv (jobs_queue (fe_world e))"
    "contents (jobs_queue (fe_world e)) = map Some js @ replicate k None" "length (fe_threads e) = n"
    "set (fe_threads e) \<subseteq> {Running, Ended}" "count_list (fe_threads e) Running = k + fe_nulls e"
    "js \<noteq> [] \<Longrightarrow> k + fe_nulls e = n" "fe_joined e \<le> n" "\<forall>i < fe_joined e. fe_threads e ! i = Ended"
    using assms by (auto simp: ending_inv_def)
  have idle: "contents (jobs_queue (fe_world e)) = []" if running: "Running \<in> set (fe_threads e)"
  proof (rule ccontr)
    assume "contents (jobs_queue (fe_world e)) \<noteq> []"
    then have "fa_queue_dequeue (jobs_queue (fe_world e)) \<noteq> None" using jobs.deq_enabled [OF i(1)] by blast
    then obtain o' where w: "worker_thread (fe_world e) = Some o'"
      by (cases "worker_thread (fe_world e)") (auto simp: worker_thread_def split: option.splits)
    obtain j where "j < length (fe_threads e)" "fe_threads e ! j = Running" using running by (auto simp: in_set_conv_nth)
    then show False
      using stuck w running end_work [of j e] end_crash [of e] by (cases o') fastforce+
  qed
  have full: "fe_nulls e = 0"
  proof (rule ccontr)
    assume n: "fe_nulls e \<noteq> 0"
    then have "Running \<in> set (fe_threads e)" using i(5) by (metis count_list_0_iff add_is_0)
    with idle have "contents (jobs_queue (fe_world e)) = []" .
    then have "fa_queue_enqueue (jobs_queue (fe_world e)) None \<noteq> None"
      using jobs.enq_enabled [OF i(1), of None] i(1) by (simp add: queue_inv_def del: contents_length)
    then obtain q where "fa_queue_enqueue (jobs_queue (fe_world e)) None = Some q" by blast
    from end_put [OF _ this] show False using stuck n by blast
  qed
  have "Running \<notin> set (fe_threads e)"
  proof
    assume r: "Running \<in> set (fe_threads e)"
    from idle [OF r] i(2) have "k = 0" by simp
    with i(5) full r show False by (simp add: count_list_0_iff)
  qed
  then have "fe_threads e ! fe_joined e = Ended" if "fe_joined e < n" using i(3,4) that nth_mem by fastforce
  then show False using stuck full i(3,7) end_join [of e] by (cases "fe_joined e = n") auto
qed

lemma ending_joined:
  assumes "ending_inv n e" "fe_joined e = n"
  shows "set (fe_threads e) \<subseteq> {Ended} \<and> (n \<noteq> 0 \<longrightarrow> contents (jobs_queue (fe_world e)) = [])"
proof -
  obtain js k where i: "contents (jobs_queue (fe_world e)) = map Some js @ replicate k None" "length (fe_threads e) = n"
    "count_list (fe_threads e) Running = k + fe_nulls e" "js \<noteq> [] \<Longrightarrow> k + fe_nulls e = n" "\<forall>i < n. fe_threads e ! i = Ended"
    using assms by (auto simp: ending_inv_def)
  have "set (fe_threads e) \<subseteq> {Ended}" using i(2,5) by (auto simp: in_set_conv_nth)
  moreover from this have "count_list (fe_threads e) Running = 0" by (auto simp: count_list_0_iff)
  ultimately show ?thesis using i(1,3,4) by auto
qed

section \<open>Properties\<close>


text \<open>One worker, for which a job that does nothing waits.\<close>

definition fa_idle :: fa_world where
  "fa_idle = \<lparr>requests = (\<lambda>_. None), fw_db = fa_no_rules,
     jobs_queue = \<lparr>buffer = [Some (queue_payload_of ACTION_NONE 0 False), None], capacity = 2, q_size = 1, q_in = 1, q_out = 0\<rparr>,
     reads_on = (\<lambda>_. False), writes_on = (\<lambda>_. False), http_on = True, https_on = True, fw_open = (\<lambda>_. False),
     fw_recv = (\<lambda>_. []), fw_send = (\<lambda>_. []), fw_accept = (\<lambda>_. []), fw_ssl_accept = [], fw_sockets = [], fw_connect = [],
     fw_dns = (\<lambda>_. None), fw_peer = (\<lambda>_. No_Peer), fw_stack = [], fw_junk = (\<lambda>_. NUL), fw_time = 0\<rparr>"

definition fa_one :: fa_process where
  "fa_one = \<lparr>fp_world = fa_idle, fp_http = 3, fp_https = 4, fp_contexts = 1, fp_threads = [Running]\<rparr>"

lemma fa_idle_queue: "queue_inv (jobs_queue fa_idle)" "contents (jobs_queue fa_idle) = map Some [queue_payload_of ACTION_NONE 0 False]"
  by (simp_all add: fa_idle_def queue_inv_def contents_def slot_def)

lemma fa_one_ends: "\<exists>e. ends_in (ending_of fa_one fa_idle) 4 e \<and> fe_joined e = 1"
proof -
  let ?q = "\<lambda>i out n. \<lparr>buffer = [Some (queue_payload_of ACTION_NONE 0 False), None], capacity = 2, q_size = n, q_in = i, q_out = out\<rparr>"
  let ?e = "\<lambda>i out n nulls t j. \<lparr>fe_world = fa_idle\<lparr>jobs_queue := ?q i out n\<rparr>, fe_nulls = nulls, fe_threads = [t], fe_joined = j\<rparr>"
  have 0: "ending_of fa_one fa_idle = ?e 1 0 1 1 Running 0"
    by (simp add: ending_of_def fa_one_def fa_idle_def)
  have 1: "ending_step (?e 1 0 1 1 Running 0) (Some (?e 0 0 2 0 Running 0))"
    using end_put [of "?e 1 0 1 1 Running 0" "?q 0 0 2"] by (simp add: fa_queue_enqueue_def Let_def)
  have 2: "ending_step (?e 0 0 2 0 Running 0) (Some (?e 0 1 1 0 Running 0))"
    using end_work [of 0 "?e 0 0 2 0 Running 0" True "fa_idle\<lparr>jobs_queue := ?q 0 1 1\<rparr>"]
    by (simp add: worker_thread_def fa_queue_dequeue_def do_job_def queue_payload_of_def Let_def)
  have 3: "ending_step (?e 0 1 1 0 Running 0) (Some (?e 0 0 0 0 Ended 0))"
    using end_work [of 0 "?e 0 1 1 0 Running 0" False "fa_idle\<lparr>jobs_queue := ?q 0 0 0\<rparr>"]
    by (simp add: worker_thread_def fa_queue_dequeue_def Let_def)
  have 4: "ending_step (?e 0 0 0 0 Ended 0) (Some (?e 0 0 0 0 Ended 1))"
    using end_join [of "?e 0 0 0 0 Ended 0"] by simp
  have "ends_in (?e 1 0 1 1 Running 0) 4 (?e 0 0 0 0 Ended 1)"
    using ends_more [OF ends_more [OF ends_more [OF ends_more [OF ends_here 1] 2] 3] 4] by (simp add: eval_nat_numeral)
  then show ?thesis unfolding 0 by (intro exI [of _ "?e 0 0 0 0 Ended 1"]) simp
qed


end
