(* ===== verification/Errno.thy ===== *)
theory Errno
  imports Config
begin

text \<open>
  The text of an error number, \<^verbatim>\<open>proc_errno_message\<close> in \<^verbatim>\<open>rena/src/proc.c\<close>: the number in
  brackets, then what \<^verbatim>\<open>strerror_r\<close> says.  The messages of the system are a parameter, with whether
  the call failed.  Both writes behind the number are given the size of the whole buffer; a write behind its
  end is the crash.
\<close>

definition show_int :: "int \<Rightarrow> string" where
  "show_int n = (if n < 0 then CHR ''-'' # dec (nat (- n)) else dec (nat n))"

definition proc_errno_message :: "(int \<Rightarrow> string \<times> bool) \<Rightarrow> int \<Rightarrow> nat \<Rightarrow> (string \<times> int) option" where
  "proc_errno_message strerror_r erro buf_len =
    (let buf = snprintf_to buf_len (CHR ''('' # show_int erro @ '') '');
         code_len = length buf
     in if code_len \<ge> buf_len then Some (buf, erro)
        else (let msg = (if snd (strerror_r erro) then ''unknown'' else fst (strerror_r erro));
                  written = snprintf_to buf_len msg
              in if code_len + length written \<ge> buf_len then None else Some (buf @ written, erro)))"

text \<open>The text is right when it fits; else it is written behind the buffer.\<close>

lemma errno_message_fits:
  assumes "\<not> snd (strerror_r e)" and "length (show_int e) + 4 \<le> n"
  shows "proc_errno_message strerror_r e n =
    (if length (show_int e) + 3 + length (fst (strerror_r e)) < n
     then Some (CHR ''('' # show_int e @ '') '' @ fst (strerror_r e), e) else None)"
  using assms by (auto simp: proc_errno_message_def snprintf_to_def Let_def min_def)

end
