(* ===== verification/EcapPython.thy ===== *)
theory EcapPython
  imports RenaPrelude
begin

text \<open>
  The bridge from the Squid adapter to its Python code, \<^verbatim>\<open>squid/src/ecap/adapter_python_interface.c\<close>.
  The interpreter is not under \<^verbatim>\<open>src/\<close>: what its calls return are scripts, and the state keeps the
  references that the adapter owns, each under a number of its own.  Releasing a reference that is not
  owned is a crash, and so is using one.
\<close>

section \<open>The interpreter\<close>

datatype py_value = Py_None | Py_Int int | Py_Str string | Py_Bytes string
  | Py_Sequence "py_value list" | Py_Dict "(string \<times> py_value) list" | Py_Other "bool option"

text \<open>The truth of a value; a test of another object can raise.\<close>

fun py_truth :: "py_value \<Rightarrow> bool option" where
  "py_truth Py_None = Some False"
| "py_truth (Py_Int n) = Some (n \<noteq> 0)"
| "py_truth (Py_Str s) = Some (s \<noteq> [])"
| "py_truth (Py_Bytes s) = Some (s \<noteq> [])"
| "py_truth (Py_Sequence xs) = Some (xs \<noteq> [])"
| "py_truth (Py_Dict xs) = Some (xs \<noteq> [])"
| "py_truth (Py_Other b) = b"

datatype py_error = No_Error | Some_Error | System_Exit nat

datatype py_end = Exits nat | Crashes

record py_world =
  py_running :: bool
  py_path :: string
  py_refs :: "nat \<rightharpoonup> py_value"
  py_next :: nat
  py_err :: py_error
  py_builds :: "bool list"
  py_imports :: "py_value option list"
  py_attrs :: "bool option list"
  py_calls :: "(py_error + py_value) list"
  py_log :: "(string \<times> py_value \<times> (py_error + py_value)) list"

text \<open>A call that ends the process, or goes on with its result.\<close>

definition and_then :: "py_end + 'a \<Rightarrow> ('a \<Rightarrow> py_end + 'b) \<Rightarrow> py_end + 'b" where
  "and_then m f = (case m of Inl e \<Rightarrow> Inl e | Inr x \<Rightarrow> f x)"

lemma and_then_simps [simp]: "and_then (Inl e) f = Inl e" "and_then (Inr x) f = f x"
  by (simp_all add: and_then_def)

lemma and_then_Inr: "and_then m f = Inr y \<longleftrightarrow> (\<exists>x. m = Inr x \<and> f x = Inr y)"
  by (cases m) simp_all

definition new_ref :: "py_value \<Rightarrow> py_world \<Rightarrow> nat option \<times> py_world" where
  "new_ref v w = (Some (py_next w), w\<lparr>py_refs := (py_refs w)(py_next w \<mapsto> v), py_next := py_next w + 1\<rparr>)"

definition Py_CLEAR :: "nat option \<Rightarrow> py_world \<Rightarrow> py_end + py_world" where
  "Py_CLEAR r w =
    (case r of
       None \<Rightarrow> Inr w
     | Some a \<Rightarrow> if py_refs w a = None then Inl Crashes else Inr (w\<lparr>py_refs := (py_refs w)(a := None)\<rparr>))"

text \<open>\<^verbatim>\<open>PyErr_Print\<close> ends the process when the error is \<^verbatim>\<open>SystemExit\<close>.\<close>

definition PyErr_Print :: "py_world \<Rightarrow> py_end + py_world" where
  "PyErr_Print w = (case py_err w of System_Exit n \<Rightarrow> Inl (Exits n) | _ \<Rightarrow> Inr (w\<lparr>py_err := No_Error\<rparr>))"

definition PyErr_Clear :: "py_world \<Rightarrow> py_world" where
  "PyErr_Clear w = w\<lparr>py_err := No_Error\<rparr>"

definition report :: "py_world \<Rightarrow> py_end + py_world" where
  "report w = and_then (PyErr_Print w) (\<lambda>w. Inr (PyErr_Clear w))"

text \<open>\<^verbatim>\<open>Py_BuildValue\<close> and \<^verbatim>\<open>PyUnicode_FromString\<close>: a new object, or a failure.\<close>

definition py_build :: "py_value \<Rightarrow> py_world \<Rightarrow> nat option \<times> py_world" where
  "py_build v w =
    (case py_builds w of
       [] \<Rightarrow> new_ref v w
     | ok # bs \<Rightarrow> if ok then new_ref v (w\<lparr>py_builds := bs\<rparr>) else (None, w\<lparr>py_builds := bs, py_err := Some_Error\<rparr>))"

text \<open>The same with an object among its arguments: NULL fails.\<close>

definition py_build_with :: "nat option \<Rightarrow> (py_value \<Rightarrow> py_value) \<Rightarrow> py_world \<Rightarrow> py_end + (nat option \<times> py_world)" where
  "py_build_with r f w =
    (case r of
       None \<Rightarrow> Inr (None, w\<lparr>py_err := Some_Error\<rparr>)
     | Some a \<Rightarrow> (case py_refs w a of None \<Rightarrow> Inl Crashes | Some v \<Rightarrow> Inr (py_build (f v) w)))"

text \<open>\<^verbatim>\<open>PyObject_GetAttrString\<close>, and whether what it found can be called.\<close>

definition py_getattr :: "nat option \<Rightarrow> py_world \<Rightarrow> py_end + (nat option \<times> bool \<times> py_world)" where
  "py_getattr m w =
    (case m of
       None \<Rightarrow> Inl Crashes
     | Some a \<Rightarrow>
         if py_refs w a = None then Inl Crashes
         else (let (found, w) = (case py_attrs w of [] \<Rightarrow> (Some True, w) | x # xs \<Rightarrow> (x, w\<lparr>py_attrs := xs\<rparr>))
               in case found of
                    None \<Rightarrow> Inr (None, False, w\<lparr>py_err := Some_Error\<rparr>)
                  | Some c \<Rightarrow> (case new_ref (Py_Other (Some True)) w of (r, w) \<Rightarrow> Inr (r, c, w))))"

text \<open>\<^verbatim>\<open>PyObject_Call\<close>, noted with its arguments and its result.\<close>

definition py_object_call :: "string \<Rightarrow> nat option \<Rightarrow> py_world \<Rightarrow> py_end + (nat option \<times> py_world)" where
  "py_object_call name args w =
    (case args of
       None \<Rightarrow> Inl Crashes
     | Some a \<Rightarrow> (case py_refs w a of
           None \<Rightarrow> Inl Crashes
         | Some v \<Rightarrow>
             (let (res, w) = (case py_calls w of [] \<Rightarrow> (Inr Py_None, w) | c # cs \<Rightarrow> (c, w\<lparr>py_calls := cs\<rparr>));
                  w = w\<lparr>py_log := py_log w @ [(name, v, res)]\<rparr>
              in case res of
                   Inl e \<Rightarrow> Inr (None, w\<lparr>py_err := e\<rparr>)
                 | Inr x \<Rightarrow> Inr (new_ref x w))))"

text \<open>\<^verbatim>\<open>PyArg_Parse\<close> with the formats the adapter uses; the object it gives is borrowed.\<close>

definition py_parse_object :: "nat option \<Rightarrow> py_world \<Rightarrow> py_end + (py_value option \<times> py_world)" where
  "py_parse_object r w =
    (case r of
       None \<Rightarrow> Inr (None, w\<lparr>py_err := Some_Error\<rparr>)
     | Some a \<Rightarrow> (case py_refs w a of None \<Rightarrow> Inl Crashes | Some v \<Rightarrow> Inr (Some v, w)))"

definition py_parse_pair :: "nat option \<Rightarrow> py_world \<Rightarrow> py_end + ((int \<times> py_value) option \<times> py_world)" where
  "py_parse_pair r w = and_then (py_parse_object r w) (\<lambda>(v, w).
     case v of
       Some (Py_Sequence [c, x]) \<Rightarrow>
         (case py_truth c of
            None \<Rightarrow> Inr (None, w\<lparr>py_err := Some_Error\<rparr>)
          | Some b \<Rightarrow> Inr (Some (if b then 1 else 0, x), w))
     | _ \<Rightarrow> Inr (None, w\<lparr>py_err := Some_Error\<rparr>))"

section \<open>The adapter\<close>

record pyin_callable =
  pc_function_name :: string
  pc_module :: "nat option"
  pc_arguments :: "nat option"
  pc_keywords :: "nat option"
  pc_ret_value :: "nat option"

record pyin_adapt_text =
  at_module :: "nat option"
  at_state :: "nat option"
  at_vb :: string
  at_ab :: "string option"

definition pyin_start :: "string \<Rightarrow> py_world \<Rightarrow> py_world" where
  "pyin_start pypath w = w\<lparr>py_path := pypath, py_running := True\<rparr>"

text \<open>\<^verbatim>\<open>Py_Finalize\<close> ends every object that is still there.\<close>

definition pyin_finish :: "nat option \<Rightarrow> nat option \<Rightarrow> py_world \<Rightarrow> py_end + py_world" where
  "pyin_finish module controller w =
    and_then (Py_CLEAR controller w) (\<lambda>w. and_then (Py_CLEAR module w) (\<lambda>w. Inr (w\<lparr>py_running := False, py_refs := Map.empty\<rparr>)))"

definition pyin_get_module :: "string \<Rightarrow> py_world \<Rightarrow> py_end + (nat option \<times> py_world)" where
  "pyin_get_module name w =
    (case py_build (Py_Str name) w of (filename, w) \<Rightarrow>
       if filename = None then Inl (Exits 39)
       else (let (m, w) = (case py_imports w of
                  [] \<Rightarrow> new_ref (Py_Other (Some True)) w
                | None # is \<Rightarrow> (None, w\<lparr>py_imports := is, py_err := Some_Error\<rparr>)
                | Some v # is \<Rightarrow> new_ref v (w\<lparr>py_imports := is\<rparr>))
             in and_then (Py_CLEAR filename w) (\<lambda>w.
                  if m = None then and_then (PyErr_Print w) (\<lambda>w. Inl (Exits 47)) else Inr (m, w))))"

definition pyin_call_internal :: "pyin_callable \<Rightarrow> py_world \<Rightarrow> py_end + (int \<times> pyin_callable \<times> py_world)" where
  "pyin_call_internal pyca w =
    and_then (py_getattr (pc_module pyca) w) (\<lambda>(fnc, callable, w).
      if fnc = None \<or> \<not> callable then
        and_then (Py_CLEAR fnc w) (\<lambda>w. and_then (report w) (\<lambda>w. Inr (- 2, pyca, w)))
      else
        and_then (py_object_call (pc_function_name pyca) (pc_arguments pyca) w) (\<lambda>(ret, w).
        and_then (Py_CLEAR fnc w) (\<lambda>w.
          Inr (if ret = None then - 1 else 0, pyca\<lparr>pc_ret_value := ret\<rparr>, w))))"

text \<open>The size of an object that is not bytes is \<^verbatim>\<open>(size_t) -1\<close>, and the copy fails.\<close>

definition get_bytes_from_python :: "py_value \<Rightarrow> py_end + string" where
  "get_bytes_from_python v = (case v of Py_Bytes s \<Rightarrow> Inr s | _ \<Rightarrow> Inl Crashes)"

definition pyin_create_controller :: "nat option \<Rightarrow> string \<Rightarrow> string \<Rightarrow> py_world \<Rightarrow> py_end + (nat option \<times> py_world)" where
  "pyin_create_controller module suff db_path w =
    (case py_build (Py_Sequence [Py_Bytes suff]) w of (args, w) \<Rightarrow>
      if args = None then and_then (report w) (\<lambda>w. Inl (Exits 108))
      else (case py_build (Py_Dict [(''database_path'', Py_Str db_path)]) w of (kw, w) \<Rightarrow>
        if kw = None then and_then (report w) (\<lambda>w. Inl (Exits 116))
        else and_then (pyin_call_internal \<lparr>pc_function_name = ''ProxyController'', pc_module = module, pc_arguments = args,
            pc_keywords = kw, pc_ret_value = None\<rparr> w) (\<lambda>(r, pyca, w).
          if r \<noteq> 0 then
            and_then (Py_CLEAR args w) (\<lambda>w. and_then (Py_CLEAR kw w) (\<lambda>w.
              and_then (Py_CLEAR (pc_ret_value pyca) w) (\<lambda>w. and_then (report w) (\<lambda>w. Inl (Exits 129)))))
          else
            and_then (Py_CLEAR args w) (\<lambda>w. and_then (Py_CLEAR kw w) (\<lambda>w. Inr (pc_ret_value pyca, w))))))"

definition callable_of :: "string \<Rightarrow> pyin_adapt_text \<Rightarrow> nat option \<Rightarrow> pyin_callable" where
  "callable_of name at args = \<lparr>pc_function_name = name, pc_module = at_module at, pc_arguments = args, pc_keywords = None,
     pc_ret_value = None\<rparr>"

definition pyin_adapt_begin ::
  "pyin_adapt_text \<Rightarrow> nat option \<Rightarrow> string \<Rightarrow> bool \<Rightarrow> py_world \<Rightarrow> py_end + (int \<times> pyin_adapt_text \<times> py_world)" where
  "pyin_adapt_begin at controller uri request_service w =
    and_then (py_build_with controller (\<lambda>pc. Py_Dict [(''pc'', pc), (''uri'', Py_Str uri),
        (''request_service'', Py_Int (if request_service then 1 else 0)),
        (''reply_service'', Py_Int (if request_service then 0 else 1))]) w) (\<lambda>(state, w).
    (let at = at\<lparr>at_state := state\<rparr> in
     if state = None then and_then (report w) (\<lambda>w. Inr (- 2, at, w))
     else and_then (py_build_with state (\<lambda>s. Py_Sequence [s]) w) (\<lambda>(args, w).
       if args = None then
         and_then (Py_CLEAR state w) (\<lambda>w. and_then (report w) (\<lambda>w. Inr (- 3, at\<lparr>at_state := None\<rparr>, w)))
       else and_then (pyin_call_internal (callable_of ''adapt_begin'' at args) w) (\<lambda>(r, pyca, w).
         if r \<noteq> 0 then
           and_then (Py_CLEAR args w) (\<lambda>w. and_then (Py_CLEAR state w) (\<lambda>w.
             and_then (report w) (\<lambda>w. Inr (- 4, at\<lparr>at_state := None\<rparr>, w))))
         else
           and_then (Py_CLEAR args w) (\<lambda>w. and_then (Py_CLEAR (pc_ret_value pyca) w) (\<lambda>w. Inr (0, at, w)))))))"

text \<open>\<^verbatim>\<open>pyin_adapt_end\<close>: a failed call is reported and its missing result then fails to parse.\<close>

definition pyin_adapt_end :: "pyin_adapt_text \<Rightarrow> py_world \<Rightarrow> py_end + (int \<times> pyin_adapt_text \<times> py_world)" where
  "pyin_adapt_end at w =
    and_then (py_build_with (at_state at) (\<lambda>s. Py_Sequence [s]) w) (\<lambda>(args, w).
      if args = None then and_then (report w) (\<lambda>w. Inr (- 1, at, w))
      else and_then (pyin_call_internal (callable_of ''adapt_end'' at args) w) (\<lambda>(r, pyca, w).
        and_then (if r \<noteq> 0 then report w else Inr w) (\<lambda>w.
        and_then (Py_CLEAR args w) (\<lambda>w.
        and_then (py_parse_object (pc_ret_value pyca) w) (\<lambda>(v, w).
          case v of
            None \<Rightarrow> and_then (Py_CLEAR (pc_ret_value pyca) w) (\<lambda>w. and_then (report w) (\<lambda>w. Inr (- 4, at, w)))
          | Some v \<Rightarrow>
              and_then (if v \<noteq> Py_None then and_then (get_bytes_from_python v) (\<lambda>s. Inr (at\<lparr>at_ab := Some s\<rparr>)) else Inr at) (\<lambda>at.
              and_then (Py_CLEAR (pc_ret_value pyca) w) (\<lambda>w.
              and_then (Py_CLEAR (at_state at) w) (\<lambda>w. Inr (0, at\<lparr>at_state := None\<rparr>, w)))))))))"

definition pyin_adapt_header :: "pyin_adapt_text \<Rightarrow> string \<Rightarrow> py_world \<Rightarrow> py_end + (int \<times> pyin_adapt_text \<times> py_world)" where
  "pyin_adapt_header at name w =
    and_then (py_build_with (at_state at) (\<lambda>s. Py_Sequence [s, Py_Bytes (take 51201 name), Py_Bytes (at_vb at)]) w) (\<lambda>(args, w).
      if args = None then and_then (report w) (\<lambda>w. Inr (- 1, at, w))
      else and_then (pyin_call_internal (callable_of ''adapt_header'' at args) w) (\<lambda>(r, pyca, w).
        if r \<noteq> 0 then and_then (Py_CLEAR args w) (\<lambda>w. and_then (report w) (\<lambda>w. Inr (- 2, at, w)))
        else and_then (Py_CLEAR args w) (\<lambda>w.
          and_then (py_parse_pair (pc_ret_value pyca) w) (\<lambda>(p, w).
            case p of
              None \<Rightarrow> and_then (Py_CLEAR (pc_ret_value pyca) w) (\<lambda>w. and_then (report w) (\<lambda>w. Inr (- 4, at, w)))
            | Some (changed, v) \<Rightarrow>
                and_then (if v \<noteq> Py_None \<and> changed > 0 then and_then (get_bytes_from_python v) (\<lambda>s. Inr (at\<lparr>at_ab := Some s\<rparr>))
                          else Inr at) (\<lambda>at.
                and_then (Py_CLEAR (pc_ret_value pyca) w) (\<lambda>w. Inr (changed, at, w)))))))"

definition pyin_adapt_body :: "pyin_adapt_text \<Rightarrow> py_world \<Rightarrow> py_end + (int \<times> pyin_adapt_text \<times> py_world)" where
  "pyin_adapt_body at w =
    and_then (py_build_with (at_state at) (\<lambda>s. Py_Sequence [s, Py_Bytes (at_vb at)]) w) (\<lambda>(args, w).
      if args = None then and_then (report w) (\<lambda>w. Inr (- 1, at, w))
      else and_then (pyin_call_internal (callable_of ''adapt_body'' at args) w) (\<lambda>(r, pyca, w).
        if r \<noteq> 0 then and_then (Py_CLEAR args w) (\<lambda>w. and_then (report w) (\<lambda>w. Inr (- 2, at, w)))
        else and_then (Py_CLEAR args w) (\<lambda>w.
          and_then (py_parse_object (pc_ret_value pyca) w) (\<lambda>(v, w).
            case v of
              None \<Rightarrow> and_then (Py_CLEAR (pc_ret_value pyca) w) (\<lambda>w. and_then (report w) (\<lambda>w. Inr (- 4, at, w)))
            | Some v \<Rightarrow>
                and_then (if v \<noteq> Py_None then and_then (get_bytes_from_python v) (\<lambda>s. Inr (at\<lparr>at_ab := Some s\<rparr>)) else Inr at) (\<lambda>at.
                and_then (Py_CLEAR (pc_ret_value pyca) w) (\<lambda>w. Inr (0, at, w)))))))"

section \<open>Weakest preconditions\<close>

text \<open>The outcome \<open>m\<close> is no crash, exits only with a code in \<open>E\<close>, and returns only what \<open>P\<close> allows.\<close>

definition py_run :: "(nat \<Rightarrow> bool) \<Rightarrow> py_end + 'a \<Rightarrow> ('a \<Rightarrow> bool) \<Rightarrow> bool" where
  "py_run E m P = (case m of Inl (Exits n) \<Rightarrow> E n | Inl Crashes \<Rightarrow> False | Inr x \<Rightarrow> P x)"

lemma py_run_simps [simp]:
  "py_run E (Inl (Exits n)) P = E n" "py_run E (Inl Crashes) P = False" "py_run E (Inr x) P = P x"
  "py_run E (and_then m f) P = py_run E m (\<lambda>x. py_run E (f x) P)"
  by (auto simp: py_run_def and_then_def split: sum.splits py_end.splits)

lemma py_run_mono: "py_run E m Q \<Longrightarrow> (\<And>x. Q x \<Longrightarrow> P x) \<Longrightarrow> py_run E m P"
  by (auto simp: py_run_def split: sum.splits py_end.splits)

type_synonym py_log = "(string \<times> py_value \<times> (py_error + py_value)) list"

text \<open>A sound interpreter: numbers are fresh, a pending exit and the exits to come are in \<open>E\<close>, the
  results to come satisfy \<open>T\<close>, and the calls so far are \<open>L\<close>.\<close>

definition py_good :: "(nat \<Rightarrow> bool) \<Rightarrow> (py_value \<Rightarrow> bool) \<Rightarrow> py_log \<Rightarrow> py_world \<Rightarrow> bool" where
  "py_good E T L w \<longleftrightarrow> py_log w = L \<and> (\<forall>a. a \<ge> py_next w \<longrightarrow> py_refs w a = None) \<and> (\<forall>n. py_err w = System_Exit n \<longrightarrow> E n) \<and>
     T Py_None \<and> (\<forall>n. Inl (System_Exit n) \<in> set (py_calls w) \<longrightarrow> E n) \<and> (\<forall>v. Inr v \<in> set (py_calls w) \<longrightarrow> T v)"

definition live :: "py_world \<Rightarrow> nat option \<Rightarrow> bool" where
  "live w r \<longleftrightarrow> (case r of None \<Rightarrow> False | Some a \<Rightarrow> py_refs w a \<noteq> None)"

text \<open>A new reference.\<close>

definition gains :: "py_world \<Rightarrow> nat option \<Rightarrow> (py_value \<Rightarrow> bool) \<Rightarrow> py_world \<Rightarrow> bool" where
  "gains w r V w' \<longleftrightarrow> (\<exists>a v. r = Some a \<and> py_refs w a = None \<and> V v \<and> py_refs w' = (py_refs w)(a \<mapsto> v))"

lemma report_run:
  "py_good E T L w \<Longrightarrow> (\<And>v. py_good E T L v \<Longrightarrow> py_refs v = py_refs w \<Longrightarrow> P v) \<Longrightarrow> py_run E (report w) P"
  by (auto simp: report_def PyErr_Print_def PyErr_Clear_def py_good_def split: py_error.splits)

lemma clear_run:
  "py_good E T L w \<Longrightarrow> live w (Some a) \<Longrightarrow> (\<And>v. py_good E T L v \<Longrightarrow> py_refs v = (py_refs w)(a := None) \<Longrightarrow> P v) \<Longrightarrow>
    py_run E (Py_CLEAR (Some a) w) P"
  by (auto simp: Py_CLEAR_def live_def py_good_def split: option.splits)

lemma clear_none [simp]: "Py_CLEAR None w = Inr w"
  by (simp add: Py_CLEAR_def)

lemma new_ref_gains:
  "py_good E T L w \<Longrightarrow> V v \<Longrightarrow> new_ref v w = (r, w') \<Longrightarrow> gains w r V w' \<and> py_good E T L w'"
  by (auto simp: new_ref_def gains_def py_good_def)

lemma build_with_run:
  assumes "py_good E T L w" "py_refs w a = Some x"
    and "\<And>v. py_good E T L v \<Longrightarrow> py_refs v = py_refs w \<Longrightarrow> P (None, v)"
    and "\<And>r v. py_good E T L v \<Longrightarrow> gains w (Some r) (\<lambda>y. y = f x) v \<Longrightarrow> P (Some r, v)"
  shows "py_run E (py_build_with (Some a) f w) P"
proof -
  note x = assms(2)
  show ?thesis
  proof (cases "py_builds w")
    case Nil
    obtain r v where n: "new_ref (f x) w = (r, v)" by fastforce
    with new_ref_gains [OF assms(1) _ n, of "\<lambda>y. y = f x"] show ?thesis
      using x Nil assms(4) [of v] by (auto simp: py_build_with_def py_build_def gains_def)
  next
    case (Cons ok bs)
    show ?thesis
    proof (cases ok)
      case False
      then show ?thesis using x Cons assms(1,3) by (simp add: py_build_with_def py_build_def py_good_def)
    next
      case True
      obtain r v where n: "new_ref (f x) (w\<lparr>py_builds := bs\<rparr>) = (r, v)" by fastforce
      have "py_good E T L (w\<lparr>py_builds := bs\<rparr>)" using assms(1) by (simp add: py_good_def)
      from new_ref_gains [OF this _ n, of "\<lambda>y. y = f x"] show ?thesis
        using x Cons True n assms(4) [of v] by (auto simp: py_build_with_def py_build_def gains_def)
    qed
  qed
qed

lemma getattr_run:
  assumes "py_good E T L w" "live w m"
    and "\<And>v. py_good E T L v \<Longrightarrow> py_refs v = py_refs w \<Longrightarrow> P (None, False, v)"
    and "\<And>r c v. py_good E T L v \<Longrightarrow> gains w (Some r) (\<lambda>_. True) v \<Longrightarrow> P (Some r, c, v)"
  shows "py_run E (py_getattr m w) P"
proof -
  obtain a x where a: "m = Some a" "py_refs w a = Some x" using assms(2) by (auto simp: live_def split: option.splits)
  obtain found u where f: "(case py_attrs w of [] \<Rightarrow> (Some True, w) | x # xs \<Rightarrow> (x, w\<lparr>py_attrs := xs\<rparr>)) = (found, u)" by fastforce
  have u: "py_good E T L u" "py_refs u = py_refs w" using f assms(1) by (auto simp: py_good_def split: list.splits)
  show ?thesis
  proof (cases found)
    case None
    then show ?thesis using a f u assms(3) [of "u\<lparr>py_err := Some_Error\<rparr>"] by (simp add: py_getattr_def py_good_def)
  next
    case (Some c)
    obtain r v where n: "new_ref (Py_Other (Some True)) u = (r, v)" by fastforce
    from new_ref_gains [OF u(1) _ n, of "\<lambda>_. True"] show ?thesis
      using a f Some n u(2) assms(4) [of v] by (auto simp: py_getattr_def gains_def)
  qed
qed

lemma object_call_run:
  assumes w: "py_good E T L w" and a: "py_refs w a = Some av"
    and fails: "\<And>e v. py_good E T (L @ [(name, av, Inl e)]) v \<Longrightarrow> py_refs v = py_refs w \<Longrightarrow> P (None, v)"
    and gives: "\<And>r x v. py_good E T (L @ [(name, av, Inr x)]) v \<Longrightarrow> gains w (Some r) (\<lambda>y. y = x \<and> T y) v \<Longrightarrow> P (Some r, v)"
  shows "py_run E (py_object_call name (Some a) w) P"
proof -
  obtain res u where u: "(case py_calls w of [] \<Rightarrow> (Inr Py_None, w) | c # cs \<Rightarrow> (c, w\<lparr>py_calls := cs\<rparr>)) = (res, u)" by fastforce
  have res: "\<forall>n. res = Inl (System_Exit n) \<longrightarrow> E n" "\<forall>v. res = Inr v \<longrightarrow> T v" "py_good E T L u" "py_refs u = py_refs w"
    using u w by (auto simp: py_good_def split: list.splits)
  let ?u = "u\<lparr>py_log := py_log u @ [(name, av, res)]\<rparr>"
  have g: "py_good E T (L @ [(name, av, res)]) ?u" using res(3) by (simp add: py_good_def)
  show ?thesis
  proof (cases res)
    case (Inl e)
    then have "py_good E T (L @ [(name, av, Inl e)]) (?u\<lparr>py_err := e\<rparr>)" using g res(1) by (simp add: py_good_def)
    from fails [OF this] show ?thesis using a u Inl res(4) by (simp add: py_object_call_def)
  next
    case (Inr x)
    obtain r v where n: "new_ref x ?u = (r, v)" by fastforce
    have "gains ?u r (\<lambda>y. y = x \<and> T y) v \<and> py_good E T (L @ [(name, av, res)]) v"
      using res(2) Inr by (intro new_ref_gains [OF g _ n]) simp
    then show ?thesis using a u Inr n res(4) gives [of x v] by (auto simp: py_object_call_def gains_def)
  qed
qed

lemma gains_live: "gains w (Some r) V v \<Longrightarrow> live v (Some r)"
  by (auto simp: gains_def live_def)

lemma gains_keeps_live: "gains w (Some r) V v \<Longrightarrow> live w m \<Longrightarrow> live v m"
  by (auto simp: gains_def live_def split: option.splits)

lemma gains_cleared: "gains w (Some r) V v \<Longrightarrow> py_refs u = (py_refs v)(r := None) \<Longrightarrow> py_refs u = py_refs w"
  by (auto simp: gains_def fun_upd_idem)

lemma gains_swap:
  assumes "gains w (Some r) V v" "gains v (Some s) U u" "py_refs x = (py_refs u)(r := None)"
  shows "gains w (Some s) U x"
  using assms by (auto simp: gains_def fun_eq_iff split: if_splits)

lemma gains_same: "gains w r V v \<Longrightarrow> py_refs u = py_refs v \<Longrightarrow> gains w r V u"
  "gains w r V v \<Longrightarrow> py_refs u = py_refs w \<Longrightarrow> gains u r V v"
  by (auto simp: gains_def)

lemma live_same: "py_refs u = py_refs v \<Longrightarrow> live u = live v"
  by (rule ext) (simp add: live_def split: option.split)

text \<open>The internal call gives a new reference to a result, or nothing.\<close>

lemma call_internal_run:
  assumes w: "py_good E T L w" and m: "live w (pc_module pyca)" and args: "pc_arguments pyca = Some a" "py_refs w a = Some av"
    and none: "pc_ret_value pyca = None"
    and fails: "\<And>r v X. r \<noteq> 0 \<Longrightarrow> py_good E T (L @ X) v \<Longrightarrow> py_refs v = py_refs w \<Longrightarrow> P (r, pyca, v)"
    and gives: "\<And>r v x. py_good E T (L @ [(pc_function_name pyca, av, Inr x)]) v \<Longrightarrow> gains w (Some r) (\<lambda>y. y = x \<and> T y) v \<Longrightarrow>
      P (0, pyca\<lparr>pc_ret_value := Some r\<rparr>, v)"
  shows "py_run E (pyin_call_internal pyca w) P"
proof -
  have same: "pyca\<lparr>pc_ret_value := None\<rparr> = pyca" using none by simp
  have fails0: "py_good E T L v \<Longrightarrow> py_refs v = py_refs w \<Longrightarrow> r \<noteq> 0 \<Longrightarrow> P (r, pyca, v)" for r v
    using fails [of r "[]"] by simp
  let ?go = "\<lambda>(fnc, callable, w). if fnc = None \<or> \<not> callable
      then and_then (Py_CLEAR fnc w) (\<lambda>w. and_then (report w) (\<lambda>w. Inr (- 2, pyca, w)))
      else and_then (py_object_call (pc_function_name pyca) (pc_arguments pyca) w) (\<lambda>(ret, w).
        and_then (Py_CLEAR fnc w) (\<lambda>w. Inr (if ret = None then - 1 else 0, pyca\<lparr>pc_ret_value := ret\<rparr>, w)))"
  have "py_run E (py_getattr (pc_module pyca) w) (\<lambda>x. py_run E (?go x) P)"
  proof (rule getattr_run [OF w m])
    fix v assume "py_good E T L v" "py_refs v = py_refs w"
    then show "py_run E (?go (None, False, v)) P" by (auto intro!: report_run fails0)
  next
    fix r c v assume v: "py_good E T L v" "gains w (Some r) (\<lambda>_. True) v"
    note l = gains_live [OF v(2)]
    have a: "py_refs v a = Some av" using v(2) args(2) by (auto simp: gains_def)
    have bad: "py_run E (and_then (Py_CLEAR (Some r) v) (\<lambda>w. and_then (report w) (\<lambda>w. Inr (- 2, pyca, w)))) P"
      unfolding py_run_simps
      by (rule clear_run [OF v(1) l], rule report_run, assumption) (auto intro!: fails0 dest: gains_cleared [OF v(2)])
    have good: "py_run E (and_then (py_object_call (pc_function_name pyca) (Some a) v) (\<lambda>(ret, w).
          and_then (Py_CLEAR (Some r) w) (\<lambda>w. Inr (if ret = None then - 1 else 0, pyca\<lparr>pc_ret_value := ret\<rparr>, w)))) P"
      unfolding py_run_simps
    proof (rule object_call_run [OF v(1) a])
      fix e u assume u: "py_good E T (L @ [(pc_function_name pyca, av, Inl e)]) u" "py_refs u = py_refs v"
      have lu: "live u (Some r)" using l live_same [OF u(2)] by simp
      show "py_run E (case (None, u) of (ret, w) \<Rightarrow> and_then (Py_CLEAR (Some r) w)
          (\<lambda>w. Inr (if ret = None then - 1 else 0, pyca\<lparr>pc_ret_value := ret\<rparr>, w))) P"
        by (simp, rule clear_run [OF u(1) lu]) (use same u(2) in \<open>auto intro!: fails dest: gains_cleared [OF v(2)]\<close>)
    next
      fix s x u assume u: "py_good E T (L @ [(pc_function_name pyca, av, Inr x)]) u" "gains v (Some s) (\<lambda>y. y = x \<and> T y) u"
      show "py_run E (case (Some s, u) of (ret, w) \<Rightarrow> and_then (Py_CLEAR (Some r) w)
          (\<lambda>w. Inr (if ret = None then - 1 else 0, pyca\<lparr>pc_ret_value := ret\<rparr>, w))) P"
        by (simp, rule clear_run [OF u(1) gains_keeps_live [OF u(2) l]])
          (auto intro!: gives gains_swap [OF v(2) u(2)])
    qed
    show "py_run E (?go (Some r, c, v)) P" using bad good args(1) by simp
  qed
  then show ?thesis by (simp add: pyin_call_internal_def)
qed

section \<open>The four entry points\<close>

definition plain_result :: "py_value \<Rightarrow> bool" where
  "plain_result v \<longleftrightarrow> v = Py_None \<or> (\<exists>s. v = Py_Bytes s)"

definition header_result :: "py_value \<Rightarrow> bool" where
  "header_result v \<longleftrightarrow> (\<forall>c x. v = Py_Sequence [c, x] \<longrightarrow> plain_result x)"

lemma get_bytes_plain: "plain_result v \<Longrightarrow> v \<noteq> Py_None \<Longrightarrow> \<exists>s. v = Py_Bytes s \<and> get_bytes_from_python v = Inr s"
  by (auto simp: plain_result_def get_bytes_from_python_def)

lemma gains_ref: "gains w (Some r) (\<lambda>y. y = x \<and> T y) v \<Longrightarrow> py_refs v r = Some x \<and> T x"
  by (auto simp: gains_def)

lemma gains_ref': "gains w (Some r) (\<lambda>y. y = x) v \<Longrightarrow> py_refs v r = Some x"
  by (auto simp: gains_def)

lemma gains_old: "gains w (Some r) V v \<Longrightarrow> py_refs w a = Some x \<Longrightarrow> py_refs v a = Some x"
  by (auto simp: gains_def)

lemma callable_fields [simp]:
  "pc_function_name (callable_of n at args) = n" "pc_module (callable_of n at args) = at_module at"
  "pc_arguments (callable_of n at args) = args" "pc_ret_value (callable_of n at args) = None"
  by (simp_all add: callable_of_def)

text \<open>Releasing the only new reference, with a report.\<close>

lemma fail_run:
  assumes "py_good E T M u" "py_refs u = py_refs v" "gains w (Some r) V v"
    and "\<And>y. py_good E T M y \<Longrightarrow> py_refs y = py_refs w \<Longrightarrow> P (c, at, y)"
  shows "py_run E (and_then (Py_CLEAR (Some r) u) (\<lambda>w. and_then (report w) (\<lambda>w. Inr (c, at, w)))) P"
proof -
  have l: "live u (Some r)" using gains_live [OF assms(3)] live_same [OF assms(2)] by simp
  show ?thesis
    unfolding py_run_simps
  proof (rule clear_run [OF assms(1) l])
    fix y assume y: "py_good E T M y" "py_refs y = (py_refs u)(r := None)"
    have "py_refs y = py_refs w" by (rule gains_cleared [OF assms(3)]) (simp add: y(2) assms(2))
    then show "py_run E (report y) (\<lambda>x. P (c, at, x))"
      using assms(4) by (intro report_run [OF y(1)]) simp
  qed
qed

text \<open>The common course of two entry points: one argument tuple is built from the state, and released after
  the call; \<open>K\<close> goes on with the result.\<close>

lemma entry_run:
  assumes w: "py_good E T L w" and m: "live w (at_module at)" and s: "py_refs w a = Some st"
    and fails: "\<And>r v X. r < 0 \<Longrightarrow> py_good E T (L @ X) v \<Longrightarrow> py_refs v = py_refs w \<Longrightarrow> P (r, at, v)"
    and gives: "\<And>v q x. py_good E T (L @ [(name, f st, Inr x)]) v \<Longrightarrow> gains w (Some q) (\<lambda>y. y = x \<and> T y) v \<Longrightarrow>
      py_run E (K (Some q) v) P"
    and c: "c1 < 0" "c2 < 0"
  shows "py_run E (and_then (py_build_with (Some a) f w) (\<lambda>(args, w).
      if args = None then and_then (report w) (\<lambda>w. Inr (c1, at, w))
      else and_then (pyin_call_internal (callable_of name at args) w) (\<lambda>(r, pyca, w).
        if r \<noteq> 0 then and_then (Py_CLEAR args w) (\<lambda>w. and_then (report w) (\<lambda>w. Inr (c2, at, w)))
        else and_then (Py_CLEAR args w) (\<lambda>w. K (pc_ret_value pyca) w)))) P"
  unfolding py_run_simps(4)
proof (rule build_with_run [OF w s], goal_cases)
  case (1 v)
  then show ?case using fails [of c1 "[]"] c by (auto intro!: report_run)
next
  case (2 r v)
  let ?c = "callable_of name at (Some r)"
  let ?K = "\<lambda>(ra, pyca, w). if ra \<noteq> 0 then and_then (Py_CLEAR (Some r) w) (\<lambda>w. and_then (report w) (\<lambda>w. Inr (c2, at, w)))
        else and_then (Py_CLEAR (Some r) w) (\<lambda>w. K (pc_ret_value pyca) w)"
  have lm: "live v (pc_module ?c)" using gains_keeps_live [OF 2(2) m] by simp
  have "py_run E (pyin_call_internal ?c v) (\<lambda>x. py_run E (?K x) P)"
  proof (rule call_internal_run [OF 2(1) lm _ gains_ref' [OF 2(2)]])
    show "pc_arguments ?c = Some r" "pc_ret_value ?c = None" by simp_all
  next
    fix q u X assume u: "q \<noteq> 0" "py_good E T (L @ X) u" "py_refs u = py_refs v"
    have "py_run E (and_then (Py_CLEAR (Some r) u) (\<lambda>w. and_then (report w) (\<lambda>w. Inr (c2, at, w)))) P"
      by (rule fail_run [OF u(2,3) 2(2)]) (rule fails [OF c(2)])
    then show "py_run E (?K (q, ?c, u)) P" using u(1) by simp
  next
    fix q u x assume u: "py_good E T (L @ [(pc_function_name ?c, f st, Inr x)]) u" "gains v (Some q) (\<lambda>y. y = x \<and> T y) u"
    have l: "live u (Some r)" using gains_keeps_live [OF u(2) gains_live [OF 2(2)]] .
    have "py_run E (Py_CLEAR (Some r) u) (\<lambda>w. py_run E (K (Some q) w) P)"
      by (rule clear_run [OF u(1) l]) (auto intro!: gives gains_swap [OF 2(2) u(2)])
    then show "py_run E (?K (0, ?c\<lparr>pc_ret_value := Some q\<rparr>, u)) P" by simp
  qed
  then show ?case by simp
qed

text \<open>Releasing the result at the end.\<close>

lemma last_clear_run:
  assumes "py_good E T M v" "gains w (Some q) V v" "\<And>y. py_good E T M y \<Longrightarrow> py_refs y = py_refs w \<Longrightarrow> P (c, at, y)"
  shows "py_run E (and_then (Py_CLEAR (Some q) v) (\<lambda>w. Inr (c, at, w))) P"
  by (simp, rule clear_run [OF assms(1) gains_live [OF assms(2)]]) (auto intro!: assms(3) gains_cleared [OF assms(2)])

lemma body_run:
  assumes w: "py_good E plain_result L w" and m: "live w (at_module at)" and s: "at_state at = Some a" "py_refs w a = Some st"
    and fails: "\<And>r v X. r < 0 \<Longrightarrow> py_good E plain_result (L @ X) v \<Longrightarrow> py_refs v = py_refs w \<Longrightarrow> P (r, at, v)"
    and gives: "\<And>v x. py_good E plain_result (L @ [(''adapt_body'', Py_Sequence [st, Py_Bytes (at_vb at)], Inr x)]) v \<Longrightarrow>
      py_refs v = py_refs w \<Longrightarrow> plain_result x \<Longrightarrow>
      P (0, (case x of Py_Bytes t \<Rightarrow> at\<lparr>at_ab := Some t\<rparr> | _ \<Rightarrow> at), v)"
  shows "py_run E (pyin_adapt_body at w) P"
  unfolding pyin_adapt_body_def s(1)
proof (rule entry_run [OF w m s(2)], goal_cases)
  case (1 r v X)
  then show ?case by (rule fails)
next
  case (2 v q x)
  have x: "py_refs v q = Some x" "plain_result x" using gains_ref [OF 2(2)] by auto
  then consider "x = Py_None" | t where "x = Py_Bytes t" by (auto simp: plain_result_def)
  then show ?case
    using x 2(1) by cases (auto simp: py_parse_object_def get_bytes_from_python_def plain_result_def
        intro!: last_clear_run [OF 2, unfolded py_run_simps] dest: gives)
qed simp_all

lemma header_run:
  assumes w: "py_good E header_result L w" and m: "live w (at_module at)" and s: "at_state at = Some a" "py_refs w a = Some st"
    and fails: "\<And>r v X. r < 0 \<Longrightarrow> py_good E header_result (L @ X) v \<Longrightarrow> py_refs v = py_refs w \<Longrightarrow> P (r, at, v)"
    and gives: "\<And>v c x b. py_good E header_result (L @ [(''adapt_header'', Py_Sequence [st, Py_Bytes (take 51201 name), Py_Bytes (at_vb at)],
        Inr (Py_Sequence [c, x]))]) v \<Longrightarrow> py_refs v = py_refs w \<Longrightarrow> plain_result x \<Longrightarrow> py_truth c = Some b \<Longrightarrow>
      P (if b then 1 else 0, (case x of Py_Bytes t \<Rightarrow> if b then at\<lparr>at_ab := Some t\<rparr> else at | _ \<Rightarrow> at), v)"
  shows "py_run E (pyin_adapt_header at name w) P"
  unfolding pyin_adapt_header_def s(1)
proof (rule entry_run [OF w m s(2)], goal_cases)
  case (1 r v X)
  then show ?case by (rule fails)
next
  case (2 v q x)
  have x: "py_refs v q = Some x" "header_result x" using gains_ref [OF 2(2)] by auto
  show ?case
  proof (cases "\<exists>c y b. x = Py_Sequence [c, y] \<and> py_truth c = Some b")
    case True
    then obtain c y b where y: "x = Py_Sequence [c, y]" "py_truth c = Some b" by blast
    then have "plain_result y" using x(2) by (simp add: header_result_def)
    then consider "y = Py_None" | t where "y = Py_Bytes t" by (auto simp: plain_result_def)
    then show ?thesis
      using x 2(1) y by cases (auto simp: py_parse_pair_def py_parse_object_def get_bytes_from_python_def plain_result_def
          intro!: last_clear_run [OF 2, unfolded py_run_simps] dest: gives [where b = b])
  next
    case False
    have p: "py_parse_pair (Some q) v = Inr (None, v\<lparr>py_err := Some_Error\<rparr>)"
      using x(1) False by (auto simp: py_parse_pair_def py_parse_object_def split: py_value.splits list.splits option.splits)
    have g: "py_good E header_result (L @ [(''adapt_header'', Py_Sequence [st, Py_Bytes (take 51201 name), Py_Bytes (at_vb at)], Inr x)])
        (v\<lparr>py_err := Some_Error\<rparr>)" using 2(1) by (simp add: py_good_def)
    have "py_run E (and_then (Py_CLEAR (Some q) (v\<lparr>py_err := Some_Error\<rparr>)) (\<lambda>w. and_then (report w) (\<lambda>w. Inr (- 4, at, w)))) P"
      by (rule fail_run [OF g _ 2(2)]) (auto intro!: fails)
    then show ?thesis using p by simp
  qed
qed simp_all

lemma end_run:
  assumes w: "py_good E plain_result L w" and m: "live w (at_module at)" and s: "at_state at = Some a" "py_refs w a = Some st"
    and fails: "\<And>r v X. r < 0 \<Longrightarrow> py_good E plain_result (L @ X) v \<Longrightarrow> py_refs v = py_refs w \<Longrightarrow> P (r, at, v)"
    and gives: "\<And>v x. py_good E plain_result (L @ [(''adapt_end'', Py_Sequence [st], Inr x)]) v \<Longrightarrow>
      py_refs v = (py_refs w)(a := None) \<Longrightarrow> plain_result x \<Longrightarrow>
      P (0, (case x of Py_Bytes t \<Rightarrow> at\<lparr>at_ab := Some t\<rparr> | _ \<Rightarrow> at)\<lparr>at_state := None\<rparr>, v)"
  shows "py_run E (pyin_adapt_end at w) P"
proof -
  let ?c = "\<lambda>args. callable_of ''adapt_end'' at args"
  obtain parse where parse: "parse = (\<lambda>r w. and_then (py_parse_object r w) (\<lambda>(v, w).
          case v of
            None \<Rightarrow> and_then (Py_CLEAR r w) (\<lambda>w. and_then (report w) (\<lambda>w. Inr (- 4, at, w)))
          | Some v \<Rightarrow>
              and_then (if v \<noteq> Py_None then and_then (get_bytes_from_python v) (\<lambda>s. Inr (at\<lparr>at_ab := Some s\<rparr>)) else Inr at) (\<lambda>at.
              and_then (Py_CLEAR r w) (\<lambda>w.
              and_then (Py_CLEAR (at_state at) w) (\<lambda>w. Inr (0 :: int, at\<lparr>at_state := None\<rparr>, w))))))" by simp
  have missing: "py_run E (parse None v) P" if "py_good E plain_result (L @ X) v" "py_refs v = py_refs w" for v X
  proof -
    have g: "py_good E plain_result (L @ X) (v\<lparr>py_err := Some_Error\<rparr>)" using that(1) by (simp add: py_good_def)
    show ?thesis
      by (simp add: parse py_parse_object_def, rule report_run [OF g]) (use that(2) in \<open>auto intro!: fails\<close>)
  qed
  have result: "py_run E (parse (Some q) v) P"
    if v: "py_good E plain_result (L @ [(''adapt_end'', Py_Sequence [st], Inr x)]) v"
      and g: "gains w (Some q) (\<lambda>y. y = x \<and> plain_result y) v" for v q x
  proof -
    have x: "py_refs v q = Some x" "plain_result x" using gains_ref [OF g] by auto
    have tail: "py_run E (and_then (Py_CLEAR (Some q) v) (\<lambda>w. and_then (Py_CLEAR (Some a) w) (\<lambda>w. Inr (0, r, w)))) P"
      if "\<And>u. py_good E plain_result (L @ [(''adapt_end'', Py_Sequence [st], Inr x)]) u \<Longrightarrow>
        py_refs u = (py_refs w)(a := None) \<Longrightarrow> P (0, r, u)" for r
    proof (simp, rule clear_run [OF v gains_live [OF g]])
      fix u assume u: "py_good E plain_result (L @ [(''adapt_end'', Py_Sequence [st], Inr x)]) u" "py_refs u = (py_refs v)(q := None)"
      have r: "py_refs u = py_refs w" by (rule gains_cleared [OF g u(2)])
      then have "live u (Some a)" using s(2) by (simp add: live_def)
      then show "py_run E (Py_CLEAR (Some a) u) (\<lambda>x. P (0, r, x))"
        by (rule clear_run [OF u(1)]) (simp add: that r)
    qed
    from x(2) consider "x = Py_None" | t where "x = Py_Bytes t" by (auto simp: plain_result_def)
    then show ?thesis
    proof cases
      case 1
      then show ?thesis using x(1) tail [of "at\<lparr>at_state := None\<rparr>"] gives [of Py_None] s(1)
        by (auto simp: parse py_parse_object_def plain_result_def)
    next
      case 2
      then show ?thesis using x(1) tail [of "at\<lparr>at_ab := Some t, at_state := None\<rparr>"] gives [of "Py_Bytes t"] s(1)
        by (auto simp: parse py_parse_object_def get_bytes_from_python_def plain_result_def)
    qed
  qed
  show ?thesis
    unfolding pyin_adapt_end_def s(1) py_run_simps(4)
  proof (rule build_with_run [OF w s(2)], goal_cases)
    case (1 v)
    then show ?case using fails [of "- 1" "[]"] by (auto intro!: report_run)
  next
    case (2 r v)
    have lm: "live v (pc_module (?c (Some r)))" using gains_keeps_live [OF 2(2) m] by simp
    have "py_run E (pyin_call_internal (?c (Some r)) v) (\<lambda>(ra, pyca, w).
        py_run E (and_then (if ra \<noteq> 0 then report w else Inr w) (\<lambda>w. and_then (Py_CLEAR (Some r) w) (parse (pc_ret_value pyca)))) P)"
    proof (rule call_internal_run [OF 2(1) lm _ gains_ref' [OF 2(2)]])
      show "pc_arguments (?c (Some r)) = Some r" "pc_ret_value (?c (Some r)) = None" by simp_all
    next
      fix q u X assume u: "q \<noteq> 0" "py_good E plain_result (L @ X) u" "py_refs u = py_refs v"
      have "py_run E (report u) (\<lambda>y. py_run E (Py_CLEAR (Some r) y) (\<lambda>z. py_run E (parse None z) P))"
      proof (rule report_run [OF u(2)])
        fix y assume y: "py_good E plain_result (L @ X) y" "py_refs y = py_refs u"
        have "live y (Some r)" using gains_live [OF 2(2)] live_same [of y v] y(2) u(3) by simp
        then show "py_run E (Py_CLEAR (Some r) y) (\<lambda>z. py_run E (parse None z) P)"
        proof (rule clear_run [OF y(1)])
          fix z assume z: "py_good E plain_result (L @ X) z" "py_refs z = (py_refs y)(r := None)"
          have "py_refs z = py_refs w" by (rule gains_cleared [OF 2(2)]) (simp add: z(2) y(2) u(3))
          then show "py_run E (parse None z) P" by (rule missing [OF z(1)])
        qed
      qed
      then show "case (q, ?c (Some r), u) of (ra, pyca, w) \<Rightarrow>
        py_run E (and_then (if ra \<noteq> 0 then report w else Inr w) (\<lambda>w. and_then (Py_CLEAR (Some r) w) (parse (pc_ret_value pyca)))) P"
        using u(1) by simp
    next
      fix q u x assume u: "py_good E plain_result (L @ [(pc_function_name (?c (Some r)), Py_Sequence [st], Inr x)]) u"
        "gains v (Some q) (\<lambda>y. y = x \<and> plain_result y) u"
      have l: "live u (Some r)" using gains_keeps_live [OF u(2) gains_live [OF 2(2)]] .
      have "py_run E (Py_CLEAR (Some r) u) (\<lambda>z. py_run E (parse (Some q) z) P)"
        by (rule clear_run [OF u(1) l], rule result) (use gains_swap [OF 2(2) u(2)] in auto)
      then show "case (0, ?c (Some r)\<lparr>pc_ret_value := Some q\<rparr>, u) of (ra, pyca, w) \<Rightarrow>
        py_run E (and_then (if ra \<noteq> 0 then report w else Inr w) (\<lambda>w. and_then (Py_CLEAR (Some r) w) (parse (pc_ret_value pyca)))) P"
        by simp
    qed
    then show ?case
      by (simp only: prod.case option.distinct if_False py_run_simps(4), elim py_run_mono) (auto simp: s(1) parse)
  qed
qed

text \<open>Releasing both new references of a start that failed.\<close>

lemma two_clears_run:
  assumes u: "py_good E T M u" "py_refs u = py_refs v" and g: "gains w (Some a) V x" "gains x (Some r) U v"
    and fails: "\<And>y. py_good E T M y \<Longrightarrow> py_refs y = py_refs w \<Longrightarrow> P (c, at, y)"
  shows "py_run E (and_then (Py_CLEAR (Some r) u) (\<lambda>w. and_then (Py_CLEAR (Some a) w) (\<lambda>w.
    and_then (report w) (\<lambda>w. Inr (c, at, w))))) P"
proof -
  have l: "live u (Some r)" using gains_live [OF g(2)] live_same [OF u(2)] by simp
  have "py_run E (Py_CLEAR (Some r) u) (\<lambda>y. py_run E (and_then (Py_CLEAR (Some a) y) (\<lambda>w.
    and_then (report w) (\<lambda>w. Inr (c, at, w)))) P)"
  proof (rule clear_run [OF u(1) l])
    fix y assume y: "py_good E T M y" "py_refs y = (py_refs u)(r := None)"
    have "py_refs y = py_refs x" by (rule gains_cleared [OF g(2)]) (simp add: y(2) u(2))
    then show "py_run E (and_then (Py_CLEAR (Some a) y) (\<lambda>w. and_then (report w) (\<lambda>w. Inr (c, at, w)))) P"
      using fails by (intro fail_run [OF y(1) _ g(1)])
  qed
  then show ?thesis by simp
qed

lemma begin_run:
  assumes w: "py_good E T L w" and m: "live w (at_module at)" and s: "py_refs w k = Some pc"
    and fails: "\<And>r v X. r < 0 \<Longrightarrow> py_good E T (L @ X) v \<Longrightarrow> py_refs v = py_refs w \<Longrightarrow> P (r, at\<lparr>at_state := None\<rparr>, v)"
    and gives: "\<And>v a st X. py_good E T (L @ X) v \<Longrightarrow> gains w (Some a) (\<lambda>y. y = st) v \<Longrightarrow> P (0, at\<lparr>at_state := Some a\<rparr>, v)"
  shows "py_run E (pyin_adapt_begin at (Some k) uri q w) P"
  unfolding pyin_adapt_begin_def py_run_simps(4)
proof (rule build_with_run [OF w s], goal_cases)
  case (1 v)
  then show ?case using fails [of "- 2" "[]"] by (auto intro!: report_run)
next
  case (2 a v)
  let ?at = "at\<lparr>at_state := Some a\<rparr>"
  let ?c = "\<lambda>args. callable_of ''adapt_begin'' ?at args"
  have failsE: "P (r, at\<lparr>at_state := None\<rparr>, y)" if "r < 0" "py_good E T (L @ X) y" "py_refs y = py_refs w" for r X y
    using fails that by blast
  have "py_run E (and_then (py_build_with (Some a) (\<lambda>s. Py_Sequence [s]) v) (\<lambda>(args, w).
       if args = None then
         and_then (Py_CLEAR (Some a) w) (\<lambda>w. and_then (report w) (\<lambda>w. Inr (- 3, at\<lparr>at_state := None\<rparr>, w)))
       else and_then (pyin_call_internal (?c args) w) (\<lambda>(r, pyca, w).
         if r \<noteq> 0 then
           and_then (Py_CLEAR args w) (\<lambda>w. and_then (Py_CLEAR (Some a) w) (\<lambda>w.
             and_then (report w) (\<lambda>w. Inr (- 4, at\<lparr>at_state := None\<rparr>, w))))
         else
           and_then (Py_CLEAR args w) (\<lambda>w. and_then (Py_CLEAR (pc_ret_value pyca) w) (\<lambda>w. Inr (0, ?at, w)))))) P"
    unfolding py_run_simps(4)
  proof (rule build_with_run [OF 2(1) gains_ref' [OF 2(2)]], goal_cases)
    case (1 u)
    have "py_run E (and_then (Py_CLEAR (Some a) u) (\<lambda>w. and_then (report w) (\<lambda>w. Inr (- 3, at\<lparr>at_state := None\<rparr>, w)))) P"
      by (rule fail_run [OF 1 2(2)]) (use failsE [of _ "[]"] in auto)
    then show ?case by simp
  next
    case (2 r u)
    note outer = \<open>gains w (Some a) _ v\<close> and inner = 2
    have lm: "live u (pc_module (?c (Some r)))" using gains_keeps_live [OF inner(2) gains_keeps_live [OF outer m]] by simp
    have "py_run E (pyin_call_internal (?c (Some r)) u) (\<lambda>x. py_run E (case x of (ra, pyca, w) \<Rightarrow>
         if ra \<noteq> 0 then
           and_then (Py_CLEAR (Some r) w) (\<lambda>w. and_then (Py_CLEAR (Some a) w) (\<lambda>w.
             and_then (report w) (\<lambda>w. Inr (- 4, at\<lparr>at_state := None\<rparr>, w))))
         else
           and_then (Py_CLEAR (Some r) w) (\<lambda>w. and_then (Py_CLEAR (pc_ret_value pyca) w) (\<lambda>w. Inr (0, ?at, w)))) P)"
    proof (rule call_internal_run [OF inner(1) lm _ gains_ref' [OF inner(2)]])
      show "pc_arguments (?c (Some r)) = Some r" "pc_ret_value (?c (Some r)) = None" by simp_all
    next
      fix n y X assume y: "n \<noteq> 0" "py_good E T (L @ X) y" "py_refs y = py_refs u"
      have "py_run E (and_then (Py_CLEAR (Some r) y) (\<lambda>w. and_then (Py_CLEAR (Some a) w) (\<lambda>w.
             and_then (report w) (\<lambda>w. Inr (- 4, at\<lparr>at_state := None\<rparr>, w))))) P"
        by (rule two_clears_run [OF y(2,3) outer inner(2)]) (rule failsE, simp_all)
      then show "py_run E (case (n, ?c (Some r), y) of (ra, pyca, w) \<Rightarrow>
         if ra \<noteq> 0 then
           and_then (Py_CLEAR (Some r) w) (\<lambda>w. and_then (Py_CLEAR (Some a) w) (\<lambda>w.
             and_then (report w) (\<lambda>w. Inr (- 4, at\<lparr>at_state := None\<rparr>, w))))
         else
           and_then (Py_CLEAR (Some r) w) (\<lambda>w. and_then (Py_CLEAR (pc_ret_value pyca) w) (\<lambda>w. Inr (0, ?at, w)))) P"
        using y(1) by simp
    next
      fix p y x assume y: "py_good E T (L @ [(pc_function_name (?c (Some r)), Py_Sequence [Py_Dict [(''pc'', pc), (''uri'', Py_Str uri),
        (''request_service'', Py_Int (if q then 1 else 0)), (''reply_service'', Py_Int (if q then 0 else 1))]], Inr x)]) y"
        "gains u (Some p) (\<lambda>z. z = x \<and> T z) y"
      have l: "live y (Some r)" using gains_keeps_live [OF y(2) gains_live [OF inner(2)]] .
      have "py_run E (Py_CLEAR (Some r) y) (\<lambda>z. py_run E (and_then (Py_CLEAR (Some p) z) (\<lambda>w. Inr (0, ?at, w))) P)"
      proof (rule clear_run [OF y(1) l])
        fix z assume z: "py_good E T (L @ [(pc_function_name (?c (Some r)), Py_Sequence [Py_Dict [(''pc'', pc), (''uri'', Py_Str uri),
            (''request_service'', Py_Int (if q then 1 else 0)), (''reply_service'', Py_Int (if q then 0 else 1))]], Inr x)]) z"
          "py_refs z = (py_refs y)(r := None)"
        show "py_run E (and_then (Py_CLEAR (Some p) z) (\<lambda>w. Inr (0, ?at, w))) P"
          by (rule last_clear_run [OF z(1) gains_swap [OF inner(2) y(2) z(2)]]) (use gives gains_same(1) [OF outer] in blast)
      qed
      then show "py_run E (case (0, ?c (Some r)\<lparr>pc_ret_value := Some p\<rparr>, y) of (ra, pyca, w) \<Rightarrow>
         if ra \<noteq> 0 then
           and_then (Py_CLEAR (Some r) w) (\<lambda>w. and_then (Py_CLEAR (Some a) w) (\<lambda>w.
             and_then (report w) (\<lambda>w. Inr (- 4, at\<lparr>at_state := None\<rparr>, w))))
         else
           and_then (Py_CLEAR (Some r) w) (\<lambda>w. and_then (Py_CLEAR (pc_ret_value pyca) w) (\<lambda>w. Inr (0, ?at, w)))) P"
        by simp
    qed
    then show ?case by simp
  qed
  moreover have "at\<lparr>at_state := Some a, at_state := None\<rparr> = at\<lparr>at_state := None\<rparr>" by simp
  ultimately show ?case by (simp only: Let_def prod.case option.distinct if_False)
qed

lemma build_run:
  assumes w: "py_good E T L w"
    and "\<And>v. py_good E T L v \<Longrightarrow> py_refs v = py_refs w \<Longrightarrow> P (None, v)"
    and "\<And>r v. py_good E T L v \<Longrightarrow> gains w (Some r) (\<lambda>y. y = x) v \<Longrightarrow> P (Some r, v)"
  shows "P (py_build x w)"
proof (cases "py_builds w")
  case Nil
  obtain r v where n: "new_ref x w = (r, v)" by fastforce
  with new_ref_gains [OF w _ n, of "\<lambda>y. y = x"] show ?thesis
    using Nil assms(3) [of v] by (auto simp: py_build_def gains_def)
next
  case (Cons ok bs)
  have g: "py_good E T L (w\<lparr>py_builds := bs\<rparr>)" "py_good E T L (w\<lparr>py_builds := bs, py_err := Some_Error\<rparr>)"
    using w by (simp_all add: py_good_def)
  obtain r v where n: "new_ref x (w\<lparr>py_builds := bs\<rparr>) = (r, v)" by fastforce
  show ?thesis
    using new_ref_gains [OF g(1) _ n, of "\<lambda>y. y = x"] Cons n assms(2) [OF g(2)] assms(3) [of v]
    by (cases ok) (auto simp: py_build_def gains_def)
qed

text \<open>The controller: one new reference, or the process ends.\<close>

lemma controller_run:
  assumes w: "py_good E T L w" and m: "live w module" and codes: "E 108" "E 116" "E 129"
    and gives: "\<And>v r. (\<exists>L. py_good E T L v) \<Longrightarrow> gains w (Some r) (\<lambda>_. True) v \<Longrightarrow> P (Some r, v)"
  shows "py_run E (pyin_create_controller module suff db_path w) P"
proof -
  let ?pc = "\<lambda>args kw. \<lparr>pc_function_name = ''ProxyController'', pc_module = module, pc_arguments = args, pc_keywords = kw,
           pc_ret_value = None\<rparr>"
  let ?call = "\<lambda>args kw w. and_then (pyin_call_internal (?pc args kw) w) (\<lambda>(r, pyca, w).
                   if r \<noteq> 0 then
                     and_then (Py_CLEAR args w) (\<lambda>w. and_then (Py_CLEAR kw w) (\<lambda>w.
                       and_then (Py_CLEAR (pc_ret_value pyca) w) (\<lambda>w. and_then (report w) (\<lambda>w. Inl (Exits 129)))))
                   else
                     and_then (Py_CLEAR args w) (\<lambda>w. and_then (Py_CLEAR kw w) (\<lambda>w.
                       Inr (pc_ret_value pyca, w))))"
  let ?kw = "\<lambda>args w. case py_build (Py_Dict [(''database_path'', Py_Str db_path)]) w of (kw, w) \<Rightarrow>
      if kw = None then and_then (report w) (\<lambda>w. Inl (Exits 116)) else ?call args kw w"
  have called: "py_run E (?call (Some a) (Some k) v) P"
    if v: "py_good E T L v" and g: "gains w (Some a) (\<lambda>y. y = x) u" "gains u (Some k) (\<lambda>y. y = y') v" for a k v u x y'
  proof -
    have lm: "live v (pc_module (?pc (Some a) (Some k)))"
      using gains_keeps_live [OF g(2) gains_keeps_live [OF g(1) m]] by simp
    note av = gains_old [OF g(2) gains_ref' [OF g(1)]]
    have "py_run E (pyin_call_internal (?pc (Some a) (Some k)) v) (\<lambda>p. py_run E (case p of (r, pyca, w) \<Rightarrow>
        if r \<noteq> 0 then
                     and_then (Py_CLEAR (Some a) w) (\<lambda>w. and_then (Py_CLEAR (Some k) w) (\<lambda>w.
                       and_then (Py_CLEAR (pc_ret_value pyca) w) (\<lambda>w. and_then (report w) (\<lambda>w. Inl (Exits 129)))))
                   else
                     and_then (Py_CLEAR (Some a) w) (\<lambda>w. and_then (Py_CLEAR (Some k) w) (\<lambda>w.
                       Inr (pc_ret_value pyca, w)))) P)"
    proof (rule call_internal_run [OF v lm _ av])
      show "pc_arguments (?pc (Some a) (Some k)) = Some a" "pc_ret_value (?pc (Some a) (Some k)) = None" by simp_all
    next
      fix n z X assume z: "n \<noteq> 0" "py_good E T (L @ X) z" "py_refs z = py_refs v"
      have "live z (Some a)" using gains_keeps_live [OF g(2) gains_live [OF g(1)]] live_same [OF z(3)] by simp
      then have "py_run E (Py_CLEAR (Some a) z) (\<lambda>y. py_run E (Py_CLEAR (Some k) y) (\<lambda>q. py_run E (report q) (\<lambda>w. E 129)))"
      proof (rule clear_run [OF z(2)])
        fix y assume y: "py_good E T (L @ X) y" "py_refs y = (py_refs z)(a := None)"
        have "gains w (Some k) (\<lambda>y. y = y') y" by (rule gains_swap [OF g]) (simp add: y(2) z(3))
        then show "py_run E (Py_CLEAR (Some k) y) (\<lambda>q. py_run E (report q) (\<lambda>w. E 129))"
          by (intro clear_run [OF y(1) gains_live]) (auto intro!: report_run codes)
      qed
      then show "py_run E (case (n, ?pc (Some a) (Some k), z) of (r, pyca, w) \<Rightarrow>
        if r \<noteq> 0 then
                     and_then (Py_CLEAR (Some a) w) (\<lambda>w. and_then (Py_CLEAR (Some k) w) (\<lambda>w.
                       and_then (Py_CLEAR (pc_ret_value pyca) w) (\<lambda>w. and_then (report w) (\<lambda>w. Inl (Exits 129)))))
                   else
                     and_then (Py_CLEAR (Some a) w) (\<lambda>w. and_then (Py_CLEAR (Some k) w) (\<lambda>w.
                       Inr (pc_ret_value pyca, w)))) P"
        using z(1) by simp
    next
      fix p z t assume z: "py_good E T (L @ [(pc_function_name (?pc (Some a) (Some k)), x, Inr t)]) z"
        "gains v (Some p) (\<lambda>y. y = t \<and> T y) z"
      have la: "live z (Some a)" using gains_keeps_live [OF z(2) gains_keeps_live [OF g(2) gains_live [OF g(1)]]] .
      have "py_run E (Py_CLEAR (Some a) z) (\<lambda>y. py_run E (Py_CLEAR (Some k) y) (\<lambda>q. P (Some p, q)))"
      proof (rule clear_run [OF z(1) la])
        fix y assume y: "py_good E T (L @ [(pc_function_name (?pc (Some a) (Some k)), x, Inr t)]) y"
          "py_refs y = (py_refs z)(a := None)"
        have ak: "a \<noteq> k" "k \<noteq> p" "a \<noteq> p" using g z(2) by (auto simp: gains_def split: if_splits)
        have r: "py_refs y = (py_refs w)(k \<mapsto> y', p \<mapsto> t)" "py_refs w p = None" "py_refs w k = None"
          using g z(2) y(2) ak by (auto simp: gains_def fun_eq_iff split: if_splits)
        then have "live y (Some k)" using ak by (simp add: live_def)
        then show "py_run E (Py_CLEAR (Some k) y) (\<lambda>q. P (Some p, q))"
        proof (rule clear_run [OF y(1)])
          fix q assume q: "py_good E T (L @ [(pc_function_name (?pc (Some a) (Some k)), x, Inr t)]) q"
            "py_refs q = (py_refs y)(k := None)"
          have "gains w (Some p) (\<lambda>_. True) q" using r q(2) ak by (auto simp: gains_def fun_eq_iff)
          then show "P (Some p, q)" using gives q(1) by blast
        qed
      qed
      then show "py_run E (case (0, ?pc (Some a) (Some k)\<lparr>pc_ret_value := Some p\<rparr>, z) of (r, pyca, w) \<Rightarrow>
        if r \<noteq> 0 then
                     and_then (Py_CLEAR (Some a) w) (\<lambda>w. and_then (Py_CLEAR (Some k) w) (\<lambda>w.
                       and_then (Py_CLEAR (pc_ret_value pyca) w) (\<lambda>w. and_then (report w) (\<lambda>w. Inl (Exits 129)))))
                   else
                     and_then (Py_CLEAR (Some a) w) (\<lambda>w. and_then (Py_CLEAR (Some k) w) (\<lambda>w.
                       Inr (pc_ret_value pyca, w)))) P"
        by simp
    qed
    then show ?thesis by simp
  qed
  have "py_run E (case py_build (Py_Sequence [Py_Bytes suff]) w of (args, w) \<Rightarrow>
    if args = None then and_then (report w) (\<lambda>w. Inl (Exits 108)) else ?kw args w) P"
  proof (rule build_run [OF w, where P = "\<lambda>y. py_run E (case y of (args, w) \<Rightarrow>
    if args = None then and_then (report w) (\<lambda>w. Inl (Exits 108)) else ?kw args w) P"], goal_cases)
    case (1 v)
    then show ?case by (auto intro!: report_run codes)
  next
    case (2 a u)
    have "py_run E (?kw (Some a) u) P"
    proof (rule build_run [OF 2(1), where P = "\<lambda>y. py_run E (case y of (kw, w) \<Rightarrow>
        if kw = None then and_then (report w) (\<lambda>w. Inl (Exits 116)) else ?call (Some a) kw w) P"], goal_cases)
      case (1 v)
      then show ?case by (auto intro!: report_run codes)
    next
      case (2 k v)
      show ?case using called [OF 2(1) \<open>gains w (Some a) _ u\<close> 2(2)] by simp
    qed
    then show ?case by simp
  qed
  then show ?thesis by (simp only: pyin_create_controller_def)
qed

section \<open>Property\<close>

text \<open>The interpreter is sound, and \<open>T\<close> is what the Python code returns; an exit has to come from a
  \<^verbatim>\<open>SystemExit\<close> it raises.\<close>

definition sound_python :: "(py_value \<Rightarrow> bool) \<Rightarrow> py_world \<Rightarrow> bool" where
  "sound_python T w \<longleftrightarrow> (\<forall>a \<ge> py_next w. py_refs w a = None) \<and> py_err w = No_Error \<and> T Py_None \<and>
     (\<forall>v. Inr v \<in> set (py_calls w) \<longrightarrow> T v)"

definition python_exits :: "py_world \<Rightarrow> nat \<Rightarrow> bool" where
  "python_exits w n \<longleftrightarrow> Inl (System_Exit n) \<in> set (py_calls w)"

lemma sound_python_good: "sound_python T w \<Longrightarrow> (\<And>n. python_exits w n \<Longrightarrow> E n) \<Longrightarrow> py_good E T (py_log w) w"
  by (auto simp: sound_python_def python_exits_def py_good_def)


text \<open>An interpreter with a module, a controller and a state, whose body function answers twice.\<close>

definition python_ab :: py_world where
  "python_ab = \<lparr>py_running = True, py_path = ''/p'', py_refs = [0 \<mapsto> Py_Other (Some True), 1 \<mapsto> Py_Other (Some True), 2 \<mapsto> Py_Dict []],
     py_next = 3, py_err = No_Error, py_builds = [], py_imports = [], py_attrs = [],
     py_calls = [Inr (Py_Bytes ''new''), Inl Some_Error], py_log = []\<rparr>"

definition text_ab :: pyin_adapt_text where
  "text_ab = \<lparr>at_module = Some 0, at_state = Some 2, at_vb = ''old'', at_ab = None\<rparr>"


end
