(* ===== verification/EcapService.thy ===== *)
theory EcapService
  imports EcapPython TaskQueue "HOL-Library.Char_ord" "HOL-Library.List_Lexorder"
begin

text \<open>
  The service of the Squid adapter, \<^verbatim>\<open>squid/src/ecap/adapter_base_service.cc\<close> with the two services of
  \<^verbatim>\<open>adapter_service_modifier.cc\<close>, and the cache-manager page of \<^verbatim>\<open>squid_internal_action.cc\<close>.
  An outcome is \<^const>\<open>Inl\<close> when the process ends, else the new state with \<^const>\<open>Inl\<close> the message of the
  exception or \<^const>\<open>Inr\<close> the result.  libecap is not under \<^verbatim>\<open>src/\<close>: its options are a list of
  names with values, and whether the host assigned the name.
\<close>

section \<open>The service\<close>

record ecap_service =
  sv_uri :: string
  request_service :: bool
  reply_service :: bool
  sv_module :: string
  sv_pypath :: string
  sv_suffix :: string
  pyModule :: "nat option"
  pyController :: "nat option"

record ecap_state =
  es_service :: ecap_service
  es_python :: py_world
  es_listed :: "string list"
  es_registered :: bool
  es_queues :: "(nat option queue_t \<times> nat option queue_t) option"

type_synonym 'a ecap_result = "py_end + ((string + 'a) \<times> ecap_state)"

definition CfgErrorPrefix :: string where
  "CfgErrorPrefix = ''Sqlite Adapter: configuration error: ''"

definition setModule :: "string \<Rightarrow> ecap_service \<Rightarrow> string + ecap_service" where
  "setModule v sv = (if v = [] then Inl (CfgErrorPrefix @ ''empty module_name value is not allowed'') else Inr (sv\<lparr>sv_module := v\<rparr>))"

definition setPythonPath :: "string \<Rightarrow> ecap_service \<Rightarrow> string + ecap_service" where
  "setPythonPath v sv = (if v = [] then Inl (CfgErrorPrefix @ ''empty module_directory value is not allowed'') else Inr (sv\<lparr>sv_pypath := v\<rparr>))"

definition setSuffix :: "string \<Rightarrow> ecap_service \<Rightarrow> string + ecap_service" where
  "setSuffix v sv = (if v = [] then Inl (CfgErrorPrefix @ ''empty suffix value is not allowed'') else Inr (sv\<lparr>sv_suffix := v\<rparr>))"

definition setOne :: "string \<Rightarrow> bool \<Rightarrow> string \<Rightarrow> ecap_service \<Rightarrow> string + ecap_service" where
  "setOne name host_id v sv =
    (if name = ''module_name'' then setModule v sv
     else if name = ''module_directory'' then setPythonPath v sv
     else if name = ''suffix'' then setSuffix v sv
     else if host_id then Inr sv
     else Inl (CfgErrorPrefix @ ''unsupported configuration parameter: '' @ name))"

text \<open>\<^verbatim>\<open>Cfgtor\<close> visits the options; an exception ends the visit and keeps what was set.\<close>

fun visitEachOption :: "(string \<times> bool \<times> string) list \<Rightarrow> ecap_service \<Rightarrow> string option \<times> ecap_service" where
  "visitEachOption [] sv = (None, sv)"
| "visitEachOption ((name, host_id, v) # cfg) sv =
    (case setOne name host_id v sv of
       Inl msg \<Rightarrow> (Some msg, sv)
     | Inr sv \<Rightarrow> visitEachOption cfg sv)"

text \<open>What is wrong with the settings, if anything.\<close>

definition setting_error :: "ecap_service \<Rightarrow> string option" where
  "setting_error sv =
    (if sv_module sv = [] then Some (CfgErrorPrefix @ ''module_name value is not set'')
     else if sv_pypath sv = [] then Some (CfgErrorPrefix @ ''module_directory value is not set'')
     else if sv_suffix sv = [] then Some (CfgErrorPrefix @ ''suffix value is not set'')
     else if (\<not> reply_service sv \<and> \<not> request_service sv) \<or> (reply_service sv \<and> request_service sv)
       then Some (CfgErrorPrefix @ ''setup error on URI:'' @ sv_uri sv)
     else None)"

text \<open>\<^verbatim>\<open>SquidInternalAction::getInstance()->add\<close>: a directory is listed once, in the order of the map.\<close>

fun insert_path :: "string \<Rightarrow> string list \<Rightarrow> string list" where
  "insert_path p [] = [p]"
| "insert_path p (q # qs) = (if p < q then p # q # qs else q # insert_path p qs)"

definition internal_action_add :: "string \<Rightarrow> ecap_state \<Rightarrow> ecap_state" where
  "internal_action_add dbpath s =
    (let s = s\<lparr>es_registered := True\<rparr> in
     if dbpath \<in> set (es_listed s) then s else s\<lparr>es_listed := insert_path dbpath (es_listed s)\<rparr>)"

definition configure :: "(string \<times> bool \<times> string) list \<Rightarrow> ecap_state \<Rightarrow> unit ecap_result" where
  "configure cfg s =
    (case visitEachOption cfg (es_service s) of (err, sv) \<Rightarrow>
     (let s = s\<lparr>es_service := sv\<rparr> in
      case err of
        Some msg \<Rightarrow> Inr (Inl msg, s)
      | None \<Rightarrow>
       (case setting_error sv of
          Some msg \<Rightarrow> Inr (Inl msg, s)
        | None \<Rightarrow>
            and_then (pyin_get_module (sv_module sv) (pyin_start (sv_pypath sv) (es_python s))) (\<lambda>(m, w).
            and_then (pyin_create_controller m (sv_suffix sv) (sv_pypath sv @ ''/dbs'') w) (\<lambda>(c, w).
              Inr (Inr (), internal_action_add (sv_pypath sv @ ''/dbs'')
                (s\<lparr>es_service := sv\<lparr>pyModule := m, pyController := c\<rparr>, es_python := w\<rparr>)))))))"

definition reconfigure :: "(string \<times> bool \<times> string) list \<Rightarrow> ecap_state \<Rightarrow> unit ecap_result" where
  "reconfigure cfg s =
    and_then (pyin_finish (pyModule (es_service s)) (pyController (es_service s)) (es_python s)) (\<lambda>w.
      configure cfg (s\<lparr>es_python := w, es_service := (es_service s)\<lparr>pyModule := None, pyController := None, sv_module := [],
        sv_pypath := [], sv_suffix := []\<rparr>\<rparr>))"

text \<open>\<^verbatim>\<open>BaseService::start\<close>: the two queues are static, the first start makes them; nothing is put into
  them.  The elements would be jobs and answers, here numbers.\<close>

definition service_start :: "ecap_state \<Rightarrow> ecap_state" where
  "service_start s =
    (case es_queues s of
       None \<Rightarrow> s\<lparr>es_queues := Some (QUEUE_INITIALIZER (replicate 256 None), QUEUE_INITIALIZER (replicate 256 None))\<rparr>
     | Some _ \<Rightarrow> s)"

text \<open>\<^verbatim>\<open>queue_size\<close> of \<^verbatim>\<open>squid/src/ecap/queue.c\<close>.\<close>

definition ecap_queue_size :: "'a queue_t \<Rightarrow> nat" where
  "ecap_queue_size q = q_size q"

text \<open>\<^verbatim>\<open>suspend\<close>: how long the host may wait; before the start the queue is not there.\<close>

definition suspend :: "ecap_state \<Rightarrow> int \<times> int \<Rightarrow> (int \<times> int) option" where
  "suspend s = (\<lambda>(tv_sec, tv_usec).
    case es_queues s of
      None \<Rightarrow> None
    | Some (jobs, answers) \<Rightarrow>
        if ecap_queue_size answers = 0 then
          (let maxUsec = 300 * 1000 in if tv_sec > 0 \<or> tv_usec > maxUsec then Some (0, maxUsec) else Some (tv_sec, tv_usec))
        else Some (0, 0))"

lemma suspend_bounded: "suspend (service_start s) (sec, usec) = Some (sec', usec') \<Longrightarrow> sec' \<le> 0 \<and> usec' \<le> 300000"
  by (auto simp: suspend_def Let_def split: option.splits if_splits)

section \<open>Adapting\<close>

definition adapt_text_of :: "ecap_service \<Rightarrow> nat option \<Rightarrow> string \<Rightarrow> pyin_adapt_text" where
  "adapt_text_of sv internal vb = \<lparr>at_module = pyModule sv, at_state = internal, at_vb = vb, at_ab = None\<rparr>"

definition adaptBegin :: "ecap_service \<Rightarrow> nat option \<Rightarrow> py_world \<Rightarrow> py_end + (nat option \<times> py_world)" where
  "adaptBegin sv internal w =
    and_then (pyin_adapt_begin (adapt_text_of sv None []) (pyController sv) (sv_uri sv) (request_service sv) w) (\<lambda>(r, at, w).
      Inr (if at_state at \<noteq> None then at_state at else internal, w))"

definition adaptEnd :: "ecap_service \<Rightarrow> nat option \<Rightarrow> string \<Rightarrow> py_world \<Rightarrow> py_end + (nat option \<times> string \<times> py_world)" where
  "adaptEnd sv internal out w =
    and_then (pyin_adapt_end (adapt_text_of sv internal []) w) (\<lambda>(r, at, w).
      if r \<noteq> 0 then Inr (at_state at, out, w)
      else Inr (at_state at, (case at_ab at of None \<Rightarrow> out | Some s \<Rightarrow> out @ s), w))"

definition adaptHeader :: "ecap_service \<Rightarrow> nat option \<Rightarrow> string \<Rightarrow> string \<Rightarrow> py_world \<Rightarrow> py_end + (bool \<times> string \<times> py_world)" where
  "adaptHeader sv internal name v w =
    and_then (pyin_adapt_header (adapt_text_of sv internal v) name w) (\<lambda>(r, at, w).
      if r > 0 then Inr (True, (case at_ab at of None \<Rightarrow> [] | Some s \<Rightarrow> s), w) else Inr (False, [], w))"

definition adaptBody :: "ecap_service \<Rightarrow> nat option \<Rightarrow> string \<Rightarrow> string \<Rightarrow> py_world \<Rightarrow> py_end + (string \<times> py_world)" where
  "adaptBody sv internal vb out w =
    and_then (pyin_adapt_body (adapt_text_of sv internal vb) w) (\<lambda>(r, at, w).
      if r \<noteq> 0 then Inr (out @ vb, w)
      else Inr (case at_ab at of Some s \<Rightarrow> out @ s | None \<Rightarrow> out @ vb, w))"

section \<open>The cache-manager page\<close>

definition is_break :: "char option \<Rightarrow> bool" where
  "is_break c \<longleftrightarrow> c = Some LF \<or> c = Some CR"

text \<open>The loop of \<^verbatim>\<open>read_file\<close> over the characters of the file: the two characters before, and whether a
  comment is being dropped.\<close>

fun read_loop :: "char option \<Rightarrow> char option \<Rightarrow> bool \<Rightarrow> string \<Rightarrow> string" where
  "read_loop llst lst drp [] = []"
| "read_loop llst lst drp (c # cs) =
    (if is_break llst \<and> is_break lst \<and> is_break (Some c) then read_loop lst (Some c) drp cs
     else (let drp = (if is_break (Some c) then False else if c = CHR ''#'' then True else drp)
           in (if drp then [] else [c]) @ read_loop lst (Some c) drp cs))"

definition read_file :: "string \<Rightarrow> string \<Rightarrow> (string \<Rightarrow> string option) \<Rightarrow> string option" where
  "read_file directory_name d_name files =
    (if directory_name = [] then None
     else (let filename = (if last directory_name \<noteq> CHR ''/'' then directory_name @ ''/'' else directory_name) @ d_name in
           case files filename of
             None \<Rightarrow> Some []
           | Some t \<Rightarrow> Some (replicate 70 CHR ''-'' @ [LF] @ ''filename: '' @ filename @ [LF] @ read_loop None None False t @ [LF])))"

text \<open>\<^verbatim>\<open>print_config\<close> over the entries of a directory, and the whole page.\<close>

fun print_entries :: "string \<Rightarrow> (string \<Rightarrow> string option) \<Rightarrow> string list \<Rightarrow> string option" where
  "print_entries d files [] = Some []"
| "print_entries d files (e # es) =
    (if e = ''.'' \<or> e = ''..'' then print_entries d files es
     else do { a \<leftarrow> read_file d e files; b \<leftarrow> print_entries d files es; Some (a @ b) })"

definition print_config :: "string \<Rightarrow> (string \<Rightarrow> string list option) \<Rightarrow> (string \<Rightarrow> string option) \<Rightarrow> string option" where
  "print_config d dirs files = (case dirs d of None \<Rightarrow> Some [] | Some es \<Rightarrow> print_entries d files es)"

fun list_directories :: "(string \<Rightarrow> string list option) \<Rightarrow> (string \<Rightarrow> string option) \<Rightarrow> string list \<Rightarrow> string option" where
  "list_directories dirs files [] = Some []"
| "list_directories dirs files (d # ds) = do {
     a \<leftarrow> print_config d dirs files;
     b \<leftarrow> list_directories dirs files ds;
     Some ([LF] @ ''Directory '' @ d @ [LF] @ a @ b) }"

definition transformation_list :: "(string \<Rightarrow> string list option) \<Rightarrow> (string \<Rightarrow> string option) \<Rightarrow> ecap_state \<Rightarrow> string option" where
  "transformation_list dirs files s =
    map_option (append ''Proxy-Cache Transformation List:'') (list_directories dirs files (es_listed s))"

section \<open>The registered services\<close>

definition HttpReplyService :: ecap_service where
  "HttpReplyService = \<lparr>sv_uri = ''ecap://e-cap.org/ecap/services/reply/http_modifier'', request_service = False, reply_service = True,
     sv_module = [], sv_pypath = [], sv_suffix = [], pyModule = None, pyController = None\<rparr>"

definition HttpRequestService :: ecap_service where
  "HttpRequestService = \<lparr>sv_uri = ''ecap://e-cap.org/ecap/services/request/http_modifier'', request_service = True,
     reply_service = False, sv_module = [], sv_pypath = [], sv_suffix = [], pyModule = None, pyController = None\<rparr>"

section \<open>What the page shows\<close>

text \<open>A position is in a comment when a \<^verbatim>\<open>#\<close> stands before it, or on it, in its line.\<close>

definition in_comment :: "string \<Rightarrow> nat \<Rightarrow> bool" where
  "in_comment t i \<longleftrightarrow> (\<exists>j \<le> i. t ! j = CHR ''#'' \<and> (\<forall>k. j < k \<and> k \<le> i \<longrightarrow> \<not> is_break (Some (t ! k))))"

definition third_break :: "string \<Rightarrow> nat \<Rightarrow> bool" where
  "third_break t i \<longleftrightarrow> i \<ge> 2 \<and> is_break (Some (t ! i)) \<and> is_break (Some (t ! (i - 1))) \<and> is_break (Some (t ! (i - 2)))"

definition shown :: "string \<Rightarrow> string" where
  "shown t = map (nth t) (filter (\<lambda>i. \<not> third_break t i \<and> \<not> in_comment t i) [0..<length t])"

definition before :: "nat \<Rightarrow> string \<Rightarrow> char option" where
  "before n pre = (if n \<le> length pre then Some (pre ! (length pre - n)) else None)"

lemma before_append: "before 1 (pre @ [c]) = Some c" "before 2 (pre @ [c]) = before 1 pre"
  by (auto simp: before_def nth_append)

lemma break_no_comment:
  assumes "is_break (Some (t ! i))"
  shows "\<not> in_comment t i"
proof
  assume "in_comment t i"
  then obtain j where j: "j \<le> i" "t ! j = CHR ''#''" "\<And>k. j < k \<Longrightarrow> k \<le> i \<Longrightarrow> \<not> is_break (Some (t ! k))"
    by (auto simp: in_comment_def)
  have "j \<noteq> i" using j(2) assms by (auto simp: is_break_def)
  then show False using j(1) j(3) [of i] assms by simp
qed

lemma in_comment_step:
  "in_comment (pre @ c # cs) (length pre) =
    (if is_break (Some c) then False
     else c = CHR ''#'' \<or> (pre \<noteq> [] \<and> in_comment (pre @ c # cs) (length pre - 1)))"
proof (cases "is_break (Some c)")
  case True
  then have "\<not> in_comment (pre @ c # cs) (length pre)" by (intro break_no_comment) simp
  then show ?thesis using True by simp
next
  case False
  show ?thesis
  proof (cases "c = CHR ''#''")
    case True
    then have "in_comment (pre @ c # cs) (length pre)" unfolding in_comment_def by (intro exI [of _ "length pre"]) auto
    then show ?thesis using True by (simp add: is_break_def)
  next
    case nhash: False
    have "in_comment (pre @ c # cs) (length pre) \<longleftrightarrow> pre \<noteq> [] \<and> in_comment (pre @ c # cs) (length pre - 1)"
    proof
      assume "in_comment (pre @ c # cs) (length pre)"
      then obtain j where j: "j \<le> length pre" "(pre @ c # cs) ! j = CHR ''#''"
        "\<And>k. j < k \<Longrightarrow> k \<le> length pre \<Longrightarrow> \<not> is_break (Some ((pre @ c # cs) ! k))"
        by (auto simp: in_comment_def)
      then have "j < length pre" using nhash by (cases "j = length pre") auto
      then show "pre \<noteq> [] \<and> in_comment (pre @ c # cs) (length pre - 1)"
        using j(2,3) unfolding in_comment_def by (intro conjI exI [of _ j]) auto
    next
      assume p: "pre \<noteq> [] \<and> in_comment (pre @ c # cs) (length pre - 1)"
      then obtain j where j: "j \<le> length pre - 1" "(pre @ c # cs) ! j = CHR ''#''"
        "\<And>k. j < k \<Longrightarrow> k \<le> length pre - 1 \<Longrightarrow> \<not> is_break (Some ((pre @ c # cs) ! k))"
        by (auto simp: in_comment_def)
      have "\<not> is_break (Some ((pre @ c # cs) ! k))" if "j < k" "k \<le> length pre" for k
        using j(3) [of k] that False by (cases "k = length pre") auto
      then show "in_comment (pre @ c # cs) (length pre)"
        unfolding in_comment_def using j(1,2) by (intro exI [of _ j]) auto
    qed
    then show ?thesis using False nhash by simp
  qed
qed

lemma read_loop_shows:
  "read_loop (before 2 pre) (before 1 pre) (pre \<noteq> [] \<and> in_comment (pre @ suf) (length pre - 1)) suf =
    map (nth (pre @ suf)) (filter (\<lambda>i. \<not> third_break (pre @ suf) i \<and> \<not> in_comment (pre @ suf) i) [length pre..<length (pre @ suf)])"
proof (induction suf arbitrary: pre)
  case (Cons c cs)
  note [simp del] = upt_Suc One_nat_def
  let ?t = "pre @ c # cs" and ?drp = "pre \<noteq> [] \<and> in_comment (pre @ c # cs) (length pre - 1)"
  have up: "[length pre..<length ?t] = length pre # [Suc (length pre)..<length ?t]"
    by (rule upt_conv_Cons) simp
  have third: "third_break ?t (length pre) \<longleftrightarrow> is_break (before 2 pre) \<and> is_break (before 1 pre) \<and> is_break (Some c)"
    by (auto simp: third_break_def before_def nth_append is_break_def)
  have IH: "read_loop (before 1 pre) (Some c) (in_comment ?t (length pre)) cs =
    map (nth ?t) (filter (\<lambda>i. \<not> third_break ?t i \<and> \<not> in_comment ?t i) [Suc (length pre)..<length ?t])"
    using Cons.IH [of "pre @ [c]"] by (simp add: before_append)
  show ?case
  proof (cases "third_break ?t (length pre)")
    case True
    then have b: "is_break (before 2 pre)" "is_break (before 1 pre)" "is_break (Some c)" using third by auto
    have "pre \<noteq> []" using b(2) by (auto simp: before_def is_break_def)
    moreover have "is_break (Some (?t ! (length pre - 1)))"
      using b(2) \<open>pre \<noteq> []\<close> by (auto simp: before_def nth_append is_break_def split: if_splits)
    then have "\<not> in_comment ?t (length pre - 1)"
      by (rule break_no_comment)
    ultimately have "?drp = in_comment ?t (length pre)" using in_comment_step [of pre c cs] b(3) by simp
    then show ?thesis using IH b True up by simp
  next
    case False
    then have nb: "\<not> (is_break (before 2 pre) \<and> is_break (before 1 pre) \<and> is_break (Some c))" using third by simp
    have d: "(if is_break (Some c) then False else if c = CHR ''#'' then True else ?drp) = in_comment ?t (length pre)"
      using in_comment_step [of pre c cs] by auto
    have "read_loop (before 2 pre) (before 1 pre) ?drp (c # cs) =
      (if in_comment ?t (length pre) then [] else [c]) @ read_loop (before 1 pre) (Some c) (in_comment ?t (length pre)) cs"
      unfolding read_loop.simps Let_def d using nb by (simp only: if_False)
    then show ?thesis using IH False up by simp
  qed
qed simp

section \<open>Configuring\<close>

lemma get_module_run:
  assumes w: "py_good E T L w" and codes: "E 39" "E 47"
    and gives: "\<And>v r. py_good E T L v \<Longrightarrow> gains w (Some r) (\<lambda>_. True) v \<Longrightarrow> P (Some r, v)"
  shows "py_run E (pyin_get_module name w) P"
proof -
  let ?load = "\<lambda>filename w. case (case py_imports w of
                  [] \<Rightarrow> new_ref (Py_Other (Some True)) w
                | None # is \<Rightarrow> (None, w\<lparr>py_imports := is, py_err := Some_Error\<rparr>)
                | Some v # is \<Rightarrow> new_ref v (w\<lparr>py_imports := is\<rparr>)) of (m, w) \<Rightarrow>
      and_then (Py_CLEAR filename w) (\<lambda>w. if m = None then and_then (PyErr_Print w) (\<lambda>w. Inl (Exits 47)) else Inr (m, w))"
  have loaded: "py_run E (?load (Some f) u) P" if u: "py_good E T L u" and f: "gains w (Some f) (\<lambda>y. y = x) u" for f u x
  proof -
    obtain m v where m: "(case py_imports u of
                  [] \<Rightarrow> new_ref (Py_Other (Some True)) u
                | None # is \<Rightarrow> (None, u\<lparr>py_imports := is, py_err := Some_Error\<rparr>)
                | Some v # is \<Rightarrow> new_ref v (u\<lparr>py_imports := is\<rparr>)) = (m, v)" by fastforce
    have new: "py_good E T L (u\<lparr>py_imports := is\<rparr>)" "py_good E T L (u\<lparr>py_imports := is, py_err := Some_Error\<rparr>)" for "is"
      using u by (simp_all add: py_good_def)
    have "py_good E T L v \<and> (if m = None then py_refs v = py_refs u \<and> py_err v = Some_Error else gains u m (\<lambda>_. True) v)"
    proof (cases "py_imports u")
      case Nil
      with m have n: "new_ref (Py_Other (Some True)) u = (m, v)" by simp
      from new_ref_gains [OF u _ n, of "\<lambda>_. True"] show ?thesis by (auto simp: gains_def)
    next
      case (Cons i "is")
      show ?thesis
      proof (cases i)
        case None
        then show ?thesis using m Cons new by auto
      next
        case (Some y)
        with m Cons have n: "new_ref y (u\<lparr>py_imports := is\<rparr>) = (m, v)" by simp
        from new_ref_gains [OF new(1) _ n, of "\<lambda>_. True"] show ?thesis by (auto simp: gains_def)
      qed
    qed
    note v = this
    have "py_run E (Py_CLEAR (Some f) v) (\<lambda>y. py_run E (if m = None then and_then (PyErr_Print y) (\<lambda>w. Inl (Exits 47)) else Inr (m, y)) P)"
    proof (cases m)
      case None
      then have "live v (Some f)" using v gains_live [OF f] by (simp add: live_def)
      then show ?thesis using v None codes
        by (auto simp: Py_CLEAR_def live_def PyErr_Print_def)
    next
      case (Some r)
      then have g: "gains u (Some r) (\<lambda>_. True) v" using v by simp
      have "live v (Some f)" using gains_keeps_live [OF g gains_live [OF f]] .
      then show ?thesis
        by (rule clear_run [OF v [THEN conjunct1]]) (auto simp: Some intro!: gives gains_swap [OF f g])
    qed
    then show ?thesis using m by simp
  qed
  have "py_run E (case py_build (Py_Str name) w of (filename, w) \<Rightarrow> if filename = None then Inl (Exits 39) else ?load filename w) P"
  proof (rule build_run [OF w, where P = "\<lambda>y. py_run E (case y of (filename, w) \<Rightarrow>
      if filename = None then Inl (Exits 39) else ?load filename w) P"], goal_cases)
    case (1 v)
    then show ?case using codes by simp
  next
    case (2 f u)
    show ?case using loaded [OF 2] by simp
  qed
  then show ?thesis by (simp only: pyin_get_module_def Let_def)
qed

lemma start_good: "py_good E T L w \<Longrightarrow> py_good E T L (pyin_start p w) \<and> py_refs (pyin_start p w) = py_refs w"
  by (simp add: pyin_start_def py_good_def)

lemma setOne_prefix: "setOne name h v sv = Inl msg \<Longrightarrow> take (length CfgErrorPrefix) msg = CfgErrorPrefix"
  by (auto simp: setOne_def setModule_def setPythonPath_def setSuffix_def CfgErrorPrefix_def split: if_splits)

lemma visit_prefix: "visitEachOption cfg sv = (Some msg, sv') \<Longrightarrow> take (length CfgErrorPrefix) msg = CfgErrorPrefix"
  by (induction cfg sv rule: visitEachOption.induct) (auto split: sum.splits dest: setOne_prefix)

lemma setting_prefix: "setting_error sv = Some msg \<Longrightarrow> take (length CfgErrorPrefix) msg = CfgErrorPrefix"
  by (auto simp: setting_error_def CfgErrorPrefix_def split: if_splits)

lemma insert_path_set [simp]: "set (insert_path p qs) = insert p (set qs)"
  by (induction qs) auto

lemma insert_path_sorted: "sorted_wrt (<) qs \<Longrightarrow> p \<notin> set qs \<Longrightarrow> sorted_wrt (<) (insert_path p qs)"
  by (induction qs) (auto dest: order.strict_trans)

lemma setting_error_objects [simp]: "setting_error (sv\<lparr>pyModule := m, pyController := c\<rparr>) = setting_error sv"
  by (simp add: setting_error_def)

text \<open>Loading the module and making its controller.\<close>

lemma interpreter_run:
  assumes w: "py_good E (\<lambda>_. True) L w" and codes: "E 39" "E 47" "E 108" "E 116" "E 129"
    and ends: "\<And>m c u. live u (Some m) \<Longrightarrow> live u (Some c) \<Longrightarrow> P (f (Some m) (Some c) u)"
  shows "py_run E (and_then (pyin_get_module name w) (\<lambda>(m, w). and_then (pyin_create_controller m suff db w) (\<lambda>(c, w). Inr (f m c w)))) P"
  unfolding py_run_simps(4)
proof (rule get_module_run [OF w])
  fix v m assume v: "py_good E (\<lambda>_. True) L v" "gains w (Some m) (\<lambda>_. True) v"
  have "py_run E (pyin_create_controller (Some m) suff db v) (\<lambda>x. py_run E (case x of (c, w) \<Rightarrow> Inr (f (Some m) c w)) P)"
  proof (rule controller_run [OF v(1) gains_live [OF v(2)]])
    fix u c assume u: "gains v (Some c) (\<lambda>_. True) u"
    show "py_run E (case (Some c, u) of (c, w) \<Rightarrow> Inr (f (Some m) c w)) P"
      using ends gains_keeps_live [OF u gains_live [OF v(2)]] gains_live [OF u] by simp
  qed (simp_all add: codes)
  then show "py_run E (case (Some m, v) of (m, w) \<Rightarrow> and_then (pyin_create_controller m suff db w) (\<lambda>(c, w). Inr (f m c w))) P"
    by simp
qed (simp_all add: codes)


definition fresh_python :: py_world where
  "fresh_python = \<lparr>py_running = False, py_path = [], py_refs = Map.empty, py_next = 0, py_err = No_Error, py_builds = [],
     py_imports = [], py_attrs = [], py_calls = [], py_log = []\<rparr>"

definition fresh_service :: ecap_state where
  "fresh_service = \<lparr>es_service = HttpReplyService, es_python = fresh_python, es_listed = [], es_registered = False, es_queues = None\<rparr>"


section \<open>The page\<close>

text \<open>C26: the cache-manager page shows of a rule file exactly the characters that are neither in a comment
  (from a # to the end of its line) nor a line break that follows two others, in their order, behind the
  name of the file.\<close>

theorem read_file_shows:
  "files (d @ ''/'' @ e) = Some t \<Longrightarrow> d \<noteq> [] \<Longrightarrow> last d \<noteq> CHR ''/'' \<Longrightarrow>
    read_file d e files = Some (replicate 70 CHR ''-'' @ [LF] @ ''filename: '' @ d @ ''/'' @ e @ [LF] @ shown t @ [LF])"
  using read_loop_shows [of "[]" t] by (simp add: read_file_def shown_def before_def)

lemma read_file_shows_witness:
  "read_file ''/dbs'' ''a'' [''/dbs/a'' \<mapsto> ''x # y'' @ [LF, LF, LF] @ ''z''] =
    Some (replicate 70 CHR ''-'' @ [LF] @ ''filename: /dbs/a'' @ [LF] @ ''x '' @ [LF, LF] @ ''z'' @ [LF])"
proof -
  have "shown (''x # y'' @ [LF, LF, LF] @ ''z'') = ''x '' @ [LF, LF] @ ''z''"
    using read_loop_shows [of "[]" "''x # y'' @ [LF, LF, LF] @ ''z''"] by (simp add: shown_def before_def is_break_def)
  then show ?thesis
    using read_file_shows [of "[''/dbs/a'' \<mapsto> ''x # y'' @ [LF, LF, LF] @ ''z'']" "''/dbs''" "''a''" "''x # y'' @ [LF, LF, LF] @ ''z''"]
    by simp
qed

end
