(* ===== verification/EcapHeaders.thy ===== *)
theory EcapHeaders
  imports EcapService
begin

text \<open>
  The visitor of the header fields, \<^verbatim>\<open>squid/src/ecap/adapter_header_visitor.cc\<close>.  A field is its
  name, its value and what stands in memory behind the value, since \<^verbatim>\<open>value.start\<close> is taken as a C
  string.  A multimap is a list of pairs in the order of their keys, the pairs of a key in the order of
  their insertion.
\<close>

section \<open>The multimap\<close>

type_synonym mmap = "(string \<times> string) list"

fun mm_insert :: "string \<Rightarrow> string \<Rightarrow> mmap \<Rightarrow> mmap" where
  "mm_insert k v [] = [(k, v)]"
| "mm_insert k v (p # m) = (if k < fst p then (k, v) # p # m else p # mm_insert k v m)"

definition mm_of :: "string \<Rightarrow> mmap \<Rightarrow> mmap" where
  "mm_of k m = filter (\<lambda>p. fst p = k) m"

fun mm_insert_all :: "mmap \<Rightarrow> mmap \<Rightarrow> mmap" where
  "mm_insert_all [] m = m"
| "mm_insert_all ((k, v) # ps) m = mm_insert_all ps (mm_insert k v m)"

section \<open>The visitor\<close>

type_synonym header_field = "string \<times> string \<times> string"

text \<open>What one visit notes: the new value of a changed field, else the old one, read up to its NUL.\<close>

definition note_field :: "string \<Rightarrow> string option \<Rightarrow> string \<Rightarrow> mmap \<times> mmap \<Rightarrow> mmap \<times> mmap" where
  "note_field name changed old = (\<lambda>(cheader, aheader).
    case changed of
      Some ret \<Rightarrow>
        (let cheader = (if mm_of name cheader = [] \<and> mm_of name aheader \<noteq> [] then mm_insert_all (mm_of name aheader) cheader
                        else cheader)
         in (mm_insert name ret cheader, mm_insert name ret aheader))
    | None \<Rightarrow> (if mm_of name cheader \<noteq> [] then mm_insert name old cheader else cheader, mm_insert name old aheader))"

definition visit :: "ecap_service \<Rightarrow> nat option \<Rightarrow> header_field \<Rightarrow> (mmap \<times> mmap) \<times> py_world \<Rightarrow> py_end + ((mmap \<times> mmap) \<times> py_world)" where
  "visit sv internal = (\<lambda>(name, v, behind) (maps, w).
    and_then (adaptHeader sv internal name v w) (\<lambda>(changed, ret, w).
      if changed then Inr (note_field name (Some ret) [] maps, w)
      else if NUL \<notin> set (v @ behind) then Inl Crashes
      else Inr (note_field name None (cstr_of (v @ behind)) maps, w)))"

fun visitEach :: "ecap_service \<Rightarrow> nat option \<Rightarrow> header_field list \<Rightarrow> (mmap \<times> mmap) \<times> py_world \<Rightarrow> py_end + ((mmap \<times> mmap) \<times> py_world)" where
  "visitEach sv internal [] s = Inr s"
| "visitEach sv internal (f # fs) s = and_then (visit sv internal f s) (visitEach sv internal fs)"

text \<open>\<^verbatim>\<open>removeAny\<close> of the host removes the fields whose name is the \<open>same\<close>, \<^verbatim>\<open>add\<close> puts a field behind
  the others.\<close>

definition removeAny :: "(string \<Rightarrow> string \<Rightarrow> bool) \<Rightarrow> string \<Rightarrow> mmap \<Rightarrow> mmap" where
  "removeAny same name hdr = filter (\<lambda>p. \<not> same name (fst p)) hdr"

fun remove_changed :: "(string \<Rightarrow> string \<Rightarrow> bool) \<Rightarrow> mmap \<Rightarrow> mmap \<Rightarrow> mmap" where
  "remove_changed same [] hdr = hdr"
| "remove_changed same ((k, v) # ps) hdr = remove_changed same ps (removeAny same k hdr)"

fun add_changed :: "mmap \<Rightarrow> mmap \<Rightarrow> mmap" where
  "add_changed [] hdr = hdr"
| "add_changed ((k, v) # ps) hdr = add_changed ps (if v \<noteq> [] then hdr @ [(k, v)] else hdr)"

definition applyChanges :: "(string \<Rightarrow> string \<Rightarrow> bool) \<Rightarrow> mmap \<Rightarrow> mmap \<Rightarrow> mmap" where
  "applyChanges same cheader hdr = add_changed cheader (remove_changed same cheader hdr)"

section \<open>What the maps hold\<close>

definition keys_sorted :: "mmap \<Rightarrow> bool" where
  "keys_sorted m \<longleftrightarrow> sorted (map fst m)"

lemma mm_insert_keys: "set (map fst (mm_insert k v m)) = insert k (set (map fst m))"
  by (induction m) auto

lemma mm_insert_sorted: "keys_sorted m \<Longrightarrow> keys_sorted (mm_insert k v m)"
proof (induction m)
  case (Cons p m)
  then show ?case using mm_insert_keys [of k v m] by (auto simp: keys_sorted_def)
qed (simp add: keys_sorted_def)

lemma mm_of_insert: "keys_sorted m \<Longrightarrow> mm_of k (mm_insert j v m) = mm_of k m @ (if j = k then [(j, v)] else [])"
proof (induction m)
  case (Cons p m)
  have "mm_of k m = []" if "k < fst p"
    using Cons.prems that by (force simp: mm_of_def keys_sorted_def filter_empty_conv)
  then show ?case using Cons by (auto simp: mm_of_def keys_sorted_def)
qed (simp add: mm_of_def)

lemma mm_insert_all_of:
  "keys_sorted m \<Longrightarrow> keys_sorted (mm_insert_all ps m) \<and> mm_of k (mm_insert_all ps m) = mm_of k m @ mm_of k ps"
proof (induction ps arbitrary: m)
  case (Cons p ps)
  obtain j v where p: "p = (j, v)" by fastforce
  show ?case using Cons.IH [OF mm_insert_sorted [OF Cons.prems], of j v] mm_of_insert [OF Cons.prems, of k j v]
    by (auto simp: p mm_of_def)
qed (simp add: mm_of_def)

text \<open>The notes on a list of visited fields, with their new values where they changed.\<close>

type_synonym visited = "string \<times> string option \<times> string"

definition final_value :: "visited \<Rightarrow> string" where
  "final_value = (\<lambda>(name, changed, old). case changed of None \<Rightarrow> old | Some ret \<Rightarrow> ret)"

definition fields_of :: "string \<Rightarrow> visited list \<Rightarrow> mmap" where
  "fields_of k vs = map (\<lambda>v. (fst v, final_value v)) (filter (\<lambda>v. fst v = k) vs)"

definition any_changed :: "string \<Rightarrow> visited list \<Rightarrow> bool" where
  "any_changed k vs \<longleftrightarrow> (\<exists>v \<in> set vs. fst v = k \<and> fst (snd v) \<noteq> None)"

fun note_all :: "visited list \<Rightarrow> mmap \<times> mmap \<Rightarrow> mmap \<times> mmap" where
  "note_all [] maps = maps"
| "note_all ((name, changed, old) # vs) maps = note_all vs (note_field name changed old maps)"

definition maps_hold :: "visited list \<Rightarrow> mmap \<times> mmap \<Rightarrow> bool" where
  "maps_hold vs = (\<lambda>(cheader, aheader). keys_sorted cheader \<and> keys_sorted aheader \<and>
     (\<forall>k. mm_of k aheader = fields_of k vs \<and> mm_of k cheader = (if any_changed k vs then fields_of k vs else [])))"

lemma fields_of_snoc: "fields_of k (vs @ [v]) = fields_of k vs @ (if fst v = k then [(fst v, final_value v)] else [])"
  by (simp add: fields_of_def)

lemma any_changed_snoc: "any_changed k (vs @ [v]) \<longleftrightarrow> any_changed k vs \<or> (fst v = k \<and> fst (snd v) \<noteq> None)"
  by (auto simp: any_changed_def)

lemma fields_of_changed: "any_changed k vs \<Longrightarrow> fields_of k vs \<noteq> []"
  by (auto simp: any_changed_def fields_of_def filter_empty_conv)

lemma fields_of_keys: "mm_of j (fields_of k vs) = (if j = k then fields_of k vs else [])"
  by (auto simp: mm_of_def fields_of_def filter_map o_def filter_empty_conv intro!: filter_True)

lemma note_field_holds:
  assumes "maps_hold vs maps"
  shows "maps_hold (vs @ [(name, changed, old)]) (note_field name changed old maps)"
proof -
  obtain c a where m: "maps = (c, a)" by fastforce
  have h: "keys_sorted c" "keys_sorted a" "\<And>k. mm_of k a = fields_of k vs" "\<And>k. mm_of k c = (if any_changed k vs then fields_of k vs else [])"
    using assms m by (auto simp: maps_hold_def)
  show ?thesis
  proof (cases changed)
    case None
    then show ?thesis
      using h mm_insert_sorted mm_of_insert fields_of_changed [of name vs]
      by (auto simp: m maps_hold_def note_field_def fields_of_snoc any_changed_snoc final_value_def)
  next
    case (Some ret)
    let ?c = "if mm_of name c = [] \<and> mm_of name a \<noteq> [] then mm_insert_all (mm_of name a) c else c"
    have c: "keys_sorted ?c" "\<And>k. mm_of k ?c = (if any_changed k vs \<or> k = name then fields_of k vs else [])"
      using mm_insert_all_of [OF h(1)] h fields_of_keys fields_of_changed [of name vs] by (auto split: if_splits)
    then show ?thesis
      using h mm_insert_sorted mm_of_insert
      by (auto simp: m Some maps_hold_def note_field_def fields_of_snoc any_changed_snoc final_value_def Let_def)
  qed
qed

lemma note_all_holds: "maps_hold us maps \<Longrightarrow> maps_hold (us @ vs) (note_all vs maps)"
proof (induction vs arbitrary: us maps)
  case (Cons v vs)
  obtain n c o' where v: "v = (n, c, o')" by (cases v) auto
  show ?case using Cons.IH [OF note_field_holds [OF Cons.prems], of n c o'] by (simp add: v)
qed simp

section \<open>What is applied\<close>

lemma remove_changed_filter: "remove_changed same c hdr = filter (\<lambda>p. \<forall>q \<in> set c. \<not> same (fst q) (fst p)) hdr"
  by (induction same c hdr rule: remove_changed.induct) (auto simp: removeAny_def intro!: filter_cong)

lemma add_changed_filter: "add_changed c hdr = hdr @ filter (\<lambda>p. snd p \<noteq> []) c"
  by (induction c hdr rule: add_changed.induct) auto

lemma holds_key: "maps_hold vs (c, a) \<Longrightarrow> (\<exists>q \<in> set c. fst q = k) \<longleftrightarrow> any_changed k vs"
proof -
  assume h: "maps_hold vs (c, a)"
  have "(\<exists>q \<in> set c. fst q = k) \<longleftrightarrow> mm_of k c \<noteq> []" by (auto simp: mm_of_def filter_empty_conv)
  then show ?thesis using h fields_of_changed [of k vs] by (auto simp: maps_hold_def)
qed

lemma applyChanges_holds:
  assumes h: "maps_hold vs (c, a)" and same: "\<And>x y. same x y \<longleftrightarrow> x = y"
  shows "mm_of k (applyChanges same c hdr) = (if any_changed k vs then filter (\<lambda>p. snd p \<noteq> []) (fields_of k vs) else mm_of k hdr)"
    and "\<exists>t. applyChanges same c hdr = filter (\<lambda>p. \<not> any_changed (fst p) vs) hdr @ t \<and> keys_sorted t"
proof -
  have keep: "(\<forall>q \<in> set c. fst q \<noteq> j) \<longleftrightarrow> \<not> any_changed j vs" for j using holds_key [OF h, of j] by blast
  have eq: "applyChanges same c hdr = filter (\<lambda>p. \<not> any_changed (fst p) vs) hdr @ filter (\<lambda>p. snd p \<noteq> []) c"
    by (simp add: applyChanges_def remove_changed_filter add_changed_filter same keep)
  have c: "mm_of k c = (if any_changed k vs then fields_of k vs else [])" "keys_sorted c" using h by (auto simp: maps_hold_def)
  have swap: "mm_of k (filter (\<lambda>p. snd p \<noteq> []) c) = filter (\<lambda>p. snd p \<noteq> []) (mm_of k c)"
    by (simp add: mm_of_def conj_commute)
  have "mm_of k (filter (\<lambda>p. \<not> any_changed (fst p) vs) hdr) = (if any_changed k vs then [] else mm_of k hdr)"
    by (auto simp: mm_of_def filter_empty_conv intro!: filter_cong)
  moreover have "mm_of k (x @ y) = mm_of k x @ mm_of k y" for x y by (simp add: mm_of_def)
  ultimately show "mm_of k (applyChanges same c hdr) = (if any_changed k vs then filter (\<lambda>p. snd p \<noteq> []) (fields_of k vs) else mm_of k hdr)"
    by (simp add: eq swap c(1))
  have "keys_sorted (filter P c)" for P using c(2) by (simp add: keys_sorted_def sorted_filter)
  then show "\<exists>t. applyChanges same c hdr = filter (\<lambda>p. \<not> any_changed (fst p) vs) hdr @ t \<and> keys_sorted t"
    using eq by blast
qed

text \<open>The Python code was asked for a field and answered that it changed, with this value.\<close>

definition python_changed :: "py_log \<Rightarrow> py_value \<Rightarrow> string \<Rightarrow> string \<Rightarrow> string \<Rightarrow> bool" where
  "python_changed X st name v ret \<longleftrightarrow> (\<exists>c x. (''adapt_header'', Py_Sequence [st, Py_Bytes (take 51201 name), Py_Bytes v],
      Inr (Py_Sequence [c, x])) \<in> set X \<and> py_truth c = Some True \<and> ret = (case x of Py_Bytes t \<Rightarrow> t | _ \<Rightarrow> []))"

lemma adaptHeader_run:
  assumes w: "py_good E header_result L w" and m: "live w (pyModule sv)" and st: "py_refs w a = Some st"
  shows "py_run E (adaptHeader sv (Some a) name v w) (\<lambda>(changed, ret, u). \<exists>X. py_good E header_result (L @ X) u \<and>
    py_refs u = py_refs w \<and> (changed \<longrightarrow> python_changed X st name v ret))"
proof -
  let ?at = "adapt_text_of sv (Some a) v"
  have f: "live w (at_module ?at)" "at_state ?at = Some a" "at_vb ?at = v" "at_ab ?at = None" using m by (simp_all add: adapt_text_of_def)
  show ?thesis
    unfolding adaptHeader_def py_run_simps(4)
  proof (rule header_run [OF w f(1,2) st], goal_cases)
    case (1 r u X)
    then show ?case by auto
  next
    case (2 u c x b)
    have X: "py_good E header_result (L @ [(''adapt_header'', Py_Sequence [st, Py_Bytes (take 51201 name), Py_Bytes v],
        Inr (Py_Sequence [c, x]))]) u" using 2(1) f(3) by simp
    then show ?case using 2(2-4) f(4)
      by (auto simp: python_changed_def plain_result_def intro!: exI [of _ "[(''adapt_header'', Py_Sequence [st, Py_Bytes (take 51201 name),
        Py_Bytes v], Inr (Py_Sequence [c, x]))]"])
  qed
qed

definition visited_as :: "py_log \<Rightarrow> py_value \<Rightarrow> header_field \<Rightarrow> visited \<Rightarrow> bool" where
  "visited_as X st = (\<lambda>(name, v, behind) (n, changed, old). n = name \<and>
    (case changed of None \<Rightarrow> old = cstr_of (v @ behind) | Some ret \<Rightarrow> python_changed X st name v ret))"

lemma visited_as_mono: "visited_as X st f v \<Longrightarrow> set X \<subseteq> set Y \<Longrightarrow> visited_as Y st f v"
  by (auto simp: visited_as_def python_changed_def split: option.splits prod.splits) blast+

lemma visitEach_run:
  assumes "py_good E header_result L w" "live w (pyModule sv)" "py_refs w a = Some st" "\<forall>(n, v, b) \<in> set fs. NUL \<in> set (v @ b)"
  shows "py_run E (visitEach sv (Some a) fs (maps, w)) (\<lambda>(maps', u). \<exists>X vs. py_good E header_result (L @ X) u \<and> py_refs u = py_refs w \<and>
    maps' = note_all vs maps \<and> list_all2 (visited_as X st) fs vs)"
  using assms
proof (induction fs arbitrary: maps w L)
  case Nil
  then show ?case by (auto intro!: exI [of _ "[]"])
next
  case (Cons f fs)
  obtain n v b where f: "f = (n, v, b)" by (cases f) auto
  have nul: "NUL \<in> set (v @ b)" using Cons.prems(4) f by auto
  let ?P = "\<lambda>(maps', u). \<exists>X vs. py_good E header_result (L @ X) u \<and> py_refs u = py_refs w \<and>
    maps' = note_all vs maps \<and> list_all2 (visited_as X st) (f # fs) vs"
  have go: "py_run E (visitEach sv (Some a) fs (note_field n c o' maps, u)) ?P"
    if u: "py_good E header_result (L @ X) u" "py_refs u = py_refs w" and c: "visited_as X st f (n, c, o')" for u X c o'
  proof -
    have "live u (pyModule sv)" "py_refs u a = Some st" using live_same [OF u(2)] u(2) Cons.prems(2,3) by simp_all
    from Cons.IH [OF u(1) this, of "note_field n c o' maps"] Cons.prems(4)
    have "py_run E (visitEach sv (Some a) fs (note_field n c o' maps, u)) (\<lambda>(maps', z). \<exists>Y vs. py_good E header_result ((L @ X) @ Y) z \<and>
      py_refs z = py_refs u \<and> maps' = note_all vs (note_field n c o' maps) \<and> list_all2 (visited_as Y st) fs vs)"
      by simp
    then show ?thesis
    proof (rule py_run_mono, clarify)
      fix c' a' z Y vs assume z: "py_good E header_result ((L @ X) @ Y) z" "py_refs z = py_refs u"
        "(c', a') = note_all vs (note_field n c o' maps)" "list_all2 (visited_as Y st) fs vs"
      have "list_all2 (visited_as (X @ Y) st) (f # fs) ((n, c, o') # vs)"
        using visited_as_mono [OF c, of "X @ Y"] list_all2_mono [OF z(4)] visited_as_mono [of Y st _ _ "X @ Y"] by auto
      then show "\<exists>X vs. py_good E header_result (L @ X) z \<and> py_refs z = py_refs w \<and> (c', a') = note_all vs maps \<and>
          list_all2 (visited_as X st) (f # fs) vs"
        using z u(2) by (intro exI [of _ "X @ Y"] exI [of _ "(n, c, o') # vs"]) simp
    qed
  qed
  have "py_run E (visit sv (Some a) f (maps, w)) (\<lambda>x. py_run E (visitEach sv (Some a) fs x) ?P)"
    unfolding visit_def f prod.case py_run_simps(4)
  proof (rule py_run_mono [OF adaptHeader_run [OF Cons.prems(1-3)]], clarify)
    fix changed ret u X assume u: "py_good E header_result (L @ X) u" "py_refs u = py_refs w" "changed \<longrightarrow> python_changed X st n v ret"
    show "py_run E (if changed then Inr (note_field n (Some ret) [] maps, u)
      else if NUL \<notin> set (v @ b) then Inl Crashes else Inr (note_field n None (cstr_of (v @ b)) maps, u))
      (\<lambda>x. py_run E (visitEach sv (Some a) fs x)
         (\<lambda>(maps', u). \<exists>X vs. py_good E header_result (L @ X) u \<and> py_refs u = py_refs w \<and> maps' = note_all vs maps \<and>
           list_all2 (visited_as X st) ((n, v, b) # fs) vs))"
      using go [OF u(1,2), of "Some ret" "[]"] go [OF u(1,2), of None "cstr_of (v @ b)"] u(3) nul
      by (simp add: f visited_as_def)
  qed
  then show ?case by simp
qed

section \<open>Property\<close>


definition python_header :: py_world where
  "python_header = python_ab\<lparr>py_calls := [Inr (Py_Sequence [Py_Int 0, Py_None]), Inr (Py_Sequence [Py_Int 1, Py_Bytes ''b2'']),
     Inr (Py_Sequence [Py_Int 0, Py_None])]\<rparr>"

definition service_ab :: ecap_service where
  "service_ab = HttpReplyService\<lparr>pyModule := Some 0, pyController := Some 1\<rparr>"


end
