(* ===== verification/EcapXaction.thy ===== *)
theory EcapXaction
  imports EcapHeaders
begin

text \<open>
  A transaction of the Squid adapter, \<^verbatim>\<open>squid/src/ecap/adapter_base_xaction.cc\<close>: the state machine between
  the virgin body that the host supplies (vb) and the adapted body that the host asks for (ab).  The
  calls to the host are noted in their order; the host does not call back while it is called.
  \<^verbatim>\<open>Must\<close> throws; a call through the null pointer to the host is a crash.
\<close>

section \<open>The state\<close>

datatype OperationState = opUndecided | opOn | opComplete | opNever

datatype host_call = VbMake | VbMakeMore | VbContent | VbContentShift nat | VbStopMaking
  | UseAdapted "(string \<times> string) list" | NoteAbContentAvailable | NoteAbContentDone bool | AdaptationAborted

record xaction =
  xa_service :: ecap_service
  hostx :: bool
  ab_buffer :: string
  internal :: "nat option"
  receivingVb :: OperationState
  sendingAb :: OperationState
  xa_calls :: "host_call list"
  xa_python :: py_world

type_synonym 'a xaction_result = "py_end + ((string + 'a) \<times> xaction)"

definition new_xaction :: "ecap_service \<Rightarrow> py_world \<Rightarrow> xaction" where
  "new_xaction sv w = \<lparr>xa_service = sv, hostx = True, ab_buffer = [], internal = None, receivingVb = opUndecided,
     sendingAb = opUndecided, xa_calls = [], xa_python = w\<rparr>"

text \<open>What one statement does, then the next unless an exception was thrown.\<close>

definition and_next :: "'a xaction_result \<Rightarrow> ('a \<Rightarrow> xaction \<Rightarrow> 'b xaction_result) \<Rightarrow> 'b xaction_result" where
  "and_next m f = and_then m (\<lambda>(r, x). case r of Inl msg \<Rightarrow> Inr (Inl msg, x) | Inr v \<Rightarrow> f v x)"

lemma and_next_simps [simp]:
  "and_next (Inl e) f = Inl e" "and_next (Inr (Inl msg, x)) f = Inr (Inl msg, x)" "and_next (Inr (Inr v, x)) f = f v x"
  by (simp_all add: and_next_def)

lemma and_next_Inr: "and_next m f = Inr (Inr v, z) \<longleftrightarrow> (\<exists>u y. m = Inr (Inr u, y) \<and> f u y = Inr (Inr v, z))"
proof (cases m)
  case (Inr p)
  obtain r y where "p = (r, y)" by fastforce
  then show ?thesis using Inr by (cases r) simp_all
qed simp

definition Must :: "bool \<Rightarrow> xaction \<Rightarrow> unit xaction_result" where
  "Must c x = Inr (if c then Inr () else Inl ''Must'', x)"

definition to_host :: "host_call \<Rightarrow> xaction \<Rightarrow> unit xaction_result" where
  "to_host c x = (if hostx x then Inr (Inr (), x\<lparr>xa_calls := xa_calls x @ [c]\<rparr>) else Inl Crashes)"

section \<open>The operations\<close>

definition stopVb :: "xaction \<Rightarrow> unit xaction_result" where
  "stopVb x =
    (if receivingVb x = opOn then and_next (to_host VbStopMaking x) (\<lambda>_ x. Inr (Inr (), x\<lparr>receivingVb := opComplete\<rparr>))
     else Must (receivingVb x \<noteq> opUndecided) x)"

text \<open>\<^verbatim>\<open>lastHostCall()->useAdapted(adapted)\<close>.\<close>

definition lastHostCall :: "host_call \<Rightarrow> xaction \<Rightarrow> unit xaction_result" where
  "lastHostCall c x = and_next (Must (hostx x) x) (\<lambda>_ x. Inr (Inr (), x\<lparr>hostx := False, xa_calls := xa_calls x @ [c]\<rparr>))"

text \<open>The virgin message: whether it has a body, its fields, whether the host can clone it and the clone has a body.\<close>

record virgin_message =
  vm_body :: bool
  vm_fields :: "header_field list"
  vm_clone :: bool
  vm_clone_body :: bool

definition xaction_start :: "virgin_message \<Rightarrow> (string \<Rightarrow> string \<Rightarrow> bool) \<Rightarrow> string \<Rightarrow> xaction \<Rightarrow> unit xaction_result" where
  "xaction_start m same host_uri x =
    and_next (Must (hostx x) x) (\<lambda>_ x.
    and_then (adaptBegin (xa_service x) (internal x) (xa_python x)) (\<lambda>(i, w).
    and_next (if vm_body m then to_host VbMake (x\<lparr>internal := i, xa_python := w, receivingVb := opOn\<rparr>)
              else Inr (Inr (), x\<lparr>internal := i, xa_python := w, receivingVb := opNever\<rparr>)) (\<lambda>_ x.
    and_next (Must (vm_clone m) x) (\<lambda>_ x.
    and_then (visitEach (xa_service x) (internal x) (vm_fields m) (([], []), xa_python x)) (\<lambda>(maps, w).
      (let hdr = applyChanges same (fst maps) (map (\<lambda>(n, v, b). (n, v)) (vm_fields m)) @ [(''X-Ecap'', host_uri)];
           x = x\<lparr>xa_python := w\<rparr>
       in if \<not> vm_clone_body m then lastHostCall (UseAdapted hdr) (x\<lparr>sendingAb := opNever\<rparr>)
          else to_host (UseAdapted hdr) x))))))"

definition xaction_stop :: "xaction \<Rightarrow> xaction" where
  "xaction_stop x = x\<lparr>hostx := False\<rparr>"

definition xaction_destroy :: "xaction \<Rightarrow> xaction" where
  "xaction_destroy x = (if hostx x then x\<lparr>hostx := False, xa_calls := xa_calls x @ [AdaptationAborted]\<rparr> else x)"

definition abDiscard :: "xaction \<Rightarrow> unit xaction_result" where
  "abDiscard x = and_next (Must (sendingAb x = opUndecided) x) (\<lambda>_ x. stopVb (x\<lparr>sendingAb := opNever\<rparr>))"

definition abMake :: "bool \<Rightarrow> xaction \<Rightarrow> unit xaction_result" where
  "abMake virgin_body x =
    and_next (Must (sendingAb x = opUndecided) x) (\<lambda>_ x.
    and_next (if hostx x then Must virgin_body x else Inl Crashes) (\<lambda>_ x.
    and_next (Must (receivingVb x = opOn \<or> receivingVb x = opComplete) x) (\<lambda>_ x.
      (let x = x\<lparr>sendingAb := opOn\<rparr> in
       if ab_buffer x \<noteq> [] then to_host NoteAbContentAvailable x else Inr (Inr (), x)))))"

definition abMakeMore :: "xaction \<Rightarrow> unit xaction_result" where
  "abMakeMore x = and_next (Must (receivingVb x = opOn) x) (\<lambda>_ x. to_host VbMakeMore x)"

definition abStopMaking :: "xaction \<Rightarrow> unit xaction_result" where
  "abStopMaking x = stopVb (x\<lparr>sendingAb := opComplete\<rparr>)"

text \<open>\<^verbatim>\<open>substr\<close> throws when the offset is behind the end.\<close>

definition abContent :: "nat \<Rightarrow> nat \<Rightarrow> xaction \<Rightarrow> string xaction_result" where
  "abContent offset size' x =
    and_next (Must (sendingAb x = opOn \<or> sendingAb x = opComplete) x) (\<lambda>_ x.
      Inr (if offset > length (ab_buffer x) then Inl ''out_of_range'' else Inr (take size' (drop offset (ab_buffer x))), x))"

definition abContentShift :: "nat \<Rightarrow> xaction \<Rightarrow> unit xaction_result" where
  "abContentShift size' x =
    and_next (Must (sendingAb x = opOn \<or> sendingAb x = opComplete) x) (\<lambda>_ x.
      Inr (Inr (), x\<lparr>ab_buffer := drop size' (ab_buffer x)\<rparr>))"

definition notifyAdaptContent :: "bool \<Rightarrow> bool \<Rightarrow> xaction \<Rightarrow> unit xaction_result" where
  "notifyAdaptContent at_end is_final x =
    (if sendingAb x = opOn then to_host (if \<not> is_final then NoteAbContentAvailable else NoteAbContentDone at_end) x
     else Inr (Inr (), x))"

definition noteVbContentDone :: "bool \<Rightarrow> xaction \<Rightarrow> unit xaction_result" where
  "noteVbContentDone atEnd x =
    and_next (Must (receivingVb x = opOn) x) (\<lambda>_ x.
    and_next
      (if sendingAb x = opOn then
         and_then (adaptEnd (xa_service x) (internal x) (ab_buffer x) (xa_python x)) (\<lambda>(i, out, w).
         and_next (notifyAdaptContent atEnd True (x\<lparr>internal := i, ab_buffer := out, xa_python := w\<rparr>)) (\<lambda>_ x.
           Inr (Inr (), x\<lparr>sendingAb := opComplete\<rparr>)))
       else Inr (Inr (), x)) (\<lambda>_ x. stopVb x))"

definition noteVbContentAvailable :: "string \<Rightarrow> xaction \<Rightarrow> unit xaction_result" where
  "noteVbContentAvailable vb x =
    and_next (Must (receivingVb x = opOn) x) (\<lambda>_ x.
    and_next (to_host VbContent x) (\<lambda>_ x.
    and_then (adaptBody (xa_service x) (internal x) vb (ab_buffer x) (xa_python x)) (\<lambda>(out, w).
    and_next (to_host (VbContentShift (length vb)) (x\<lparr>ab_buffer := out, xa_python := w\<rparr>)) (\<lambda>_ x.
      notifyAdaptContent False False x))))"

section \<open>The host's side\<close>

datatype host_event = Ab_Discard | Ab_Make | Ab_Make_More | Ab_Stop_Making | Ab_Content nat nat | Ab_Shift nat
  | Vb_Done bool | Vb_Available string

definition handle_event :: "bool \<Rightarrow> host_event \<Rightarrow> xaction \<Rightarrow> unit xaction_result" where
  "handle_event virgin_body e x =
    (case e of
       Ab_Discard \<Rightarrow> abDiscard x
     | Ab_Make \<Rightarrow> abMake virgin_body x
     | Ab_Make_More \<Rightarrow> abMakeMore x
     | Ab_Stop_Making \<Rightarrow> abStopMaking x
     | Ab_Content k n \<Rightarrow> and_next (abContent k n x) (\<lambda>_ x. Inr (Inr (), x))
     | Ab_Shift n \<Rightarrow> abContentShift n x
     | Vb_Done at_end \<Rightarrow> noteVbContentDone at_end x
     | Vb_Available vb \<Rightarrow> noteVbContentAvailable vb x)"

text \<open>The states a transaction comes to while the host still knows it, exceptions included.\<close>

inductive xaction_reaches :: "bool \<Rightarrow> xaction \<Rightarrow> xaction \<Rightarrow> bool" for virgin_body x where
  xaction_here: "xaction_reaches virgin_body x x"
| xaction_more: "xaction_reaches virgin_body x y \<Longrightarrow> hostx y \<Longrightarrow> handle_event virgin_body e y = Inr (r, z) \<Longrightarrow>
    xaction_reaches virgin_body x z"

text \<open>The same without exceptions, with the pieces that arrived and the text the host took.\<close>

fun arrived :: "host_event \<Rightarrow> string list" where
  "arrived (Vb_Available vb) = [vb]"
| "arrived _ = []"

fun taken :: "host_event \<Rightarrow> xaction \<Rightarrow> string" where
  "taken (Ab_Shift n) x = take n (ab_buffer x)"
| "taken _ x = []"

inductive relays :: "bool \<Rightarrow> xaction \<Rightarrow> string list \<Rightarrow> string \<Rightarrow> xaction \<Rightarrow> bool" for virgin_body x where
  relays_nothing: "relays virgin_body x [] [] x"
| relays_more: "relays virgin_body x ps del y \<Longrightarrow> hostx y \<Longrightarrow> handle_event virgin_body e y = Inr (Inr (), z) \<Longrightarrow>
    relays virgin_body x (ps @ arrived e) (del @ taken e y) z"

text \<open>What a host expects of the calls it gets, as an automaton: the virgin body is asked for once and not
  touched after it was stopped, the adapted body is not announced after its end.\<close>

datatype vb_phase = Vb_Unasked | Vb_Flowing | Vb_Stopped
datatype ab_phase = Ab_Open | Ab_Ended

fun host_sees :: "host_call \<Rightarrow> vb_phase \<times> ab_phase \<Rightarrow> (vb_phase \<times> ab_phase) option" where
  "host_sees VbMake (v, a) = (if v = Vb_Unasked then Some (Vb_Flowing, a) else None)"
| "host_sees VbMakeMore (v, a) = (if v = Vb_Flowing then Some (v, a) else None)"
| "host_sees VbContent (v, a) = (if v = Vb_Flowing then Some (v, a) else None)"
| "host_sees (VbContentShift n) (v, a) = (if v = Vb_Flowing then Some (v, a) else None)"
| "host_sees VbStopMaking (v, a) = (if v = Vb_Flowing then Some (Vb_Stopped, a) else None)"
| "host_sees (UseAdapted h) (v, a) = Some (v, a)"
| "host_sees NoteAbContentAvailable (v, a) = (if a = Ab_Open then Some (v, a) else None)"
| "host_sees (NoteAbContentDone b) (v, a) = (if a = Ab_Open then Some (v, Ab_Ended) else None)"
| "host_sees AdaptationAborted (v, a) = Some (v, a)"

fun host_sees_all :: "host_call list \<Rightarrow> vb_phase \<times> ab_phase \<Rightarrow> (vb_phase \<times> ab_phase) option" where
  "host_sees_all [] p = Some p"
| "host_sees_all (c # cs) p = do { p \<leftarrow> host_sees c p; host_sees_all cs p }"

lemma host_sees_append: "host_sees_all (cs @ ds) p = do { p \<leftarrow> host_sees_all cs p; host_sees_all ds p }"
  by (induction cs arbitrary: p) (auto split: bind_splits)

section \<open>Adapting a body, piece by piece\<close>

text \<open>What became of a piece: the Python code replaced it, or it is passed on as it is.\<close>

definition passed_on :: "py_log \<Rightarrow> py_value \<Rightarrow> string \<Rightarrow> string \<Rightarrow> bool" where
  "passed_on X st vb out \<longleftrightarrow> out = vb \<or> (''adapt_body'', Py_Sequence [st, Py_Bytes vb], Inr (Py_Bytes out)) \<in> set X"

definition ended_with :: "py_log \<Rightarrow> py_value \<Rightarrow> string \<Rightarrow> bool" where
  "ended_with X st out \<longleftrightarrow> out = [] \<or> (''adapt_end'', Py_Sequence [st], Inr (Py_Bytes out)) \<in> set X"

lemma adapt_text_fields [simp]:
  "at_module (adapt_text_of sv i vb) = pyModule sv" "at_state (adapt_text_of sv i vb) = i" "at_vb (adapt_text_of sv i vb) = vb"
  "at_ab (adapt_text_of sv i vb) = None"
  by (simp_all add: adapt_text_of_def)

lemma build_without: "py_build_with None f w = Inr (None, w\<lparr>py_err := Some_Error\<rparr>)"
  by (simp add: py_build_with_def)

lemma report_error: "report (w\<lparr>py_err := Some_Error\<rparr>) = Inr (w\<lparr>py_err := No_Error\<rparr>)"
  by (simp add: report_def PyErr_Print_def PyErr_Clear_def)

lemma adaptBody_run:
  assumes w: "py_good E plain_result L w" and m: "live w (pyModule sv)" and st: "i = None \<or> (i = Some a \<and> py_refs w a = Some st)"
  shows "py_run E (adaptBody sv i vb out w) (\<lambda>(out', u). \<exists>X piece. py_good E plain_result (L @ X) u \<and> py_refs u = py_refs w \<and>
    out' = out @ piece \<and> passed_on X st vb piece)"
proof (cases i)
  case None
  have "py_good E plain_result L (w\<lparr>py_err := No_Error\<rparr>)" using w by (simp add: py_good_def)
  then show ?thesis
    by (auto simp: None adaptBody_def pyin_adapt_body_def build_without report_error passed_on_def intro!: exI [of _ "[]"])
next
  case (Some b)
  then have s: "at_state (adapt_text_of sv i vb) = Some a" "py_refs w a = Some st" using st by simp_all
  have m': "live w (at_module (adapt_text_of sv i vb))" using m by simp
  show ?thesis
    unfolding adaptBody_def py_run_simps(4)
  proof (rule body_run [OF w m' s], goal_cases)
    case (1 r u X)
    then show ?case by (auto simp: passed_on_def)
  next
    case (2 u x)
    from 2(3) consider "x = Py_None" | t where "x = Py_Bytes t" by (auto simp: plain_result_def)
    then show ?case
    proof cases
      case 1
      then show ?thesis using 2(1,2) by (auto simp: passed_on_def)
    next
      case (2 t)
      then show ?thesis using \<open>py_good E plain_result _ u\<close> \<open>py_refs u = py_refs w\<close>
        by (auto simp: passed_on_def intro!: exI [of _ "[(''adapt_body'', Py_Sequence [st, Py_Bytes vb], Inr (Py_Bytes t))]"])
    qed
  qed
qed

lemma adaptEnd_run:
  assumes w: "py_good E plain_result L w" and m: "live w (pyModule sv)" and st: "i = None \<or> (i = Some a \<and> py_refs w a = Some st)"
  shows "py_run E (adaptEnd sv i out w) (\<lambda>(i', out', u). \<exists>X piece. py_good E plain_result (L @ X) u \<and> out' = out @ piece \<and>
    ended_with X st piece \<and> (i' = i \<and> py_refs u = py_refs w \<or> i' = None \<and> i = Some a \<and> py_refs u = (py_refs w)(a := None)))"
proof (cases i)
  case None
  have "py_good E plain_result L (w\<lparr>py_err := No_Error\<rparr>)" using w by (simp add: py_good_def)
  then show ?thesis
    by (auto simp: None adaptEnd_def pyin_adapt_end_def build_without report_error ended_with_def intro!: exI [of _ "[]"])
next
  case (Some b)
  then have s: "at_state (adapt_text_of sv i []) = Some a" "py_refs w a = Some st" using st by simp_all
  have m': "live w (at_module (adapt_text_of sv i []))" using m by simp
  show ?thesis
    unfolding adaptEnd_def py_run_simps(4)
  proof (rule end_run [OF w m' s], goal_cases)
    case (1 r u X)
    then show ?case by (auto simp: ended_with_def)
  next
    case (2 u x)
    from 2(3) consider "x = Py_None" | t where "x = Py_Bytes t" by (auto simp: plain_result_def)
    then show ?case
    proof cases
      case 1
      then show ?thesis using 2(1,2) s(1) by (auto simp: ended_with_def)
    next
      case (2 t)
      then show ?thesis using \<open>py_good E plain_result _ u\<close> \<open>py_refs u = (py_refs w)(a := None)\<close> s(1)
        by (auto simp: ended_with_def intro!: exI [of _ "[(''adapt_end'', Py_Sequence [st], Inr (Py_Bytes t))]"])
    qed
  qed
qed

section \<open>The invariants\<close>

definition vb_phase_of :: "OperationState \<Rightarrow> vb_phase" where
  "vb_phase_of s = (case s of opOn \<Rightarrow> Vb_Flowing | opComplete \<Rightarrow> Vb_Stopped | _ \<Rightarrow> Vb_Unasked)"

definition in_phase :: "xaction \<Rightarrow> bool" where
  "in_phase x \<longleftrightarrow> receivingVb x \<noteq> opUndecided \<and> (\<exists>a. host_sees_all (xa_calls x) (Vb_Unasked, Ab_Open) = Some (vb_phase_of (receivingVb x), a) \<and>
     (sendingAb x = opComplete \<or> a = Ab_Open))"

definition python_ready :: "(nat \<Rightarrow> bool) \<Rightarrow> py_log \<Rightarrow> xaction \<Rightarrow> bool" where
  "python_ready E L x \<longleftrightarrow> py_good E plain_result L (xa_python x) \<and> live (xa_python x) (pyModule (xa_service x)) \<and>
     (internal x \<noteq> None \<longrightarrow> live (xa_python x) (internal x) \<and> internal x \<noteq> pyModule (xa_service x))"

text \<open>Results whose states, exceptions included, satisfy a condition.\<close>

lemma and_next_run [simp]:
  "py_run E (and_next m f) P = py_run E m (\<lambda>(r, x). case r of Inl msg \<Rightarrow> P (Inl msg, x) | Inr v \<Rightarrow> py_run E (f v x) P)"
proof -
  have "py_run E (and_next m f) P = py_run E m (\<lambda>y. py_run E (case y of (r, x) \<Rightarrow> case r of Inl msg \<Rightarrow> Inr (Inl msg, x) | Inr v \<Rightarrow> f v x) P)"
    by (simp add: and_next_def)
  also have "... = py_run E m (\<lambda>(r, x). case r of Inl msg \<Rightarrow> P (Inl msg, x) | Inr v \<Rightarrow> py_run E (f v x) P)"
    by (rule arg_cong [where f = "py_run E m"]) (auto split: sum.splits)
  finally show ?thesis .
qed

lemma Must_run [simp]: "py_run E (Must c x) P = P (if c then Inr () else Inl ''Must'', x)"
  by (simp add: Must_def)

lemma to_host_run: "hostx x \<Longrightarrow> py_run E (to_host c x) P = P (Inr (), x\<lparr>xa_calls := xa_calls x @ [c]\<rparr>)"
  by (simp add: to_host_def)

lemma stopVb_run:
  "hostx x \<Longrightarrow> receivingVb x \<noteq> opUndecided \<Longrightarrow>
    py_run E (stopVb x) P = (if receivingVb x = opOn then P (Inr (), x\<lparr>xa_calls := xa_calls x @ [VbStopMaking], receivingVb := opComplete\<rparr>)
      else P (Inr (), x))"
  by (simp add: stopVb_def to_host_run)

lemmas phase_simps = in_phase_def vb_phase_of_def host_sees_append

lemma in_phase_fields [simp]:
  "in_phase (x\<lparr>internal := i\<rparr>) = in_phase x" "in_phase (x\<lparr>ab_buffer := b\<rparr>) = in_phase x" "in_phase (x\<lparr>xa_python := w\<rparr>) = in_phase x"
  "in_phase (x\<lparr>hostx := h\<rparr>) = in_phase x"
  by (simp_all add: in_phase_def)

lemma python_ready_fields [simp]:
  "python_ready E L (x\<lparr>ab_buffer := b\<rparr>) = python_ready E L x" "python_ready E L (x\<lparr>xa_calls := c\<rparr>) = python_ready E L x"
  "python_ready E L (x\<lparr>receivingVb := s\<rparr>) = python_ready E L x" "python_ready E L (x\<lparr>sendingAb := s\<rparr>) = python_ready E L x"
  by (simp_all add: python_ready_def)

lemma live_not: "internal x \<noteq> None \<Longrightarrow> live w (internal x) \<Longrightarrow> \<exists>a st. internal x = Some a \<and> py_refs w a = Some st"
  by (auto simp: live_def split: option.splits)

text \<open>What the two services do to a transaction that is ready.\<close>

lemma ready_state: "python_ready E L x \<Longrightarrow> \<exists>a st. internal x = None \<or> (internal x = Some a \<and> py_refs (xa_python x) a = Some st)"
  using live_not [of x "xa_python x"] by (cases "internal x") (auto simp: python_ready_def)

lemma ready_body_run:
  assumes "python_ready E L x" and "\<And>out u X. python_ready E (L @ X) (x\<lparr>xa_python := u\<rparr>) \<Longrightarrow> P (out, u)"
  shows "py_run E (adaptBody (xa_service x) (internal x) vb out (xa_python x)) P"
proof -
  obtain a st where i: "internal x = None \<or> (internal x = Some a \<and> py_refs (xa_python x) a = Some st)"
    using ready_state [OF assms(1)] by blast
  have r: "py_good E plain_result L (xa_python x)" "live (xa_python x) (pyModule (xa_service x))"
    using assms(1) by (auto simp: python_ready_def)
  show ?thesis
  proof (rule py_run_mono [OF adaptBody_run [OF r i]], goal_cases)
    case (1 y)
    obtain out' u where y: "y = (out', u)" by fastforce
    with 1 obtain X where X: "py_good E plain_result (L @ X) u" "py_refs u = py_refs (xa_python x)" by auto
    show ?case
      unfolding y by (rule assms(2) [of X]) (use X assms(1) live_same [OF X(2)] in \<open>simp add: python_ready_def\<close>)
  qed
qed

lemma ready_end_run:
  assumes "python_ready E L x" and "\<And>i out u X. python_ready E (L @ X) (x\<lparr>internal := i, xa_python := u\<rparr>) \<Longrightarrow> P (i, out, u)"
  shows "py_run E (adaptEnd (xa_service x) (internal x) out (xa_python x)) P"
proof -
  obtain a st where i: "internal x = None \<or> (internal x = Some a \<and> py_refs (xa_python x) a = Some st)"
    using ready_state [OF assms(1)] by blast
  have r: "py_good E plain_result L (xa_python x)" "live (xa_python x) (pyModule (xa_service x))"
    "internal x \<noteq> None \<Longrightarrow> live (xa_python x) (internal x) \<and> internal x \<noteq> pyModule (xa_service x)"
    using assms(1) by (auto simp: python_ready_def)
  show ?thesis
  proof (rule py_run_mono [OF adaptEnd_run [OF r(1,2) i]], goal_cases)
    case (1 y)
    obtain i' out' u where y: "y = (i', out', u)" by (cases y) auto
    with 1 obtain X where X: "py_good E plain_result (L @ X) u"
      and c: "i' = internal x \<and> py_refs u = py_refs (xa_python x) \<or>
        i' = None \<and> internal x = Some a \<and> py_refs u = (py_refs (xa_python x))(a := None)"
      by auto
    have "live u (pyModule (xa_service x))" "i' \<noteq> None \<Longrightarrow> live u i' \<and> i' \<noteq> pyModule (xa_service x)"
      using c r(2,3) by (auto simp: live_def split: option.splits)
    with X show ?case unfolding y by (intro assms(2) [of X]) (simp add: python_ready_def)
  qed
qed

definition stays_fit :: "(nat \<Rightarrow> bool) \<Rightarrow> py_log \<Rightarrow> 'a \<times> xaction \<Rightarrow> bool" where
  "stays_fit E L = (\<lambda>(r, z). in_phase z \<and> (\<exists>X. python_ready E (L @ X) z))"

lemma stays_fitI: "in_phase z \<Longrightarrow> python_ready E (L @ X) z \<Longrightarrow> stays_fit E L (r, z)"
  by (auto simp: stays_fit_def)

lemma stays_fit_here: "in_phase z \<Longrightarrow> python_ready E L z \<Longrightarrow> stays_fit E L (r, z)"
  using stays_fitI [of z E L "[]"] by simp

lemma stopVb_fit: "hostx x \<Longrightarrow> in_phase x \<Longrightarrow> python_ready E (L @ X) x \<Longrightarrow> py_run E (stopVb x) (stays_fit E L)"
  by (subst stopVb_run) (auto simp: phase_simps intro!: stays_fitI [of _ E L X])

lemma event_fit:
  assumes h: "hostx x" and p: "in_phase x" and r: "python_ready E L x"
  shows "py_run E (handle_event vb e x) (stays_fit E L)"
proof (cases e)
  case Ab_Discard
  have "in_phase (x\<lparr>sendingAb := opNever\<rparr>)" if "sendingAb x = opUndecided" using p that by (auto simp: phase_simps)
  then show ?thesis
    using h p r stopVb_fit [of "x\<lparr>sendingAb := opNever\<rparr>" E L "[]"] by (auto simp: Ab_Discard handle_event_def abDiscard_def intro!: stays_fit_here)
next
  case Ab_Make
  then show ?thesis
    using h p r by (auto simp: handle_event_def abMake_def to_host_run Let_def phase_simps intro!: stays_fit_here)
next
  case Ab_Make_More
  then show ?thesis
    using h p r by (auto simp: handle_event_def abMakeMore_def to_host_run phase_simps intro!: stays_fit_here)
next
  case Ab_Stop_Making
  have "in_phase (x\<lparr>sendingAb := opComplete\<rparr>)" using p by (auto simp: phase_simps)
  then show ?thesis
    using h r stopVb_fit [of "x\<lparr>sendingAb := opComplete\<rparr>" E L "[]"] by (simp add: Ab_Stop_Making handle_event_def abStopMaking_def)
next
  case (Ab_Content k n)
  then show ?thesis
    using p r by (auto simp: handle_event_def abContent_def intro!: stays_fit_here)
next
  case (Ab_Shift n)
  then show ?thesis
    using p r by (auto simp: handle_event_def abContentShift_def intro!: stays_fit_here)
next
  case (Vb_Done at_end)
  show ?thesis
  proof (cases "receivingVb x = opOn \<and> sendingAb x = opOn")
    case False
    then show ?thesis
      using h p r stopVb_fit [of x E L "[]"] by (auto simp: Vb_Done handle_event_def noteVbContentDone_def intro!: stays_fit_here)
  next
    case True
    have "py_run E (adaptEnd (xa_service x) (internal x) (ab_buffer x) (xa_python x)) (\<lambda>(i, out, u).
        py_run E (stopVb (x\<lparr>internal := i, ab_buffer := out, xa_python := u, xa_calls := xa_calls x @ [NoteAbContentDone at_end],
          sendingAb := opComplete\<rparr>)) (stays_fit E L))"
    proof (rule ready_end_run [OF r], goal_cases)
      case (1 i out u X)
      then show ?case
        unfolding prod.case using h p True
        by (intro stopVb_fit [of _ E L X]) (auto simp: phase_simps python_ready_def)
    qed
    then show ?thesis
      using True h by (auto simp: Vb_Done handle_event_def noteVbContentDone_def notifyAdaptContent_def to_host_run elim!: py_run_mono)
  qed
next
  case (Vb_Available piece)
  show ?thesis
  proof (cases "receivingVb x = opOn")
    case False
    then show ?thesis using p r by (auto simp: Vb_Available handle_event_def noteVbContentAvailable_def intro!: stays_fit_here)
  next
    case True
    have "py_run E (adaptBody (xa_service x) (internal x) piece (ab_buffer x) (xa_python x)) (\<lambda>(out, u).
        py_run E (notifyAdaptContent False False (x\<lparr>
          ab_buffer := out, xa_python := u, xa_calls := xa_calls x @ [VbContent, VbContentShift (length piece)]\<rparr>)) (stays_fit E L))"
    proof (rule ready_body_run [OF r], goal_cases)
      case (1 out u X)
      then show ?case using h p True
        by (auto simp: notifyAdaptContent_def to_host_run phase_simps python_ready_def intro!: stays_fitI [of _ E L X])
    qed
    then show ?thesis
      using True h by (auto simp: Vb_Available handle_event_def noteVbContentAvailable_def to_host_run elim!: py_run_mono)
  qed
qed

section \<open>The start\<close>

definition all_closed :: "header_field list \<Rightarrow> bool" where
  "all_closed fs \<longleftrightarrow> (\<forall>(n, v, b) \<in> set fs. NUL \<in> set (v @ b))"

lemma visit_stateless_run:
  assumes "py_good E header_result L w" and "all_closed fs"
  shows "py_run E (visitEach sv None fs (maps, w)) (\<lambda>(maps', u). py_good E header_result L u \<and> py_refs u = py_refs w)"
  using assms
proof (induction fs arbitrary: maps w)
  case (Cons f fs)
  obtain n v b where f: "f = (n, v, b)" by (cases f) auto
  have "py_good E header_result L (w\<lparr>py_err := No_Error\<rparr>)" "all_closed fs" using Cons.prems by (auto simp: py_good_def all_closed_def)
  from Cons.IH [OF this, of "note_field n None (cstr_of (v @ b)) maps"] show ?case
    using Cons.prems(2)
    by (auto simp: f visit_def adaptHeader_def pyin_adapt_header_def build_without report_error all_closed_def)
qed simp

text \<open>A transaction after its start: it may own one new reference, the state of its Python code.\<close>

definition started :: "(nat \<Rightarrow> bool) \<Rightarrow> py_log \<Rightarrow> ecap_service \<Rightarrow> py_world \<Rightarrow> xaction \<Rightarrow> bool" where
  "started E L sv w x \<longleftrightarrow> in_phase x \<and> py_good E header_result L (xa_python x) \<and> xa_service x = sv \<and> ab_buffer x = [] \<and>
     (sendingAb x = opUndecided \<or> sendingAb x = opNever) \<and>
     (internal x = None \<and> py_refs (xa_python x) = py_refs w \<or> gains w (internal x) (\<lambda>_. True) (xa_python x))"

lemma started_live: "started E L sv w x \<Longrightarrow> live w m \<Longrightarrow> live (xa_python x) m"
  by (auto simp: started_def gains_def live_def split: option.splits)

lemma started_ready:
  assumes "started E L sv w x" "live w (pyModule sv)" "sound_python plain_result (xa_python x)"
    and "\<And>n. python_exits (xa_python x) n \<Longrightarrow> E' n"
  shows "python_ready E' (py_log (xa_python x)) x"
  using assms sound_python_good [OF assms(3,4)]
  by (auto simp: started_def python_ready_def gains_def live_def split: option.splits)

lemma start_run:
  assumes w: "py_good E header_result L w" and m: "live w (pyModule sv)" and c: "pyController sv = Some k" "py_refs w k = Some pc"
    and closed: "all_closed (vm_fields msg)"
  shows "py_run E (xaction_start msg same uri (new_xaction sv w)) (\<lambda>(r, x). \<exists>X. started E (L @ X) sv w x)"
proof -
  obtain x1 where x1: "x1 = new_xaction sv w" by simp
  let ?go = "\<lambda>x. and_next (Must (vm_clone msg) x) (\<lambda>_ x.
    and_then (visitEach (xa_service x) (internal x) (vm_fields msg) (([], []), xa_python x)) (\<lambda>(maps, w).
      (let hdr = applyChanges same (fst maps) (map (\<lambda>(n, v, b). (n, v)) (vm_fields msg)) @ [(''X-Ecap'', uri)];
           x = x\<lparr>xa_python := w\<rparr>
       in if \<not> vm_clone_body msg then lastHostCall (UseAdapted hdr) (x\<lparr>sendingAb := opNever\<rparr>)
          else to_host (UseAdapted hdr) x)))"
  have go: "py_run E (?go x) (\<lambda>(r, x). \<exists>X. started E (L @ X) sv w x)"
    if s: "started E (L @ X) sv w x" and h: "hostx x" for x X
  proof (cases "vm_clone msg")
    case False
    then show ?thesis using s by auto
  next
    case True
    have s': "py_good E header_result (L @ X) (xa_python x)" "xa_service x = sv" using s by (simp_all add: started_def)
    have mx: "live (xa_python x) (pyModule sv)" by (rule started_live [OF s m])
    have v: "py_run E (visitEach sv (internal x) (vm_fields msg) (([], []), xa_python x))
      (\<lambda>(maps', u). \<exists>Y. py_good E header_result (L @ Y) u \<and> py_refs u = py_refs (xa_python x))"
    proof (cases "internal x")
      case None
      show ?thesis unfolding None by (rule py_run_mono [OF visit_stateless_run [OF s'(1) closed]]) auto
    next
      case (Some a)
      then obtain st where st: "py_refs (xa_python x) a = Some st" using s by (auto simp: started_def gains_def)
      show ?thesis unfolding Some
        using closed by (intro py_run_mono [OF visitEach_run [OF s'(1) mx st]]) (auto simp: all_closed_def)
    qed
    show ?thesis
      unfolding and_next_run Must_run if_P [OF True] prod.case sum.case py_run_simps(4) s'(2)
    proof (rule py_run_mono [OF v], goal_cases)
      case (1 y)
      then obtain m u Y where y: "y = (m, u)" and u: "py_good E header_result (L @ Y) u" "py_refs u = py_refs (xa_python x)"
        by (cases y) auto
      have "started E (L @ Y) sv w (x\<lparr>xa_python := u, xa_calls := xa_calls x @ [UseAdapted hdr]\<rparr>)"
        "started E (L @ Y) sv w (x\<lparr>xa_python := u, sendingAb := opNever, hostx := False, xa_calls := xa_calls x @ [UseAdapted hdr]\<rparr>)" for hdr
        using s u by (auto simp: started_def phase_simps dest: gains_same)
      then show ?case
        using h by (auto simp: y Let_def lastHostCall_def to_host_run)
    qed
  qed
  let ?x = "\<lambda>i u. if vm_body msg then x1\<lparr>internal := i, xa_python := u, receivingVb := opOn, xa_calls := [VbMake]\<rparr>
    else x1\<lparr>internal := i, xa_python := u, receivingVb := opNever\<rparr>"
  have further: "py_run E (?go (?x i u)) (\<lambda>(r, x). \<exists>X. started E (L @ X) sv w x)"
    if "py_good E header_result (L @ X) u" "i = None \<and> py_refs u = py_refs w \<or> gains w i (\<lambda>_. True) u" for X i u
    using that by (intro go [of X]) (auto simp: started_def phase_simps x1 new_xaction_def)
  have at: "live w (at_module (adapt_text_of sv None []))" using m by simp
  have "py_run E (adaptBegin sv None w) (\<lambda>(i, u). py_run E (?go (?x i u)) (\<lambda>(r, x). \<exists>X. started E (L @ X) sv w x))"
    unfolding adaptBegin_def py_run_simps(4) c(1)
  proof (rule begin_run [OF w at c(2)], goal_cases)
    case (1 r v X)
    then show ?case using further [of X v None] by simp
  next
    case (2 v a st X)
    have "gains w (Some a) (\<lambda>_. True) v" using 2(2) by (auto simp: gains_def)
    from further [OF 2(1) disjI2 [OF this]] show ?case by (simp del: and_next_run)
  qed
  then show ?thesis
    by (auto simp: xaction_start_def x1 new_xaction_def to_host_def elim!: py_run_mono split: if_splits)
qed

section \<open>All states\<close>

lemma reaches_fit:
  "xaction_reaches vb x y \<Longrightarrow> in_phase x \<Longrightarrow> python_ready E L x \<Longrightarrow> in_phase y \<and> (\<exists>X. python_ready E (L @ X) y)"
proof (induction rule: xaction_reaches.induct)
  case xaction_here
  then show ?case by (auto intro!: exI [of _ "[]"])
next
  case (xaction_more y e r z)
  then obtain X where "in_phase y" "python_ready E (L @ X) y" by blast
  from event_fit [OF xaction_more.hyps(2) this, of vb e] xaction_more.hyps(3) show ?case
    by (auto simp: stays_fit_def)
qed

text \<open>What came of the pieces so far; while more can come the state is still there.\<close>

definition relayed :: "nat option \<Rightarrow> py_value \<Rightarrow> string list \<Rightarrow> string \<Rightarrow> xaction \<Rightarrow> bool" where
  "relayed i st ps del x \<longleftrightarrow> (\<exists>outs fin. list_all2 (passed_on (py_log (xa_python x)) st) ps outs \<and>
     ended_with (py_log (xa_python x)) st fin \<and> del @ ab_buffer x = concat outs @ fin \<and>
     (receivingVb x = opOn \<longrightarrow> fin = [] \<and> internal x = i \<and> (\<forall>a. i = Some a \<longrightarrow> py_refs (xa_python x) a = Some st)))"

lemma relayed_same [simp]: "relayed i st ps del (x\<lparr>xa_calls := c\<rparr>) = relayed i st ps del x"
  "relayed i st ps del (x\<lparr>sendingAb := s\<rparr>) = relayed i st ps del x"
  by (simp_all add: relayed_def)

lemma relayed_stops: "relayed i st ps del x \<Longrightarrow> relayed i st ps del (x\<lparr>receivingVb := opComplete\<rparr>)"
  by (auto simp: relayed_def)

lemma relayed_shift: "relayed i st ps del x \<Longrightarrow> relayed i st ps (del @ take n (ab_buffer x)) (x\<lparr>ab_buffer := drop n (ab_buffer x)\<rparr>)"
  by (auto simp: relayed_def)

lemma passed_on_mono: "passed_on X st v out \<Longrightarrow> set X \<subseteq> set Y \<Longrightarrow> passed_on Y st v out"
  by (auto simp: passed_on_def)

lemma relayed_piece:
  assumes "relayed i st ps del x" "receivingVb x = opOn" "py_log (xa_python x) = L" "py_log u = L @ X" "py_refs u = py_refs (xa_python x)"
    and "passed_on X st vb piece"
  shows "relayed i st (ps @ [vb]) del (x\<lparr>ab_buffer := ab_buffer x @ piece, xa_python := u\<rparr>)"
proof -
  obtain outs where o: "list_all2 (passed_on L st) ps outs" "del @ ab_buffer x = concat outs" "internal x = i"
    "\<forall>a. i = Some a \<longrightarrow> py_refs (xa_python x) a = Some st"
    using assms(1-3) by (auto simp: relayed_def)
  have "list_all2 (passed_on (L @ X) st) ps outs" by (rule list_all2_mono [OF o(1)]) (auto intro: passed_on_mono)
  then have "list_all2 (passed_on (L @ X) st) (ps @ [vb]) (outs @ [piece])"
    using passed_on_mono [OF assms(6), of "L @ X"] by (simp add: list_all2_appendI)
  moreover have "del @ ab_buffer x @ piece = concat (outs @ [piece])" using o(2) by (metis append.assoc concat.simps concat_append append_Nil2)
  ultimately show ?thesis
    unfolding relayed_def using o(3,4) assms(4,5)
    by (intro exI [of _ "outs @ [piece]"] exI [of _ "[]"]) (simp add: ended_with_def)
qed

lemma relayed_end:
  assumes "relayed i st ps del x" "receivingVb x = opOn" "py_log (xa_python x) = L" "py_log u = L @ X" "ended_with X st piece"
  shows "relayed i st ps del (x\<lparr>internal := i', ab_buffer := ab_buffer x @ piece, xa_python := u, receivingVb := opComplete\<rparr>)"
proof -
  obtain outs where o: "list_all2 (passed_on L st) ps outs" "del @ ab_buffer x = concat outs"
    using assms(1-3) by (auto simp: relayed_def)
  have "list_all2 (passed_on (L @ X) st) ps outs" by (rule list_all2_mono [OF o(1)]) (auto intro: passed_on_mono)
  then show ?thesis
    unfolding relayed_def using o(2) assms(4,5)
    by (intro exI [of _ outs] exI [of _ piece]) (auto simp: ended_with_def simp flip: append_assoc)
qed

definition relays_on :: "nat option \<Rightarrow> py_value \<Rightarrow> string list \<Rightarrow> string \<Rightarrow> (string + unit) \<times> xaction \<Rightarrow> bool" where
  "relays_on i st ps del = (\<lambda>(r, z). \<forall>v. r = Inr v \<longrightarrow> relayed i st ps del z)"

lemma stopVb_relays: "hostx x \<Longrightarrow> receivingVb x \<noteq> opUndecided \<Longrightarrow> relayed i st ps del x \<Longrightarrow> py_run E (stopVb x) (relays_on i st ps del)"
  by (subst stopVb_run) (auto simp: relays_on_def intro: relayed_stops)

lemma event_relays:
  assumes h: "hostx x" and p: "receivingVb x \<noteq> opUndecided" and r: "python_ready E L x" and R: "relayed i st ps del x"
  shows "py_run E (handle_event vb e x) (relays_on i st (ps @ arrived e) (del @ taken e x))"
proof -
  obtain a0 where a0: "i = None \<or> i = Some a0" by (cases i) auto
  have good: "py_good E plain_result L (xa_python x)" "live (xa_python x) (pyModule (xa_service x))" and log: "py_log (xa_python x) = L"
    using r by (simp_all add: python_ready_def py_good_def)
  have state: "internal x = None \<or> internal x = Some a0 \<and> py_refs (xa_python x) a0 = Some st" if "receivingVb x = opOn"
    using R that a0 by (auto simp: relayed_def)
  show ?thesis
  proof (cases e)
    case Ab_Discard
    then show ?thesis
      using stopVb_relays [of "x\<lparr>sendingAb := opNever\<rparr>"] h p R by (auto simp: handle_event_def abDiscard_def relays_on_def)
  next
    case Ab_Make
    then show ?thesis
      using h R by (auto simp: handle_event_def abMake_def to_host_run Let_def relays_on_def)
  next
    case Ab_Make_More
    then show ?thesis
      using h R by (auto simp: handle_event_def abMakeMore_def to_host_run relays_on_def)
  next
    case Ab_Stop_Making
    then show ?thesis
      using stopVb_relays [of "x\<lparr>sendingAb := opComplete\<rparr>"] h p R by (simp add: handle_event_def abStopMaking_def)
  next
    case (Ab_Content k n)
    then show ?thesis
      using R by (auto simp: handle_event_def abContent_def relays_on_def)
  next
    case (Ab_Shift n)
    then show ?thesis
      using relayed_shift [OF R] by (auto simp: handle_event_def abContentShift_def relays_on_def)
  next
    case (Vb_Done at_end)
    show ?thesis
    proof (cases "receivingVb x = opOn \<and> sendingAb x = opOn")
      case False
      then show ?thesis
        using h p R stopVb_relays [of x] by (auto simp: Vb_Done handle_event_def noteVbContentDone_def relays_on_def)
    next
      case True
      have "py_run E (adaptEnd (xa_service x) (internal x) (ab_buffer x) (xa_python x)) (\<lambda>(j, out, u).
          py_run E (stopVb (x\<lparr>internal := j, ab_buffer := out, xa_python := u, xa_calls := xa_calls x @ [NoteAbContentDone at_end],
            sendingAb := opComplete\<rparr>)) (relays_on i st ps del))"
      proof (rule py_run_mono [OF adaptEnd_run [OF good state [OF conjunct1 [OF True]]]], goal_cases)
        case (1 y)
        obtain j out u where y: "y = (j, out, u)" by (cases y) auto
        with 1 obtain X piece where X: "py_log u = L @ X" "out = ab_buffer x @ piece" "ended_with X st piece"
          by (auto simp: py_good_def)
        from relayed_end [OF R conjunct1 [OF True] log X(1,3), of j] show ?case
          using True h unfolding y prod.case
          by (subst stopVb_run) (auto simp: relays_on_def X(2) relayed_def)
      qed
      then show ?thesis
        using True h by (auto simp: Vb_Done handle_event_def noteVbContentDone_def notifyAdaptContent_def to_host_run elim!: py_run_mono)
    qed
  next
    case (Vb_Available vb)
    show ?thesis
    proof (cases "receivingVb x = opOn")
      case False
      then show ?thesis by (auto simp: Vb_Available handle_event_def noteVbContentAvailable_def relays_on_def)
    next
      case True
      have "py_run E (adaptBody (xa_service x) (internal x) vb (ab_buffer x) (xa_python x)) (\<lambda>(out, u).
          py_run E (notifyAdaptContent False False (x\<lparr>ab_buffer := out, xa_python := u,
            xa_calls := xa_calls x @ [VbContent, VbContentShift (length vb)]\<rparr>)) (relays_on i st (ps @ [vb]) del))"
      proof (rule py_run_mono [OF adaptBody_run [OF good state [OF True]]], goal_cases)
        case (1 y)
        obtain out u where y: "y = (out, u)" by fastforce
        with 1 obtain X piece where X: "py_log u = L @ X" "py_refs u = py_refs (xa_python x)" "passed_on X st vb piece"
          and out: "out = ab_buffer x @ piece"
          by (auto simp: py_good_def)
        from relayed_piece [OF R True log X] show ?case
          using h by (auto simp: y notifyAdaptContent_def to_host_run relays_on_def out)
      qed
      then show ?thesis
        using True h by (auto simp: Vb_Available handle_event_def noteVbContentAvailable_def to_host_run elim!: py_run_mono)
    qed
  qed
qed

lemma relays_fit:
  "relays vb x ps del y \<Longrightarrow> in_phase x \<Longrightarrow> python_ready E L x \<Longrightarrow> relayed i st [] [] x \<Longrightarrow>
    in_phase y \<and> (\<exists>X. python_ready E (L @ X) y) \<and> relayed i st ps del y"
proof (induction rule: relays.induct)
  case relays_nothing
  then show ?case by (auto intro!: exI [of _ "[]"])
next
  case (relays_more ps del y e z)
  then obtain X where y: "in_phase y" "python_ready E (L @ X) y" "relayed i st ps del y" by blast
  have p: "receivingVb y \<noteq> opUndecided" using y(1) by (simp add: in_phase_def)
  from event_fit [OF relays_more.hyps(2) y(1,2), of vb e] event_relays [OF relays_more.hyps(2) p y(2,3), of vb e] relays_more.hyps(3)
  show ?case by (auto simp: stays_fit_def relays_on_def)
qed

section \<open>A body that ends before it was asked for\<close>

text \<open>When the virgin body was stopped, no event releases the Python state or announces the end of the adapted
  body; a body that is done before the host calls \<^verbatim>\<open>abMake\<close> is stopped without either.\<close>

lemma event_after_stop:
  "receivingVb x = opComplete \<Longrightarrow> handle_event vb e x = Inr (r, z) \<Longrightarrow>
    receivingVb z = opComplete \<and> internal z = internal x \<and> (NoteAbContentDone b \<in> set (xa_calls z) \<longleftrightarrow> NoteAbContentDone b \<in> set (xa_calls x))"
  by (cases e) (auto simp: handle_event_def abDiscard_def abMake_def abMakeMore_def abStopMaking_def abContent_def abContentShift_def
      noteVbContentDone_def noteVbContentAvailable_def stopVb_def Must_def to_host_def Let_def split: if_splits)

lemma done_before_make:
  assumes "hostx x" "receivingVb x = opOn" "sendingAb x = opUndecided" "NoteAbContentDone b \<notin> set (xa_calls x)"
    and "noteVbContentDone at_end x = Inr (Inr (), y)" "xaction_reaches vb y z"
  shows "internal z = internal x \<and> NoteAbContentDone b \<notin> set (xa_calls z)"
proof -
  have "receivingVb y = opComplete \<and> internal y = internal x \<and> NoteAbContentDone b \<notin> set (xa_calls y)"
    using assms(1-5) by (auto simp: noteVbContentDone_def stopVb_def to_host_def Must_def)
  with assms(6) have "receivingVb z = opComplete \<and> internal z = internal x \<and> NoteAbContentDone b \<notin> set (xa_calls z)"
  proof (induction rule: xaction_reaches.induct)
    case (xaction_more y' e r z)
    then show ?case using event_after_stop [of y' vb e r z b] by simp
  qed
  then show ?thesis by simp
qed

section \<open>Properties\<close>


definition state_of :: "xaction \<Rightarrow> py_value" where
  "state_of x = (case internal x of None \<Rightarrow> Py_None | Some a \<Rightarrow> the (py_refs (xa_python x) a))"

text \<open>C21: the adapted body is the virgin body, adapted piece by piece.  In every state after a start, without
  exceptions, what the host took and what is still in the buffer is one text: for every piece of the virgin
  body in its order the piece itself or what \<^verbatim>\<open>adapt_body\<close> answered for it, and at the end, when all was
  received, what \<^verbatim>\<open>adapt_end\<close> answered.  Nothing is lost, doubled or reordered.\<close>

theorem body_relayed:
  assumes sound: "sound_python header_result w" and m: "live w (pyModule sv)" and c: "pyController sv = Some k" "py_refs w k = Some pc"
    and closed: "all_closed (vm_fields msg)"
  shows "py_run (python_exits w) (xaction_start msg same uri (new_xaction sv w)) (\<lambda>(r, x0). sound_python plain_result (xa_python x0) \<longrightarrow>
    (\<forall>ps del x. relays (vm_body msg) x0 ps del x \<longrightarrow> (\<exists>outs fin. list_all2 (passed_on (py_log (xa_python x)) (state_of x0)) ps outs \<and>
      ended_with (py_log (xa_python x)) (state_of x0) fin \<and> (receivingVb x = opOn \<longrightarrow> fin = []) \<and> del @ ab_buffer x = concat outs @ fin)))"
proof (rule py_run_mono [OF start_run [OF sound_python_good [OF sound] m c closed]], assumption, clarify, goal_cases)
  case (1 r x0 X ps del x)
  have s: "in_phase x0" "python_ready (python_exits (xa_python x0)) (py_log (xa_python x0)) x0"
    using started_ready [OF 1(1) m 1(2)] 1(1) by (auto simp: started_def)
  have "relayed (internal x0) (state_of x0) [] [] x0"
    using 1(1) by (auto simp: started_def relayed_def ended_with_def state_of_def gains_def)
  from relays_fit [OF 1(3) s this] show ?case by (auto simp: relayed_def)
qed

fun handle_all :: "bool \<Rightarrow> host_event list \<Rightarrow> xaction \<Rightarrow> string \<Rightarrow> string xaction_result" where
  "handle_all vb [] x del = Inr (Inr del, x)"
| "handle_all vb (e # es) x del =
    (if hostx x then and_next (handle_event vb e x) (\<lambda>_ y. handle_all vb es y (del @ taken e x)) else Inl Crashes)"

lemma handle_all_relays:
  "handle_all vb es y del = Inr (Inr del', z) \<Longrightarrow> relays vb x ps del y \<Longrightarrow> relays vb x (ps @ concat (map arrived es)) del' z"
proof (induction es arbitrary: y del ps)
  case (Cons e es)
  then obtain y' where y': "hostx y" "handle_event vb e y = Inr (Inr (), y')" "handle_all vb es y' (del @ taken e y) = Inr (Inr del', z)"
    by (auto simp: and_next_Inr split: if_splits)
  from Cons.IH [OF y'(3) relays_more [OF Cons.prems(2) y'(1,2)]] show ?case by simp
qed simp

text \<open>A request with a body of two pieces; the Python code answers the second and the end.\<close>

definition python_body :: py_world where
  "python_body = python_ab\<lparr>py_calls := [Inr Py_None, Inr Py_None, Inr (Py_Bytes ''new''), Inr (Py_Bytes ''!'')]\<rparr>"

definition message_ab :: virgin_message where
  "message_ab = \<lparr>vm_body = True, vm_fields = [], vm_clone = True, vm_clone_body = True\<rparr>"

lemma python_body_ready:
  "sound_python header_result python_body" "live python_body (pyModule service_ab)" "pyController service_ab = Some 1"
  "py_refs python_body 1 = Some (Py_Other (Some True))" "all_closed (vm_fields message_ab)" "vm_body message_ab"
  by (auto simp: sound_python_def python_body_def python_ab_def header_result_def plain_result_def live_def service_ab_def
      all_closed_def message_ab_def)

lemmas run_xaction = xaction_start_def new_xaction_def adaptBegin_def adaptBody_def adaptEnd_def adapt_text_of_def to_host_def
  service_ab_def HttpReplyService_def message_ab_def python_body_def python_ab_def pyin_adapt_begin_def pyin_adapt_body_def
  pyin_adapt_end_def py_build_with_def py_build_def new_ref_def pyin_call_internal_def callable_of_def py_getattr_def
  py_object_call_def Py_CLEAR_def py_parse_object_def get_bytes_from_python_def applyChanges_def Let_def
  Must_def handle_event_def abMake_def abContentShift_def noteVbContentAvailable_def noteVbContentDone_def notifyAdaptContent_def
  stopVb_def sound_python_def plain_result_def

definition xaction_ab :: xaction where
  "xaction_ab = (case xaction_start message_ab (=) ''ecap://h'' (new_xaction service_ab python_body) of
    Inr (_, x) \<Rightarrow> x | _ \<Rightarrow> new_xaction service_ab python_body)"

lemma xaction_ab_starts:
  "xaction_start message_ab (=) ''ecap://h'' (new_xaction service_ab python_body) = Inr (Inr (), xaction_ab)"
  by (simp add: xaction_ab_def run_xaction)

lemma xaction_ab_sound: "sound_python plain_result (xa_python xaction_ab)"
  by (auto simp: xaction_ab_def run_xaction)

definition events_ab :: "host_event list" where
  "events_ab = [Vb_Available ''one'', Ab_Make, Ab_Shift 2, Vb_Available ''two'', Vb_Done True]"

lemma events_ab_handled:
  "\<exists>x. handle_all True events_ab xaction_ab [] = Inr (Inr ''on'', x) \<and> ab_buffer x = ''enew!'' \<and> hostx x \<and>
    xa_calls x = [VbMake, UseAdapted [(''X-Ecap'', ''ecap://h'')], VbContent, VbContentShift 3, NoteAbContentAvailable, VbContent,
      VbContentShift 3, NoteAbContentAvailable, NoteAbContentDone True, VbStopMaking]"
  by (simp add: events_ab_def xaction_ab_def run_xaction)

lemma relays_reaches: "relays vb x ps del y \<Longrightarrow> xaction_reaches vb x y"
  by (induction rule: relays.induct) (auto intro: xaction_reaches.intros)

lemma events_ab_relayed:
  "\<exists>x. handle_all True events_ab xaction_ab [] = Inr (Inr ''on'', x) \<and> relays True xaction_ab [''one'', ''two''] ''on'' x \<and>
    ab_buffer x = ''enew!'' \<and> hostx x"
proof -
  obtain x where x: "handle_all True events_ab xaction_ab [] = Inr (Inr ''on'', x)" "ab_buffer x = ''enew!''" "hostx x"
    using events_ab_handled by blast
  from handle_all_relays [OF x(1) relays_nothing] x show ?thesis by (auto simp: events_ab_def)
qed


lemma body_relayed_witness:
  "\<exists>x outs fin. relays True xaction_ab [''one'', ''two''] ''on'' x \<and>
    list_all2 (passed_on (py_log (xa_python x)) (state_of xaction_ab)) [''one'', ''two''] outs \<and> ''on'' @ ''enew!'' = concat outs @ fin"
proof -
  obtain x where x: "relays True xaction_ab [''one'', ''two''] ''on'' x" "ab_buffer x = ''enew!''"
    using events_ab_relayed by blast
  note h = body_relayed [OF python_body_ready(1-5), of "(=)" "''ecap://h''", unfolded xaction_ab_starts py_run_simps prod.case]
  from h xaction_ab_sound x python_body_ready(6) show ?thesis by metis
qed

end
